(* ===== verification/Prelude.thy ===== *)
theory Prelude
  imports Main "HOL-Library.Word"
begin

unbundle bit_operations_syntax

text \<open>
  Shared vocabulary of the development: the machine types of \<^verbatim>\<open>types.h\<close>, the outcome of a
  kernel routine (it returns, it sleeps, it panics, or it leaves the objects C gives it), the
  sequencing combinators the component theories are written with, table search, and the generic
  lemmas on lists and words the components share.
\<close>

section \<open>Machine types\<close>

type_synonym uint = "32 word"
type_synonym ushort = "16 word"
type_synonym uchar = "8 word"

text \<open>The generic collections: facts that run a routine of the model on a state, and facts
  that say what a routine leaves alone.\<close>

named_theorems krun "equations that execute a kernel routine on a state"
named_theorems kframe "facts on what a kernel routine leaves unchanged"

text \<open>\<^verbatim>\<open>++\<close> on a variable of type \<^verbatim>\<open>int\<close>, kept as the integer it stands for: the largest value is followed by
  the smallest one. The id counters of processes, threads and mutexes are such variables.\<close>

definition inc32 :: "int \<Rightarrow> int" where
  "inc32 x = (x + 1 + 2147483648) mod 4294967296 - 2147483648"

lemma inc32_range: "- 2147483648 \<le> inc32 x" "inc32 x < 2147483648"
  by (simp_all add: inc32_def)

lemma inc32_small [simp]: "0 \<le> x \<Longrightarrow> x < 2147483647 \<Longrightarrow> inc32 x = x + 1"
  by (simp add: inc32_def)

lemma inc32_wraps: "inc32 2147483647 = - 2147483648"
  by (simp add: inc32_def)

section \<open>Sleep channels and lock identities\<close>

text \<open>
  A sleep channel is the address of a kernel object and a spinlock is named by the object that
  holds it. Addresses of different objects differ, so each kind of object has its constructor and
  entries of a table are told apart by their index.
\<close>

datatype chan =
    Ch_proc nat            \<comment> \<open>\<^verbatim>\<open>&ptable.proc[i]\<close>\<close>
  | Ch_thread nat nat      \<comment> \<open>\<^verbatim>\<open>&ptable.proc[i].pthreads[j]\<close>\<close>
  | Ch_mutex nat           \<comment> \<open>\<^verbatim>\<open>&mxtable.mutex[i]\<close>\<close>
  | Ch_nread uint          \<comment> \<open>\<^verbatim>\<open>&p->nread\<close> of the pipe at this address\<close>
  | Ch_nwrite uint         \<comment> \<open>\<^verbatim>\<open>&p->nwrite\<close>\<close>
  | Ch_buf nat             \<comment> \<open>\<^verbatim>\<open>&bcache.buf[i]\<close>\<close>
  | Ch_inode nat           \<comment> \<open>\<^verbatim>\<open>&icache.inode[i]\<close>\<close>
  | Ch_log                 \<comment> \<open>\<^verbatim>\<open>&log\<close>\<close>
  | Ch_ticks               \<comment> \<open>\<^verbatim>\<open>&ticks\<close>\<close>
  | Ch_input               \<comment> \<open>\<^verbatim>\<open>&input.r\<close>\<close>
  | Ch_cpu                 \<comment> \<open>no channel: switched out by \<^verbatim>\<open>yield\<close> or at its end\<close>

datatype lockid =
    L_ptable | L_proc nat | L_kmem | L_pgcount | L_mxtable | L_ftable | L_pipe uint
  | L_icache | L_bcache | L_log | L_ide | L_cons | L_ticks

section \<open>Outcomes of a kernel routine\<close>

text \<open>
  \<^item> \<open>Done a s\<close>: the routine returns \<open>a\<close> in state \<open>s\<close>;
  \<^item> \<open>Block c s\<close>: the calling thread went to sleep on channel \<open>c\<close>; \<open>s\<close> is the state at the
    switch to the scheduler;
  \<^item> \<open>Panic m\<close>: the routine called \<^verbatim>\<open>panic(m)\<close>, the machine stops;
  \<^item> \<open>Fault m\<close>: the routine dereferences a null pointer or an element outside an array.
\<close>

datatype ('a, 's) outcome = Done 'a 's | Block chan 's | Panic string | Fault string

definition kret :: "'a \<Rightarrow> 's \<Rightarrow> ('a, 's) outcome" where
  "kret a s = Done a s"

definition kpanic :: "string \<Rightarrow> 's \<Rightarrow> ('a, 's) outcome" where
  "kpanic m s = Panic m"

definition kfault :: "string \<Rightarrow> 's \<Rightarrow> ('a, 's) outcome" where
  "kfault m s = Fault m"

definition kget :: "('s \<Rightarrow> 'a) \<Rightarrow> 's \<Rightarrow> ('a, 's) outcome" where
  "kget f s = Done (f s) s"

definition kmod :: "('s \<Rightarrow> 's) \<Rightarrow> 's \<Rightarrow> (unit, 's) outcome" where
  "kmod f s = Done () (f s)"

definition kbind :: "('s \<Rightarrow> ('a, 's) outcome) \<Rightarrow> ('a \<Rightarrow> 's \<Rightarrow> ('b, 's) outcome) \<Rightarrow> 's \<Rightarrow> ('b, 's) outcome" where
  "kbind m f s = (case m s of Done a t \<Rightarrow> f a t | Block c t \<Rightarrow> Block c t | Panic e \<Rightarrow> Panic e | Fault e \<Rightarrow> Fault e)"

definition kseq :: "('s \<Rightarrow> ('a, 's) outcome) \<Rightarrow> ('s \<Rightarrow> ('b, 's) outcome) \<Rightarrow> 's \<Rightarrow> ('b, 's) outcome" where
  "kseq m f = kbind m (\<lambda>_. f)"

definition kwhen :: "bool \<Rightarrow> ('s \<Rightarrow> (unit, 's) outcome) \<Rightarrow> 's \<Rightarrow> (unit, 's) outcome" where
  "kwhen b m = (if b then m else kret ())"

text \<open>A C \<^verbatim>\<open>for\<close> loop over the entries of a list runs its body on each in turn.\<close>

fun kforeach :: "('b \<Rightarrow> 's \<Rightarrow> (unit, 's) outcome) \<Rightarrow> 'b list \<Rightarrow> 's \<Rightarrow> (unit, 's) outcome" where
  "kforeach f [] = kret ()"
| "kforeach f (x # xs) = kseq (f x) (kforeach f xs)"

text \<open>
  A C loop whose control variable is not a list: the body either goes on with the next value of the
  loop variables (\<open>Inl\<close>) or leaves the loop with a result (\<open>Inr\<close>). The first argument bounds the number
  of iterations; running out of it is the outcome \<open>Fault ''loop''\<close>. Each use gives
  a bound that the C loop cannot exceed, computed from the size it works on.
\<close>

fun kloop :: "nat \<Rightarrow> ('x \<Rightarrow> 's \<Rightarrow> ('x + 'r, 's) outcome) \<Rightarrow> 'x \<Rightarrow> 's \<Rightarrow> ('r, 's) outcome" where
  "kloop 0 body x = kfault ''loop''"
| "kloop (Suc n) body x = kbind (body x) (\<lambda>r. case r of Inl y \<Rightarrow> kloop n body y | Inr a \<Rightarrow> kret a)"

text \<open>The state an outcome carries, where it carries one.\<close>

fun out_state :: "('a, 's) outcome \<Rightarrow> 's option" where
  "out_state (Done a s) = Some s"
| "out_state (Block c s) = Some s"
| "out_state (Panic m) = None"
| "out_state (Fault m) = None"

section \<open>Searching a table\<close>

text \<open>\<^verbatim>\<open>for(x = tab; x < &tab[N]; x++) if(P(x)) goto found;\<close>\<close>

fun find_idx :: "('a \<Rightarrow> bool) \<Rightarrow> 'a list \<Rightarrow> nat option" where
  "find_idx P [] = None"
| "find_idx P (x # xs) = (if P x then Some 0 else map_option Suc (find_idx P xs))"

section \<open>Lemmas\<close>

lemma krun_basic [krun, simp]:
  "kret a s = Done a s"
  "kpanic m s = Panic m"
  "kfault m s = Fault m"
  "kget f s = Done (f s) s"
  "kmod g s = Done () (g s)"
  by (simp_all add: kret_def kpanic_def kfault_def kget_def kmod_def)

lemma kbind_run [krun, simp]:
  "m s = Done a t \<Longrightarrow> kbind m f s = f a t"
  "m s = Block c t \<Longrightarrow> kbind m f s = Block c t"
  "m s = Panic e \<Longrightarrow> kbind m f s = Panic e"
  "m s = Fault e \<Longrightarrow> kbind m f s = Fault e"
  by (simp_all add: kbind_def)

lemma kseq_run [krun, simp]:
  "m s = Done a t \<Longrightarrow> kseq m g s = g t"
  "m s = Block c t \<Longrightarrow> kseq m g s = Block c t"
  "m s = Panic e \<Longrightarrow> kseq m g s = Panic e"
  "m s = Fault e \<Longrightarrow> kseq m g s = Fault e"
  by (simp_all add: kseq_def)

lemma kwhen_run [krun, simp]:
  "kwhen True m = m"
  "kwhen False m s = Done () s"
  by (simp_all add: kwhen_def)

lemma kbind_DoneE:
  assumes "kbind m f s = Done b u"
  obtains a t where "m s = Done a t" and "f a t = Done b u"
  using assms by (auto simp: kbind_def split: outcome.splits)

lemma kseq_DoneE:
  assumes "kseq m g s = Done b u"
  obtains a t where "m s = Done a t" and "g t = Done b u"
  using assms by (auto simp: kseq_def elim: kbind_DoneE)

text \<open>A routine that leaves a part of the state alone, whatever its outcome.\<close>

definition keeps :: "('s \<Rightarrow> 'b) \<Rightarrow> ('s \<Rightarrow> ('a, 's) outcome) \<Rightarrow> bool" where
  "keeps f m \<longleftrightarrow> (\<forall>s t. out_state (m s) = Some t \<longrightarrow> f t = f s)"

lemma keepsD: "keeps f m \<Longrightarrow> m s = Done a t \<Longrightarrow> f t = f s" "keeps f m \<Longrightarrow> m s = Block c t \<Longrightarrow> f t = f s"
  "keeps f m \<Longrightarrow> out_state (m s) = Some t \<Longrightarrow> f t = f s"
  by (auto simp: keeps_def)

lemma keeps_bind: "keeps f m \<Longrightarrow> (\<And>a. keeps f (g a)) \<Longrightarrow> keeps f (kbind m g)"
  by (fastforce simp: keeps_def kbind_def split: outcome.split)

lemma keeps_seq: "keeps f m \<Longrightarrow> keeps f g \<Longrightarrow> keeps f (kseq m g)"
  by (simp add: kseq_def keeps_bind)

lemma keeps_basic:
  "keeps f (kret a)" "keeps f (kpanic e)" "keeps f (kfault e)" "keeps f (kget g)" "(\<And>s. f (h s) = f s) \<Longrightarrow> keeps f (kmod h)"
  by (simp_all add: keeps_def)

lemma keeps_when: "(b \<Longrightarrow> keeps f m) \<Longrightarrow> keeps f (kwhen b m)"
  by (cases b) (simp_all add: keeps_def)

lemma keeps_foreach: "(\<And>x. x \<in> set xs \<Longrightarrow> keeps f (m x)) \<Longrightarrow> keeps f (kforeach m xs)"
  by (induction xs) (simp_all add: keeps_basic keeps_seq)

lemmas keeps_intros = keeps_bind keeps_seq keeps_basic keeps_when keeps_foreach

lemma find_idx_SomeD:
  "find_idx P xs = Some i \<Longrightarrow> i < length xs \<and> P (xs ! i) \<and> (\<forall>j < i. \<not> P (xs ! j))"
proof (induction xs arbitrary: i)
  case Nil
  then show ?case by simp
next
  case (Cons x xs)
  show ?case
  proof (cases "P x")
    case True
    with Cons.prems show ?thesis by simp
  next
    case False
    with Cons.prems obtain k where k: "find_idx P xs = Some k" "i = Suc k" by auto
    from Cons.IH [OF k(1)] k(2) False show ?thesis
      by (auto simp: less_Suc_eq_0_disj)
  qed
qed

lemma find_idx_None_iff: "find_idx P xs = None \<longleftrightarrow> (\<forall>x \<in> set xs. \<not> P x)"
  by (induction xs) auto

lemma find_idx_bound: "find_idx P xs = Some i \<Longrightarrow> i < length xs"
  by (simp add: find_idx_SomeD)

lemma find_idx_holds: "find_idx P xs = Some i \<Longrightarrow> P (xs ! i)"
  by (simp add: find_idx_SomeD)

lemma find_idx_unique:
  assumes "i < length xs" and "P (xs ! i)" and "\<forall>j < i. \<not> P (xs ! j)"
  shows "find_idx P xs = Some i"
  using assms
proof (induction xs arbitrary: i)
  case Nil
  then show ?case by simp
next
  case (Cons x xs)
  show ?case
  proof (cases i)
    case 0
    with Cons.prems show ?thesis by simp
  next
    case (Suc k)
    have "\<not> P (xs ! j)" if "j < k" for j
      using Cons.prems(3) [rule_format, of "Suc j"] that Suc by simp
    moreover have "\<not> P x" using Cons.prems(3) [rule_format, of 0] Suc by simp
    moreover have "k < length xs" "P (xs ! k)" using Cons.prems Suc by simp_all
    ultimately show ?thesis using Cons.IH [of k] Suc by simp
  qed
qed

text \<open>Word facts.\<close>

lemma unat_u32: "unat (x :: uint) < 4294967296"
  using unsigned_less [of x] by simp

lemmas unat_arith_simps = unat_word_ariths unat_mod unat_div

lemma kforeach_append: "kforeach f (xs @ ys) = kseq (kforeach f xs) (kforeach f ys)"
  by (induction xs) (auto simp: kseq_def kbind_def fun_eq_iff split: outcome.splits)

text \<open>A loop body that keeps a property of the state, wherever it returns, keeps it over the
  whole loop.\<close>

lemma kforeach_invariant:
  assumes step: "\<And>x s t. x \<in> set xs \<Longrightarrow> I s \<Longrightarrow> f x s = Done () t \<Longrightarrow> I t"
    and "I s" and "kforeach f xs s = Done () t"
  shows "I t"
  using assms
proof (induction xs arbitrary: s)
  case Nil
  then show ?case by simp
next
  case (Cons x xs)
  from Cons.prems(3) obtain u where u: "f x s = Done () u" and rest: "kforeach f xs u = Done () t"
    by (auto elim: kseq_DoneE)
  from Cons.prems(1) [of x s u] Cons.prems(2) u have "I u" by simp
  show ?case
    by (rule Cons.IH [OF _ \<open>I u\<close> rest]) (rule Cons.prems(1), simp_all)
qed

lemma kforeach_cong:
  assumes same: "\<And>x s. x \<in> set xs \<Longrightarrow> I s \<Longrightarrow> f x s = g x s"
    and keep: "\<And>x s t. x \<in> set xs \<Longrightarrow> I s \<Longrightarrow> g x s = Done () t \<Longrightarrow> I t" and "I s"
  shows "kforeach f xs s = kforeach g xs s"
  using assms
proof (induction xs arbitrary: s)
  case Nil
  then show ?case by simp
next
  case (Cons x xs)
  have x: "f x s = g x s" using Cons.prems(1,3) by simp
  show ?case
  proof (cases "g x s")
    case (Done u t)
    then have "I t" using Cons.prems(2) [of x s t] Cons.prems(3) by simp
    have "kforeach f xs t = kforeach g xs t"
    proof (rule Cons.IH [OF _ _ \<open>I t\<close>])
      show "f y u = g y u" if "y \<in> set xs" "I u" for y u using Cons.prems(1) [of y u] that by simp
      show "I v" if "y \<in> set xs" "I u" "g y u = Done () v" for y u v using Cons.prems(2) [of y u v] that by simp
    qed
    with x Done show ?thesis by simp
  qed (use x in simp_all)
qed

text \<open>One iteration of a loop.\<close>

lemma kloop_step:
  "body x s = Done (Inl y) t \<Longrightarrow> kloop (Suc n) body x s = kloop n body y t"
  "body x s = Done (Inr r) t \<Longrightarrow> kloop (Suc n) body x s = Done r t"
  "body x s = Panic e \<Longrightarrow> kloop (Suc n) body x s = Panic e"
  "body x s = Fault e \<Longrightarrow> kloop (Suc n) body x s = Fault e"
  "body x s = Block c t \<Longrightarrow> kloop (Suc n) body x s = Block c t"
  by simp_all

text \<open>Loops with an invariant on the loop variables and the state.\<close>

lemma kloop_invariant:
  assumes "kloop n body x s = Done r t" and "I x s"
    and cont: "\<And>x s y u. I x s \<Longrightarrow> body x s = Done (Inl y) u \<Longrightarrow> I y u"
    and exit: "\<And>x s r u. I x s \<Longrightarrow> body x s = Done (Inr r) u \<Longrightarrow> Q r u"
  shows "Q r t"
  using assms(1,2)
proof (induction n arbitrary: x s)
  case 0
  then show ?case by simp
next
  case (Suc n)
  from Suc.prems(1) obtain b u where b: "body x s = Done b u"
    and rest: "(case b of Inl y \<Rightarrow> kloop n body y | Inr a \<Rightarrow> kret a) u = Done r t"
    by (auto elim: kbind_DoneE)
  show ?case
  proof (cases b)
    case (Inl y)
    with b rest Suc.IH [of y u] cont [OF Suc.prems(2)] show ?thesis by simp
  next
    case (Inr a)
    with b rest exit [OF Suc.prems(2)] show ?thesis by simp
  qed
qed

text \<open>A measure that every further iteration lowers is enough fuel.\<close>

lemma kloop_terminates:
  assumes "I x s" and "\<mu> x < n"
    and cont: "\<And>x s y u. I x s \<Longrightarrow> body x s = Done (Inl y) u \<Longrightarrow> I y u \<and> \<mu> y < (\<mu> x :: nat)"
    and safe: "\<And>x s. I x s \<Longrightarrow> body x s \<noteq> Fault ''loop''"
  shows "kloop n body x s \<noteq> Fault ''loop''"
  using assms(1,2)
proof (induction n arbitrary: x s)
  case 0
  then show ?case by simp
next
  case (Suc n)
  show ?case
  proof (cases "body x s")
    case (Done b u)
    show ?thesis
    proof (cases b)
      case (Inl y)
      with Done cont [OF Suc.prems(1)] have "I y u" "\<mu> y < \<mu> x" by simp_all
      with Suc.IH [of y u] Suc.prems(2) Done Inl show ?thesis by simp
    next
      case (Inr a)
      with Done show ?thesis by simp
    qed
  qed (use safe [OF Suc.prems(1)] in auto)
qed

end
