(* ===== verification/Params.thy ===== *)
theory Params
  imports Prelude
begin

text \<open>
  The kernel's configuration constants (\<^verbatim>\<open>param.h\<close>), the physical and virtual memory layout
  (\<^verbatim>\<open>memlayout.h\<close>) and the bit-level macros of the x86 memory-management unit (\<^verbatim>\<open>mmu.h\<close>):
  splitting a virtual address, page rounding, page-table entries, segment and gate descriptors.
  The lemmas give the arithmetic reading of each macro.
\<close>

section \<open>Constants\<close>

subsection \<open>param.h, kthread.h, mutex.h\<close>

abbreviation (input) NPROC :: nat where "NPROC \<equiv> 64"
abbreviation (input) KSTACKSIZE :: uint where "KSTACKSIZE \<equiv> 4096"
abbreviation (input) NCPU :: nat where "NCPU \<equiv> 8"
abbreviation (input) NOFILE :: nat where "NOFILE \<equiv> 16"
abbreviation (input) NFILE :: nat where "NFILE \<equiv> 100"
abbreviation (input) NINODE :: nat where "NINODE \<equiv> 50"
abbreviation (input) NDEV :: nat where "NDEV \<equiv> 10"
abbreviation (input) ROOTDEV :: uint where "ROOTDEV \<equiv> 1"
abbreviation (input) MAXARG :: nat where "MAXARG \<equiv> 32"
abbreviation (input) MAXOPBLOCKS :: nat where "MAXOPBLOCKS \<equiv> 10"
abbreviation (input) LOGSIZE :: nat where "LOGSIZE \<equiv> 30"
abbreviation (input) NBUF :: nat where "NBUF \<equiv> 30"
abbreviation (input) FSSIZE :: nat where "FSSIZE \<equiv> 1000"
abbreviation (input) NTHREAD :: nat where "NTHREAD \<equiv> 16"
abbreviation (input) MAX_MUTEXES :: nat where "MAX_MUTEXES \<equiv> 64"

subsection \<open>memlayout.h\<close>

abbreviation (input) EXTMEM :: uint where "EXTMEM \<equiv> 0x100000"
abbreviation (input) PHYSTOP :: uint where "PHYSTOP \<equiv> 0xE000000"
abbreviation (input) DEVSPACE :: uint where "DEVSPACE \<equiv> 0xFE000000"
abbreviation (input) KERNBASE :: uint where "KERNBASE \<equiv> 0x80000000"
abbreviation (input) KERNLINK :: uint where "KERNLINK \<equiv> 0x80100000"

definition v2p :: "uint \<Rightarrow> uint" where
  "v2p a = a - KERNBASE"

definition p2v :: "uint \<Rightarrow> uint" where
  "p2v a = a + KERNBASE"

subsection \<open>mmu.h\<close>

abbreviation (input) FL_IF :: uint where "FL_IF \<equiv> 0x200"
abbreviation (input) SEG_KCODE :: uint where "SEG_KCODE \<equiv> 1"
abbreviation (input) SEG_KDATA :: uint where "SEG_KDATA \<equiv> 2"
abbreviation (input) SEG_KCPU :: uint where "SEG_KCPU \<equiv> 3"
abbreviation (input) SEG_UCODE :: uint where "SEG_UCODE \<equiv> 4"
abbreviation (input) SEG_UDATA :: uint where "SEG_UDATA \<equiv> 5"
abbreviation (input) SEG_TSS :: uint where "SEG_TSS \<equiv> 6"
abbreviation (input) DPL_USER :: uint where "DPL_USER \<equiv> 3"
abbreviation (input) STA_X :: uint where "STA_X \<equiv> 8"
abbreviation (input) STA_W :: uint where "STA_W \<equiv> 2"
abbreviation (input) STA_R :: uint where "STA_R \<equiv> 2"
abbreviation (input) STS_T32A :: uint where "STS_T32A \<equiv> 9"
abbreviation (input) STS_IG32 :: uint where "STS_IG32 \<equiv> 14"
abbreviation (input) STS_TG32 :: uint where "STS_TG32 \<equiv> 15"

abbreviation (input) NPDENTRIES :: nat where "NPDENTRIES \<equiv> 1024"
abbreviation (input) NPTENTRIES :: nat where "NPTENTRIES \<equiv> 1024"
abbreviation (input) PGSIZE :: uint where "PGSIZE \<equiv> 4096"

abbreviation (input) PTE_P :: uint where "PTE_P \<equiv> 0x001"
abbreviation (input) PTE_W :: uint where "PTE_W \<equiv> 0x002"
abbreviation (input) PTE_U :: uint where "PTE_U \<equiv> 0x004"
abbreviation (input) PTE_PS :: uint where "PTE_PS \<equiv> 0x080"
abbreviation (input) PTE_SH :: uint where "PTE_SH \<equiv> 0x200"

definition PDX :: "uint \<Rightarrow> uint" where
  "PDX va = drop_bit 22 va AND 0x3FF"

definition PTX :: "uint \<Rightarrow> uint" where
  "PTX va = drop_bit 12 va AND 0x3FF"

definition PGADDR :: "uint \<Rightarrow> uint \<Rightarrow> uint \<Rightarrow> uint" where
  "PGADDR d t ofs = (push_bit 22 d OR push_bit 12 t) OR ofs"

definition PGROUNDUP :: "uint \<Rightarrow> uint" where
  "PGROUNDUP sz = (sz + PGSIZE - 1) AND NOT (PGSIZE - 1)"

definition PGROUNDDOWN :: "uint \<Rightarrow> uint" where
  "PGROUNDDOWN a = a AND NOT (PGSIZE - 1)"

definition PTE_ADDR :: "uint \<Rightarrow> uint" where
  "PTE_ADDR pte = pte AND NOT 0xFFF"

definition PTE_FLAGS :: "uint \<Rightarrow> uint" where
  "PTE_FLAGS pte = pte AND 0xFFF"

text \<open>Segment descriptors. Each bit field holds the low bits of what is stored into it.\<close>

record segdesc =
  lim_15_0 :: "16 word"
  base_15_0 :: "16 word"
  base_23_16 :: "8 word"
  sd_type :: "4 word"
  sd_s :: "1 word"
  sd_dpl :: "2 word"
  sd_p :: "1 word"
  lim_19_16 :: "4 word"
  sd_avl :: "1 word"
  sd_rsv1 :: "1 word"
  sd_db :: "1 word"
  sd_g :: "1 word"
  base_31_24 :: "8 word"

definition SEG :: "uint \<Rightarrow> uint \<Rightarrow> uint \<Rightarrow> uint \<Rightarrow> segdesc" where
  "SEG typ base lim dpl = \<lparr>
     lim_15_0 = ucast (drop_bit 12 lim AND 0xffff), base_15_0 = ucast (base AND 0xffff),
     base_23_16 = ucast (drop_bit 16 base AND 0xff), sd_type = ucast typ, sd_s = 1,
     sd_dpl = ucast dpl, sd_p = 1,
     lim_19_16 = ucast (drop_bit 28 lim), sd_avl = 0, sd_rsv1 = 0, sd_db = 1, sd_g = 1,
     base_31_24 = ucast (drop_bit 24 base)\<rparr>"

definition SEG16 :: "uint \<Rightarrow> uint \<Rightarrow> uint \<Rightarrow> uint \<Rightarrow> segdesc" where
  "SEG16 typ base lim dpl = \<lparr>
     lim_15_0 = ucast (lim AND 0xffff), base_15_0 = ucast (base AND 0xffff),
     base_23_16 = ucast (drop_bit 16 base AND 0xff), sd_type = ucast typ, sd_s = 1,
     sd_dpl = ucast dpl, sd_p = 1,
     lim_19_16 = ucast (drop_bit 16 lim), sd_avl = 0, sd_rsv1 = 0, sd_db = 1, sd_g = 0,
     base_31_24 = ucast (drop_bit 24 base)\<rparr>"

text \<open>The base address a descriptor describes, as the processor assembles it.\<close>

definition seg_base :: "segdesc \<Rightarrow> uint" where
  "seg_base d = (ucast (base_15_0 d) OR push_bit 16 (ucast (base_23_16 d)))
                 OR push_bit 24 (ucast (base_31_24 d))"

text \<open>Interrupt and trap gates.\<close>

record gatedesc =
  off_15_0 :: "16 word"
  gd_cs :: "16 word"
  gd_args :: "5 word"
  gd_rsv1 :: "3 word"
  gd_type :: "4 word"
  gd_s :: "1 word"
  gd_dpl :: "2 word"
  gd_p :: "1 word"
  off_31_16 :: "16 word"

definition SETGATE :: "gatedesc \<Rightarrow> bool \<Rightarrow> uint \<Rightarrow> uint \<Rightarrow> uint \<Rightarrow> gatedesc" where
  "SETGATE gate istrap sel off d = gate\<lparr>
     off_15_0 := ucast (off AND 0xffff), gd_cs := ucast sel, gd_args := 0, gd_rsv1 := 0,
     gd_type := ucast (if istrap then STS_TG32 else STS_IG32), gd_s := 0, gd_dpl := ucast d,
     gd_p := 1, off_31_16 := ucast (drop_bit 16 off)\<rparr>"

definition gate_off :: "gatedesc \<Rightarrow> uint" where
  "gate_off g = ucast (off_15_0 g) OR push_bit 16 (ucast (off_31_16 g))"

section \<open>Lemmas\<close>

lemma v2p_p2v [simp]: "v2p (p2v a) = a" and p2v_v2p [simp]: "p2v (v2p a) = a"
  by (simp_all add: v2p_def p2v_def)

lemma inj_p2v: "p2v a = p2v b \<longleftrightarrow> a = b"
  by (simp add: p2v_def)

lemma mask_forms:
  "(0x3FF :: uint) = mask 10" "(0xFFF :: uint) = mask 12" "(0xffff :: uint) = mask 16"
  "(0xff :: uint) = mask 8" "(4095 :: uint) = mask 12"
  by (simp_all add: mask_eq_exp_minus_1)

lemma unat_PGROUNDDOWN: "unat (PGROUNDDOWN a) = unat a div 4096 * 4096"
proof -
  have "a AND NOT (mask 12) = push_bit 12 (drop_bit 12 a)"
    by (rule bit_word_eqI) (auto simp: bit_simps)
  then have "PGROUNDDOWN a = push_bit 12 (drop_bit 12 a)"
    by (simp add: PGROUNDDOWN_def mask_forms)
  moreover have "unat (push_bit 12 (drop_bit 12 a)) = unat a div 4096 * 4096"
  proof -
    have "unat a div 4096 < 1048576"
      using unat_u32 [of a] by (simp add: less_mult_imp_div_less)
    then show ?thesis
      by (simp add: push_bit_eq_mult drop_bit_eq_div unat_word_ariths unat_div)
  qed
  ultimately show ?thesis by simp
qed

lemma PTE_ADDR_eq_PGROUNDDOWN: "PTE_ADDR = PGROUNDDOWN"
  by (simp add: fun_eq_iff PTE_ADDR_def PGROUNDDOWN_def)

lemma unat_PTE_ADDR: "unat (PTE_ADDR a) = unat a div 4096 * 4096"
  by (simp add: PTE_ADDR_eq_PGROUNDDOWN unat_PGROUNDDOWN)

lemma unat_PTE_FLAGS: "unat (PTE_FLAGS a) = unat a mod 4096"
  by (simp add: PTE_FLAGS_def mask_forms take_bit_eq_mask [symmetric] take_bit_eq_mod unat_mod)

text \<open>Rounding up wraps to 0 above the last page boundary of the address space.\<close>

lemma unat_PGROUNDUP:
  "unat (PGROUNDUP sz) = (if unat sz + 4095 < 2 ^ 32 then (unat sz + 4095) div 4096 * 4096 else 0)"
proof -
  have *: "PGROUNDUP sz = PGROUNDDOWN (sz + 4095)"
    by (simp add: PGROUNDUP_def PGROUNDDOWN_def add.commute)
  show ?thesis
  proof (cases "unat sz + 4095 < 2 ^ 32")
    case True
    then have "unat (sz + 4095) = unat sz + 4095"
      by (simp add: unat_word_ariths)
    with True show ?thesis by (simp add: * unat_PGROUNDDOWN)
  next
    case False
    have "unat (sz + 4095) = unat sz + 4095 - 2 ^ 32"
      using False unat_u32 [of sz] by (simp add: unat_word_ariths le_mod_geq)
    moreover have "unat sz + 4095 - 2 ^ 32 < 4096"
      using unat_u32 [of sz] by simp
    ultimately show ?thesis using False by (simp add: * unat_PGROUNDDOWN)
  qed
qed

lemma unat_PDX: "unat (PDX va) = unat va div 2 ^ 22"
proof -
  have "unat va div 2 ^ 22 < 1024"
    using unat_u32 [of va] by (simp add: less_mult_imp_div_less)
  then show ?thesis
    by (simp add: PDX_def mask_forms take_bit_eq_mask [symmetric] drop_bit_eq_div take_bit_eq_mod
      unat_mod unat_div)
qed

lemma unat_PTX: "unat (PTX va) = unat va div 4096 mod 1024"
  by (simp add: PTX_def mask_forms take_bit_eq_mask [symmetric] drop_bit_eq_div take_bit_eq_mod
      unat_mod unat_div)

lemma PDX_less: "unat (PDX va) < 1024" and PTX_less: "unat (PTX va) < 1024"
  using unat_u32 [of va] by (simp_all add: unat_PDX unat_PTX less_mult_imp_div_less)

text \<open>A page number determines the directory and table index, and the other way round.\<close>

lemma page_index_inj:
  assumes "PDX a = PDX b" and "PTX a = PTX b"
  shows "PGROUNDDOWN a = PGROUNDDOWN b"
proof -
  have "unat a div 4096 = unat b div 4096"
  proof -
    have "unat a div 4096 div 1024 = unat b div 4096 div 1024"
      using arg_cong [OF assms(1), of unat] by (simp add: unat_PDX div_mult2_eq [symmetric])
    moreover have "unat a div 4096 mod 1024 = unat b div 4096 mod 1024"
      using arg_cong [OF assms(2), of unat] by (simp add: unat_PTX)
    ultimately show ?thesis by (metis div_mult_mod_eq)
  qed
  then show ?thesis by (simp add: word_unat_eq_iff unat_PGROUNDDOWN)
qed

lemma page_index_eq: "PGROUNDDOWN a = PGROUNDDOWN b \<Longrightarrow> PDX a = PDX b \<and> PTX a = PTX b"
proof -
  assume "PGROUNDDOWN a = PGROUNDDOWN b"
  then have "unat a div 4096 * 4096 = unat b div 4096 * 4096"
    using unat_PGROUNDDOWN [of a] unat_PGROUNDDOWN [of b] by simp
  then have p: "unat a div 4096 = unat b div 4096" by simp
  then have "unat a div 4096 div 1024 = unat b div 4096 div 1024" by simp
  then have "unat a div 2 ^ 22 = unat b div 2 ^ 22" by (simp add: div_mult2_eq [symmetric])
  with p show ?thesis by (simp add: word_unat_eq_iff unat_PDX unat_PTX)
qed

text \<open>Page-aligned addresses.\<close>

definition page_aligned :: "uint \<Rightarrow> bool" where
  "page_aligned a \<longleftrightarrow> a AND 0xFFF = 0"

lemma page_aligned_unat: "page_aligned a \<longleftrightarrow> unat a mod 4096 = 0"
  using unat_PTE_FLAGS [of a] by (simp add: page_aligned_def PTE_FLAGS_def unat_eq_zero [symmetric])

lemma page_aligned_PGROUNDDOWN [simp]: "page_aligned (PGROUNDDOWN a)"
  by (simp add: page_aligned_unat unat_PGROUNDDOWN)

lemma page_aligned_PTE_ADDR [simp]: "page_aligned (PTE_ADDR a)"
  by (simp add: PTE_ADDR_eq_PGROUNDDOWN)

lemma page_aligned_PGROUNDUP [simp]: "page_aligned (PGROUNDUP a)"
  by (simp add: page_aligned_unat unat_PGROUNDUP)

lemma page_aligned_add:
  assumes "page_aligned a" and "page_aligned b"
  shows "page_aligned (a + b)"
proof -
  have "4096 dvd unat a" "4096 dvd unat b"
    using assms by (simp_all add: page_aligned_unat dvd_eq_mod_eq_0)
  then have "4096 dvd (unat a + unat b) mod 2 ^ 32"
    by (intro dvd_mod) simp_all
  then show ?thesis by (simp add: page_aligned_unat unat_word_ariths dvd_eq_mod_eq_0)
qed

lemma page_aligned_p2v [simp]: "page_aligned (p2v a) = page_aligned a"
proof -
  have k: "page_aligned KERNBASE" by (simp add: page_aligned_def)
  have kk: "KERNBASE + KERNBASE = (0 :: uint)" by simp
  have "page_aligned a" if "page_aligned (a + KERNBASE)"
    using page_aligned_add [OF that k] unfolding add.assoc kk by simp
  with page_aligned_add [OF _ k, of a] show ?thesis by (auto simp: p2v_def)
qed

lemma page_aligned_PGSIZE [simp]: "page_aligned 0" "page_aligned PGSIZE" "page_aligned KERNBASE"
  by (simp_all add: page_aligned_def)

text \<open>Writing an entry \<^verbatim>\<open>pa | perm | PTE_P\<close> and reading its two parts back.\<close>

lemma PTE_ADDR_mask: "PTE_ADDR a = a AND NOT (mask 12)"
  and PTE_FLAGS_mask: "PTE_FLAGS a = a AND mask 12"
  and page_aligned_mask: "page_aligned a \<longleftrightarrow> a AND mask 12 = 0"
  by (simp_all only: PTE_ADDR_def PTE_FLAGS_def page_aligned_def mask_forms)

lemma page_aligned_bit: "page_aligned a \<Longrightarrow> bit a n \<Longrightarrow> 12 \<le> n"
  unfolding page_aligned_mask
  by (drule arg_cong [where f = "\<lambda>w. bit w n"], rule ccontr) (simp add: bit_simps)

lemma small_perm_bit:
  assumes "unat (perm :: uint) < 4096" and "bit perm n"
  shows "n < 12"
proof -
  have "perm = take_bit 12 perm"
    using assms(1) by (simp add: word_unat_eq_iff take_bit_eq_mod unat_mod)
  then show ?thesis using assms(2) by (metis bit_take_bit_iff)
qed

lemma PTE_entry_parts:
  assumes "page_aligned pa" and "unat perm < 4096"
  shows "PTE_ADDR (pa OR perm) = pa" and "PTE_FLAGS (pa OR perm) = perm"
proof -
  note pa = page_aligned_bit [OF assms(1)] and perm = small_perm_bit [OF assms(2)]
  have "bit (PTE_ADDR (pa OR perm)) n = bit pa n" if "n < 32" for n
    using pa [of n] perm [of n] that by (auto simp: PTE_ADDR_mask bit_simps not_less)
  then show "PTE_ADDR (pa OR perm) = pa" by (intro bit_word_eqI) simp
  have "bit (PTE_FLAGS (pa OR perm)) n = bit perm n" if "n < 32" for n
    using pa [of n] perm [of n] that by (auto simp: PTE_FLAGS_mask bit_simps not_less)
  then show "PTE_FLAGS (pa OR perm) = perm" by (intro bit_word_eqI) simp
qed

lemma PTE_parts: "PTE_ADDR pte OR PTE_FLAGS pte = pte"
  by (rule bit_word_eqI) (auto simp: PTE_ADDR_mask PTE_FLAGS_mask bit_simps)

section \<open>Properties\<close>

text \<open>A virtual address is split into directory index, table index and offset and put together
  again without loss, and the parts of an assembled address are the ones it was assembled from.\<close>

theorem PGADDR_split:
  "PGADDR (PDX va) (PTX va) (PTE_FLAGS va) = va
   \<and> (d < 1024 \<and> t < 1024 \<and> ofs < PGSIZE \<longrightarrow>
        PDX (PGADDR d t ofs) = d \<and> PTX (PGADDR d t ofs) = t \<and> PTE_FLAGS (PGADDR d t ofs) = ofs)"
proof (intro conjI impI; (elim conjE)?)
  show "PGADDR (PDX va) (PTX va) (PTE_FLAGS va) = va"
  proof (rule bit_word_eqI)
    fix n assume "n < LENGTH(32)"
    then show "bit (PGADDR (PDX va) (PTX va) (PTE_FLAGS va)) n = bit va n"
      by (cases "n < 22") (auto simp: PGADDR_def PDX_def PTX_def PTE_FLAGS_def mask_forms bit_simps)
  qed
next
  assume d: "d < 1024" and t: "t < 1024" and o: "ofs < PGSIZE"
  have dm: "d = take_bit 10 d" and tm: "t = take_bit 10 t" and om: "ofs = take_bit 12 ofs"
    using d t o by (simp_all add: take_bit_eq_mod word_unat_eq_iff unat_mod word_less_nat_alt)
  have bits: "bit d n \<Longrightarrow> n < 10" "bit t n \<Longrightarrow> n < 10" "bit ofs n \<Longrightarrow> n < 12" for n
    using dm tm om by (metis bit_take_bit_iff)+
  show "PDX (PGADDR d t ofs) = d"
    by (rule bit_word_eqI) (auto simp: PGADDR_def PDX_def mask_forms bit_simps dest: bits)
  show "PTX (PGADDR d t ofs) = t"
    by (rule bit_word_eqI) (auto simp: PGADDR_def PTX_def mask_forms bit_simps dest: bits)
  show "PTE_FLAGS (PGADDR d t ofs) = ofs"
    by (rule bit_word_eqI) (auto simp: PGADDR_def PTE_FLAGS_def mask_forms bit_simps dest: bits)
qed

theorem PGADDR_split_witness:
  "PDX (PGADDR 513 7 20) = 513 \<and> PTX (PGADDR 513 7 20) = 7 \<and> PTE_FLAGS (PGADDR 513 7 20) = 20"
  using PGADDR_split [of 0 513 7 20] by simp

text \<open>The base address the processor reads back from a descriptor built by \<^verbatim>\<open>SEG\<close> or \<^verbatim>\<open>SEG16\<close>, and
  the handler address it reads back from a gate built by \<^verbatim>\<open>SETGATE\<close>, are the ones given.\<close>

theorem descriptor_roundtrip:
  "seg_base (SEG typ base lim dpl) = base \<and> seg_base (SEG16 typ base lim dpl) = base
   \<and> gate_off (SETGATE g istrap sel off d) = off"
proof (intro conjI)
  show base: "seg_base (SEG typ base lim dpl) = base"
  proof (rule bit_word_eqI)
    fix n assume "n < LENGTH(32)"
    then show "bit (seg_base (SEG typ base lim dpl)) n = bit base n"
      by (cases "n < 24") (auto simp: seg_base_def SEG_def mask_forms bit_simps)
  qed
  then show "seg_base (SEG16 typ base lim dpl) = base"
    by (simp add: seg_base_def SEG_def SEG16_def)
  show "gate_off (SETGATE g istrap sel off d) = off"
    by (rule bit_word_eqI) (auto simp: gate_off_def SETGATE_def mask_forms bit_simps)
qed

end
