(* ===== verification/Spinlock.thy ===== *)
theory Spinlock
  imports Params
begin

text \<open>
  Spinlocks (\<^verbatim>\<open>spinlock.c\<close>) at two levels. The concrete level has every CPU with its
  interrupt flag and \<^verbatim>\<open>pushcli\<close> nesting, every lock with its \<^verbatim>\<open>locked\<close> word and owner field, and
  the acquire and release routines as interleaved atomic steps, the windows between the \<^verbatim>\<open>xchg\<close> and
  the update of \<^verbatim>\<open>lk->cpu\<close> included. The abstract level, used by every other component, is the view
  of the executing CPU: the set of locks it holds. The theorems show mutual exclusion on all
  reachable states of the concrete level, that interrupts stay off while a CPU owns a lock, and that
  the view is a functional refinement target of the routines.
\<close>

section \<open>Locks, CPUs and the routines\<close>

record spinlock =
  locked :: uint
  lk_name :: string
  lk_cpu :: "nat option"
  lk_pcs :: "uint list"

record cpu =
  ncli :: int
  intena :: uint
  eflags :: uint

definition initlock_lk :: "string \<Rightarrow> spinlock \<Rightarrow> spinlock" where
  "initlock_lk nm lk = lk\<lparr>lk_name := nm, locked := 0, lk_cpu := None\<rparr>"

definition readeflags :: "cpu \<Rightarrow> uint" where
  "readeflags c = eflags c"

definition cli :: "cpu \<Rightarrow> cpu" where
  "cli c = c\<lparr>eflags := eflags c AND NOT FL_IF\<rparr>"

definition sti :: "cpu \<Rightarrow> cpu" where
  "sti c = c\<lparr>eflags := eflags c OR FL_IF\<rparr>"

definition pushcli :: "cpu \<Rightarrow> cpu" where
  "pushcli c =
     (let fl = readeflags c; c1 = cli c; n = ncli c1; c2 = c1\<lparr>ncli := n + 1\<rparr>
      in if n = 0 then c2\<lparr>intena := fl AND FL_IF\<rparr> else c2)"

definition popcli :: "cpu \<Rightarrow> (unit, cpu) outcome" where
  "popcli c =
     (if readeflags c AND FL_IF \<noteq> 0 then Panic ''popcli - interruptible''
      else let c1 = c\<lparr>ncli := ncli c - 1\<rparr>
           in if ncli c1 < 0 then Panic ''popcli''
              else if ncli c1 = 0 \<and> intena c1 \<noteq> 0 then Done () (sti c1) else Done () c1)"

text \<open>\<^verbatim>\<open>xchg\<close>: store the new value, return the old one, atomically.\<close>

definition xchg_locked :: "uint \<Rightarrow> spinlock \<Rightarrow> uint \<times> spinlock" where
  "xchg_locked v lk = (locked lk, lk\<lparr>locked := v\<rparr>)"

text \<open>
  \<^verbatim>\<open>getcallerpcs\<close> follows the saved frame pointers from \<^verbatim>\<open>(uint*)v - 2\<close>; \<open>ld\<close> reads a word of
  memory. It fills exactly the ten slots.
\<close>

fun getcallerpcs_from :: "(uint \<Rightarrow> uint) \<Rightarrow> uint \<Rightarrow> nat \<Rightarrow> uint list" where
  "getcallerpcs_from ld ebp 0 = []"
| "getcallerpcs_from ld ebp (Suc n) =
     (if ebp = 0 \<or> ebp < KERNBASE \<or> ebp = 0xffffffff then replicate (Suc n) 0
      else ld (ebp + 4) # getcallerpcs_from ld (ld ebp) n)"

definition getcallerpcs :: "(uint \<Rightarrow> uint) \<Rightarrow> uint \<Rightarrow> uint list" where
  "getcallerpcs ld v = getcallerpcs_from ld (v - 8) 10"

section \<open>All CPUs interleaved\<close>

text \<open>
  Where a CPU is inside \<^verbatim>\<open>acquire\<close> or \<^verbatim>\<open>release\<close>: running other code, in the \<^verbatim>\<open>xchg\<close> loop, past a
  successful \<^verbatim>\<open>xchg\<close> with the owner not recorded yet, or past clearing the owner with the final
  \<^verbatim>\<open>xchg\<close> still to come. \<open>owns\<close> and \<open>depth\<close> are ghost state: the locks a CPU has acquired and not
  begun to release, and how many \<^verbatim>\<open>pushcli\<close> calls outside the lock routines are still open.
\<close>

datatype lockpc = Run | Spinning lockid | Got lockid | Releasing lockid

record smp =
  cpus :: "nat \<Rightarrow> cpu"
  lks :: "lockid \<Rightarrow> spinlock"
  lpc :: "nat \<Rightarrow> lockpc"
  owns :: "nat \<Rightarrow> lockid set"
  depth :: "nat \<Rightarrow> nat"

definition holding :: "lockid \<Rightarrow> nat \<Rightarrow> smp \<Rightarrow> bool" where
  "holding l c s \<longleftrightarrow> locked (lks s l) \<noteq> 0 \<and> lk_cpu (lks s l) = Some c"

definition set_cpu :: "nat \<Rightarrow> cpu \<Rightarrow> smp \<Rightarrow> smp" where
  "set_cpu c cp s = s\<lparr>cpus := (cpus s)(c := cp)\<rparr>"

definition set_lk :: "lockid \<Rightarrow> spinlock \<Rightarrow> smp \<Rightarrow> smp" where
  "set_lk l lk s = s\<lparr>lks := (lks s)(l := lk)\<rparr>"

definition set_pc :: "nat \<Rightarrow> lockpc \<Rightarrow> smp \<Rightarrow> smp" where
  "set_pc c p s = s\<lparr>lpc := (lpc s)(c := p)\<rparr>"

definition set_owns :: "nat \<Rightarrow> lockid set \<Rightarrow> smp \<Rightarrow> smp" where
  "set_owns c ls s = s\<lparr>owns := (owns s)(c := ls)\<rparr>"

definition set_depth :: "nat \<Rightarrow> nat \<Rightarrow> smp \<Rightarrow> smp" where
  "set_depth c n s = s\<lparr>depth := (depth s)(c := n)\<rparr>"

inductive smp_step :: "smp \<Rightarrow> smp \<Rightarrow> bool" where
  acq_start: "lpc s c = Run \<Longrightarrow> \<not> holding l c s \<Longrightarrow>
     smp_step s (set_pc c (Spinning l) (set_cpu c (pushcli (cpus s c)) s))"
| acq_spin: "lpc s c = Spinning l \<Longrightarrow> xchg_locked 1 (lks s l) = (v, lk) \<Longrightarrow> v \<noteq> 0 \<Longrightarrow>
     smp_step s (set_lk l lk s)"
| acq_got: "lpc s c = Spinning l \<Longrightarrow> xchg_locked 1 (lks s l) = (v, lk) \<Longrightarrow> v = 0 \<Longrightarrow>
     smp_step s (set_pc c (Got l) (set_lk l lk s))"
| acq_record: "lpc s c = Got l \<Longrightarrow>
     smp_step s (set_pc c Run (set_owns c (insert l (owns s c))
       (set_lk l ((lks s l)\<lparr>lk_cpu := Some c, lk_pcs := getcallerpcs ld v\<rparr>) s)))"
| rel_start: "lpc s c = Run \<Longrightarrow> holding l c s \<Longrightarrow>
     smp_step s (set_pc c (Releasing l) (set_owns c (owns s c - {l})
       (set_lk l ((lks s l)\<lparr>lk_pcs := (lk_pcs (lks s l))[0 := 0], lk_cpu := None\<rparr>) s)))"
| rel_finish: "lpc s c = Releasing l \<Longrightarrow> xchg_locked 0 (lks s l) = (v, lk) \<Longrightarrow>
     popcli (cpus s c) = Done () cp \<Longrightarrow>
     smp_step s (set_pc c Run (set_cpu c cp (set_lk l lk s)))"
| cli_push: "lpc s c = Run \<Longrightarrow>
     smp_step s (set_depth c (Suc (depth s c)) (set_cpu c (pushcli (cpus s c)) s))"
| cli_pop: "lpc s c = Run \<Longrightarrow> depth s c = Suc n \<Longrightarrow> popcli (cpus s c) = Done () cp \<Longrightarrow>
     smp_step s (set_depth c n (set_cpu c cp s))"
| irq: "lpc s c = Run \<Longrightarrow> ncli (cpus s c) = 0 \<Longrightarrow>
     smp_step s (set_cpu c ((cpus s c)\<lparr>eflags := fl\<rparr>) s)"

definition smp_init :: "smp \<Rightarrow> bool" where
  "smp_init s \<longleftrightarrow> (\<forall>l. locked (lks s l) = 0 \<and> lk_cpu (lks s l) = None)
     \<and> (\<forall>c. lpc s c = Run \<and> owns s c = {} \<and> depth s c = 0 \<and> ncli (cpus s c) = 0)"

inductive smp_reach :: "smp \<Rightarrow> bool" where
  smp_start: "smp_init s \<Longrightarrow> smp_reach s"
| smp_next: "smp_reach s \<Longrightarrow> smp_step s t \<Longrightarrow> smp_reach t"

section \<open>An uninterrupted call on one CPU\<close>

text \<open>\<open>None\<close>: another CPU holds the lock and the \<^verbatim>\<open>xchg\<close> loop goes on.\<close>

definition cpu_acquire :: "nat \<Rightarrow> lockid \<Rightarrow> (uint \<Rightarrow> uint) \<Rightarrow> uint \<Rightarrow> smp \<Rightarrow> (unit, smp) outcome option" where
  "cpu_acquire c l ld v s =
     (let s1 = set_cpu c (pushcli (cpus s c)) s
      in if holding l c s1 then Some (Panic ''acquire'')
         else case xchg_locked 1 (lks s1 l) of (old, lk) \<Rightarrow>
           if old \<noteq> 0 then None
           else Some (Done () (set_owns c (insert l (owns s1 c))
                  (set_lk l (lk\<lparr>lk_cpu := Some c, lk_pcs := getcallerpcs ld v\<rparr>) s1))))"

definition cpu_release :: "nat \<Rightarrow> lockid \<Rightarrow> smp \<Rightarrow> (unit, smp) outcome" where
  "cpu_release c l s =
     (if \<not> holding l c s then Panic ''release''
      else let lk = (lks s l)\<lparr>lk_pcs := (lk_pcs (lks s l))[0 := 0], lk_cpu := None\<rparr>;
               s1 = set_owns c (owns s c - {l}) (set_lk l (snd (xchg_locked 0 lk)) s)
           in case popcli (cpus s c) of
                Done u cp \<Rightarrow> Done () (set_cpu c cp s1)
              | Block ch cp \<Rightarrow> Block ch s1
              | Panic m \<Rightarrow> Panic m
              | Fault m \<Rightarrow> Fault m)"

section \<open>The executing CPU's view\<close>

record kbase =
  held :: "lockid set"

definition acquire :: "lockid \<Rightarrow> 'a kbase_scheme \<Rightarrow> (unit, 'a kbase_scheme) outcome" where
  "acquire l s = (if l \<in> held s then Panic ''acquire'' else Done () (s\<lparr>held := insert l (held s)\<rparr>))"

definition release :: "lockid \<Rightarrow> 'a kbase_scheme \<Rightarrow> (unit, 'a kbase_scheme) outcome" where
  "release l s = (if l \<notin> held s then Panic ''release'' else Done () (s\<lparr>held := held s - {l}\<rparr>))"

definition initlock :: "lockid \<Rightarrow> 'a kbase_scheme \<Rightarrow> (unit, 'a kbase_scheme) outcome" where
  "initlock l s = Done () (s\<lparr>held := held s - {l}\<rparr>)"

definition cpu_view :: "nat \<Rightarrow> smp \<Rightarrow> kbase" where
  "cpu_view c s = \<lparr>held = {l. holding l c s}\<rparr>"

section \<open>The lock interface\<close>

text \<open>What the rest of the kernel relies on: acquiring a lock not held adds it, releasing a held
  one removes it, and the two misuses panic.\<close>

locale lock_interface =
  fixes acq :: "'l \<Rightarrow> 's \<Rightarrow> (unit, 's) outcome"
    and rel :: "'l \<Rightarrow> 's \<Rightarrow> (unit, 's) outcome"
    and locks_of :: "'s \<Rightarrow> 'l set"
  assumes acq_free: "l \<notin> locks_of s \<Longrightarrow> \<exists>t. acq l s = Done () t \<and> locks_of t = insert l (locks_of s)"
    and acq_held: "l \<in> locks_of s \<Longrightarrow> acq l s = Panic ''acquire''"
    and rel_held: "l \<in> locks_of s \<Longrightarrow> \<exists>t. rel l s = Done () t \<and> locks_of t = locks_of s - {l}"
    and rel_free: "l \<notin> locks_of s \<Longrightarrow> rel l s = Panic ''release''"
begin

text \<open>A critical section around a body that keeps the held locks gives them back unchanged.\<close>

lemma critical_section_balanced:
  assumes "kseq (acq l) (kbind body (\<lambda>r. kseq (rel l) (kret r))) s = Done a u"
    and body: "\<And>s r t. body s = Done r t \<Longrightarrow> locks_of t = locks_of s"
  shows "locks_of u = locks_of s"
proof -
  from assms(1) obtain s1 where s1: "acq l s = Done () s1"
    and r1: "kbind body (\<lambda>r. kseq (rel l) (kret r)) s1 = Done a u"
    by (auto elim: kseq_DoneE)
  from s1 acq_held [of l s] have free: "l \<notin> locks_of s" by auto
  with acq_free s1 have l1: "locks_of s1 = insert l (locks_of s)" by fastforce
  from r1 obtain r s2 where s2: "body s1 = Done r s2" and r2: "kseq (rel l) (kret r) s2 = Done a u"
    by (auto elim: kbind_DoneE)
  have l2: "locks_of s2 = insert l (locks_of s)" using body [OF s2] l1 by simp
  then obtain t where t: "rel l s2 = Done () t" "locks_of t = locks_of s2 - {l}"
    using rel_held [of l s2] by auto
  from r2 t have "u = t" by simp
  with t(2) l2 free show ?thesis by auto
qed

text \<open>Taking a lock twice stops the machine.\<close>

lemma double_acquire_panics:
  "acq l s = Done () t \<Longrightarrow> acq l t = Panic ''acquire''"
  using acq_free [of l s] acq_held by (cases "l \<in> locks_of s") fastforce+

end

interpretation kb: lock_interface acquire release held
  by unfold_locales (auto simp: acquire_def release_def)

section \<open>Lemmas: running the view\<close>

lemma acquire_run [simp, krun]:
  "l \<notin> held s \<Longrightarrow> acquire l s = Done () (s\<lparr>held := insert l (held s)\<rparr>)"
  "l \<in> held s \<Longrightarrow> acquire l s = Panic ''acquire''"
  by (simp_all add: acquire_def)

lemma release_run [simp, krun]:
  "l \<in> held s \<Longrightarrow> release l s = Done () (s\<lparr>held := held s - {l}\<rparr>)"
  "l \<notin> held s \<Longrightarrow> release l s = Panic ''release''"
  by (simp_all add: release_def)

lemma initlock_run [simp, krun]: "initlock l s = Done () (s\<lparr>held := held s - {l}\<rparr>)"
  by (simp add: initlock_def)

section \<open>Lemmas: the interleaved machine\<close>

lemmas smp_sets = set_cpu_def set_lk_def set_pc_def set_owns_def set_depth_def

text \<open>A CPU has a lock from its successful \<^verbatim>\<open>xchg\<close> to the \<^verbatim>\<open>xchg\<close> that gives it back.\<close>

definition has_lock :: "smp \<Rightarrow> nat \<Rightarrow> lockid \<Rightarrow> bool" where
  "has_lock s c l \<longleftrightarrow> l \<in> owns s c \<or> lpc s c = Got l \<or> lpc s c = Releasing l"

definition lock_inv :: "smp \<Rightarrow> bool" where
  "lock_inv s \<longleftrightarrow>
     (\<forall>l. locked (lks s l) \<noteq> 0 \<longleftrightarrow> (\<exists>c. has_lock s c l))
     \<and> (\<forall>l c d. has_lock s c l \<longrightarrow> has_lock s d l \<longrightarrow> c = d)
     \<and> (\<forall>l c. lk_cpu (lks s l) = Some c \<longleftrightarrow> l \<in> owns s c)
     \<and> (\<forall>l c. lpc s c = Got l \<or> lpc s c = Releasing l \<longrightarrow> l \<notin> owns s c)"

definition cli_inv :: "smp \<Rightarrow> bool" where
  "cli_inv s \<longleftrightarrow>
     (\<forall>c. finite (owns s c))
     \<and> (\<forall>c. ncli (cpus s c) = int (card (owns s c)) + int (depth s c) + (if lpc s c = Run then 0 else 1))
     \<and> (\<forall>c. 0 < ncli (cpus s c) \<longrightarrow> eflags (cpus s c) AND FL_IF = 0)"

lemma holding_owns: "lock_inv s \<Longrightarrow> holding l c s \<longleftrightarrow> l \<in> owns s c"
  by (auto simp: lock_inv_def holding_def has_lock_def)

lemma FL_IF_cleared [simp]: "(x AND - 513) AND 512 = (0 :: uint)"
  by (simp add: and.assoc)

lemma ncli_pushcli [simp]: "ncli (pushcli c) = ncli c + 1"
  and eflags_pushcli [simp]: "eflags (pushcli c) AND FL_IF = 0"
  by (simp_all add: pushcli_def cli_def Let_def)

lemma popcli_Done:
  "popcli c = Done () d \<Longrightarrow> ncli d = ncli c - 1 \<and> (0 < ncli d \<longrightarrow> eflags d AND FL_IF = 0)"
  by (auto simp: popcli_def readeflags_def sti_def Let_def split: if_splits)

lemma popcli_total:
  "0 < ncli c \<Longrightarrow> eflags c AND FL_IF = 0 \<Longrightarrow> \<exists>d. popcli c = Done () d"
  by (auto simp: popcli_def readeflags_def Let_def)

lemma lock_inv_init: "smp_init s \<Longrightarrow> lock_inv s"
  by (auto simp: smp_init_def lock_inv_def has_lock_def)

lemma cli_inv_init: "smp_init s \<Longrightarrow> cli_inv s"
  by (auto simp: smp_init_def cli_inv_def)

text \<open>Four steps move a lock; the others leave who has what alone.\<close>

lemma lock_invI:
  assumes "\<And>l. locked (lks s l) \<noteq> 0 \<longleftrightarrow> (\<exists>c. has_lock s c l)"
    and "\<And>l c d. has_lock s c l \<Longrightarrow> has_lock s d l \<Longrightarrow> c = d"
    and "\<And>l c. lk_cpu (lks s l) = Some c \<longleftrightarrow> l \<in> owns s c"
    and "\<And>l c. lpc s c = Got l \<or> lpc s c = Releasing l \<Longrightarrow> l \<notin> owns s c"
  shows "lock_inv s"
  unfolding lock_inv_def using assms by blast

lemma lock_invD:
  assumes "lock_inv s"
  shows "locked (lks s l) \<noteq> 0 \<longleftrightarrow> (\<exists>c. has_lock s c l)"
    and "has_lock s c l \<Longrightarrow> has_lock s d l \<Longrightarrow> c = d"
    and "lk_cpu (lks s l) = Some c \<longleftrightarrow> l \<in> owns s c"
    and "lpc s c = Got l \<or> lpc s c = Releasing l \<Longrightarrow> l \<notin> owns s c"
  using assms unfolding lock_inv_def by blast+

lemma lock_inv_got:
  assumes inv: "lock_inv s" and pc: "lpc s c = Spinning l" and free: "locked (lks s l) = 0"
  shows "lock_inv (set_pc c (Got l) (set_lk l ((lks s l)\<lparr>locked := 1\<rparr>) s))" (is "lock_inv ?t")
proof -
  have none: "\<not> has_lock s d l" for d
    using lock_invD(1) [OF inv, of l] free by blast
  have h: "has_lock ?t d m \<longleftrightarrow> has_lock s d m \<or> (d = c \<and> m = l)" for d m
    using pc by (auto simp: has_lock_def smp_sets)
  show ?thesis
  proof (rule lock_invI)
    fix m
    show "locked (lks ?t m) \<noteq> 0 \<longleftrightarrow> (\<exists>d. has_lock ?t d m)"
      using lock_invD(1) [OF inv, of m] by (auto simp: h) (auto simp: smp_sets split: if_splits)
  next
    fix m d e
    assume "has_lock ?t d m" "has_lock ?t e m"
    then show "d = e" using lock_invD(2) [OF inv, of d m e] none by (auto simp: h)
  next
    fix m d
    show "lk_cpu (lks ?t m) = Some d \<longleftrightarrow> m \<in> owns ?t d"
      using lock_invD(3) [OF inv, of m d] by (auto simp: smp_sets)
  next
    fix m d
    assume "lpc ?t d = Got m \<or> lpc ?t d = Releasing m"
    then show "m \<notin> owns ?t d"
      using lock_invD(4) [OF inv, of d m] none [of d] by (auto simp: smp_sets has_lock_def split: if_splits)
  qed
qed

lemma lock_inv_record:
  assumes inv: "lock_inv s" and pc: "lpc s c = Got l"
  shows "lock_inv (set_pc c Run (set_owns c (insert l (owns s c))
           (set_lk l ((lks s l)\<lparr>lk_cpu := Some c, lk_pcs := ps\<rparr>) s)))" (is "lock_inv ?t")
proof -
  have mine: "has_lock s d l \<longleftrightarrow> d = c" for d
    using lock_invD(2) [OF inv, of d l c] pc by (auto simp: has_lock_def)
  have h: "has_lock ?t d m \<longleftrightarrow> has_lock s d m" for d m
    using pc by (auto simp: has_lock_def smp_sets)
  have no: "l \<notin> owns s d" for d
    using mine [of d] lock_invD(4) [OF inv, of c l] pc by (auto simp: has_lock_def)
  show ?thesis
  proof (rule lock_invI)
    fix m
    show "locked (lks ?t m) \<noteq> 0 \<longleftrightarrow> (\<exists>d. has_lock ?t d m)"
      using lock_invD(1) [OF inv, of m] by (auto simp: h) (auto simp: smp_sets split: if_splits)
  next
    fix m d e
    assume "has_lock ?t d m" "has_lock ?t e m"
    then show "d = e" using lock_invD(2) [OF inv, of d m e] by (auto simp: h)
  next
    fix m d
    show "lk_cpu (lks ?t m) = Some d \<longleftrightarrow> m \<in> owns ?t d"
      using lock_invD(3) [OF inv, of m d] no [of d] by (auto simp: smp_sets)
  next
    fix m d
    assume "lpc ?t d = Got m \<or> lpc ?t d = Releasing m"
    then show "m \<notin> owns ?t d"
      using lock_invD(4) [OF inv, of d m] by (auto simp: smp_sets split: if_splits)
  qed
qed

lemma lock_inv_relstart:
  assumes inv: "lock_inv s" and pc: "lpc s c = Run" and own: "l \<in> owns s c"
  shows "lock_inv (set_pc c (Releasing l) (set_owns c (owns s c - {l})
           (set_lk l ((lks s l)\<lparr>lk_pcs := ps, lk_cpu := None\<rparr>) s)))" (is "lock_inv ?t")
proof -
  have mine: "has_lock s d l \<longleftrightarrow> d = c" for d
    using lock_invD(2) [OF inv, of d l c] own by (auto simp: has_lock_def)
  have h: "has_lock ?t d m \<longleftrightarrow> has_lock s d m" for d m
    using pc own by (auto simp: has_lock_def smp_sets)
  show ?thesis
  proof (rule lock_invI)
    fix m
    show "locked (lks ?t m) \<noteq> 0 \<longleftrightarrow> (\<exists>d. has_lock ?t d m)"
      using lock_invD(1) [OF inv, of m] by (auto simp: h) (auto simp: smp_sets split: if_splits)
  next
    fix m d e
    assume "has_lock ?t d m" "has_lock ?t e m"
    then show "d = e" using lock_invD(2) [OF inv, of d m e] by (auto simp: h)
  next
    fix m d
    show "lk_cpu (lks ?t m) = Some d \<longleftrightarrow> m \<in> owns ?t d"
      using lock_invD(3) [OF inv, of m d] mine [of d] by (auto simp: smp_sets has_lock_def)
  next
    fix m d
    assume "lpc ?t d = Got m \<or> lpc ?t d = Releasing m"
    then show "m \<notin> owns ?t d"
      using lock_invD(4) [OF inv, of d m] by (auto simp: smp_sets split: if_splits)
  qed
qed

lemma lock_inv_relfinish:
  assumes inv: "lock_inv s" and pc: "lpc s c = Releasing l"
  shows "lock_inv (set_pc c Run (set_cpu c cp (set_lk l ((lks s l)\<lparr>locked := 0\<rparr>) s)))" (is "lock_inv ?t")
proof -
  have mine: "has_lock s d l \<longleftrightarrow> d = c" for d
    using lock_invD(2) [OF inv, of d l c] pc by (auto simp: has_lock_def)
  have no: "l \<notin> owns s d" for d
    using mine [of d] lock_invD(4) [OF inv, of c l] pc by (auto simp: has_lock_def)
  have h: "has_lock ?t d m \<longleftrightarrow> has_lock s d m \<and> m \<noteq> l" for d m
    using pc mine [of d] no [of d] by (auto simp: has_lock_def smp_sets)
  show ?thesis
  proof (rule lock_invI)
    fix m
    show "locked (lks ?t m) \<noteq> 0 \<longleftrightarrow> (\<exists>d. has_lock ?t d m)"
      using lock_invD(1) [OF inv, of m] by (auto simp: h) (auto simp: smp_sets split: if_splits)
  next
    fix m d e
    assume "has_lock ?t d m" "has_lock ?t e m"
    then show "d = e" using lock_invD(2) [OF inv, of d m e] by (auto simp: h)
  next
    fix m d
    show "lk_cpu (lks ?t m) = Some d \<longleftrightarrow> m \<in> owns ?t d"
      using lock_invD(3) [OF inv, of m d] by (auto simp: smp_sets)
  next
    fix m d
    assume "lpc ?t d = Got m \<or> lpc ?t d = Releasing m"
    then show "m \<notin> owns ?t d"
      using lock_invD(4) [OF inv, of d m] by (auto simp: smp_sets split: if_splits)
  qed
qed

text \<open>A step that keeps the locks, the owners and the position up to \<^const>\<open>Run\<close> and
  \<^const>\<open>Spinning\<close> keeps the invariant.\<close>

lemma lock_inv_cong:
  assumes "lock_inv s" and "lks t = lks s" and "owns t = owns s"
    and "\<And>c l. lpc t c = Got l \<longleftrightarrow> lpc s c = Got l"
    and "\<And>c l. lpc t c = Releasing l \<longleftrightarrow> lpc s c = Releasing l"
  shows "lock_inv t"
  using assms unfolding lock_inv_def has_lock_def by simp

lemma lock_inv_step:
  assumes "smp_step s t" and inv: "lock_inv s"
  shows "lock_inv t"
  using assms(1)
proof (cases rule: smp_step.cases)
  case (acq_spin c l v lk)
  have "lk = (lks s l)\<lparr>locked := 1\<rparr>" "locked (lks s l) \<noteq> 0"
    using acq_spin by (auto simp: xchg_locked_def)
  then show ?thesis
    using acq_spin(1) inv unfolding lock_inv_def has_lock_def smp_sets by auto
next
  case (acq_got c l v lk)
  then show ?thesis using lock_inv_got [OF inv, of c l] by (auto simp: xchg_locked_def)
next
  case (acq_record c l ld v)
  then show ?thesis using lock_inv_record [OF inv] by auto
next
  case (rel_start c l)
  then show ?thesis using lock_inv_relstart [OF inv] holding_owns [OF inv] by auto
next
  case (rel_finish c l v lk cp)
  then show ?thesis using lock_inv_relfinish [OF inv] by (auto simp: xchg_locked_def)
qed (auto intro!: lock_inv_cong [OF inv] simp: smp_sets split: if_splits)

lemma cli_inv_step:
  assumes "smp_step s t" and inv: "lock_inv s" and cli: "cli_inv s"
  shows "cli_inv t"
proof -
  have n: "ncli (cpus s c) = int (card (owns s c)) + int (depth s c) + (if lpc s c = Run then 0 else 1)"
    and e: "0 < ncli (cpus s c) \<Longrightarrow> eflags (cpus s c) AND FL_IF = 0"
    and f: "finite (owns s c)" for c
    using cli by (auto simp: cli_inv_def)
  from assms(1) show ?thesis
  proof (cases rule: smp_step.cases)
    case (acq_record c l ld v)
    have "l \<notin> owns s c" using lock_invD(4) [OF inv, of c l] acq_record by auto
    then show ?thesis using acq_record n e f by (auto simp: cli_inv_def smp_sets)
  next
    case (rel_start c l)
    have "l \<in> owns s c" using holding_owns [OF inv] rel_start by simp
    then have "card (owns s c) = Suc (card (owns s c - {l}))"
      using f by (metis card.remove)
    then show ?thesis using rel_start n e f by (auto simp: cli_inv_def smp_sets)
  next
    case (rel_finish c l v lk cp)
    then show ?thesis using n e f popcli_Done [of "cpus s c" cp] by (auto simp: cli_inv_def smp_sets)
  next
    case (cli_pop c m cp)
    then show ?thesis using n e f popcli_Done [of "cpus s c" cp] by (auto simp: cli_inv_def smp_sets)
  qed (use n e f in \<open>auto simp: cli_inv_def smp_sets xchg_locked_def\<close>)
qed

lemma smp_reach_inv: "smp_reach s \<Longrightarrow> lock_inv s \<and> cli_inv s"
  by (induction rule: smp_reach.induct)
    (auto intro: lock_inv_init cli_inv_init lock_inv_step cli_inv_step)

lemma smp_reach_rtranclp: "smp_step\<^sup>*\<^sup>* s t \<Longrightarrow> smp_reach s \<Longrightarrow> smp_reach t"
  by (induction rule: rtranclp_induct) (auto intro: smp_reach.smp_next)

text \<open>An uninterrupted call is a run of the interleaved machine.\<close>

lemma cpu_acquire_steps:
  assumes pc: "lpc s c = Run" and acq: "cpu_acquire c l ld v s = Some (Done () t)"
  shows "smp_step\<^sup>*\<^sup>* s t"
proof -
  let ?s1 = "set_pc c (Spinning l) (set_cpu c (pushcli (cpus s c)) s)"
  let ?s2 = "set_pc c (Got l) (set_lk l ((lks s l)\<lparr>locked := 1\<rparr>) ?s1)"
  have free: "locked (lks s l) = 0" and nh: "\<not> holding l c s"
    and t: "t = set_owns c (insert l (owns s c)) (set_lk l ((lks s l)\<lparr>locked := 1, lk_cpu := Some c,
              lk_pcs := getcallerpcs ld v\<rparr>) (set_cpu c (pushcli (cpus s c)) s))"
    using acq by (auto simp: cpu_acquire_def xchg_locked_def holding_def smp_sets Let_def split: if_splits)
  have 1: "smp_step s ?s1" using pc nh by (rule smp_step.acq_start)
  have 2: "smp_step ?s1 ?s2"
    using free smp_step.acq_got [of ?s1 c l 0 "(lks s l)\<lparr>locked := 1\<rparr>"]
    by (simp add: xchg_locked_def smp_sets)
  have "smp_step ?s2 (set_pc c Run (set_owns c (insert l (owns ?s2 c)) (set_lk l ((lks ?s2 l)\<lparr>lk_cpu := Some c,
          lk_pcs := getcallerpcs ld v\<rparr>) ?s2)))"
    by (rule smp_step.acq_record) (simp add: smp_sets)
  moreover have "set_pc c Run (set_owns c (insert l (owns ?s2 c)) (set_lk l ((lks ?s2 l)\<lparr>lk_cpu := Some c,
          lk_pcs := getcallerpcs ld v\<rparr>) ?s2)) = t"
    using pc by (simp add: t smp_sets fun_upd_idem)
  ultimately have 3: "smp_step ?s2 t" by simp
  show ?thesis using 1 2 3 by (meson converse_rtranclp_into_rtranclp rtranclp.rtrancl_refl)
qed

lemma cpu_release_steps:
  assumes pc: "lpc s c = Run" and rel: "cpu_release c l s = Done () t"
  shows "smp_step\<^sup>*\<^sup>* s t"
proof -
  let ?lk = "(lks s l)\<lparr>lk_pcs := (lk_pcs (lks s l))[0 := 0], lk_cpu := None\<rparr>"
  let ?s1 = "set_pc c (Releasing l) (set_owns c (owns s c - {l}) (set_lk l ?lk s))"
  from rel obtain cp where h: "holding l c s" and pop: "popcli (cpus s c) = Done () cp"
    and t: "t = set_cpu c cp (set_owns c (owns s c - {l}) (set_lk l (?lk\<lparr>locked := 0\<rparr>) s))"
    by (auto simp: cpu_release_def xchg_locked_def Let_def split: if_splits outcome.splits)
  have 1: "smp_step s ?s1" using pc h by (rule smp_step.rel_start)
  have "smp_step ?s1 (set_pc c Run (set_cpu c cp (set_lk l (?lk\<lparr>locked := 0\<rparr>) ?s1)))"
    using pop by (intro smp_step.rel_finish [where v = "locked ?lk"]) (simp_all add: smp_sets xchg_locked_def)
  moreover have "set_pc c Run (set_cpu c cp (set_lk l (?lk\<lparr>locked := 0\<rparr>) ?s1)) = t"
    using pc by (simp add: t smp_sets fun_upd_idem)
  ultimately have 2: "smp_step ?s1 t" by simp
  show ?thesis using 1 2 by (meson converse_rtranclp_into_rtranclp rtranclp.rtrancl_refl)
qed

section \<open>Properties\<close>

definition idle_smp :: smp where
  "idle_smp = \<lparr>cpus = (\<lambda>_. \<lparr>ncli = 0, intena = 0, eflags = FL_IF\<rparr>),
     lks = (\<lambda>_. \<lparr>locked = 0, lk_name = ''lk'', lk_cpu = None, lk_pcs = replicate 10 0\<rparr>),
     lpc = (\<lambda>_. Run), owns = (\<lambda>_. {}), depth = (\<lambda>_. 0)\<rparr>"

definition locked_smp :: smp where
  "locked_smp = (case cpu_acquire 0 L_ptable (\<lambda>_. 0) 0 idle_smp of
     Some (Done u s) \<Rightarrow> s | _ \<Rightarrow> idle_smp)"

lemma locked_smp_run: "cpu_acquire 0 L_ptable (\<lambda>_. 0) 0 idle_smp = Some (Done () locked_smp)"
  by (simp add: locked_smp_def idle_smp_def cpu_acquire_def xchg_locked_def smp_sets holding_def Let_def)

lemma locked_smp_reach: "smp_reach locked_smp"
proof -
  have "smp_reach idle_smp" by (rule smp_reach.smp_start) (simp add: smp_init_def idle_smp_def)
  moreover have "smp_step\<^sup>*\<^sup>* idle_smp locked_smp"
    by (rule cpu_acquire_steps [OF _ locked_smp_run]) (simp add: idle_smp_def)
  ultimately show ?thesis by (simp add: smp_reach_rtranclp)
qed

lemma locked_smp_owns: "L_ptable \<in> owns locked_smp 0" "lpc locked_smp 0 = Run"
  by (simp_all add: locked_smp_def idle_smp_def cpu_acquire_def xchg_locked_def smp_sets holding_def Let_def)

text \<open>C5: in every reachable state of the interleaved machine, when one CPU has acquired a lock then no
  other CPU owns it, has won the exchange for it without having recorded itself yet, or is still
  between the two steps of releasing it; others can at most spin on it. The lock's owner field names
  the CPU that has it, and that CPU runs with interrupts off.\<close>

theorem spinlock_mutual_exclusion:
  assumes "smp_reach s" and "l \<in> owns s c" and "has_lock s d l"
  shows "d = c \<and> holding l c s \<and> eflags (cpus s c) AND FL_IF = 0"
proof -
  from smp_reach_inv [OF assms(1)] have inv: "lock_inv s" and cli: "cli_inv s" by auto
  have "has_lock s c l" using assms(2) by (simp add: has_lock_def)
  with lock_invD(2) [OF inv] assms(3) have "d = c" by blast
  moreover have "holding l c s" using holding_owns [OF inv] assms(2) by simp
  moreover have "0 < ncli (cpus s c)"
  proof -
    have "finite (owns s c)" using cli by (simp add: cli_inv_def)
    with assms(2) have "0 < card (owns s c)" by (auto simp: card_gt_0_iff)
    with cli show ?thesis by (simp add: cli_inv_def)
  qed
  ultimately show ?thesis using cli by (simp add: cli_inv_def)
qed

theorem spinlock_mutual_exclusion_witness:
  "smp_reach locked_smp \<and> L_ptable \<in> owns locked_smp 0 \<and> has_lock locked_smp 0 L_ptable
     \<and> holding L_ptable 0 locked_smp \<and> eflags (cpus locked_smp 0) AND FL_IF = 0"
proof -
  have h: "has_lock locked_smp 0 L_ptable" using locked_smp_owns by (simp add: has_lock_def)
  show ?thesis
    using spinlock_mutual_exclusion [OF locked_smp_reach locked_smp_owns(1) h] locked_smp_reach
      locked_smp_owns h by simp
qed

text \<open>In a reachable state a lock that is held can be released.\<close>

lemma release_of_held:
  assumes "smp_reach s" "holding l c s"
  shows "\<exists>t. cpu_release c l s = Done () t \<and> locked (lks t l) = 0"
proof -
  from smp_reach_inv [OF assms(1)] have inv: "lock_inv s" and cli: "cli_inv s" by auto
  have "l \<in> owns s c" using holding_owns [OF inv] assms(2) by simp
  moreover have "finite (owns s c)" using cli by (simp add: cli_inv_def)
  ultimately have "0 < card (owns s c)" by (auto simp: card_gt_0_iff)
  with cli have "0 < ncli (cpus s c)" "eflags (cpus s c) AND FL_IF = 0" by (simp_all add: cli_inv_def)
  then obtain cp where "popcli (cpus s c) = Done () cp" using popcli_total by blast
  then show ?thesis using assms(2) by (auto simp: cpu_release_def xchg_locked_def smp_sets Let_def)
qed

text \<open>C37: from a reachable state, a CPU outside the lock routines that owns a lock can always
  release it: the call returns, no \<^verbatim>\<open>popcli\<close> panic is possible, the call is a run of the
  interleaved machine, and afterwards the lock is free.\<close>

theorem spinlock_release_returns:
  assumes "smp_reach s" and "lpc s c = Run" and "l \<in> owns s c"
  shows "\<exists>t. cpu_release c l s = Done () t \<and> smp_step\<^sup>*\<^sup>* s t \<and> locked (lks t l) = 0
           \<and> (\<forall>d. \<not> has_lock t d l)"
proof -
  from smp_reach_inv [OF assms(1)] have inv: "lock_inv s" and cli: "cli_inv s" by auto
  have h: "holding l c s" using holding_owns [OF inv] assms(3) by simp
  then obtain t where t: "cpu_release c l s = Done () t" and free: "locked (lks t l) = 0"
    using release_of_held [OF assms(1)] by blast
  have run: "smp_step\<^sup>*\<^sup>* s t" by (rule cpu_release_steps [OF assms(2) t])
  have "lock_inv t" using smp_reach_inv smp_reach_rtranclp [OF run assms(1)] by blast
  with free have "\<forall>d. \<not> has_lock t d l" using lock_invD(1) [of t l] by auto
  with t run free show ?thesis by blast
qed

theorem spinlock_release_returns_witness:
  "\<exists>t. cpu_release 0 L_ptable locked_smp = Done () t \<and> locked (lks t L_ptable) = 0"
  using spinlock_release_returns [OF locked_smp_reach locked_smp_owns(2) locked_smp_owns(1)] by blast

text \<open>C38: refinement. Whenever an uninterrupted \<^verbatim>\<open>acquire\<close> or \<^verbatim>\<open>release\<close> on CPU \<open>c\<close> returns, the
  operations on the set of held locks that the rest of the kernel is modelled with return the view of
  the result. Where \<^verbatim>\<open>acquire\<close> panics, or \<^verbatim>\<open>release\<close> panics because the lock is not held, they panic with
  the same message; and in a reachable state this is the only way in which \<^verbatim>\<open>release\<close> panics.\<close>

theorem spinlock_view_refines:
  "(\<forall>t. cpu_acquire c l ld v s = Some (Done () t) \<longrightarrow> acquire l (cpu_view c s) = Done () (cpu_view c t))
   \<and> (\<forall>m. cpu_acquire c l ld v s = Some (Panic m) \<longrightarrow> acquire l (cpu_view c s) = Panic m)
   \<and> (\<forall>t. cpu_release c l s = Done () t \<longrightarrow> release l (cpu_view c s) = Done () (cpu_view c t))
   \<and> (\<not> holding l c s \<longrightarrow> cpu_release c l s = Panic ''release'' \<and> release l (cpu_view c s) = Panic ''release'')
   \<and> (\<forall>m. smp_reach s \<and> cpu_release c l s = Panic m \<longrightarrow> release l (cpu_view c s) = Panic m)"
proof (intro conjI allI impI)
  fix t assume "cpu_acquire c l ld v s = Some (Done () t)"
  then show "acquire l (cpu_view c s) = Done () (cpu_view c t)"
    by (auto simp: cpu_acquire_def cpu_view_def acquire_def xchg_locked_def holding_def smp_sets Let_def
        split: if_splits)
next
  fix m assume "cpu_acquire c l ld v s = Some (Panic m)"
  then show "acquire l (cpu_view c s) = Panic m"
    by (auto simp: cpu_acquire_def cpu_view_def acquire_def xchg_locked_def holding_def smp_sets Let_def
        split: if_splits)
next
  fix t assume "cpu_release c l s = Done () t"
  then show "release l (cpu_view c s) = Done () (cpu_view c t)"
    by (auto simp: cpu_release_def cpu_view_def release_def xchg_locked_def holding_def smp_sets Let_def
        split: if_splits outcome.splits)
next
  fix m assume p: "smp_reach s \<and> cpu_release c l s = Panic m"
  have "\<not> holding l c s" using release_of_held [of s l c] p by auto
  then show "release l (cpu_view c s) = Panic m" using p by (simp add: cpu_release_def release_def cpu_view_def)
qed (simp_all add: cpu_release_def release_def cpu_view_def)

theorem spinlock_view_refines_witness:
  "acquire L_ptable (cpu_view 0 idle_smp) = Done () (cpu_view 0 locked_smp)"
  using spinlock_view_refines locked_smp_run by blast

end
