(* ===== verification/Memory.thy ===== *)
theory Memory
  imports Params
begin

text \<open>
  Byte-addressed memory and the kernel's string library (\<^verbatim>\<open>string.c\<close>). A memory maps every 32-bit
  address to a byte; words are little-endian. The loops of the library are recursive functions that
  count down the C loop's counter; \<^verbatim>\<open>strlen\<close>, whose loop has no bound, is a partial function. The
  lemmas give each routine's effect in closed form, and the word-level load and store laws the
  page-table code rests on.
\<close>

type_synonym mem = "uint \<Rightarrow> uchar"

section \<open>Words in memory\<close>

definition load32 :: "mem \<Rightarrow> uint \<Rightarrow> uint" where
  "load32 m a = ucast (m a) OR push_bit 8 (ucast (m (a + 1)))
     OR push_bit 16 (ucast (m (a + 2))) OR push_bit 24 (ucast (m (a + 3)))"

definition store32 :: "mem \<Rightarrow> uint \<Rightarrow> uint \<Rightarrow> mem" where
  "store32 m a v = m(a := ucast v, a + 1 := ucast (drop_bit 8 v), a + 2 := ucast (drop_bit 16 v),
     a + 3 := ucast (drop_bit 24 v))"

text \<open>The bytes a caller supplies, placed at an address.\<close>

definition put_mem :: "mem \<Rightarrow> uint \<Rightarrow> uchar list \<Rightarrow> mem" where
  "put_mem m a bs = (\<lambda>x. if unat (x - a) < length bs then bs ! unat (x - a) else m x)"

section \<open>x86.h: string instructions\<close>

text \<open>\<^verbatim>\<open>rep stosb\<close> and \<^verbatim>\<open>rep stosl\<close> store the byte, the double word, \<open>cnt\<close> times.\<close>

definition stosb :: "mem \<Rightarrow> uint \<Rightarrow> uint \<Rightarrow> uint \<Rightarrow> mem" where
  "stosb m addr dat cnt = (\<lambda>x. if unat (x - addr) < unat cnt then ucast dat else m x)"

definition stosl :: "mem \<Rightarrow> uint \<Rightarrow> uint \<Rightarrow> uint \<Rightarrow> mem" where
  "stosl m addr dat cnt = (\<lambda>x. if unat (x - addr) < 4 * unat cnt
     then ucast (drop_bit (8 * (unat (x - addr) mod 4)) dat) else m x)"

section \<open>string.c\<close>

definition memset :: "mem \<Rightarrow> uint \<Rightarrow> uint \<Rightarrow> uint \<Rightarrow> mem" where
  "memset m dst c n =
     (if dst mod 4 = 0 \<and> n mod 4 = 0
      then let c' = c AND 0xFF
           in stosl m dst (push_bit 24 c' OR push_bit 16 c' OR push_bit 8 c' OR c') (n div 4)
      else stosb m dst c n)"

fun memcmp_from :: "mem \<Rightarrow> uint \<Rightarrow> uint \<Rightarrow> nat \<Rightarrow> int" where
  "memcmp_from m s1 s2 0 = 0"
| "memcmp_from m s1 s2 (Suc n) =
     (if m s1 \<noteq> m s2 then uint (m s1) - uint (m s2) else memcmp_from m (s1 + 1) (s2 + 1) n)"

definition memcmp :: "mem \<Rightarrow> uint \<Rightarrow> uint \<Rightarrow> uint \<Rightarrow> int" where
  "memcmp m v1 v2 n = memcmp_from m v1 v2 (unat n)"

fun copy_forward :: "mem \<Rightarrow> uint \<Rightarrow> uint \<Rightarrow> nat \<Rightarrow> mem" where
  "copy_forward m d s 0 = m"
| "copy_forward m d s (Suc n) = copy_forward (m(d := m s)) (d + 1) (s + 1) n"

fun copy_backward :: "mem \<Rightarrow> uint \<Rightarrow> uint \<Rightarrow> nat \<Rightarrow> mem" where
  "copy_backward m d s 0 = m"
| "copy_backward m d s (Suc n) = copy_backward (m(d - 1 := m (s - 1))) (d - 1) (s - 1) n"

definition memmove :: "mem \<Rightarrow> uint \<Rightarrow> uint \<Rightarrow> uint \<Rightarrow> mem" where
  "memmove m dst src n =
     (if src < dst \<and> src + n > dst then copy_backward m (dst + n) (src + n) (unat n)
      else copy_forward m dst src (unat n))"

definition memcpy :: "mem \<Rightarrow> uint \<Rightarrow> uint \<Rightarrow> uint \<Rightarrow> mem" where
  "memcpy m dst src n = memmove m dst src n"

fun strncmp :: "mem \<Rightarrow> uint \<Rightarrow> uint \<Rightarrow> nat \<Rightarrow> int" where
  "strncmp m p q 0 = 0"
| "strncmp m p q (Suc n) =
     (if m p \<noteq> 0 \<and> m p = m q then strncmp m (p + 1) (q + 1) n else uint (m p) - uint (m q))"

text \<open>The two loops of \<^verbatim>\<open>strncpy\<close>: copy up to the terminator, then pad.\<close>

fun zero_fill :: "mem \<Rightarrow> uint \<Rightarrow> nat \<Rightarrow> mem" where
  "zero_fill m s 0 = m"
| "zero_fill m s (Suc n) = zero_fill (m(s := 0)) (s + 1) n"

fun strncpy_from :: "mem \<Rightarrow> uint \<Rightarrow> uint \<Rightarrow> nat \<Rightarrow> mem" where
  "strncpy_from m s t 0 = m"
| "strncpy_from m s t (Suc n) =
     (let m1 = m(s := m t)
      in if m t \<noteq> 0 then strncpy_from m1 (s + 1) (t + 1) n else zero_fill m1 (s + 1) n)"

definition strncpy :: "mem \<Rightarrow> uint \<Rightarrow> uint \<Rightarrow> int \<Rightarrow> mem" where
  "strncpy m s t n = strncpy_from m s t (nat n)"

text \<open>\<^verbatim>\<open>safestrcpy\<close> copies at most \<open>n - 1\<close> bytes and then writes the terminator.\<close>

fun safestrcpy_from :: "mem \<Rightarrow> uint \<Rightarrow> uint \<Rightarrow> nat \<Rightarrow> mem" where
  "safestrcpy_from m s t 0 = m(s := 0)"
| "safestrcpy_from m s t (Suc n) =
     (let m1 = m(s := m t)
      in if m t \<noteq> 0 then safestrcpy_from m1 (s + 1) (t + 1) n else m1(s + 1 := 0))"

definition safestrcpy :: "mem \<Rightarrow> uint \<Rightarrow> uint \<Rightarrow> int \<Rightarrow> mem" where
  "safestrcpy m s t n = (if n \<le> 0 then m else safestrcpy_from m s t (nat (n - 1)))"

partial_function (option) strlen_from :: "mem \<Rightarrow> uint \<Rightarrow> nat \<Rightarrow> nat option" where
  "strlen_from m s n = (if m (s + of_nat n) = 0 then Some n else strlen_from m s (Suc n))"

definition strlen :: "mem \<Rightarrow> uint \<Rightarrow> nat option" where
  "strlen m s = strlen_from m s 0"

section \<open>Lemmas: loads and stores\<close>

lemma load32_store32 [simp]: "load32 (store32 m a v) a = v"
proof (rule bit_word_eqI)
  fix n assume "n < LENGTH(32)"
  then consider "n < 8" | "8 \<le> n \<and> n < 16" | "16 \<le> n \<and> n < 24" | "24 \<le> n \<and> n < 32"
    by fastforce
  then show "bit (load32 (store32 m a v) a) n = bit v n"
    by cases (auto simp: load32_def store32_def bit_simps)
qed

lemma aligned4_offset:
  assumes "a mod 4 = (0 :: uint)" and "unat i < 4"
  shows "(a + i) div 4 = a div 4"
proof -
  have m: "unat a mod 4 = 0" using arg_cong [OF assms(1), of unat] by (simp add: unat_mod)
  have "unat a \<le> 4294967292"
  proof (rule ccontr)
    assume "\<not> ?thesis"
    with unat_u32 [of a] have "unat a \<in> {4294967293, 4294967294, 4294967295}" by auto
    with m show False by auto
  qed
  with assms(2) have "unat (a + i) = unat a + unat i" by (simp add: unat_word_ariths)
  with m assms(2) have "unat (a + i) div 4 = unat a div 4" by (simp add: div_add1_eq)
  then show ?thesis by (simp add: word_unat_eq_iff unat_div)
qed

lemma aligned4_apart:
  assumes "a mod 4 = (0 :: uint)" "b mod 4 = 0" "a \<noteq> b" "unat i < 4" "unat j < 4"
  shows "a + i \<noteq> b + j"
proof
  assume "a + i = b + j"
  then have "a div 4 = b div 4"
    using aligned4_offset [OF assms(1,4)] aligned4_offset [OF assms(2,5)] by simp
  then have "a = b" using assms(1,2) by (metis word_mod_div_equality)
  with assms(3) show False by simp
qed

lemma load32_cong:
  "m a = m' a \<Longrightarrow> m (a + 1) = m' (a + 1) \<Longrightarrow> m (a + 2) = m' (a + 2) \<Longrightarrow> m (a + 3) = m' (a + 3)
   \<Longrightarrow> load32 m a = load32 m' a"
  by (simp add: load32_def)

lemma store32_outside:
  "x \<noteq> a \<Longrightarrow> x \<noteq> a + 1 \<Longrightarrow> x \<noteq> a + 2 \<Longrightarrow> x \<noteq> a + 3 \<Longrightarrow> store32 m a v x = m x"
  by (simp add: store32_def)

lemma store32_other: "4 \<le> unat (x - a) \<Longrightarrow> store32 m a v x = m x"
  by (rule store32_outside) auto

lemma load32_store32_apart:
  assumes "a mod 4 = 0" "b mod 4 = 0" "a \<noteq> b"
  shows "load32 (store32 m a v) b = load32 m b"
proof -
  have s: "store32 m a v (b + j) = m (b + j)" if "unat j < 4" for j
    using aligned4_apart [OF assms, of 0 j] aligned4_apart [OF assms, of 1 j]
      aligned4_apart [OF assms, of 2 j] aligned4_apart [OF assms, of 3 j] that
    by (intro store32_outside) auto
  show ?thesis
    using s [of 0] s [of 1] s [of 2] s [of 3] by (intro load32_cong) simp_all
qed

section \<open>Lemmas: filling\<close>

lemma word_byte_repeat:
  assumes "k < 4"
  shows "ucast (drop_bit (8 * k) (push_bit 24 (c AND 0xFF) OR push_bit 16 (c AND 0xFF)
           OR push_bit 8 (c AND 0xFF) OR (c AND 0xFF)) :: uint) = (ucast (c :: uint) :: uchar)"
proof -
  have "(c AND 0xFF :: uint) = take_bit 8 c" by (simp add: mask_forms take_bit_eq_mask [symmetric])
  moreover from assms consider "k = 0" | "k = 1" | "k = 2" | "k = 3" by fastforce
  then have "ucast (drop_bit (8 * k) (push_bit 24 (take_bit 8 c) OR push_bit 16 (take_bit 8 c)
           OR push_bit 8 (take_bit 8 c) OR take_bit 8 c) :: uint) = (ucast (c :: uint) :: uchar)"
    by cases (rule bit_word_eqI, auto simp: bit_simps)+
  ultimately show ?thesis by simp
qed

lemma memset_eq: "memset m dst c n = stosb m dst c n"
proof (cases "dst mod 4 = 0 \<and> n mod 4 = 0")
  case True
  have n: "4 * unat (n div 4) = unat n"
  proof -
    have "unat n mod 4 = 0" using True [THEN conjunct2, THEN arg_cong, of unat] by (simp add: unat_mod)
    then show ?thesis by (simp add: unat_div) presburger
  qed
  have "memset m dst c n = stosl m dst (push_bit 24 (c AND 0xFF) OR push_bit 16 (c AND 0xFF)
           OR push_bit 8 (c AND 0xFF) OR (c AND 0xFF)) (n div 4)"
    unfolding memset_def Let_def by (simp only: True simp_thms if_True)
  also have "\<dots> = stosb m dst c n"
  proof -
    have "k mod 4 < (4 :: nat)" for k by simp
    then show ?thesis
      unfolding stosl_def stosb_def n by (simp only: word_byte_repeat)
  qed
  finally show ?thesis .
next
  case False
  then show ?thesis by (auto simp: memset_def)
qed

lemma stosb_other: "unat n \<le> unat (x - dst) \<Longrightarrow> stosb m dst c n x = m x"
  by (simp add: stosb_def)

section \<open>Lemmas: copying\<close>

text \<open>The closed form of a copy of \<open>n\<close> bytes.\<close>

definition copied :: "mem \<Rightarrow> uint \<Rightarrow> uint \<Rightarrow> nat \<Rightarrow> mem" where
  "copied m d s n = (\<lambda>x. if unat (x - d) < n then m (s + (x - d)) else m x)"

lemma copied_0 [simp]: "copied m d s 0 = m"
  by (simp add: copied_def)

lemma unat_minus_1_less:
  assumes "(w :: uint) \<noteq> 0"
  shows "unat (w - 1) < n \<longleftrightarrow> unat w < Suc n"
proof -
  have "unat (w - 1) = unat w - 1" using assms by (simp add: unat_minus_one)
  moreover have "unat w \<noteq> 0" using assms by (simp add: unat_eq_zero)
  ultimately show ?thesis by linarith
qed

text \<open>Forward copying is right as long as no byte still to be read is overwritten.\<close>

lemma copy_forward_eq:
  assumes "n \<le> 2 ^ 32" and "\<forall>i j. i < j \<and> j < n \<longrightarrow> d + of_nat i \<noteq> s + of_nat j"
  shows "copy_forward m d s n = copied m d s n"
  using assms
proof (induction n arbitrary: m d s)
  case 0
  then show ?case by simp
next
  case (Suc n)
  have ih: "copy_forward (m(d := m s)) (d + 1) (s + 1) n = copied (m(d := m s)) (d + 1) (s + 1) n"
  proof (rule Suc.IH)
    show "n \<le> 2 ^ 32" using Suc.prems by simp
    show "\<forall>i j. i < j \<and> j < n \<longrightarrow> d + 1 + of_nat i \<noteq> s + 1 + of_nat j"
      using Suc.prems(2) by (metis (no_types, lifting) Suc_less_eq add.assoc of_nat_Suc)
  qed
  have nz: "unat (x - d) = 0 \<longleftrightarrow> x = d" for x by (simp add: unat_eq_zero)
  have "copied (m(d := m s)) (d + 1) (s + 1) n x = copied m d s (Suc n) x" for x
  proof (cases "x = d")
    case True
    have "d - (d + 1) = (0xffffffff :: uint)" by simp
    then have "unat (d - (d + 1)) = 4294967295" by (simp only:) simp
    then have "\<not> unat (d - (d + 1)) < n" using Suc.prems(1) by simp
    with True show ?thesis by (simp add: copied_def)
  next
    case False
    have e: "x - (d + 1) = (x - d) - 1" by simp
    have lt: "unat (x - (d + 1)) < n \<longleftrightarrow> unat (x - d) < Suc n"
      unfolding e using False by (intro unat_minus_1_less) simp
    show ?thesis
    proof (cases "unat (x - d) < Suc n")
      case True
      let ?j = "unat (x - d)"
      have "0 < ?j" using False nz [of x] by simp
      with Suc.prems(2) True have "d + of_nat 0 \<noteq> s + of_nat ?j" by blast
      then have "s + (x - d) \<noteq> d" by simp
      with True lt show ?thesis by (simp add: copied_def)
    next
      case no: False
      with lt False show ?thesis by (simp add: copied_def)
    qed
  qed
  with ih show ?case by (simp add: fun_eq_iff)
qed

text \<open>Backward copying is right as long as the higher bytes written first are not read later.\<close>

lemma copy_backward_eq:
  assumes "n \<le> 2 ^ 32" and "\<forall>i j. i < j \<and> j < n \<longrightarrow> d + of_nat j \<noteq> s + of_nat i"
  shows "copy_backward m (d + of_nat n) (s + of_nat n) n = copied m d s n"
  using assms
proof (induction n arbitrary: m)
  case 0
  then show ?case by simp
next
  case (Suc n)
  let ?m = "m(d + of_nat n := m (s + of_nat n))"
  have n: "unat (of_nat n :: uint) = n" using Suc.prems(1) by (simp add: unat_of_nat)
  have "copied ?m d s n x = copied m d s (Suc n) x" for x
  proof -
    consider "unat (x - d) < n" | "unat (x - d) = n" | "unat (x - d) > n" by linarith
    then show ?thesis
    proof cases
      case 1
      with Suc.prems(2) have "d + of_nat n \<noteq> s + of_nat (unat (x - d))" by blast
      with 1 show ?thesis by (auto simp: copied_def)
    next
      case 2
      then have "x - d = of_nat n" using n by (metis word_unat_eq_iff)
      then have "x = d + of_nat n" by (simp add: algebra_simps)
      with 2 show ?thesis by (simp add: copied_def)
    next
      case 3
      then have "x \<noteq> d + of_nat n" using n by auto
      with 3 show ?thesis by (simp add: copied_def)
    qed
  qed
  moreover have "copy_backward m (d + of_nat (Suc n)) (s + of_nat (Suc n)) (Suc n) =
      copy_backward ?m (d + of_nat n) (s + of_nat n) n"
    by (simp add: algebra_simps)
  moreover have "copy_backward ?m (d + of_nat n) (s + of_nat n) n = copied ?m d s n"
    by (rule Suc.IH) (use Suc.prems in auto)
  ultimately show ?case by (simp add: fun_eq_iff)
qed

text \<open>For regions that do not run past the end of the address space, \<^verbatim>\<open>memmove\<close> copies whatever
  the overlap.\<close>

lemma unat_add_nat:
  "unat (a :: uint) + i < 2 ^ 32 \<Longrightarrow> unat (a + of_nat i) = unat a + i"
  by (simp add: unat_word_ariths unat_of_nat)

lemma memmove_eq:
  assumes "unat src + unat n < 2 ^ 32" and "unat dst + unat n < 2 ^ 32"
  shows "memmove m dst src n = copied m dst src (unat n)"
proof (cases "src < dst \<and> src + n > dst")
  case True
  have "dst + of_nat j \<noteq> src + of_nat i" if "i < j" "j < unat n" for i j
  proof -
    have "unat (dst + of_nat j) = unat dst + j" "unat (src + of_nat i) = unat src + i"
      using assms that by (simp_all add: unat_add_nat)
    moreover have "unat src < unat dst" using True by (simp add: word_less_nat_alt)
    ultimately show ?thesis using that by (metis add_less_mono less_irrefl)
  qed
  then have "copy_backward m (dst + of_nat (unat n)) (src + of_nat (unat n)) (unat n)
      = copied m dst src (unat n)"
    by (intro copy_backward_eq) (use assms in auto)
  with True show ?thesis by (simp add: memmove_def)
next
  case False
  have "dst + of_nat i \<noteq> src + of_nat j" if "i < j" "j < unat n" for i j
  proof
    assume eq: "dst + of_nat i = src + of_nat j"
    have "unat (dst + of_nat i) = unat dst + i" "unat (src + of_nat j) = unat src + j"
      using assms that by (simp_all add: unat_add_nat)
    with eq have e: "unat dst + i = unat src + j" by simp
    with that have "src < dst" by (simp add: word_less_nat_alt)
    moreover have "unat (src + n) = unat src + unat n"
      using assms by (simp add: unat_word_ariths)
    with e that have "src + n > dst" by (simp add: word_less_nat_alt)
    ultimately show False using False by simp
  qed
  then have "copy_forward m dst src (unat n) = copied m dst src (unat n)"
    by (intro copy_forward_eq) (use assms in auto)
  with False show ?thesis by (auto simp: memmove_def)
qed

lemma copied_inside: "unat (x - d) < n \<Longrightarrow> copied m d s n x = m (s + (x - d))"
  and copied_outside: "n \<le> unat (x - d) \<Longrightarrow> copied m d s n x = m x"
  by (simp_all add: copied_def)

section \<open>Lemmas: pages\<close>

lemma page_aligned_mod: "v mod PGSIZE = 0 \<longleftrightarrow> page_aligned v"
  by (simp add: page_aligned_unat word_unat_eq_iff unat_mod)

lemma page_aligned_max:
  assumes "page_aligned p"
  shows "unat p + 4096 \<le> 2 ^ 32"
proof -
  from assms obtain k where k: "unat p = 4096 * k" by (auto simp: page_aligned_unat)
  with unat_u32 [of p] have "k < 1048576" by simp
  with k show ?thesis by simp
qed

lemma page_of_add:
  assumes "page_aligned p" and "unat k < 4096"
  shows "PGROUNDDOWN (p + k) = p"
proof -
  have "unat (p + k) = unat p + unat k"
    using page_aligned_max [OF assms(1)] assms(2) by (simp add: unat_word_ariths)
  moreover have "(unat p + unat k) div 4096 * 4096 = unat p"
    using assms by (auto simp: page_aligned_unat)
  ultimately show ?thesis by (simp add: word_unat_eq_iff unat_PGROUNDDOWN)
qed

lemma page_offset:
  assumes "page_aligned p"
  shows "PGROUNDDOWN x = p \<longleftrightarrow> unat (x - p) < 4096"
proof
  assume "PGROUNDDOWN x = p"
  then have "unat p = unat x div 4096 * 4096" by (auto simp: unat_PGROUNDDOWN)
  then have "unat p \<le> unat x" "unat x - unat p < 4096"
    using minus_div_mult_eq_mod [of "unat x" 4096] by simp_all
  then show "unat (x - p) < 4096" by (simp add: unat_sub word_le_nat_alt)
next
  assume "unat (x - p) < 4096"
  from page_of_add [OF assms this] show "PGROUNDDOWN x = p" by simp
qed

lemma PGROUNDDOWN_aligned [simp]: "page_aligned p \<Longrightarrow> PGROUNDDOWN p = p"
  using page_of_add [of p 0] by simp

lemma memset_page:
  "page_aligned p \<Longrightarrow> memset m p c PGSIZE x = (if PGROUNDDOWN x = p then ucast c else m x)"
  by (simp add: memset_eq stosb_def page_offset)

lemma aligned4_mask: "a mod 4 = (0 :: uint) \<Longrightarrow> unat i < 4 \<Longrightarrow> PGROUNDDOWN (a + i) = PGROUNDDOWN a"
proof -
  assume a: "a mod 4 = (0 :: uint)" and i: "unat i < 4"
  from aligned4_offset [OF this] have "unat (a + i) div 4 = unat a div 4"
    by (auto dest!: arg_cong [of _ _ unat] simp: unat_div)
  then have "unat (a + i) div 4096 = unat a div 4096"
    using div_mult2_eq [of "unat (a + i)" 4 1024] div_mult2_eq [of "unat a" 4 1024] by simp
  then show ?thesis by (simp add: word_unat_eq_iff unat_PGROUNDDOWN)
qed

lemma load32_page_cong:
  assumes "a mod 4 = 0" and "\<And>x. PGROUNDDOWN x = PGROUNDDOWN a \<Longrightarrow> m x = m' x"
  shows "load32 m a = load32 m' a"
  using assms(2) [OF aligned4_mask [OF assms(1)], of 0] assms(2) [OF aligned4_mask [OF assms(1)], of 1]
    assms(2) [OF aligned4_mask [OF assms(1)], of 2] assms(2) [OF aligned4_mask [OF assms(1)], of 3]
  by (intro load32_cong) simp_all

lemma store32_page:
  assumes "a mod 4 = 0" and "PGROUNDDOWN x \<noteq> PGROUNDDOWN a"
  shows "store32 m a v x = m x"
  using assms(2) aligned4_mask [OF assms(1), of 0] aligned4_mask [OF assms(1), of 1]
    aligned4_mask [OF assms(1), of 2] aligned4_mask [OF assms(1), of 3]
  by (intro store32_outside) auto

text \<open>The entries of a table that fills a page.\<close>

lemma table_entry:
  assumes "page_aligned p" and "unat i < 1024"
  shows "(p + 4 * i) mod 4 = 0" and "PGROUNDDOWN (p + 4 * i) = p"
proof -
  have i: "unat (4 * i) = 4 * unat i" using assms(2) by (simp add: unat_word_ariths)
  with assms show "PGROUNDDOWN (p + 4 * i) = p" by (intro page_of_add) simp_all
  have "unat (p + 4 * i) = unat p + 4 * unat i"
    using page_aligned_max [OF assms(1)] assms(2) i by (simp add: unat_word_ariths)
  moreover have "unat p mod 4 = 0" using assms(1) by (auto simp: page_aligned_unat)
  ultimately show "(p + 4 * i) mod 4 = 0" by (simp add: word_unat_eq_iff unat_mod mod_add_eq)
qed

lemma table_entry_inj:
  assumes "page_aligned p" "page_aligned q" "unat i < 1024" "unat j < 1024"
  shows "p + 4 * i = q + 4 * j \<longleftrightarrow> p = q \<and> i = j"
proof
  assume eq: "p + 4 * i = q + 4 * j"
  have pq: "p = q"
    using table_entry(2) [OF assms(1,3)] table_entry(2) [OF assms(2,4)] eq by simp
  with eq have "4 * i = 4 * j" by simp
  then have "4 * unat i = 4 * unat j"
    using assms(3,4) by (simp add: word_unat_eq_iff unat_word_ariths)
  with pq show "p = q \<and> i = j" by (simp add: word_unat_eq_iff)
qed simp

lemma load32_zero_page:
  assumes "page_aligned p" and "PGROUNDDOWN a = p" and "a mod 4 = 0"
  shows "load32 (memset m p 0 PGSIZE) a = 0"
proof -
  have "load32 (memset m p 0 PGSIZE) a = load32 (\<lambda>_. 0) a"
    by (rule load32_page_cong) (simp_all add: assms memset_page)
  then show ?thesis by (simp add: load32_def)
qed

lemma memmove_page:
  assumes "page_aligned d" "page_aligned s" "unat d + 4096 < 2 ^ 32" "unat s + 4096 < 2 ^ 32"
  shows "memmove m d s PGSIZE x = (if PGROUNDDOWN x = d then m (s + (x - d)) else m x)"
  using assms by (simp add: memmove_eq copied_def page_offset)

section \<open>Lemmas: strings\<close>

text \<open>The characters before the terminator among the first \<open>n\<close> bytes, and a terminated string.\<close>

fun cview :: "mem \<Rightarrow> uint \<Rightarrow> nat \<Rightarrow> uchar list" where
  "cview m p 0 = []"
| "cview m p (Suc n) = (if m p = 0 then [] else m p # cview m (p + 1) n)"

fun is_cstr :: "mem \<Rightarrow> uint \<Rightarrow> uchar list \<Rightarrow> bool" where
  "is_cstr m p [] \<longleftrightarrow> m p = 0"
| "is_cstr m p (c # cs) \<longleftrightarrow> c \<noteq> 0 \<and> m p = c \<and> is_cstr m (p + 1) cs"

lemma length_cview: "length (cview m p n) \<le> n"
  by (induction m p n rule: cview.induct) auto

lemma cview_cong: "(\<And>i. i < n \<Longrightarrow> m (p + of_nat i) = m' (p + of_nat i)) \<Longrightarrow> cview m p n = cview m' p n"
proof (induction n arbitrary: p)
  case 0
  then show ?case by simp
next
  case (Suc n)
  have "m p = m' p" using Suc.prems [of 0] by simp
  moreover have "cview m (p + 1) n = cview m' (p + 1) n"
    by (rule Suc.IH) (use Suc.prems [of "Suc _"] in \<open>simp add: algebra_simps\<close>)
  ultimately show ?case by simp
qed

lemma strlen_from_cstr: "is_cstr m (s + of_nat n) cs \<Longrightarrow> strlen_from m s n = Some (n + length cs)"
proof (induction cs arbitrary: n)
  case Nil
  then show ?case by (simp add: strlen_from.simps [of m s n])
next
  case (Cons c cs)
  then have "is_cstr m (s + of_nat (Suc n)) cs" by (simp add: algebra_simps)
  from Cons.IH [OF this] Cons.prems show ?case by (simp add: strlen_from.simps [of m s n])
qed

lemma strncmp_zero_iff: "strncmp m p q n = 0 \<longleftrightarrow> cview m p n = cview m q n"
  by (induction m p q n rule: strncmp.induct) (auto simp: word_uint_eq_iff)

text \<open>Two regions of \<open>n\<close> bytes with no byte in common.\<close>

definition apart :: "uint \<Rightarrow> uint \<Rightarrow> nat \<Rightarrow> bool" where
  "apart p q n \<longleftrightarrow> (\<forall>i < n. \<forall>j < n. p + of_nat i \<noteq> q + of_nat j)"

lemma apart_Suc:
  assumes "apart p q (Suc n)"
  shows "apart (p + 1) (q + 1) n"
  unfolding apart_def
proof (intro allI impI)
  fix i j assume "i < n" "j < n"
  then have "Suc i < Suc n" "Suc j < Suc n" by simp_all
  with assms have "p + of_nat (Suc i) \<noteq> q + of_nat (Suc j)"
    unfolding apart_def by blast
  then show "p + 1 + of_nat i \<noteq> q + 1 + of_nat j" by (simp add: algebra_simps)
qed

lemma apart_first:
  assumes "apart p q (Suc n)" and "i \<le> n"
  shows "p \<noteq> q + of_nat i"
proof -
  have "0 < Suc n" "i < Suc n" using assms(2) by simp_all
  with assms(1) have "p + of_nat 0 \<noteq> q + of_nat i" unfolding apart_def by blast
  then show ?thesis by simp
qed

lemma safestrcpy_from_frame:
  "n < unat (x - s) \<Longrightarrow> safestrcpy_from m s t n x = m x"
proof (induction n arbitrary: m s t)
  case 0
  then show ?case by auto
next
  case (Suc n)
  have x: "x \<noteq> s" "x \<noteq> s + 1" using Suc.prems by auto
  have "unat ((x - s) - 1) = unat (x - s) - 1" using x by (simp add: unat_minus_one)
  then have "n < unat (x - (s + 1))" using Suc.prems by (simp add: algebra_simps)
  with x Suc.IH show ?case by (simp add: Let_def)
qed

lemma safestrcpy_from_cview:
  assumes "apart s t (Suc n)" and "n < 2 ^ 32 - 1"
  shows "cview (safestrcpy_from m s t n) s (Suc n) = cview m t n"
  using assms
proof (induction n arbitrary: m s t)
  case 0
  then show ?case by simp
next
  case (Suc n)
  let ?m1 = "m(s := m t)"
  show ?case
  proof (cases "m t = 0")
    case True
    then show ?thesis by (simp add: Let_def)
  next
    case False
    have "s - (s + 1) = (0xffffffff :: uint)" by simp
    then have "unat (s - (s + 1)) = 4294967295" by (simp only:) simp
    with Suc.prems(2) have s: "safestrcpy_from ?m1 (s + 1) (t + 1) n s = m t"
      using safestrcpy_from_frame [of n s "s + 1" ?m1 "t + 1"] by simp
    have "cview (safestrcpy_from ?m1 (s + 1) (t + 1) n) (s + 1) (Suc n) = cview ?m1 (t + 1) n"
      by (rule Suc.IH) (use Suc.prems apart_Suc in auto)
    also have "\<dots> = cview m (t + 1) n"
    proof (rule cview_cong)
      fix i assume "i < n"
      with apart_first [OF Suc.prems(1), of "Suc i"] have "s \<noteq> t + 1 + of_nat i"
        by (simp add: algebra_simps)
      then show "?m1 (t + 1 + of_nat i) = m (t + 1 + of_nat i)" by simp
    qed
    finally show ?thesis using False s by (simp add: Let_def)
  qed
qed

section \<open>Properties\<close>

text \<open>C39: \<^verbatim>\<open>memmove\<close> copies correctly also when the two regions overlap: with both regions inside the
  address space, every byte of the destination is the byte the source had before the call, and
  every other byte of memory is unchanged.\<close>

theorem memmove_overlap:
  assumes "unat src + unat n < 2 ^ 32" and "unat dst + unat n < 2 ^ 32"
  shows "memmove m dst src n x =
     (if unat (x - dst) < unat n then m (src + (x - dst)) else m x)"
  by (simp add: memmove_eq [OF assms] copied_def)

theorem memmove_overlap_witness:
  "memmove (\<lambda>a. ucast a) 12 10 6 14 = 12 \<and> memmove (\<lambda>a. ucast a) 10 12 6 14 = 16"
  using memmove_overlap [of 10 6 12 "\<lambda>a. ucast a" 14] memmove_overlap [of 12 6 10 "\<lambda>a. ucast a" 14]
  by simp

text \<open>\<^verbatim>\<open>memset\<close> has the same effect on every memory whether it takes the double-word path or the
  byte path: exactly the \<open>n\<close> bytes from \<open>dst\<close> become the low byte of \<open>c\<close>.\<close>

theorem memset_bytewise:
  "memset m dst c n x = (if unat (x - dst) < unat n then ucast c else m x)"
  by (simp add: memset_eq stosb_def)

text \<open>For a positive \<open>n\<close> and a destination apart from the source, \<^verbatim>\<open>safestrcpy\<close> leaves at the
  destination the source string cut to \<open>n - 1\<close> characters, always terminated within the \<open>n\<close> bytes,
  and touches no byte outside them.\<close>

theorem safestrcpy_terminated:
  assumes "0 < n" and "n < 2 ^ 32" and "apart s t (nat n)"
  shows "cview (safestrcpy m s t n) s (nat n) = cview m t (nat n - 1)
     \<and> length (cview (safestrcpy m s t n) s (nat n)) < nat n
     \<and> (nat n \<le> unat (x - s) \<longrightarrow> safestrcpy m s t n x = m x)"
proof -
  obtain k where k: "nat n = Suc k" using assms(1) by (metis not0_implies_Suc zero_less_nat_eq less_irrefl)
  then have n: "safestrcpy m s t n = safestrcpy_from m s t k" "k < 2 ^ 32 - 1"
    using assms(1,2) by (simp_all add: safestrcpy_def nat_diff_distrib)
  have "cview (safestrcpy_from m s t k) s (Suc k) = cview m t k"
    by (rule safestrcpy_from_cview) (use assms(3) k n(2) in simp_all)
  moreover have "length (cview m t k) \<le> k" by (rule length_cview)
  moreover have "Suc k \<le> unat (x - s) \<longrightarrow> safestrcpy_from m s t k x = m x"
    using safestrcpy_from_frame by simp
  ultimately show ?thesis using k n(1) by simp
qed

theorem safestrcpy_terminated_witness:
  "cview (safestrcpy (\<lambda>a. if a < 105 then ucast a else 0) 200 100 4) 200 4 = [100, 101, 102]"
proof -
  let ?m = "\<lambda>a :: uint. if a < 105 then ucast a else 0 :: uchar"
  have lt: "i < 4 \<longleftrightarrow> i = 0 \<or> i = 1 \<or> i = 2 \<or> i = 3" for i :: nat by auto
  have "apart 200 100 (nat 4)" unfolding apart_def by (auto simp: lt)
  from safestrcpy_terminated [OF _ _ this, of ?m 0]
  have "cview (safestrcpy ?m 200 100 4) 200 4 = cview ?m 100 3" by simp
  also have "\<dots> = [100, 101, 102]" by (simp add: numeral_3_eq_3)
  finally show ?thesis .
qed

end
