(* ===== verification/Kalloc.thy ===== *)
theory Kalloc
  imports Spinlock Memory
begin

text \<open>
  The physical page allocator (\<^verbatim>\<open>kalloc.c\<close>). Free pages form a list threaded through the pages
  themselves: the first word of a free page is the address of the next one. The state extends the
  executing CPU's view with the contents of memory, addressed by kernel virtual addresses, and the
  allocator's own variables. The theorems relate the threaded list to an abstract stack of pages.
\<close>

section \<open>State and operations\<close>

record kmem = kbase +
  ram :: mem
  use_lock :: int
  freelist :: uint
  kend :: uint         \<comment> \<open>the linker's symbol \<^verbatim>\<open>end\<close>\<close>

definition kfree :: "uint \<Rightarrow> 'a kmem_scheme \<Rightarrow> (unit, 'a kmem_scheme) outcome" where
  "kfree v s0 =
     (if v mod PGSIZE \<noteq> 0 \<or> v < kend s0 \<or> v2p v \<ge> PHYSTOP then Panic ''kfree''
      else
        (kseq (kmod (\<lambda>s. s\<lparr>ram := memset (ram s) v 1 PGSIZE\<rparr>))
        (kseq (\<lambda>s. kwhen (use_lock s \<noteq> 0) (acquire L_kmem) s)
        (kseq (kmod (\<lambda>s. s\<lparr>ram := store32 (ram s) v (freelist s)\<rparr>))
        (kseq (kmod (\<lambda>s. s\<lparr>freelist := v\<rparr>))
              (\<lambda>s. kwhen (use_lock s \<noteq> 0) (release L_kmem) s))))) s0)"

definition kalloc :: "'a kmem_scheme \<Rightarrow> (uint, 'a kmem_scheme) outcome" where
  "kalloc =
     kseq (\<lambda>s. kwhen (use_lock s \<noteq> 0) (acquire L_kmem) s)
     (kbind (kget freelist) (\<lambda>r.
      kseq (kwhen (r \<noteq> 0) (kmod (\<lambda>s. s\<lparr>freelist := load32 (ram s) r\<rparr>)))
     (kseq (\<lambda>s. kwhen (use_lock s \<noteq> 0) (release L_kmem) s)
      (kret r))))"

text \<open>The loop of \<^verbatim>\<open>freerange\<close>: its variable is \<open>p\<close>.\<close>

definition freerange_body :: "uint \<Rightarrow> uint \<Rightarrow> 'a kmem_scheme \<Rightarrow> (uint + unit, 'a kmem_scheme) outcome" where
  "freerange_body vend p =
     (if p + PGSIZE \<le> vend then kseq (kfree p) (kret (Inl (p + PGSIZE))) else kret (Inr ()))"

definition freerange :: "uint \<Rightarrow> uint \<Rightarrow> 'a kmem_scheme \<Rightarrow> (unit, 'a kmem_scheme) outcome" where
  "freerange vstart vend =
     (let p = PGROUNDUP vstart
      in kloop (Suc (unat (vend - p) div 4096)) (freerange_body vend) p)"

definition kinit1 :: "uint \<Rightarrow> uint \<Rightarrow> 'a kmem_scheme \<Rightarrow> (unit, 'a kmem_scheme) outcome" where
  "kinit1 vstart vend =
     kseq (initlock L_kmem) (kseq (kmod (\<lambda>s. s\<lparr>use_lock := 0\<rparr>)) (freerange vstart vend))"

definition kinit2 :: "uint \<Rightarrow> uint \<Rightarrow> 'a kmem_scheme \<Rightarrow> (unit, 'a kmem_scheme) outcome" where
  "kinit2 vstart vend = kseq (freerange vstart vend) (kmod (\<lambda>s. s\<lparr>use_lock := 1\<rparr>))"

section \<open>The free list\<close>

fun free_chain :: "mem \<Rightarrow> uint \<Rightarrow> uint list \<Rightarrow> bool" where
  "free_chain m h [] \<longleftrightarrow> h = 0"
| "free_chain m h (p # ps) \<longleftrightarrow> h = p \<and> p \<noteq> 0 \<and> free_chain m (load32 m p) ps"

text \<open>The pages the allocator manages.\<close>

definition page_ok :: "uint \<Rightarrow> uint \<Rightarrow> bool" where
  "page_ok e p \<longleftrightarrow> p mod PGSIZE = 0 \<and> e \<le> p \<and> v2p p < PHYSTOP"

definition kmem_inv :: "'a kmem_scheme \<Rightarrow> uint list \<Rightarrow> bool" where
  "kmem_inv s ps \<longleftrightarrow> KERNBASE \<le> kend s \<and> free_chain (ram s) (freelist s) ps \<and> distinct ps
     \<and> (\<forall>p \<in> set ps. page_ok (kend s) p) \<and> (use_lock s \<noteq> 0 \<longrightarrow> L_kmem \<notin> held s)"

section \<open>The allocator interface\<close>

locale page_allocator =
  fixes alloc :: "'s \<Rightarrow> (uint, 's) outcome"
    and free :: "uint \<Rightarrow> 's \<Rightarrow> (unit, 's) outcome"
    and inv :: "'s \<Rightarrow> uint list \<Rightarrow> bool"
    and managed :: "'s \<Rightarrow> uint \<Rightarrow> bool"
  assumes alloc_page: "inv s (p # ps) \<Longrightarrow> \<exists>t. alloc s = Done p t \<and> inv t ps \<and> managed t = managed s"
    and alloc_empty: "inv s [] \<Longrightarrow> \<exists>t. alloc s = Done 0 t \<and> inv t [] \<and> managed t = managed s"
    and free_page: "inv s ps \<Longrightarrow> managed s p \<Longrightarrow> p \<notin> set ps
          \<Longrightarrow> \<exists>t. free p s = Done () t \<and> inv t (p # ps) \<and> managed t = managed s"
    and inv_distinct: "inv s ps \<Longrightarrow> distinct ps"
    and inv_managed: "inv s ps \<Longrightarrow> p \<in> set ps \<Longrightarrow> managed s p"
    and null_unmanaged: "\<not> managed s 0"
begin

lemma alloc_zero_iff:
  assumes "inv s ps" and "alloc s = Done p t"
  shows "p = 0 \<longleftrightarrow> ps = []"
proof (cases ps)
  case Nil
  with assms alloc_empty show ?thesis by fastforce
next
  case (Cons q qs)
  with assms alloc_page have "p = q" by fastforce
  with Cons inv_managed [OF assms(1), of q] null_unmanaged show ?thesis by auto
qed

lemma free_then_alloc:
  assumes "inv s ps" and "managed s p" and "p \<notin> set ps"
  shows "\<exists>t. kseq (free p) alloc s = Done p t \<and> inv t ps"
proof -
  obtain u where "free p s = Done () u" "inv u (p # ps)" using free_page [OF assms] by auto
  with alloc_page [of u p ps] show ?thesis by auto
qed

text \<open>\<open>n\<close> allocations in a row hand out \<open>n\<close> different pages, the first \<open>n\<close> of the stack.\<close>

fun alloc_n :: "nat \<Rightarrow> 's \<Rightarrow> (uint list, 's) outcome" where
  "alloc_n 0 = kret []"
| "alloc_n (Suc n) = kbind alloc (\<lambda>p. kbind (alloc_n n) (\<lambda>ps. kret (p # ps)))"

lemma alloc_n_take:
  assumes "inv s ps" and "n \<le> length ps"
  shows "\<exists>t. alloc_n n s = Done (take n ps) t \<and> inv t (drop n ps)"
  using assms
proof (induction n arbitrary: s ps)
  case 0
  then show ?case by simp
next
  case (Suc n)
  then obtain p qs where ps: "ps = p # qs" by (cases ps) auto
  with Suc.prems(1) alloc_page obtain u where u: "alloc s = Done p u" "inv u qs" by fastforce
  from Suc.IH [OF u(2)] ps Suc.prems(2) u(1) show ?case by auto
qed

end

section \<open>Lemmas\<close>

lemma kbase_held_same [simp]: "s\<lparr>held := held s\<rparr> = s"
  by (cases s) simp

lemma kmem_same [simp]: "s\<lparr>ram := ram s, freelist := freelist s\<rparr> = s"
  by (cases s) simp

lemma page_ok_aligned: "page_ok e p \<Longrightarrow> page_aligned p"
  by (simp add: page_ok_def page_aligned_mod)

lemma page_ok_nonnull: "page_ok e p \<Longrightarrow> KERNBASE \<le> e \<Longrightarrow> p \<noteq> 0"
  by (auto simp: page_ok_def)

lemma page_ok_below:
  assumes "page_ok e p" and "KERNBASE \<le> e"
  shows "unat p + 4096 < 2 ^ 32"
proof -
  have "KERNBASE \<le> p" using assms by (auto simp: page_ok_def)
  then have "unat (v2p p) = unat p - unat KERNBASE" unfolding v2p_def by (rule unat_sub)
  moreover have "unat (v2p p) < unat PHYSTOP"
    using assms(1) by (simp only: page_ok_def word_less_nat_alt)
  ultimately show ?thesis by simp
qed

lemma kmem_invD:
  assumes "kmem_inv s ps"
  shows "KERNBASE \<le> kend s" "free_chain (ram s) (freelist s) ps" "distinct ps"
    "p \<in> set ps \<Longrightarrow> page_ok (kend s) p" "use_lock s \<noteq> 0 \<Longrightarrow> L_kmem \<notin> held s"
  using assms by (simp_all add: kmem_inv_def)

lemma free_chain_cong:
  assumes "\<And>p. p \<in> set ps \<Longrightarrow> load32 m p = load32 m' p"
  shows "free_chain m h ps \<longleftrightarrow> free_chain m' h ps"
  using assms by (induction ps arbitrary: h) auto

text \<open>Writing inside pages that are not free keeps the list.\<close>

lemma free_chain_frame:
  assumes "free_chain m h ps" and "\<And>p. p \<in> set ps \<Longrightarrow> page_aligned p"
    and "\<And>p x. p \<in> set ps \<Longrightarrow> PGROUNDDOWN x = p \<Longrightarrow> m' x = m x"
  shows "free_chain m' h ps"
proof -
  have "load32 m p = load32 m' p" if "p \<in> set ps" for p
  proof (rule load32_page_cong)
    show "p mod 4 = 0" using table_entry(1) [OF assms(2) [OF that], of 0] by simp
    fix x assume "PGROUNDDOWN x = PGROUNDDOWN p"
    with assms(2,3) that show "m x = m' x" by simp
  qed
  with assms(1) free_chain_cong [of ps m m'] show ?thesis by simp
qed

lemma kfree_run:
  assumes "page_ok (kend s) v" and "use_lock s \<noteq> 0 \<Longrightarrow> L_kmem \<notin> held s"
  shows "kfree v s = Done () (s\<lparr>ram := store32 (memset (ram s) v 1 PGSIZE) v (freelist s), freelist := v\<rparr>)"
proof -
  have "\<not> (v mod PGSIZE \<noteq> 0 \<or> v < kend s \<or> v2p v \<ge> PHYSTOP)"
    using assms(1) by (auto simp: page_ok_def)
  with assms(2) show ?thesis
    by (cases "use_lock s = 0") (cases s, simp add: kfree_def)+
qed

lemma kfree_panics:
  assumes "\<not> page_ok (kend s) v"
  shows "kfree v s = Panic ''kfree''"
proof -
  have "v mod PGSIZE \<noteq> 0 \<or> v < kend s \<or> v2p v \<ge> PHYSTOP"
    using assms unfolding page_ok_def by (meson not_le)
  then show ?thesis by (simp only: kfree_def if_True)
qed

lemma kalloc_run:
  assumes "use_lock s \<noteq> 0 \<Longrightarrow> L_kmem \<notin> held s"
  shows "kalloc s = Done (freelist s)
     (if freelist s = 0 then s else s\<lparr>freelist := load32 (ram s) (freelist s)\<rparr>)"
  using assms by (cases "use_lock s = 0"; cases "freelist s = 0") (cases s, simp add: kalloc_def)+

lemma kalloc_inv:
  assumes "kmem_inv s ps"
  shows "kalloc s = Done (case ps of [] \<Rightarrow> 0 | p # _ \<Rightarrow> p)
           (case ps of [] \<Rightarrow> s | p # _ \<Rightarrow> s\<lparr>freelist := load32 (ram s) p\<rparr>)"
    and "\<exists>t. kalloc s = Done (case ps of [] \<Rightarrow> 0 | p # _ \<Rightarrow> p) t \<and> kmem_inv t (tl ps)"
  using assms kalloc_run [of s]
  by (auto simp: kmem_inv_def split: list.splits)

lemma kfree_inv:
  assumes inv: "kmem_inv s ps" and v: "page_ok (kend s) v" "v \<notin> set ps"
    and t: "kfree v s = Done () t"
  shows "kmem_inv t (v # ps)"
proof -
  note I = kmem_invD [OF inv]
  have al: "page_aligned v" using v(1) by (rule page_ok_aligned)
  then have v4: "v mod 4 = 0" using table_entry(1) [of v 0] by simp
  have t': "t = s\<lparr>ram := store32 (memset (ram s) v 1 PGSIZE) v (freelist s), freelist := v\<rparr>"
    using t kfree_run [OF v(1) I(5)] by simp
  have frame: "ram t x = ram s x" if "PGROUNDDOWN x \<noteq> v" for x
    using that al by (simp add: t' store32_page [OF v4] memset_page)
  have "free_chain (ram t) (freelist s) ps"
  proof (rule free_chain_frame [OF I(2)])
    fix p x assume "p \<in> set ps" "PGROUNDDOWN x = p"
    with v(2) have "PGROUNDDOWN x \<noteq> v" by blast
    then show "ram t x = ram s x" by (rule frame)
  qed (use I(4) page_ok_aligned in blast)
  with I v page_ok_nonnull [OF v(1) I(1)] show ?thesis by (auto simp: kmem_inv_def t')
qed

interpretation kpages: page_allocator kalloc kfree kmem_inv
    "\<lambda>s p. KERNBASE \<le> kend s \<and> page_ok (kend s) p"
proof unfold_locales
  fix s :: "'a kmem_scheme" and p ps
  show "kmem_inv s (p # ps) \<Longrightarrow> \<exists>t. kalloc s = Done p t \<and> kmem_inv t ps
      \<and> (\<lambda>p. KERNBASE \<le> kend t \<and> page_ok (kend t) p) = (\<lambda>p. KERNBASE \<le> kend s \<and> page_ok (kend s) p)"
    using kalloc_inv [of s "p # ps"] by auto
  show "kmem_inv s [] \<Longrightarrow> \<exists>t. kalloc s = Done 0 t \<and> kmem_inv t []
      \<and> (\<lambda>p. KERNBASE \<le> kend t \<and> page_ok (kend t) p) = (\<lambda>p. KERNBASE \<le> kend s \<and> page_ok (kend s) p)"
    using kalloc_inv [of s "[]"] by auto
  show "\<exists>t. kfree p s = Done () t \<and> kmem_inv t (p # ps)
      \<and> (\<lambda>p. KERNBASE \<le> kend t \<and> page_ok (kend t) p) = (\<lambda>p. KERNBASE \<le> kend s \<and> page_ok (kend s) p)"
    if "kmem_inv s ps" "KERNBASE \<le> kend s \<and> page_ok (kend s) p" "p \<notin> set ps"
    using kfree_inv [OF that(1) _ that(3)] kfree_run [of s p] kmem_invD(5) [OF that(1)] that(2) by auto
  show "kmem_inv s ps \<Longrightarrow> distinct ps" by (rule kmem_invD)
  show "kmem_inv s ps \<Longrightarrow> p \<in> set ps \<Longrightarrow> KERNBASE \<le> kend s \<and> page_ok (kend s) p"
    using kmem_invD(1,4) by blast
  show "\<not> (KERNBASE \<le> kend s \<and> page_ok (kend s) 0)"
    using page_ok_nonnull by blast
qed

section \<open>Filling the allocator\<close>

text \<open>\<open>n\<close> consecutive pages from \<open>p\<close>.\<close>

fun page_range :: "uint \<Rightarrow> nat \<Rightarrow> uint list" where
  "page_range p 0 = []"
| "page_range p (Suc n) = p # page_range (p + PGSIZE) n"

lemma unat_next_page: "unat p + 4096 < 2 ^ 32 \<Longrightarrow> unat (p + PGSIZE) = unat p + 4096"
  by (simp add: unat_word_ariths)

lemma page_range_ge:
  "q \<in> set (page_range p n) \<Longrightarrow> unat p + 4096 * n < 2 ^ 32 \<Longrightarrow> unat p \<le> unat q"
proof (induction n arbitrary: p)
  case 0
  then show ?case by simp
next
  case (Suc n)
  then have np: "unat (p + PGSIZE) = unat p + 4096" by (intro unat_next_page) simp
  show ?case
  proof (cases "q = p")
    case False
    with Suc.prems np have "unat (p + PGSIZE) \<le> unat q" by (intro Suc.IH) auto
    with np show ?thesis by simp
  qed simp
qed

lemma freerange_loop:
  assumes "kmem_inv s ps" "page_aligned p" "kend s \<le> p" "vend \<le> p2v PHYSTOP"
    and "unat p + 4096 * n \<le> unat vend" "unat vend < unat p + 4096 * Suc n"
    and "set (page_range p n) \<inter> set ps = {}"
  shows "\<exists>t. kloop (Suc n) (freerange_body vend) p s = Done () t
           \<and> kmem_inv t (rev (page_range p n) @ ps) \<and> t = s\<lparr>ram := ram t, freelist := freelist t\<rparr>"
  using assms
proof (induction n arbitrary: p s ps)
  case 0
  have "unat vend < 2 ^ 32 - 4096" using 0(4) by (simp add: p2v_def word_le_nat_alt)
  with 0 have "unat (p + PGSIZE) = unat p + 4096" by (intro unat_next_page) simp
  with 0 have "\<not> p + PGSIZE \<le> vend" by (simp add: word_le_nat_alt)
  with 0 show ?case by (simp add: freerange_body_def)
next
  case (Suc n)
  have vend: "unat vend \<le> 0x8E000000" using Suc.prems(4) by (simp add: p2v_def word_le_nat_alt)
  with Suc.prems(5) have next_p: "unat (p + PGSIZE) = unat p + 4096" by (intro unat_next_page) simp
  have I: "KERNBASE \<le> kend s" using Suc.prems(1) by (rule kmem_invD)
  then have pk: "KERNBASE \<le> p" using Suc.prems(3) by (rule order_trans)
  then have "unat (v2p p) = unat p - unat KERNBASE" unfolding v2p_def by (rule unat_sub)
  with Suc.prems(5) vend have "v2p p < PHYSTOP" by (simp add: word_less_nat_alt)
  with Suc.prems(2,3) have pok: "page_ok (kend s) p" by (simp add: page_ok_def page_aligned_mod)
  with Suc.prems(7) Suc.prems(1) obtain u where u: "kfree p s = Done () u" "kmem_inv u (p # ps)"
    using kpages.free_page [of s ps p] I by auto
  have us: "u = s\<lparr>ram := ram u, freelist := freelist u\<rparr>"
    using u(1) kfree_run [OF pok kmem_invD(5) [OF Suc.prems(1)]] by auto
  then have ku: "kend u = kend s" by (metis kmem.select_convs(4) kmem.update_convs(1,3) kmem.surjective)
  have fresh: "p \<notin> set (page_range (p + PGSIZE) n)"
    using page_range_ge [of p "p + PGSIZE" n] next_p Suc.prems(5) vend by auto
  have "\<exists>t. kloop (Suc n) (freerange_body vend) (p + PGSIZE) u = Done () t
      \<and> kmem_inv t (rev (page_range (p + PGSIZE) n) @ p # ps) \<and> t = u\<lparr>ram := ram t, freelist := freelist t\<rparr>"
  proof (rule Suc.IH [OF u(2)])
    show "kend u \<le> p + PGSIZE" using Suc.prems(3) ku next_p by (simp add: word_le_nat_alt)
  qed (use Suc.prems(2,4,5,6,7) next_p fresh page_aligned_add in auto)
  moreover have "p + PGSIZE \<le> vend" using next_p Suc.prems(5) by (simp add: word_le_nat_alt)
  then have "freerange_body vend p s = Done (Inl (p + PGSIZE)) u"
    using u(1) by (simp add: freerange_body_def)
  moreover have "t = s\<lparr>ram := ram t, freelist := freelist t\<rparr>" if "t = u\<lparr>ram := ram t, freelist := freelist t\<rparr>" for t
    by (subst that, subst us) simp
  ultimately show ?case by (simp only: kloop_step) auto
qed

lemma freerange_run:
  assumes inv: "kmem_inv s ps" and start: "kend s \<le> vstart" "vstart \<le> vend" "vend \<le> p2v PHYSTOP"
    and room: "PGROUNDUP vstart \<le> vend"
    and n: "n = (unat vend - unat (PGROUNDUP vstart)) div 4096"
    and fresh: "set (page_range (PGROUNDUP vstart) n) \<inter> set ps = {}"
  shows "\<exists>t. freerange vstart vend s = Done () t
           \<and> kmem_inv t (rev (page_range (PGROUNDUP vstart) n) @ ps)
           \<and> t = s\<lparr>ram := ram t, freelist := freelist t\<rparr>"
proof -
  let ?p = "PGROUNDUP vstart"
  have "unat vend \<le> 0x8E000000" using start(3) by (simp add: p2v_def word_le_nat_alt)
  moreover have "unat vstart \<le> unat vend" using start(2) by (simp add: word_le_nat_alt)
  ultimately have "unat ?p = (unat vstart + 4095) div 4096 * 4096" by (simp add: unat_PGROUNDUP)
  then have "unat vstart \<le> unat ?p" by linarith
  with start(1) have "kend s \<le> ?p" by (simp add: word_le_nat_alt)
  moreover have "unat (vend - ?p) = unat vend - unat ?p" using room by (rule unat_sub)
  moreover have "unat ?p \<le> unat vend" using room by (simp add: word_le_nat_alt)
  then have "unat ?p + 4096 * n \<le> unat vend" "unat vend < unat ?p + 4096 * Suc n"
    unfolding n using div_mult_mod_eq [of "unat vend - unat ?p" 4096]
      dividend_less_div_times [of 4096 "unat vend - unat ?p"] by simp_all
  ultimately show ?thesis
    unfolding freerange_def Let_def
    using freerange_loop [OF inv _ _ start(3) _ _ fresh] n by simp
qed

section \<open>Properties\<close>

text \<open>C9: the page allocator implements a stack of pages. While its free list is the chain of the
  distinct pages \<open>ps\<close>, \<^verbatim>\<open>kalloc\<close> returns the top page, or 0 when there is none, and changes no byte of
  memory; \<^verbatim>\<open>kfree\<close> of a managed page that is not free pushes it and changes bytes of that page only;
  \<^verbatim>\<open>kfree\<close> of an address that is not page aligned, lies below the end of the kernel or lies at or above
  \<^verbatim>\<open>PHYSTOP\<close> panics. Both keep the free list well formed. Freeing a page that is on the free list already is
  outside this contract: the code does not detect it.\<close>

theorem allocator_refines_stack:
  assumes inv: "kmem_inv s ps"
  shows "(\<exists>t. kalloc s = Done (if ps = [] then 0 else hd ps) t \<and> kmem_inv t (tl ps) \<and> ram t = ram s)
    \<and> (if page_ok (kend s) p
       then p \<notin> set ps \<longrightarrow> (\<exists>t. kfree p s = Done () t \<and> kmem_inv t (p # ps)
                \<and> (\<forall>x. PGROUNDDOWN x \<noteq> p \<longrightarrow> ram t x = ram s x))
       else kfree p s = Panic ''kfree'')"
proof (rule conjI)
  show "\<exists>t. kalloc s = Done (if ps = [] then 0 else hd ps) t \<and> kmem_inv t (tl ps) \<and> ram t = ram s"
    using kalloc_inv [OF inv] by (cases ps) auto
  show "if page_ok (kend s) p
         then p \<notin> set ps \<longrightarrow> (\<exists>t. kfree p s = Done () t \<and> kmem_inv t (p # ps)
                \<and> (\<forall>x. PGROUNDDOWN x \<noteq> p \<longrightarrow> ram t x = ram s x))
         else kfree p s = Panic ''kfree''"
  proof (cases "page_ok (kend s) p")
    case True
    then have al: "page_aligned p" by (rule page_ok_aligned)
    then have p4: "p mod 4 = 0" using table_entry(1) [of p 0] by simp
    have "ram s x = store32 (memset (ram s) p 1 PGSIZE) p (freelist s) x" if "PGROUNDDOWN x \<noteq> p" for x
      using that al by (simp add: store32_page [OF p4] memset_page)
    with True kfree_run [OF True kmem_invD(5) [OF inv]] kfree_inv [OF inv True] show ?thesis
      by simp
  next
    case False
    then show ?thesis by (simp add: kfree_panics)
  qed
qed

definition kmem_empty :: kmem where
  "kmem_empty = \<lparr>held = {}, ram = (\<lambda>_. 0), use_lock = 1, freelist = 0, kend = 0x80110000\<rparr>"

theorem allocator_refines_stack_witness:
  "(\<exists>t. kalloc kmem_empty = Done 0 t) \<and> (\<exists>t. kfree 0x80200000 kmem_empty = Done () t \<and> kmem_inv t [0x80200000])
   \<and> kfree 0x80200001 kmem_empty = Panic ''kfree''"
proof -
  have inv: "kmem_inv kmem_empty []" by (simp add: kmem_inv_def kmem_empty_def)
  have "page_ok (kend kmem_empty) 0x80200000" "\<not> page_ok (kend kmem_empty) 0x80200001"
    unfolding page_ok_def kmem_empty_def by (simp_all add: v2p_def)
  with allocator_refines_stack [OF inv, of "0x80200000"] allocator_refines_stack [OF inv, of "0x80200001"]
  show ?thesis by auto
qed

text \<open>C34: \<^verbatim>\<open>kinit1\<close> over a range of kernel addresses terminates and leaves on the free list exactly the
  whole pages of that range, each once, last page first.\<close>

theorem kinit1_fills:
  assumes "freelist s = 0" and "KERNBASE \<le> kend s" "kend s \<le> vstart" "vstart \<le> vend"
    and "vend \<le> p2v PHYSTOP" and "PGROUNDUP vstart \<le> vend"
  shows "\<exists>t. kinit1 vstart vend s = Done () t
           \<and> kmem_inv t (rev (page_range (PGROUNDUP vstart) ((unat vend - unat (PGROUNDUP vstart)) div 4096)))"
proof -
  let ?s = "s\<lparr>held := held s - {L_kmem}, use_lock := 0\<rparr>"
  have "kmem_inv ?s []" using assms(1,2) by (simp add: kmem_inv_def)
  from freerange_run [OF this _ assms(4,5,6) refl] assms(3) show ?thesis
    by (auto simp: kinit1_def)
qed

theorem kinit1_fills_witness:
  "\<exists>t. kinit1 0x80110001 0x80113000 kmem_empty = Done () t \<and> kmem_inv t [0x80112000, 0x80111000]"
proof -
  have "PGROUNDUP 0x80110001 = 0x80111000" by (simp add: PGROUNDUP_def)
  moreover have "page_range 0x80111000 2 = [0x80111000, 0x80112000]"
    by (simp only: numeral_2_eq_2 page_range.simps) simp
  ultimately show ?thesis
    using kinit1_fills [of kmem_empty "0x80110001" "0x80113000"] by (simp add: kmem_empty_def p2v_def)
qed

end
