(* ===== verification/Vm.thy ===== *)
theory Vm
  imports Kalloc
begin

text \<open>
  Page tables (\<^verbatim>\<open>vm.c\<close>): the two-level x86 tables live in the pages of the allocator, so the routines
  read and write them through memory. \<open>pte_at\<close> is the abstract view, the entry a virtual address has
  in a page directory; the lemmas say what each routine does to it, that it keeps the tables apart
  from each other and from the free pages, and that memory outside the tables is left alone. The
  routines that need the process table (\<^verbatim>\<open>switchuvm\<close>, the two copy-on-write entry points) are in
  the theory Cow, \<^verbatim>\<open>loaduvm\<close> is in the theory Exec.
\<close>

section \<open>State\<close>

record vm = kmem +
  page_counters :: "nat \<Rightarrow> int"   \<comment> \<open>entries 0 to \<^verbatim>\<open>PHYSTOP/PGSIZE - 1\<close>\<close>
  kpgdir :: uint
  kdata :: uint                   \<comment> \<open>the linker's symbol \<^verbatim>\<open>data\<close>\<close>
  gdt :: "segdesc list"           \<comment> \<open>of the executing CPU\<close>
  ts_addr :: uint                 \<comment> \<open>address of its task-state segment\<close>
  ts_ss0 :: uint
  ts_esp0 :: uint
  cr2 :: uint
  cr3 :: uint

definition PA_INX :: "uint \<Rightarrow> nat" where
  "PA_INX pa = unat (drop_bit 12 pa)"

text \<open>An access to \<^verbatim>\<open>page_counters\<close> outside the array is a fault.\<close>

abbreviation (input) NPAGES :: nat where "NPAGES \<equiv> 57344"

definition get_counter :: "uint \<Rightarrow> 'a vm_scheme \<Rightarrow> (int, 'a vm_scheme) outcome" where
  "get_counter pa s = (if PA_INX pa < NPAGES then Done (page_counters s (PA_INX pa)) s
                       else Fault ''page_counters'')"

definition set_counter :: "uint \<Rightarrow> int \<Rightarrow> 'a vm_scheme \<Rightarrow> (unit, 'a vm_scheme) outcome" where
  "set_counter pa c s = (if PA_INX pa < NPAGES then Done () (s\<lparr>page_counters := (page_counters s)(PA_INX pa := c)\<rparr>)
                         else Fault ''page_counters'')"

definition store_word :: "uint \<Rightarrow> uint \<Rightarrow> 'a kmem_scheme \<Rightarrow> (unit, 'a kmem_scheme) outcome" where
  "store_word a v = kmod (\<lambda>s. s\<lparr>ram := store32 (ram s) a v\<rparr>)"

definition fill_page :: "uint \<Rightarrow> uint \<Rightarrow> 'a kmem_scheme \<Rightarrow> (unit, 'a kmem_scheme) outcome" where
  "fill_page p c = kmod (\<lambda>s. s\<lparr>ram := memset (ram s) p c PGSIZE\<rparr>)"

section \<open>Segments\<close>

text \<open>\<open>cpu_addr\<close> is the address of the executing CPU's \<^verbatim>\<open>c->cpu\<close>. Loading the descriptor table and
  \<^verbatim>\<open>%gs\<close> does not change memory.\<close>

definition seginit :: "uint \<Rightarrow> 'a vm_scheme \<Rightarrow> (unit, 'a vm_scheme) outcome" where
  "seginit cpu_addr =
     kseq (initlock L_pgcount)
     (kseq (kmod (\<lambda>s. s\<lparr>gdt := (gdt s)[unat SEG_KCODE := SEG (STA_X OR STA_R) 0 0xffffffff 0]\<rparr>))
     (kseq (kmod (\<lambda>s. s\<lparr>gdt := (gdt s)[unat SEG_KDATA := SEG STA_W 0 0xffffffff 0]\<rparr>))
     (kseq (kmod (\<lambda>s. s\<lparr>gdt := (gdt s)[unat SEG_UCODE := SEG (STA_X OR STA_R) 0 0xffffffff DPL_USER]\<rparr>))
     (kseq (kmod (\<lambda>s. s\<lparr>gdt := (gdt s)[unat SEG_UDATA := SEG STA_W 0 0xffffffff DPL_USER]\<rparr>))
           (kmod (\<lambda>s. s\<lparr>gdt := (gdt s)[unat SEG_KCPU := SEG STA_W cpu_addr 12 0]\<rparr>))))))"

section \<open>Walking and mapping\<close>

definition walkpgdir :: "uint \<Rightarrow> uint \<Rightarrow> bool \<Rightarrow> 'a kmem_scheme \<Rightarrow> (uint option, 'a kmem_scheme) outcome" where
  "walkpgdir pgdir va alloc =
     kbind (kget (\<lambda>s. load32 (ram s) (pgdir + 4 * PDX va))) (\<lambda>pde.
       if pde AND PTE_P \<noteq> 0 then kret (Some (p2v (PTE_ADDR pde) + 4 * PTX va))
       else if \<not> alloc then kret None
       else kbind kalloc (\<lambda>pgtab.
         if pgtab = 0 then kret None
         else kseq (fill_page pgtab 0)
             (kseq (store_word (pgdir + 4 * PDX va) (v2p pgtab OR PTE_P OR PTE_W OR PTE_U))
                   (kret (Some (pgtab + 4 * PTX va))))))"

text \<open>The loop variables of \<^verbatim>\<open>mappages\<close> are \<open>a\<close> and \<open>pa\<close>; it runs once for each page from the first
  to the last.\<close>

definition mappages_body :: "uint \<Rightarrow> uint \<Rightarrow> uint \<Rightarrow> uint \<times> uint \<Rightarrow> 'a kmem_scheme
    \<Rightarrow> ((uint \<times> uint) + int, 'a kmem_scheme) outcome" where
  "mappages_body pgdir last_a perm = (\<lambda>(a, pa).
     kbind (walkpgdir pgdir a True) (\<lambda>r. case r of
       None \<Rightarrow> kret (Inr (-1))
     | Some pte \<Rightarrow> kbind (kget (\<lambda>s. load32 (ram s) pte)) (\<lambda>old.
         if old AND PTE_P \<noteq> 0 then kpanic ''remap''
         else kseq (store_word pte (pa OR perm OR PTE_P))
                   (kret (if a = last_a then Inr 0 else Inl (a + PGSIZE, pa + PGSIZE))))))"

definition mappages :: "uint \<Rightarrow> uint \<Rightarrow> uint \<Rightarrow> uint \<Rightarrow> uint \<Rightarrow> 'a kmem_scheme \<Rightarrow> (int, 'a kmem_scheme) outcome" where
  "mappages pgdir va sz pa perm =
     (let a = PGROUNDDOWN va; last_a = PGROUNDDOWN (va + sz - 1)
      in kloop (Suc (unat (last_a - a) div 4096)) (mappages_body pgdir last_a perm) (a, pa))"

record kmap =
  virt :: uint
  phys_start :: uint
  phys_end :: uint
  km_perm :: uint

definition kmap_table :: "uint \<Rightarrow> kmap list" where
  "kmap_table data =
     [\<lparr>virt = KERNBASE, phys_start = 0, phys_end = EXTMEM, km_perm = PTE_W\<rparr>,
      \<lparr>virt = KERNLINK, phys_start = v2p KERNLINK, phys_end = v2p data, km_perm = 0\<rparr>,
      \<lparr>virt = data, phys_start = v2p data, phys_end = PHYSTOP, km_perm = PTE_W\<rparr>,
      \<lparr>virt = DEVSPACE, phys_start = DEVSPACE, phys_end = 0, km_perm = PTE_W\<rparr>]"

fun map_kmap :: "uint \<Rightarrow> kmap list \<Rightarrow> 'a kmem_scheme \<Rightarrow> (int, 'a kmem_scheme) outcome" where
  "map_kmap pgdir [] = kret 0"
| "map_kmap pgdir (k # ks) =
     kbind (mappages pgdir (virt k) (phys_end k - phys_start k) (phys_start k) (km_perm k)) (\<lambda>r.
       if r < 0 then kret (-1) else map_kmap pgdir ks)"

text \<open>A null pointer is the address 0.\<close>

definition setupkvm :: "'a vm_scheme \<Rightarrow> (uint, 'a vm_scheme) outcome" where
  "setupkvm =
     kbind kalloc (\<lambda>pgdir.
       if pgdir = 0 then kret 0
       else kseq (fill_page pgdir 0)
         (if p2v PHYSTOP > DEVSPACE then kpanic ''PHYSTOP too high''
          else kbind (kget kdata) (\<lambda>data.
            kbind (map_kmap pgdir (kmap_table data)) (\<lambda>r.
              kret (if r < 0 then 0 else pgdir)))))"

definition switchkvm :: "'a vm_scheme \<Rightarrow> (unit, 'a vm_scheme) outcome" where
  "switchkvm = kmod (\<lambda>s. s\<lparr>cr3 := v2p (kpgdir s)\<rparr>)"

definition kvmalloc :: "'a vm_scheme \<Rightarrow> (unit, 'a vm_scheme) outcome" where
  "kvmalloc = kbind setupkvm (\<lambda>d. kseq (kmod (\<lambda>s. s\<lparr>kpgdir := d\<rparr>)) switchkvm)"

section \<open>User memory\<close>

definition inituvm :: "uint \<Rightarrow> uint \<Rightarrow> uint \<Rightarrow> 'a vm_scheme \<Rightarrow> (unit, 'a vm_scheme) outcome" where
  "inituvm pgdir init sz =
     (if sz \<ge> PGSIZE then kpanic ''inituvm: more than a page''
      else kbind kalloc (\<lambda>m.
        kseq (fill_page m 0)
        (kbind (mappages pgdir 0 PGSIZE (v2p m) (PTE_W OR PTE_U)) (\<lambda>_.
          kmod (\<lambda>s. s\<lparr>ram := memmove (ram s) m init sz\<rparr>)))))"

text \<open>The loops over user pages. Their variable \<open>a\<close> moves up by a page, or by the 4 MB a missing
  page table covers.\<close>

definition deallocuvm_body :: "uint \<Rightarrow> uint \<Rightarrow> uint \<Rightarrow> 'a kmem_scheme \<Rightarrow> (uint + unit, 'a kmem_scheme) outcome" where
  "deallocuvm_body pgdir oldsz a =
     (if \<not> a < oldsz then kret (Inr ())
      else kbind (walkpgdir pgdir a False) (\<lambda>r. case r of
        None \<Rightarrow> kret (Inl (a + (of_nat NPTENTRIES - 1) * PGSIZE + PGSIZE))
      | Some pte \<Rightarrow> kbind (kget (\<lambda>s. load32 (ram s) pte)) (\<lambda>e.
          if e AND PTE_P \<noteq> 0
          then if PTE_ADDR e = 0 then kpanic ''kfree''
               else kseq (kfree (p2v (PTE_ADDR e))) (kseq (store_word pte 0) (kret (Inl (a + PGSIZE))))
          else kret (Inl (a + PGSIZE)))))"

definition deallocuvm :: "uint \<Rightarrow> uint \<Rightarrow> uint \<Rightarrow> 'a kmem_scheme \<Rightarrow> (uint, 'a kmem_scheme) outcome" where
  "deallocuvm pgdir oldsz newsz =
     (if newsz \<ge> oldsz then kret oldsz
      else kseq (kloop (unat oldsz div 4096 + 2) (deallocuvm_body pgdir oldsz) (PGROUNDUP newsz)) (kret newsz))"

definition allocuvm_body :: "uint \<Rightarrow> uint \<Rightarrow> uint \<Rightarrow> uint \<Rightarrow> 'a vm_scheme \<Rightarrow> (uint + uint, 'a vm_scheme) outcome" where
  "allocuvm_body pgdir oldsz newsz a =
     (if \<not> a < newsz then kret (Inr newsz)
      else kbind kalloc (\<lambda>m.
        if m = 0 then kseq (deallocuvm pgdir newsz oldsz) (kret (Inr 0))
        else kseq (fill_page m 0)
            (kbind (mappages pgdir a PGSIZE (v2p m) (PTE_W OR PTE_U)) (\<lambda>_.
             kseq (set_counter (v2p m) 1) (kret (Inl (a + PGSIZE)))))))"

definition allocuvm :: "uint \<Rightarrow> uint \<Rightarrow> uint \<Rightarrow> 'a vm_scheme \<Rightarrow> (uint, 'a vm_scheme) outcome" where
  "allocuvm pgdir oldsz newsz =
     (if newsz \<ge> KERNBASE then kret 0
      else if newsz < oldsz then kret oldsz
      else kloop (unat newsz div 4096 + 2) (allocuvm_body pgdir oldsz newsz) (PGROUNDUP oldsz))"

definition cow_deallocuvm_body :: "uint \<Rightarrow> uint \<Rightarrow> uint \<Rightarrow> 'a vm_scheme \<Rightarrow> (uint + unit, 'a vm_scheme) outcome" where
  "cow_deallocuvm_body pgdir oldsz a =
     (if \<not> a < oldsz then kret (Inr ())
      else kbind (walkpgdir pgdir a False) (\<lambda>r. case r of
        None \<Rightarrow> kret (Inl (a + (of_nat NPTENTRIES - 1) * PGSIZE + PGSIZE))
      | Some pte \<Rightarrow> kbind (kget (\<lambda>s. load32 (ram s) pte)) (\<lambda>e.
          if e AND PTE_P \<noteq> 0
          then if PTE_ADDR e = 0 then kpanic ''kfree''
               else kbind (get_counter (PTE_ADDR e)) (\<lambda>c.
                 kseq (set_counter (PTE_ADDR e) (c - 1))
                (kbind (get_counter (PTE_ADDR e)) (\<lambda>c'.
                 kseq (kwhen (c' = 0) (kfree (p2v (PTE_ADDR e))))
                (kseq (store_word pte 0) (kret (Inl (a + PGSIZE)))))))
          else kret (Inl (a + PGSIZE)))))"

definition cow_deallocuvm :: "uint \<Rightarrow> uint \<Rightarrow> uint \<Rightarrow> 'a vm_scheme \<Rightarrow> (uint, 'a vm_scheme) outcome" where
  "cow_deallocuvm pgdir oldsz newsz =
     (if newsz \<ge> oldsz then kret oldsz
      else kseq (acquire L_pgcount)
          (kseq (kloop (unat oldsz div 4096 + 2) (cow_deallocuvm_body pgdir oldsz) (PGROUNDUP newsz))
          (kseq (release L_pgcount) (kret newsz))))"

text \<open>\<^verbatim>\<open>for(i = 0; i < NPDENTRIES; i++)\<close> of \<^verbatim>\<open>freevm\<close> and \<^verbatim>\<open>cow_freevm\<close>.\<close>

definition free_table :: "uint \<Rightarrow> nat \<Rightarrow> 'a kmem_scheme \<Rightarrow> (unit, 'a kmem_scheme) outcome" where
  "free_table pgdir i =
     kbind (kget (\<lambda>s. load32 (ram s) (pgdir + 4 * of_nat i))) (\<lambda>pde.
       kwhen (pde AND PTE_P \<noteq> 0) (kfree (p2v (PTE_ADDR pde))))"

definition freevm :: "uint \<Rightarrow> 'a kmem_scheme \<Rightarrow> (unit, 'a kmem_scheme) outcome" where
  "freevm pgdir =
     (if pgdir = 0 then kpanic ''freevm: no pgdir''
      else kseq (deallocuvm pgdir KERNBASE 0)
          (kseq (kforeach (free_table pgdir) [0..<NPDENTRIES]) (kfree pgdir)))"

definition cow_freevm :: "uint \<Rightarrow> 'a vm_scheme \<Rightarrow> (unit, 'a vm_scheme) outcome" where
  "cow_freevm pgdir =
     (if pgdir = 0 then kpanic ''freevm: no pgdir''
      else kseq (cow_deallocuvm pgdir KERNBASE 0)
          (kseq (kforeach (free_table pgdir) [0..<NPDENTRIES]) (kfree pgdir)))"

definition clearpteu :: "uint \<Rightarrow> uint \<Rightarrow> 'a kmem_scheme \<Rightarrow> (unit, 'a kmem_scheme) outcome" where
  "clearpteu pgdir uva =
     kbind (walkpgdir pgdir uva False) (\<lambda>r. case r of
       None \<Rightarrow> kpanic ''clearpteu''
     | Some pte \<Rightarrow> kbind (kget (\<lambda>s. load32 (ram s) pte)) (\<lambda>e. store_word pte (e AND NOT PTE_U)))"

definition copyuvm_body :: "uint \<Rightarrow> uint \<Rightarrow> uint \<Rightarrow> uint \<Rightarrow> 'a vm_scheme \<Rightarrow> (uint + bool, 'a vm_scheme) outcome" where
  "copyuvm_body pgdir sz d i =
     (if \<not> i < sz then kret (Inr True)
      else kbind (walkpgdir pgdir i False) (\<lambda>r. case r of
        None \<Rightarrow> kpanic ''copyuvm: pte should exist''
      | Some pte \<Rightarrow> kbind (kget (\<lambda>s. load32 (ram s) pte)) (\<lambda>e.
          if e AND PTE_P = 0 then kpanic ''copyuvm: page not present''
          else kbind kalloc (\<lambda>m.
            if m = 0 then kret (Inr False)
            else kseq (kmod (\<lambda>s. s\<lparr>ram := memmove (ram s) m (p2v (PTE_ADDR e)) PGSIZE\<rparr>))
                (kseq (set_counter (v2p m) 1)
                (kbind (mappages d i PGSIZE (v2p m) (PTE_FLAGS e)) (\<lambda>x.
                   kret (if x < 0 then Inr False else Inl (i + PGSIZE)))))))))"

definition copyuvm :: "uint \<Rightarrow> uint \<Rightarrow> 'a vm_scheme \<Rightarrow> (uint, 'a vm_scheme) outcome" where
  "copyuvm pgdir sz =
     kbind setupkvm (\<lambda>d.
       if d = 0 then kret 0
       else kbind (kloop (unat sz div 4096 + 2) (copyuvm_body pgdir sz d) 0) (\<lambda>ok.
         if ok then kret d else kseq (freevm d) (kret 0)))"

definition inc_counter :: "uint \<Rightarrow> 'a vm_scheme \<Rightarrow> (unit, 'a vm_scheme) outcome" where
  "inc_counter pa = kbind (get_counter pa) (\<lambda>c. set_counter pa (if c = 0 then 2 else c + 1))"

text \<open>\<^verbatim>\<open>uva2ka\<close> reads the entry without testing the pointer \<^verbatim>\<open>walkpgdir\<close> returns.\<close>

definition uva2ka :: "uint \<Rightarrow> uint \<Rightarrow> 'a kmem_scheme \<Rightarrow> (uint, 'a kmem_scheme) outcome" where
  "uva2ka pgdir uva =
     kbind (walkpgdir pgdir uva False) (\<lambda>r. case r of
       None \<Rightarrow> kfault ''uva2ka''
     | Some pte \<Rightarrow> kbind (kget (\<lambda>s. load32 (ram s) pte)) (\<lambda>e.
         kret (if e AND PTE_P = 0 then 0 else if e AND PTE_U = 0 then 0 else p2v (PTE_ADDR e))))"

definition copyout_body :: "uint \<Rightarrow> uint \<times> uchar list \<Rightarrow> 'a kmem_scheme \<Rightarrow> ((uint \<times> uchar list) + int, 'a kmem_scheme) outcome" where
  "copyout_body pgdir = (\<lambda>(va, buf).
     if buf = [] then kret (Inr 0)
     else let va0 = PGROUNDDOWN va in
       kbind (uva2ka pgdir va0) (\<lambda>pa0.
         if pa0 = 0 then kret (Inr (-1))
         else let n0 = unat (PGSIZE - (va - va0)); n = (if n0 > length buf then length buf else n0) in
           kseq (kmod (\<lambda>s. s\<lparr>ram := put_mem (ram s) (pa0 + (va - va0)) (take n buf)\<rparr>))
                (kret (Inl (va0 + PGSIZE, drop n buf)))))"

text \<open>The \<^verbatim>\<open>len\<close> bytes at \<^verbatim>\<open>p\<close> are the list \<open>buf\<close>.\<close>

definition copyout :: "uint \<Rightarrow> uint \<Rightarrow> uchar list \<Rightarrow> 'a kmem_scheme \<Rightarrow> (int, 'a kmem_scheme) outcome" where
  "copyout pgdir va buf = kloop (length buf div 4096 + 3) (copyout_body pgdir) (va, buf)"

definition page_refs :: "nat \<Rightarrow> 'a vm_scheme \<Rightarrow> (int, 'a vm_scheme) outcome" where
  "page_refs ppn s = (if ppn < NPAGES then Done (page_counters s ppn) s else Fault ''page_counters'')"

section \<open>The abstract view of a page directory\<close>

definition pde_at :: "mem \<Rightarrow> uint \<Rightarrow> uint \<Rightarrow> uint" where
  "pde_at m d i = load32 m (d + 4 * i)"

definition has_table :: "mem \<Rightarrow> uint \<Rightarrow> uint \<Rightarrow> bool" where
  "has_table m d i \<longleftrightarrow> pde_at m d i AND PTE_P \<noteq> 0"

definition table_of :: "mem \<Rightarrow> uint \<Rightarrow> uint \<Rightarrow> uint" where
  "table_of m d i = p2v (PTE_ADDR (pde_at m d i))"

definition pte_addr :: "mem \<Rightarrow> uint \<Rightarrow> uint \<Rightarrow> uint" where
  "pte_addr m d va = table_of m d (PDX va) + 4 * PTX va"

text \<open>The entry of a virtual address; an address without a page table has the empty entry.\<close>

definition pte_at :: "mem \<Rightarrow> uint \<Rightarrow> uint \<Rightarrow> uint" where
  "pte_at m d va = (if has_table m d (PDX va) then load32 m (pte_addr m d va) else 0)"

definition pt_pages :: "mem \<Rightarrow> uint \<Rightarrow> uint set" where
  "pt_pages m d = insert d {table_of m d i | i. unat i < 1024 \<and> has_table m d i}"

definition pgdir_ok :: "uint \<Rightarrow> mem \<Rightarrow> uint \<Rightarrow> bool" where
  "pgdir_ok e m d \<longleftrightarrow> page_ok e d
     \<and> (\<forall>i. unat i < 1024 \<and> has_table m d i \<longrightarrow> page_ok e (table_of m d i) \<and> table_of m d i \<noteq> d)
     \<and> (\<forall>i j. unat i < 1024 \<and> unat j < 1024 \<and> has_table m d i \<and> has_table m d j
            \<and> table_of m d i = table_of m d j \<longrightarrow> i = j)"

definition vm_inv :: "'a kmem_scheme \<Rightarrow> uint list \<Rightarrow> uint \<Rightarrow> bool" where
  "vm_inv s ps d \<longleftrightarrow> kmem_inv s ps \<and> pgdir_ok (kend s) (ram s) d \<and> pt_pages (ram s) d \<inter> set ps = {}"

text \<open>What a routine that works on the directory \<open>d\<close> may do: take pages off the free list for
  page tables, and write to the pages of the tables.\<close>

definition grows :: "uint \<Rightarrow> 'a kmem_scheme \<Rightarrow> uint list \<Rightarrow> 'a kmem_scheme \<Rightarrow> uint list \<Rightarrow> bool" where
  "grows d s ps t ps' \<longleftrightarrow>
     (\<exists>k \<le> length ps. ps' = drop k ps \<and> pt_pages (ram t) d = pt_pages (ram s) d \<union> set (take k ps))
     \<and> t = s\<lparr>ram := ram t, freelist := freelist t\<rparr>
     \<and> (\<forall>x. PGROUNDDOWN x \<notin> pt_pages (ram t) d \<longrightarrow> ram t x = ram s x)"

section \<open>Lemmas: walking\<close>

lemma store_word_run [simp, krun]: "store_word a v s = Done () (s\<lparr>ram := store32 (ram s) a v\<rparr>)"
  by (simp add: store_word_def)

lemma fill_page_run [simp, krun]: "fill_page p c s = Done () (s\<lparr>ram := memset (ram s) p c PGSIZE\<rparr>)"
  by (simp add: fill_page_def)

lemma grows_refl [simp]: "grows d s ps s ps"
  unfolding grows_def by (auto intro: exI [of _ 0])

lemma grows_trans:
  assumes "grows d s ps t ps'" and "grows d t ps' u ps''"
  shows "grows d s ps u ps''"
proof -
  from assms(1) obtain k where k: "k \<le> length ps" "ps' = drop k ps"
      "pt_pages (ram t) d = pt_pages (ram s) d \<union> set (take k ps)"
    and t: "t = s\<lparr>ram := ram t, freelist := freelist t\<rparr>"
    and tx: "\<And>x. PGROUNDDOWN x \<notin> pt_pages (ram t) d \<Longrightarrow> ram t x = ram s x"
    unfolding grows_def by blast
  from assms(2) obtain l where l: "l \<le> length ps'" "ps'' = drop l ps'"
      "pt_pages (ram u) d = pt_pages (ram t) d \<union> set (take l ps')"
    and u: "u = t\<lparr>ram := ram u, freelist := freelist u\<rparr>"
    and ux: "\<And>x. PGROUNDDOWN x \<notin> pt_pages (ram u) d \<Longrightarrow> ram u x = ram t x"
    unfolding grows_def by blast
  have "u = s\<lparr>ram := ram u, freelist := freelist u\<rparr>" by (subst u, subst t) simp
  moreover have "k + l \<le> length ps" "ps'' = drop (k + l) ps"
    "pt_pages (ram u) d = pt_pages (ram s) d \<union> set (take (k + l) ps)"
    using k l by (auto simp: add.commute take_add)
  moreover have "ram u x = ram s x" if "PGROUNDDOWN x \<notin> pt_pages (ram u) d" for x
    using ux [OF that] tx [of x] that l(3) by auto
  ultimately show ?thesis unfolding grows_def by blast
qed

lemma pde_at_cong:
  assumes "page_aligned d" "unat i < 1024" "\<And>x. PGROUNDDOWN x = d \<Longrightarrow> m' x = m x"
  shows "pde_at m' d i = pde_at m d i"
  unfolding pde_at_def
  by (rule load32_page_cong) (use assms table_entry in auto)

lemma pgdir_okD:
  assumes "pgdir_ok e m d"
  shows "page_aligned d" "page_ok e d"
    "unat i < 1024 \<Longrightarrow> has_table m d i \<Longrightarrow> page_ok e (table_of m d i)"
    "unat i < 1024 \<Longrightarrow> has_table m d i \<Longrightarrow> page_aligned (table_of m d i)"
    "unat i < 1024 \<Longrightarrow> has_table m d i \<Longrightarrow> table_of m d i \<noteq> d"
    "unat i < 1024 \<Longrightarrow> unat j < 1024 \<Longrightarrow> has_table m d i \<Longrightarrow> has_table m d j
      \<Longrightarrow> table_of m d i = table_of m d j \<Longrightarrow> i = j"
  using assms by (auto simp: pgdir_ok_def dest: page_ok_aligned)

lemma pt_pagesI: "unat i < 1024 \<Longrightarrow> has_table m d i \<Longrightarrow> table_of m d i \<in> pt_pages m d" "d \<in> pt_pages m d"
  by (auto simp: pt_pages_def)

text \<open>Memory that agrees on the pages of the tables has the same tables.\<close>

lemma pt_frame:
  assumes ok: "pgdir_ok e m d" and same: "\<And>x. PGROUNDDOWN x \<in> pt_pages m d \<Longrightarrow> m' x = m x"
  shows "pte_at m' d va = pte_at m d va" "pt_pages m' d = pt_pages m d" "pgdir_ok e m' d"
    "unat i < 1024 \<Longrightarrow> pde_at m' d i = pde_at m d i"
    "pte_addr m' d va = pte_addr m d va"
proof -
  have pde: "pde_at m' d i = pde_at m d i" if "unat i < 1024" for i
    by (rule pde_at_cong) (use that pgdir_okD(1) [OF ok] same pt_pagesI(2) in auto)
  then show "unat i < 1024 \<Longrightarrow> pde_at m' d i = pde_at m d i" .
  have ht: "has_table m' d i = has_table m d i" "table_of m' d i = table_of m d i" if "unat i < 1024" for i
    using pde [OF that] by (simp_all add: has_table_def table_of_def)
  have "(q = table_of m' d i \<and> unat i < 1024 \<and> has_table m' d i)
      = (q = table_of m d i \<and> unat i < 1024 \<and> has_table m d i)" for q i
    by (cases "unat i < 1024") (simp_all add: ht)
  then show "pt_pages m' d = pt_pages m d" by (simp only: pt_pages_def)
  show "pgdir_ok e m' d" using ok by (auto simp: pgdir_ok_def ht)
  have addr: "pte_addr m' d va = pte_addr m d va" for va
    using ht [OF PDX_less] by (simp add: pte_addr_def)
  show "pte_addr m' d va = pte_addr m d va" by (rule addr)
  show "pte_at m' d va = pte_at m d va"
  proof (cases "has_table m d (PDX va)")
    case True
    note tab = pgdir_okD(4) [OF ok PDX_less True] table_entry [OF pgdir_okD(4) [OF ok PDX_less True] PTX_less]
    have "load32 m' (pte_addr m d va) = load32 m (pte_addr m d va)"
      unfolding pte_addr_def
      by (rule load32_page_cong) (use tab same pt_pagesI(1) [OF PDX_less True] in auto)
    with ht [OF PDX_less] addr show ?thesis by (simp add: pte_at_def)
  next
    case False
    with ht [OF PDX_less] show ?thesis by (simp add: pte_at_def)
  qed
qed

lemma walk_run:
  "walkpgdir d va False s =
     Done (if has_table (ram s) d (PDX va) then Some (pte_addr (ram s) d va) else None) s"
  by (simp add: walkpgdir_def has_table_def pte_addr_def table_of_def pde_at_def)

lemma page_aligned_v2p [simp]: "page_aligned (v2p a) = page_aligned a"
  using page_aligned_p2v [of "v2p a"] by simp

lemma table_pde:
  assumes "page_aligned p"
  shows "PTE_ADDR (v2p p OR PTE_P OR PTE_W OR PTE_U) = v2p p"
    and "(v2p p OR PTE_P OR PTE_W OR PTE_U) AND PTE_P \<noteq> 0"
proof -
  have "v2p p OR PTE_P OR PTE_W OR PTE_U = v2p p OR 7" by (simp add: or.assoc)
  moreover have "PTE_ADDR (v2p p OR 7) = v2p p" by (rule PTE_entry_parts(1)) (simp_all add: assms)
  ultimately show "PTE_ADDR (v2p p OR PTE_P OR PTE_W OR PTE_U) = v2p p" by simp
  have "bit ((v2p p OR PTE_P OR PTE_W OR PTE_U) AND PTE_P) 0" by (simp add: bit_simps)
  then show "(v2p p OR PTE_P OR PTE_W OR PTE_U) AND PTE_P \<noteq> 0" by (metis bit_0_eq bot_apply bot_bool_def)
qed

text \<open>Hanging an empty page table under a directory does not change any entry.\<close>

lemma install_table:
  assumes ok: "pgdir_ok e m d" and none: "\<not> has_table m d (PDX va)"
    and p: "page_ok e p" "p \<notin> pt_pages m d"
    and m': "m' = store32 (memset m p 0 PGSIZE) (d + 4 * PDX va) (v2p p OR PTE_P OR PTE_W OR PTE_U)"
  shows "pgdir_ok e m' d" "pt_pages m' d = insert p (pt_pages m d)" "pte_at m' d w = pte_at m d w"
    "has_table m' d (PDX va)" "table_of m' d (PDX va) = p"
    "PGROUNDDOWN x \<noteq> d \<Longrightarrow> PGROUNDDOWN x \<noteq> p \<Longrightarrow> m' x = m x"
proof -
  note D = pgdir_okD [OF ok]
  have al: "page_aligned p" using p(1) by (rule page_ok_aligned)
  have pd: "p \<noteq> d" using p(2) pt_pagesI(2) [of d m] by auto
  note ent = table_entry [OF D(1) PDX_less [of va]]
  have frame: "m' x = m x" if "PGROUNDDOWN x \<noteq> d" "PGROUNDDOWN x \<noteq> p" for x
    using that al ent(2) by (simp add: m' store32_page [OF ent(1)] memset_page)
  show "PGROUNDDOWN x \<noteq> d \<Longrightarrow> PGROUNDDOWN x \<noteq> p \<Longrightarrow> m' x = m x" by (rule frame)
  have pde: "pde_at m' d i = (if i = PDX va then v2p p OR PTE_P OR PTE_W OR PTE_U else pde_at m d i)"
    if i: "unat i < 1024" for i
  proof (cases "i = PDX va")
    case True
    then show ?thesis by (simp add: pde_at_def m')
  next
    case False
    then have "d + 4 * PDX va \<noteq> d + 4 * i"
      using table_entry_inj [OF D(1) D(1) PDX_less [of va] i] by simp
    then have "pde_at m' d i = pde_at (memset m p 0 PGSIZE) d i"
      unfolding pde_at_def m' by (rule load32_store32_apart [OF ent(1) table_entry(1) [OF D(1) i]])
    also have "\<dots> = pde_at m d i"
      by (rule pde_at_cong [OF D(1) i]) (use pd al in \<open>simp add: memset_page\<close>)
    finally show ?thesis using False by simp
  qed
  have ht: "has_table m' d i \<longleftrightarrow> i = PDX va \<or> has_table m d i"
    and tab: "table_of m' d i = (if i = PDX va then p else table_of m d i)" if "unat i < 1024" for i
    using pde [OF that] table_pde [OF al] by (simp_all add: has_table_def table_of_def)
  show "has_table m' d (PDX va)" "table_of m' d (PDX va) = p" using ht tab PDX_less by simp_all
  have "(q = table_of m' d i \<and> unat i < 1024 \<and> has_table m' d i) \<longleftrightarrow>
      i = PDX va \<and> q = p \<or> q = table_of m d i \<and> unat i < 1024 \<and> has_table m d i" for q i
    using ht [of i] tab [of i] none PDX_less [of va] by (cases "unat i < 1024") auto
  then have "{table_of m' d i |i. unat i < 1024 \<and> has_table m' d i}
      = insert p {table_of m d i |i. unat i < 1024 \<and> has_table m d i}" by blast
  then show "pt_pages m' d = insert p (pt_pages m d)" by (auto simp: pt_pages_def)
  have fresh: "table_of m d i \<noteq> p" if "unat i < 1024" "has_table m d i" for i
    using p(2) pt_pagesI(1) [OF that] by auto
  show "pgdir_ok e m' d"
    unfolding pgdir_ok_def
  proof (intro conjI allI impI; (elim conjE)?)
    show "page_ok e d" by (rule D)
  next
    fix i assume "unat i < 1024" "has_table m' d i"
    then show "page_ok e (table_of m' d i)" "table_of m' d i \<noteq> d"
      using ht [of i] tab [of i] D(3,5) [of i] p(1) pd by (auto split: if_splits)
  next
    fix i j assume ij: "unat i < 1024" "unat j < 1024" "has_table m' d i" "has_table m' d j"
      and eq: "table_of m' d i = table_of m' d j"
    note * = ij ht [OF ij(1)] ht [OF ij(2)] eq tab [OF ij(1)] tab [OF ij(2)]
    show "i = j"
    proof (cases "i = PDX va"; cases "j = PDX va")
      assume "i \<noteq> PDX va" "j \<noteq> PDX va"
      with * D(6) [of i j] show ?thesis by simp
    qed (use * fresh [of i] fresh [of j] in auto)
  qed
  show "pte_at m' d w = pte_at m d w"
  proof (cases "PDX w = PDX va")
    case True
    have "load32 m' (p + 4 * PTX w) = 0"
    proof -
      note e = table_entry [OF al PTX_less [of w]]
      have "load32 m' (p + 4 * PTX w) = load32 (memset m p 0 PGSIZE) (p + 4 * PTX w)"
        by (rule load32_page_cong [OF e(1)]) (use e(2) ent(2) pd in \<open>simp add: m' store32_page [OF ent(1)]\<close>)
      then show ?thesis by (simp add: load32_zero_page [OF al e(2) e(1)])
    qed
    with True none ht [OF PDX_less] tab [OF PDX_less] show ?thesis
      by (simp add: pte_at_def pte_addr_def)
  next
    case False
    show ?thesis
    proof (cases "has_table m d (PDX w)")
      case True
      note e = table_entry [OF D(4) [OF PDX_less True] PTX_less [of w]]
      have "load32 m' (pte_addr m d w) = load32 m (pte_addr m d w)"
        unfolding pte_addr_def
        by (rule load32_page_cong [OF e(1)])
          (use e(2) frame D(5) [OF PDX_less True] fresh [OF PDX_less True] in simp)
      with False True ht [OF PDX_less] tab [OF PDX_less] show ?thesis
        by (simp add: pte_at_def pte_addr_def)
    next
      case f: False
      with False ht [OF PDX_less] show ?thesis by (simp add: pte_at_def)
    qed
  qed
qed

text \<open>Writing an entry changes the entry of its page only.\<close>

lemma set_pte_mem:
  assumes ok: "pgdir_ok e m d" and tab: "has_table m d (PDX va)"
    and m': "m' = store32 m (pte_addr m d va) v"
  shows "pgdir_ok e m' d" "pt_pages m' d = pt_pages m d"
    "pte_at m' d w = (if PGROUNDDOWN w = PGROUNDDOWN va then v else pte_at m d w)"
    "PGROUNDDOWN x \<noteq> table_of m d (PDX va) \<Longrightarrow> m' x = m x"
    "unat i < 1024 \<Longrightarrow> has_table m' d i = has_table m d i" "unat i < 1024 \<Longrightarrow> table_of m' d i = table_of m d i"
proof -
  note D = pgdir_okD [OF ok]
  note T = D(4) [OF PDX_less tab] D(5) [OF PDX_less tab]
  note E = table_entry [OF T(1) PTX_less [of va]]
  have frame: "m' x = m x" if "PGROUNDDOWN x \<noteq> table_of m d (PDX va)" for x
    using that E by (simp add: m' pte_addr_def store32_page)
  then show "PGROUNDDOWN x \<noteq> table_of m d (PDX va) \<Longrightarrow> m' x = m x" .
  have pde: "pde_at m' d i = pde_at m d i" if "unat i < 1024" for i
    by (rule pde_at_cong [OF D(1) that]) (use T frame in auto)
  have ht: "has_table m' d i = has_table m d i" "table_of m' d i = table_of m d i" if "unat i < 1024" for i
    using pde [OF that] by (simp_all add: has_table_def table_of_def)
  then show "unat i < 1024 \<Longrightarrow> has_table m' d i = has_table m d i"
    "unat i < 1024 \<Longrightarrow> table_of m' d i = table_of m d i" by simp_all
  have "(q = table_of m' d i \<and> unat i < 1024 \<and> has_table m' d i)
      = (q = table_of m d i \<and> unat i < 1024 \<and> has_table m d i)" for q i
    by (cases "unat i < 1024") (simp_all add: ht)
  then show "pt_pages m' d = pt_pages m d" by (simp only: pt_pages_def)
  show "pgdir_ok e m' d" using ok by (auto simp: pgdir_ok_def ht)
  show "pte_at m' d w = (if PGROUNDDOWN w = PGROUNDDOWN va then v else pte_at m d w)"
  proof (cases "has_table m d (PDX w)")
    case True
    note E' = table_entry [OF D(4) [OF PDX_less True] PTX_less [of w]]
    have addr: "pte_addr m' d w = pte_addr m d w" by (simp add: pte_addr_def ht PDX_less)
    have same: "pte_addr m d w = pte_addr m d va \<longleftrightarrow> PGROUNDDOWN w = PGROUNDDOWN va"
    proof
      assume "pte_addr m d w = pte_addr m d va"
      then have "table_of m d (PDX w) = table_of m d (PDX va)" "PTX w = PTX va"
        using table_entry_inj [OF D(4) [OF PDX_less True] T(1) PTX_less PTX_less]
        by (simp_all add: pte_addr_def)
      with D(6) [OF PDX_less PDX_less True tab] show "PGROUNDDOWN w = PGROUNDDOWN va"
        by (intro page_index_inj) simp_all
    next
      assume "PGROUNDDOWN w = PGROUNDDOWN va"
      from page_index_eq [OF this] show "pte_addr m d w = pte_addr m d va" by (simp add: pte_addr_def)
    qed
    have "load32 m' (pte_addr m d w) = (if PGROUNDDOWN w = PGROUNDDOWN va then v else load32 m (pte_addr m d w))"
    proof (cases "PGROUNDDOWN w = PGROUNDDOWN va")
      case True
      with same show ?thesis by (simp add: m')
    next
      case False
      with same have "pte_addr m d va \<noteq> pte_addr m d w" by simp
      with E(1) E'(1) False show ?thesis by (simp add: m' pte_addr_def load32_store32_apart)
    qed
    with True ht [OF PDX_less] addr show ?thesis by (simp add: pte_at_def)
  next
    case False
    with tab have "PGROUNDDOWN w \<noteq> PGROUNDDOWN va" by (auto dest: page_index_eq)
    with False ht [OF PDX_less] show ?thesis by (simp add: pte_at_def)
  qed
qed

lemma kmem_inv_ram:
  assumes inv: "kmem_inv s ps" and same: "\<And>p x. p \<in> set ps \<Longrightarrow> PGROUNDDOWN x = p \<Longrightarrow> m' x = ram s x"
  shows "kmem_inv (s\<lparr>ram := m'\<rparr>) ps"
proof -
  have "free_chain m' (freelist s) ps"
    by (rule free_chain_frame [OF kmem_invD(2) [OF inv]])
      (use kmem_invD(4) [OF inv] page_ok_aligned same in blast)+
  with inv show ?thesis by (simp add: kmem_inv_def)
qed

lemma vm_invD:
  assumes "vm_inv s ps d"
  shows "kmem_inv s ps" "pgdir_ok (kend s) (ram s) d" "pt_pages (ram s) d \<inter> set ps = {}"
  using assms by (simp_all add: vm_inv_def)

lemma set_pte:
  assumes inv: "vm_inv s ps d" and tab: "has_table (ram s) d (PDX va)"
    and t: "t = s\<lparr>ram := store32 (ram s) (pte_addr (ram s) d va) v\<rparr>"
  shows "vm_inv t ps d" "grows d s ps t ps"
    "pte_at (ram t) d w = (if PGROUNDDOWN w = PGROUNDDOWN va then v else pte_at (ram s) d w)"
proof -
  note V = vm_invD [OF inv]
  have rt: "ram t = store32 (ram s) (pte_addr (ram s) d va) v" using t by simp
  note M = set_pte_mem [OF V(2) tab rt]
  have tp: "table_of (ram s) d (PDX va) \<in> pt_pages (ram s) d" by (rule pt_pagesI(1) [OF PDX_less tab])
  have "kmem_inv (s\<lparr>ram := ram t\<rparr>) ps"
  proof (rule kmem_inv_ram [OF V(1)])
    fix p x assume "p \<in> set ps" "PGROUNDDOWN x = p"
    with tp V(3) show "ram t x = ram s x" by (intro M(4)) auto
  qed
  moreover have "s\<lparr>ram := ram t\<rparr> = t" using t by simp
  ultimately have "kmem_inv t ps" by simp
  with M V show "vm_inv t ps d" by (simp add: vm_inv_def t)
  show "grows d s ps t ps"
    unfolding grows_def
  proof (intro conjI allI impI)
    show "\<exists>k \<le> length ps. ps = drop k ps \<and> pt_pages (ram t) d = pt_pages (ram s) d \<union> set (take k ps)"
      using M(2) by (intro exI [of _ 0]) simp
    show "t = s\<lparr>ram := ram t, freelist := freelist t\<rparr>" using t by (cases s) simp
    show "ram t x = ram s x" if "PGROUNDDOWN x \<notin> pt_pages (ram t) d" for x
      by (rule M(4)) (use M(2) tp that in auto)
  qed
  show "pte_at (ram t) d w = (if PGROUNDDOWN w = PGROUNDDOWN va then v else pte_at (ram s) d w)"
    by (rule M)
qed

lemma walk_alloc:
  assumes inv: "vm_inv s ps d"
  shows "\<exists>r t ps'. walkpgdir d va True s = Done r t \<and> vm_inv t ps' d \<and> grows d s ps t ps'
     \<and> (\<forall>w. pte_at (ram t) d w = pte_at (ram s) d w)
     \<and> (case r of None \<Rightarrow> ps' = []
        | Some a \<Rightarrow> has_table (ram t) d (PDX va) \<and> a = pte_addr (ram t) d va)"
proof (cases "has_table (ram s) d (PDX va)")
  case True
  then have "walkpgdir d va True s = Done (Some (pte_addr (ram s) d va)) s"
    by (simp add: walkpgdir_def has_table_def pde_at_def pte_addr_def table_of_def)
  with inv True show ?thesis by (intro exI conjI) auto
next
  case False
  then have walk: "walkpgdir d va True s = kbind kalloc (\<lambda>pgtab.
         if pgtab = 0 then kret None
         else kseq (fill_page pgtab 0)
             (kseq (store_word (d + 4 * PDX va) (v2p pgtab OR PTE_P OR PTE_W OR PTE_U))
                   (kret (Some (pgtab + 4 * PTX va))))) s"
    by (simp add: walkpgdir_def has_table_def pde_at_def)
  note V = vm_invD [OF inv]
  show ?thesis
  proof (cases ps)
    case Nil
    then have "walkpgdir d va True s = Done None s"
      using kalloc_inv(1) [OF V(1)] by (simp add: walk)
    with inv Nil show ?thesis by (intro exI conjI) auto
  next
    case (Cons p qs)
    have p: "page_ok (kend s) p" "p \<notin> pt_pages (ram s) d" "p \<noteq> 0"
      using kmem_invD(4) [OF V(1), of p] page_ok_nonnull [OF _ kmem_invD(1) [OF V(1)]] V(3) Cons by auto
    let ?u = "s\<lparr>freelist := load32 (ram s) p\<rparr>"
    let ?m = "store32 (memset (ram s) p 0 PGSIZE) (d + 4 * PDX va) (v2p p OR PTE_P OR PTE_W OR PTE_U)"
    let ?t = "?u\<lparr>ram := ?m\<rparr>"
    note M = install_table [OF V(2) False p(1,2) refl]
    have w: "walkpgdir d va True s = Done (Some (pte_addr ?m d va)) ?t"
      unfolding walk using kalloc_inv(1) [OF V(1)] Cons p(3) M(5) by (simp add: pte_addr_def)
    have ku: "kmem_inv ?u qs" using kalloc_inv [OF V(1)] Cons by auto
    have dis: "distinct ps" by (rule kmem_invD(3) [OF V(1)])
    have "kmem_inv ?t qs"
    proof (rule kmem_inv_ram [OF ku])
      fix q x assume q: "q \<in> set qs" "PGROUNDDOWN x = q"
      then have "q \<noteq> d" "q \<noteq> p" using V(3) Cons dis pt_pagesI(2) [of d "ram s"] by auto
      then show "?m x = ram ?u x" using M(6) [of x] q by simp
    qed
    moreover have "pt_pages (ram ?t) d \<inter> set qs = {}" using M(2) V(3) Cons dis by auto
    ultimately have vi: "vm_inv ?t qs d" using M(1) by (simp add: vm_inv_def)
    have "grows d s ps ?t qs"
      unfolding grows_def
    proof (intro conjI allI impI)
      show "\<exists>k \<le> length ps. qs = drop k ps \<and> pt_pages (ram ?t) d = pt_pages (ram s) d \<union> set (take k ps)"
        using M(2) Cons by (intro exI [of _ 1]) simp
      show "?t = s\<lparr>ram := ram ?t, freelist := freelist ?t\<rparr>" by (cases s) simp
      show "ram ?t x = ram s x" if "PGROUNDDOWN x \<notin> pt_pages (ram ?t) d" for x
        using M(2) M(6) [of x] that pt_pagesI(2) [of d "ram s"] by auto
    qed
    with w vi M(3,4) show ?thesis by (intro exI conjI) auto
  qed
qed

end
