(* ===== verification/Paging.thy ===== *)
theory Paging
  imports Vm
begin

text \<open>
  Ranges of pages in a page directory (\<^verbatim>\<open>vm.c\<close>): what \<^verbatim>\<open>mappages\<close>, \<^verbatim>\<open>setupkvm\<close>, the allocation and the
  two deallocation loops and \<^verbatim>\<open>copyout\<close> do to the abstract view of the directory, to the free list
  and to the reference counters.
\<close>

section \<open>Mapping a range\<close>

definition present :: "uint \<Rightarrow> bool" where
  "present e \<longleftrightarrow> e AND PTE_P \<noteq> 0"

lemma map_step:
  assumes inv: "vm_inv s ps d" and free: "\<not> present (pte_at (ram s) d a)"
  shows "(\<exists>t ps'. mappages_body d l perm (a, pa) s = Done (Inr (-1)) t \<and> vm_inv t ps' d \<and> grows d s ps t ps'
            \<and> ps' = [] \<and> (\<forall>w. pte_at (ram t) d w = pte_at (ram s) d w))
       \<or> (\<exists>t ps'. mappages_body d l perm (a, pa) s
              = Done (if a = l then Inr 0 else Inl (a + PGSIZE, pa + PGSIZE)) t
            \<and> vm_inv t ps' d \<and> grows d s ps t ps'
            \<and> (\<forall>w. pte_at (ram t) d w = (if PGROUNDDOWN w = PGROUNDDOWN a then pa OR perm OR PTE_P
                                         else pte_at (ram s) d w)))"
proof -
  from walk_alloc [OF inv, of a] obtain r t ps' where w: "walkpgdir d a True s = Done r t"
    and t: "vm_inv t ps' d" "grows d s ps t ps'" and same: "\<And>w. pte_at (ram t) d w = pte_at (ram s) d w"
    and r: "case r of None \<Rightarrow> ps' = [] | Some x \<Rightarrow> has_table (ram t) d (PDX a) \<and> x = pte_addr (ram t) d a"
    by blast
  show ?thesis
  proof (cases r)
    case None
    with w r t same show ?thesis
      by (intro disjI1 exI [of _ t] exI [of _ ps']) (simp add: mappages_body_def)
  next
    case (Some x)
    with r have tab: "has_table (ram t) d (PDX a)" and x: "x = pte_addr (ram t) d a" by simp_all
    define u where "u = t\<lparr>ram := store32 (ram t) (pte_addr (ram t) d a) (pa OR perm OR PTE_P)\<rparr>"
    note S = set_pte [OF t(1) tab u_def]
    have "\<not> present (load32 (ram t) x)" using free same [of a] tab x by (simp add: pte_at_def)
    then have "mappages_body d l perm (a, pa) s = Done (if a = l then Inr 0 else Inl (a + PGSIZE, pa + PGSIZE)) u"
      using w Some by (simp add: mappages_body_def present_def u_def x)
    moreover have "grows d s ps u ps'" using t(2) S(2) by (rule grows_trans)
    ultimately show ?thesis using S(1,3) same by (intro disjI2 exI) auto
  qed
qed

lemma page_aligned_diff:
  assumes "page_aligned a" "page_aligned b"
  shows "page_aligned (a - b)"
proof (cases "a = b")
  case True
  then show ?thesis by simp
next
  case False
  have "4096 dvd unat a" "4096 dvd unat b" using assms by (auto simp: page_aligned_unat)
  then have "4096 dvd 4294967296 + unat a - unat b" using unat_u32 [of b] by (intro dvd_diff_nat) simp_all
  then have "4096 dvd (4294967296 + unat a - unat b) mod 4294967296" by (intro dvd_mod) simp_all
  moreover have "unat (a - b) = (4294967296 + unat a - unat b) mod 4294967296"
    using unat_u32 [of a] unat_u32 [of b]
    by (cases "unat b \<le> unat a") (simp_all add: unat_sub_if' le_mod_geq)
  ultimately show ?thesis by (simp add: page_aligned_unat)
qed

lemma aligned_delta:
  assumes "page_aligned a" "page_aligned b" "a \<noteq> b"
  shows "unat (a - b - PGSIZE) = unat (a - b) - 4096" "4096 \<le> unat (a - b)"
proof -
  have "page_aligned (a - b)" using assms(1,2) by (rule page_aligned_diff)
  moreover have "unat (a - b) \<noteq> 0" using assms(3) by (simp add: unat_eq_0)
  ultimately show ge: "4096 \<le> unat (a - b)" by (auto simp: page_aligned_unat)
  then have "PGSIZE \<le> a - b" by (simp add: word_le_nat_alt)
  then show "unat (a - b - PGSIZE) = unat (a - b) - 4096" by (simp add: unat_sub)
qed

text \<open>The entries of the pages from \<open>a\<close> on, \<open>n + 1\<close> of them, after mapping them to \<open>pa\<close> onwards.\<close>

definition mapped :: "uint \<Rightarrow> nat \<Rightarrow> uint \<Rightarrow> uint \<Rightarrow> (uint \<Rightarrow> uint) \<Rightarrow> uint \<Rightarrow> uint" where
  "mapped a n pa perm f w = (let off = PGROUNDDOWN w - a in
     if unat off \<le> 4096 * n then (pa + off) OR perm OR PTE_P else f w)"

lemma mapped_step:
  assumes "page_aligned a" "Suc n < 1048576"
  shows "mapped (a + PGSIZE) n (pa + PGSIZE) perm
       (\<lambda>w. if PGROUNDDOWN w = a then pa OR perm OR PTE_P else f w) w = mapped a (Suc n) pa perm f w"
proof (cases "PGROUNDDOWN w = a")
  case True
  have "a - (a + PGSIZE) = - PGSIZE" by simp
  then have "unat (a - (a + PGSIZE)) = 4294963200" by (simp only:) simp
  with True assms(2) show ?thesis by (simp add: mapped_def)
next
  case False
  from aligned_delta [OF page_aligned_PGROUNDDOWN assms(1) False]
  have "unat (PGROUNDDOWN w - (a + PGSIZE)) = unat (PGROUNDDOWN w - a) - 4096" "4096 \<le> unat (PGROUNDDOWN w - a)"
    by (simp_all add: algebra_simps)
  with False show ?thesis by (auto simp: mapped_def Let_def algebra_simps)
qed

lemma mappages_loop:
  assumes "vm_inv s ps d" "page_aligned a" "n < 1048576" "l = a + of_nat n * PGSIZE"
    and "\<And>w. unat (PGROUNDDOWN w - a) \<le> 4096 * n \<Longrightarrow> \<not> present (pte_at (ram s) d w)"
  shows "\<exists>r t ps'. kloop (Suc n) (mappages_body d l perm) (a, pa) s = Done r t
     \<and> vm_inv t ps' d \<and> grows d s ps t ps'
     \<and> (r = 0 \<and> (\<forall>w. pte_at (ram t) d w = mapped a n pa perm (pte_at (ram s) d) w) \<or> r = -1 \<and> ps' = [])"
  using assms
proof (induction n arbitrary: a pa s ps)
  case 0
  then have "\<not> present (pte_at (ram s) d a)" by simp
  from map_step [OF 0(1) this, of l perm pa] 0(2,4) show ?case
    by (auto simp: mapped_def Let_def unat_eq_0 kloop_step)
next
  case (Suc n)
  have al: "PGROUNDDOWN a = a" using Suc.prems(2) by simp
  have ne: "a \<noteq> l"
  proof
    assume "a = l"
    then have "of_nat (Suc n) * PGSIZE = (0 :: uint)" using Suc.prems(4) by simp
    then have "of_nat (Suc n * 4096) = (0 :: uint)" by simp
    then have "(Suc n * 4096) mod 4294967296 = 0" using unat_of_nat [of "Suc n * 4096", where 'a = 32] by simp
    with Suc.prems(3) show False by simp
  qed
  have np: "\<not> present (pte_at (ram s) d a)" using Suc.prems(5) [of a] al by simp
  from map_step [OF Suc.prems(1) np, of l perm pa] show ?case
  proof (elim disjE exE conjE)
    fix t ps' assume "mappages_body d l perm (a, pa) s = Done (Inr (-1)) t" "vm_inv t ps' d" "grows d s ps t ps'" "ps' = []"
    then show ?thesis by (intro exI [of _ "-1"] exI [of _ t] exI [of _ ps']) (simp only: kloop_step, simp)
  next
    fix t ps' assume b: "mappages_body d l perm (a, pa) s
        = Done (if a = l then Inr 0 else Inl (a + PGSIZE, pa + PGSIZE)) t"
      and t: "vm_inv t ps' d" "grows d s ps t ps'"
      and pte: "\<forall>w. pte_at (ram t) d w = (if PGROUNDDOWN w = PGROUNDDOWN a then pa OR perm OR PTE_P
                                         else pte_at (ram s) d w)"
    have "\<exists>r u qs. kloop (Suc n) (mappages_body d l perm) (a + PGSIZE, pa + PGSIZE) t = Done r u
       \<and> vm_inv u qs d \<and> grows d t ps' u qs
       \<and> (r = 0 \<and> (\<forall>w. pte_at (ram u) d w = mapped (a + PGSIZE) n (pa + PGSIZE) perm (pte_at (ram t) d) w)
          \<or> r = -1 \<and> qs = [])"
    proof (rule Suc.IH [OF t(1)])
      show "page_aligned (a + PGSIZE)" using Suc.prems(2) page_aligned_add by simp
      show "l = a + PGSIZE + of_nat n * PGSIZE" using Suc.prems(4) by (simp add: algebra_simps)
      fix w assume w: "unat (PGROUNDDOWN w - (a + PGSIZE)) \<le> 4096 * n"
      have wa: "PGROUNDDOWN w \<noteq> a"
      proof
        assume "PGROUNDDOWN w = a"
        moreover have "a - (a + PGSIZE) = - PGSIZE" by simp
        then have "unat (a - (a + PGSIZE)) = 4294963200" by (simp only:) simp
        ultimately show False using w Suc.prems(3) by simp
      qed
      from aligned_delta [OF page_aligned_PGROUNDDOWN Suc.prems(2) wa] w
      have "unat (PGROUNDDOWN w - a) \<le> 4096 * Suc n" by (simp add: algebra_simps)
      with Suc.prems(5) pte wa al show "\<not> present (pte_at (ram t) d w)" by simp
    qed (use Suc.prems(3) in simp)
    then obtain r u qs where u: "kloop (Suc n) (mappages_body d l perm) (a + PGSIZE, pa + PGSIZE) t = Done r u"
       "vm_inv u qs d" "grows d t ps' u qs"
       and ru: "r = 0 \<and> (\<forall>w. pte_at (ram u) d w = mapped (a + PGSIZE) n (pa + PGSIZE) perm (pte_at (ram t) d) w)
          \<or> r = -1 \<and> qs = []" by blast
    have "kloop (Suc (Suc n)) (mappages_body d l perm) (a, pa) s = Done r u"
      using b ne u(1) by (simp only: kloop_step if_False)
    moreover have "pte_at (ram t) d = (\<lambda>w. if PGROUNDDOWN w = a then pa OR perm OR PTE_P else pte_at (ram s) d w)"
      using pte al by auto
    then have "mapped (a + PGSIZE) n (pa + PGSIZE) perm (pte_at (ram t) d) w = mapped a (Suc n) pa perm (pte_at (ram s) d) w" for w
      using mapped_step [OF Suc.prems(2,3)] by simp
    with ru have "r = 0 \<and> (\<forall>w. pte_at (ram u) d w = mapped a (Suc n) pa perm (pte_at (ram s) d) w)
          \<or> r = -1 \<and> qs = []" by simp
    moreover have "grows d s ps u qs" using t(2) u(3) by (rule grows_trans)
    ultimately show ?thesis using u(2) by blast
  qed
qed

text \<open>The pages \<^verbatim>\<open>mappages\<close> covers, and their entries afterwards.\<close>

definition in_range :: "uint \<Rightarrow> uint \<Rightarrow> uint \<Rightarrow> bool" where
  "in_range va sz w \<longleftrightarrow>
     unat (PGROUNDDOWN w - PGROUNDDOWN va) \<le> unat (PGROUNDDOWN (va + sz - 1) - PGROUNDDOWN va)"

definition map_range :: "uint \<Rightarrow> uint \<Rightarrow> uint \<Rightarrow> uint \<Rightarrow> (uint \<Rightarrow> uint) \<Rightarrow> uint \<Rightarrow> uint" where
  "map_range va sz pa perm f w =
     (if in_range va sz w then (pa + (PGROUNDDOWN w - PGROUNDDOWN va)) OR perm OR PTE_P else f w)"

lemma mappages_run:
  assumes inv: "vm_inv s ps d"
    and free: "\<And>w. in_range va sz w \<Longrightarrow> \<not> present (pte_at (ram s) d w)"
  shows "\<exists>r t ps'. mappages d va sz pa perm s = Done r t \<and> vm_inv t ps' d \<and> grows d s ps t ps'
     \<and> (r = 0 \<and> pte_at (ram t) d = map_range va sz pa perm (pte_at (ram s) d) \<or> r = -1 \<and> ps' = [])"
proof -
  let ?a = "PGROUNDDOWN va" and ?l = "PGROUNDDOWN (va + sz - 1)"
  let ?n = "unat (?l - ?a) div 4096"
  have "page_aligned (?l - ?a)" by (rule page_aligned_diff) simp_all
  then have n: "4096 * ?n = unat (?l - ?a)" by (auto simp: page_aligned_unat)
  have "of_nat ?n * PGSIZE = (of_nat (4096 * ?n) :: uint)" by simp
  then have l: "?l = ?a + of_nat ?n * PGSIZE" by (simp add: n)
  have lt: "?n < 1048576" using unat_u32 [of "?l - ?a"] by simp
  have "\<exists>r t ps'. kloop (Suc ?n) (mappages_body d ?l perm) (?a, pa) s = Done r t
     \<and> vm_inv t ps' d \<and> grows d s ps t ps'
     \<and> (r = 0 \<and> (\<forall>w. pte_at (ram t) d w = mapped ?a ?n pa perm (pte_at (ram s) d) w) \<or> r = -1 \<and> ps' = [])"
    by (rule mappages_loop [OF inv _ lt l]) (use free n in \<open>simp_all add: in_range_def\<close>)
  moreover have "mapped ?a ?n pa perm f w = map_range va sz pa perm f w" for f w
    unfolding mapped_def map_range_def in_range_def Let_def n ..
  ultimately show ?thesis unfolding mappages_def Let_def by (metis ext)
qed

lemma in_range_aligned:
  assumes "page_aligned va" "page_aligned sz" "sz \<noteq> 0" "unat va + unat sz \<le> 2 ^ 32"
  shows "in_range va sz w \<longleftrightarrow> unat va \<le> unat w \<and> unat w < unat va + unat sz"
proof -
  from assms(1,2) obtain i j where i: "unat va = 4096 * i" and j: "unat sz = 4096 * j"
    by (auto simp: page_aligned_unat elim!: dvdE)
  have j0: "0 < j" using assms(3) j by (auto simp: unat_eq_0 [symmetric] intro: gr0I)
  then obtain j' where j': "j = Suc j'" by (cases j) auto
  have "unat (sz - 1) = unat sz - 1" using assms(3) by (rule unat_minus_one)
  then have "unat (va + (sz - 1)) = unat va + unat sz - 1"
    using assms(4) j j0 by (simp add: unat_word_ariths)
  then have "unat (va + sz - 1) = 4096 * (i + j') + 4095" using i j j' by (simp add: algebra_simps)
  moreover have "(4096 * n + 4095) div 4096 * 4096 = 4096 * n" for n :: nat by simp
  ultimately have last: "unat (PGROUNDDOWN (va + sz - 1)) = 4096 * (i + j')"
    by (simp only: unat_PGROUNDDOWN)
  have d1: "unat (PGROUNDDOWN (va + sz - 1) - va) = 4096 * j'"
    using last i by (simp add: unat_sub word_le_nat_alt)
  define k where "k = unat w div 4096"
  have pw: "unat (PGROUNDDOWN w) = 4096 * k" by (simp add: unat_PGROUNDDOWN k_def)
  have wk: "4096 * k \<le> unat w" "unat w < 4096 * k + 4096"
    unfolding k_def using dividend_less_div_times [of 4096 "unat w"] by simp_all
  show ?thesis
  proof (cases "i \<le> k")
    case True
    then have "unat (PGROUNDDOWN w - va) = 4096 * (k - i)"
      using pw i by (simp add: unat_sub word_le_nat_alt diff_mult_distrib2)
    moreover from True obtain m where m: "k = i + m" by (auto dest: le_Suc_ex)
    then have "k - i \<le> j' \<longleftrightarrow> unat w < 4096 * i + 4096 * Suc j'"
      using wk by (auto simp: not_le)
    moreover have "4096 * i \<le> unat w" using True wk by linarith
    ultimately show ?thesis
      using assms(1) d1 i j j' by (simp add: in_range_def)
  next
    case False
    then have lt: "unat w < unat va" using wk i by linarith
    have "unat (PGROUNDDOWN w - va) = 4294967296 + 4096 * k - 4096 * i"
      using pw i False by (simp add: unat_sub_if')
    moreover have "4096 * i + 4096 * j \<le> 4294967296" using assms(4) i j by simp
    ultimately have "unat (PGROUNDDOWN (va + sz - 1) - va) < unat (PGROUNDDOWN w - va)"
      using d1 j' by linarith
    with lt assms(1) show ?thesis by (simp add: in_range_def)
  qed
qed

section \<open>The kernel part of a page directory\<close>

fun kmap_view :: "kmap list \<Rightarrow> (uint \<Rightarrow> uint) \<Rightarrow> uint \<Rightarrow> uint" where
  "kmap_view [] f = f"
| "kmap_view (k # ks) f =
     kmap_view ks (map_range (virt k) (phys_end k - phys_start k) (phys_start k) (km_perm k) f)"

fun kmap_apart :: "kmap list \<Rightarrow> (uint \<Rightarrow> uint) \<Rightarrow> bool" where
  "kmap_apart [] f \<longleftrightarrow> True"
| "kmap_apart (k # ks) f \<longleftrightarrow>
     (\<forall>w. in_range (virt k) (phys_end k - phys_start k) w \<longrightarrow> \<not> present (f w))
     \<and> kmap_apart ks (map_range (virt k) (phys_end k - phys_start k) (phys_start k) (km_perm k) f)"

lemma map_kmap_run:
  assumes "vm_inv s ps d" and "kmap_apart ks (pte_at (ram s) d)"
  shows "\<exists>r t ps'. map_kmap d ks s = Done r t \<and> vm_inv t ps' d \<and> grows d s ps t ps'
     \<and> (r = 0 \<and> pte_at (ram t) d = kmap_view ks (pte_at (ram s) d) \<or> r = -1 \<and> ps' = [])"
  using assms
proof (induction ks arbitrary: s ps)
  case Nil
  then show ?case by (intro exI [of _ 0] exI [of _ s] exI [of _ ps]) simp
next
  case (Cons k ks)
  from mappages_run [OF Cons.prems(1), of "virt k" "phys_end k - phys_start k" "phys_start k" "km_perm k"] Cons.prems(2)
  obtain r t ps' where m: "mappages d (virt k) (phys_end k - phys_start k) (phys_start k) (km_perm k) s = Done r t"
    and t: "vm_inv t ps' d" "grows d s ps t ps'"
    and r: "r = 0 \<and> pte_at (ram t) d = map_range (virt k) (phys_end k - phys_start k) (phys_start k) (km_perm k) (pte_at (ram s) d)
        \<or> r = -1 \<and> ps' = []" by auto
  from r show ?case
  proof (elim disjE conjE)
    assume "r = -1" "ps' = []"
    with m t show ?thesis by (intro exI [of _ "-1"] exI [of _ t] exI [of _ ps']) simp
  next
    assume r0: "r = 0" and v: "pte_at (ram t) d = map_range (virt k) (phys_end k - phys_start k) (phys_start k) (km_perm k) (pte_at (ram s) d)"
    with Cons.IH [OF t(1)] Cons.prems(2) obtain r' u qs where u: "map_kmap d ks t = Done r' u" "vm_inv u qs d" "grows d t ps' u qs"
      and r': "r' = 0 \<and> pte_at (ram u) d = kmap_view ks (pte_at (ram t) d) \<or> r' = -1 \<and> qs = []" by auto
    have "grows d s ps u qs" using t(2) u(3) by (rule grows_trans)
    with m r0 u v r' show ?thesis by (intro exI [of _ r'] exI [of _ u] exI [of _ qs]) simp
  qed
qed

lemma fresh_pgdir:
  assumes inv: "kmem_inv s ps" and p: "page_ok (kend s) p" "p \<notin> set ps"
    and t: "t = s\<lparr>ram := memset (ram s) p 0 PGSIZE\<rparr>"
  shows "vm_inv t ps p" "pte_at (ram t) p = (\<lambda>_. 0)" "pt_pages (ram t) p = {p}"
proof -
  have al: "page_aligned p" using p(1) by (rule page_ok_aligned)
  have none: "\<not> has_table (ram t) p i" if "unat i < 1024" for i
    using load32_zero_page [OF al table_entry(2,1) [OF al that]] by (simp add: has_table_def pde_at_def t)
  show pp: "pt_pages (ram t) p = {p}" using none by (auto simp: pt_pages_def)
  show "pte_at (ram t) p = (\<lambda>_. 0)" using none PDX_less by (simp add: pte_at_def fun_eq_iff)
  have "kmem_inv t ps"
    unfolding t by (rule kmem_inv_ram [OF inv]) (use p(2) al in \<open>auto simp: memset_page\<close>)
  moreover have "pgdir_ok (kend t) (ram t) p" using none p(1) by (auto simp: pgdir_ok_def t)
  ultimately show "vm_inv t ps p" using pp p(2) by (simp add: vm_inv_def)
qed

text \<open>The entry every page directory has for a kernel address, and none below and between.\<close>

definition kernel_pte :: "uint \<Rightarrow> uint \<Rightarrow> uint" where
  "kernel_pte data w =
     (if w < KERNBASE then 0
      else if w < p2v PHYSTOP
        then v2p (PGROUNDDOWN w) OR (if KERNLINK \<le> w \<and> w < data then 0 else PTE_W) OR PTE_P
      else if w < DEVSPACE then 0
      else PGROUNDDOWN w OR PTE_W OR PTE_P)"

lemma kmap_ranges:
  assumes "page_aligned data" "unat KERNLINK < unat data" "unat data < 0x8E000000"
  shows "in_range KERNBASE (EXTMEM - 0) w \<longleftrightarrow> 0x80000000 \<le> unat w \<and> unat w < 0x80100000"
    "in_range KERNLINK (v2p data - v2p KERNLINK) w \<longleftrightarrow> 0x80100000 \<le> unat w \<and> unat w < unat data"
    "in_range data (PHYSTOP - v2p data) w \<longleftrightarrow> unat data \<le> unat w \<and> unat w < 0x8E000000"
    "in_range DEVSPACE (0 - DEVSPACE) w \<longleftrightarrow> 0xFE000000 \<le> unat w"
proof -
  have al: "page_aligned KERNLINK" "page_aligned (0x8E000000 :: uint)" "page_aligned EXTMEM"
    "page_aligned DEVSPACE" "page_aligned (0 - DEVSPACE)"
    by (simp_all add: page_aligned_def)
  show "in_range KERNBASE (EXTMEM - 0) w \<longleftrightarrow> 0x80000000 \<le> unat w \<and> unat w < 0x80100000"
    using in_range_aligned [of KERNBASE EXTMEM w] al by simp
  have e: "v2p data - v2p KERNLINK = data - KERNLINK" "PHYSTOP - v2p data = 0x8E000000 - data"
    by (simp_all add: v2p_def)
  have u: "unat (data - KERNLINK) = unat data - 0x80100000"
    using assms(2) by (subst unat_sub) (simp_all add: word_le_nat_alt)
  have u2: "unat (0x8E000000 - data) = 0x8E000000 - unat data"
    using assms(3) by (subst unat_sub) (simp_all add: word_le_nat_alt)
  have "in_range KERNLINK (data - KERNLINK) w \<longleftrightarrow>
      unat KERNLINK \<le> unat w \<and> unat w < unat KERNLINK + unat (data - KERNLINK)"
  proof (rule in_range_aligned)
    show "data - KERNLINK \<noteq> 0" using assms(2) by auto
    show "unat KERNLINK + unat (data - KERNLINK) \<le> 2 ^ 32"
      using u assms by simp
  qed (use al assms page_aligned_diff in auto)
  then show "in_range KERNLINK (v2p data - v2p KERNLINK) w \<longleftrightarrow> 0x80100000 \<le> unat w \<and> unat w < unat data"
    using u assms(2) by (simp add: e)
  have "in_range data (0x8E000000 - data) w \<longleftrightarrow>
      unat data \<le> unat w \<and> unat w < unat data + unat (0x8E000000 - data)"
  proof (rule in_range_aligned)
    show "0x8E000000 - data \<noteq> 0" using assms(3) by auto
    show "unat data + unat (0x8E000000 - data) \<le> 2 ^ 32" using u2 assms by simp
  qed (use al assms page_aligned_diff in auto)
  then show "in_range data (PHYSTOP - v2p data) w \<longleftrightarrow> unat data \<le> unat w \<and> unat w < 0x8E000000"
    using u2 assms(3) by (simp add: e)
  show "in_range DEVSPACE (0 - DEVSPACE) w \<longleftrightarrow> 0xFE000000 \<le> unat w"
    using in_range_aligned [of DEVSPACE "0 - DEVSPACE" w] al unat_u32 [of w] by simp
qed

lemma kmap_table_view:
  assumes "page_aligned data" "KERNLINK < data" "data < p2v PHYSTOP"
  shows "kmap_apart (kmap_table data) (\<lambda>_. 0)"
    and "kmap_view (kmap_table data) (\<lambda>_. 0) w = kernel_pte data w"
proof -
  have b: "unat KERNLINK < unat data" "unat data < 0x8E000000"
    using assms(2,3) by (simp_all add: word_less_nat_alt p2v_def)
  note R = kmap_ranges [OF assms(1) b]
  have p0: "\<not> present 0" by (simp add: present_def)
  have pd: "PGROUNDDOWN data = data" "PGROUNDDOWN KERNBASE = KERNBASE" "PGROUNDDOWN KERNLINK = KERNLINK"
    "PGROUNDDOWN DEVSPACE = DEVSPACE"
    using assms(1) by (simp_all add: page_aligned_def)
  show "kmap_apart (kmap_table data) (\<lambda>_. 0)"
    unfolding kmap_table_def kmap_apart.simps kmap.simps map_range_def R
    using b p0 by auto
  have v: "v2p data + (PGROUNDDOWN w - data) = v2p (PGROUNDDOWN w)"
    "v2p KERNLINK + (PGROUNDDOWN w - KERNLINK) = v2p (PGROUNDDOWN w)"
    "0 + (PGROUNDDOWN w - KERNBASE) = v2p (PGROUNDDOWN w)"
    "DEVSPACE + (PGROUNDDOWN w - DEVSPACE) = PGROUNDDOWN w"
    by (simp_all add: v2p_def)
  have o: "w < KERNBASE \<longleftrightarrow> unat w < 0x80000000" "w < p2v PHYSTOP \<longleftrightarrow> unat w < 0x8E000000"
    "KERNLINK \<le> w \<longleftrightarrow> 0x80100000 \<le> unat w" "w < data \<longleftrightarrow> unat w < unat data"
    "w < DEVSPACE \<longleftrightarrow> unat w < 0xFE000000"
    by (simp_all add: word_less_nat_alt word_le_nat_alt p2v_def)
  consider "unat w < 0x80000000" | "0x80000000 \<le> unat w" "unat w < 0x80100000"
    | "0x80100000 \<le> unat w" "unat w < unat data" | "unat data \<le> unat w" "unat w < 0x8E000000"
    | "0x8E000000 \<le> unat w" "unat w < 0xFE000000" | "0xFE000000 \<le> unat w" by linarith
  then show "kmap_view (kmap_table data) (\<lambda>_. 0) w = kernel_pte data w"
    unfolding kmap_table_def kmap_view.simps kmap.simps map_range_def R kernel_pte_def o pd v
    by cases (use b in simp_all)
qed

lemma finite_pt_pages: "finite (pt_pages m d)" and card_pt_pages: "card (pt_pages m d) \<le> 1025"
proof -
  have s: "{table_of m d i |i. unat i < 1024 \<and> has_table m d i} \<subseteq> (\<lambda>n. table_of m d (of_nat n)) ` {..<1024}"
  proof
    fix q assume "q \<in> {table_of m d i |i. unat i < 1024 \<and> has_table m d i}"
    then obtain i where "q = table_of m d i" "unat i < 1024" by auto
    then show "q \<in> (\<lambda>n. table_of m d (of_nat n)) ` {..<1024}"
      by (intro image_eqI [of _ _ "unat i"]) simp_all
  qed
  then have f: "finite {table_of m d i |i. unat i < 1024 \<and> has_table m d i}"
    by (rule finite_subset) simp
  then show "finite (pt_pages m d)" by (simp add: pt_pages_def)
  have "card {table_of m d i |i. unat i < 1024 \<and> has_table m d i} \<le> card ((\<lambda>n. table_of m d (of_nat n)) ` {..<1024})"
    using s by (rule card_mono [rotated]) simp
  also have "\<dots> \<le> 1024" using card_image_le [of "{..<1024 :: nat}" "\<lambda>n. table_of m d (of_nat n)"] by simp
  finally show "card (pt_pages m d) \<le> 1025" using f by (simp add: pt_pages_def card_insert_if)
qed

text \<open>A directory cannot use up more than 1025 pages.\<close>

lemma grows_bound:
  assumes "grows d s ps t ps'" "distinct ps" "1025 < length ps"
  shows "ps' \<noteq> []"
proof
  assume "ps' = []"
  with assms obtain k where k: "k \<le> length ps" "drop k ps = []" "pt_pages (ram t) d = pt_pages (ram s) d \<union> set (take k ps)"
    unfolding grows_def by auto
  then have "set ps \<subseteq> pt_pages (ram t) d" by auto
  then have "card (set ps) \<le> 1025" using card_mono [OF finite_pt_pages] card_pt_pages le_trans by blast
  with assms(2,3) show False by (simp add: distinct_card)
qed

definition new_pgdir :: "'a kmem_scheme \<Rightarrow> uint list \<Rightarrow> uint \<Rightarrow> 'a kmem_scheme \<Rightarrow> uint list \<Rightarrow> bool" where
  "new_pgdir s ps d t ps' \<longleftrightarrow>
     (\<exists>k \<le> length ps. ps' = drop k ps \<and> pt_pages (ram t) d = set (take k ps))
     \<and> t = s\<lparr>ram := ram t, freelist := freelist t\<rparr>
     \<and> (\<forall>x. PGROUNDDOWN x \<notin> pt_pages (ram t) d \<longrightarrow> ram t x = ram s x)"

lemma setupkvm_run:
  assumes inv: "kmem_inv s ps" and data: "page_aligned (kdata s)" "KERNLINK < kdata s" "kdata s < p2v PHYSTOP"
  shows "\<exists>d t ps'. setupkvm s = Done d t \<and>
     (d = 0 \<and> kmem_inv t [] \<and> length ps \<le> 1025
      \<or> d \<noteq> 0 \<and> vm_inv t ps' d \<and> new_pgdir s ps d t ps' \<and> pte_at (ram t) d = kernel_pte (kdata s))"
proof (cases ps)
  case Nil
  then have "setupkvm s = Done 0 s" using kalloc_inv(1) [OF inv] by (simp add: setupkvm_def)
  with inv Nil show ?thesis by auto
next
  case (Cons p qs)
  note K = kmem_invD [OF inv]
  have p: "page_ok (kend s) p" "p \<notin> set qs" "p \<noteq> 0"
    using K(3) K(4) [of p] Cons page_ok_nonnull [OF _ K(1), of p] by auto
  let ?u = "s\<lparr>freelist := load32 (ram s) p\<rparr>"
  have ku: "kmem_inv ?u qs" using kalloc_inv [OF inv] Cons by auto
  define v where "v = ?u\<lparr>ram := memset (ram ?u) p 0 PGSIZE\<rparr>"
  note F = fresh_pgdir [OF ku _ p(2) v_def]
  have vi: "vm_inv v qs p" using F(1) p(1) by simp
  have kd: "kdata v = kdata s" by (simp add: v_def)
  have "kmap_apart (kmap_table (kdata s)) (pte_at (ram v) p)"
    using F(2) p(1) kmap_table_view(1) [OF data] by simp
  from map_kmap_run [OF vi this] obtain r t ps' where t: "map_kmap p (kmap_table (kdata s)) v = Done r t"
     "vm_inv t ps' p" "grows p v qs t ps'"
     and r: "r = 0 \<and> pte_at (ram t) p = kmap_view (kmap_table (kdata s)) (pte_at (ram v) p) \<or> r = -1 \<and> ps' = []"
    by blast
  have run: "setupkvm s = Done (if r < 0 then 0 else p) t"
    using kalloc_inv(1) [OF inv] Cons p(3) t(1) kd by (simp add: setupkvm_def p2v_def v_def)
  from r show ?thesis
  proof (elim disjE conjE)
    assume r1: "r = -1" and e: "ps' = []"
    then have "kmem_inv t []" using vm_invD(1) [OF t(2)] by simp
    moreover have "length ps \<le> 1025"
    proof (rule ccontr)
      assume big: "\<not> ?thesis"
      from t(3) e have "pt_pages (ram t) p = pt_pages (ram v) p \<union> set qs"
        unfolding grows_def by auto
      then have "set ps \<subseteq> pt_pages (ram t) p" using F(3) p(1) Cons by auto
      then have "card (set ps) \<le> 1025" using card_mono [OF finite_pt_pages] card_pt_pages le_trans by blast
      with K(3) big show False by (simp add: distinct_card)
    qed
    ultimately show ?thesis using run r1 by auto
  next
    assume r0: "r = 0" and view: "pte_at (ram t) p = kmap_view (kmap_table (kdata s)) (pte_at (ram v) p)"
    have pte: "pte_at (ram t) p = kernel_pte (kdata s)"
      using view F(2) p(1) kmap_table_view(2) [OF data] by (simp add: fun_eq_iff)
    have "new_pgdir s ps p t ps'"
    proof -
      from t(3) obtain k where k: "k \<le> length qs" "ps' = drop k qs" "pt_pages (ram t) p = pt_pages (ram v) p \<union> set (take k qs)"
        and tv: "t = v\<lparr>ram := ram t, freelist := freelist t\<rparr>"
        and fr: "\<And>x. PGROUNDDOWN x \<notin> pt_pages (ram t) p \<Longrightarrow> ram t x = ram v x"
        unfolding grows_def by blast
      have "t = s\<lparr>ram := ram t, freelist := freelist t\<rparr>" by (subst tv) (simp add: v_def)
      moreover have "ram t x = ram s x" if "PGROUNDDOWN x \<notin> pt_pages (ram t) p" for x
      proof -
        have "PGROUNDDOWN x \<noteq> p" using that pt_pagesI(2) [of p "ram t"] by auto
        then show ?thesis
          using fr [OF that] page_ok_aligned [OF p(1)] by (simp add: v_def memset_page)
      qed
      moreover have "pt_pages (ram t) p = set (take (Suc k) ps)" using k(3) F(3) p(1) Cons by simp
      ultimately show ?thesis
        unfolding new_pgdir_def using k(1,2) Cons by (intro conjI exI [of _ "Suc k"]) auto
    qed
    with run r0 p(3) t(2) pte show ?thesis by auto
  qed
qed

section \<open>Properties of mapping\<close>

text \<open>C4: \<^verbatim>\<open>mappages\<close> on a directory whose tables are apart from each other and from the free pages, and
  that has no present entry in the range, never panics. If it returns 0, the page of every address
  of the range is mapped to the frame at the same distance from \<open>pa\<close>, with the given permissions, and
  every other address keeps its entry; it returns -1 only when memory is used up. The tables stay
  apart, and memory outside them is unchanged.\<close>

theorem mappages_maps:
  assumes "vm_inv s ps d" and "\<forall>w. in_range va sz w \<longrightarrow> \<not> present (pte_at (ram s) d w)"
  shows "\<exists>r t ps'. mappages d va sz pa perm s = Done r t \<and> vm_inv t ps' d
     \<and> (\<forall>x. PGROUNDDOWN x \<notin> pt_pages (ram t) d \<longrightarrow> ram t x = ram s x)
     \<and> (if r = 0
        then \<forall>w. pte_at (ram t) d w =
               (if in_range va sz w then (pa + (PGROUNDDOWN w - PGROUNDDOWN va)) OR perm OR PTE_P
                else pte_at (ram s) d w)
        else r = -1 \<and> ps' = [])"
proof -
  from mappages_run [OF assms(1)] assms(2) obtain r t ps' where
      t: "mappages d va sz pa perm s = Done r t" "vm_inv t ps' d" "grows d s ps t ps'"
    and r: "r = 0 \<and> pte_at (ram t) d = map_range va sz pa perm (pte_at (ram s) d) \<or> r = -1 \<and> ps' = []"
    by blast
  from t(3) have "\<forall>x. PGROUNDDOWN x \<notin> pt_pages (ram t) d \<longrightarrow> ram t x = ram s x" by (simp add: grows_def)
  with t(1,2) r show ?thesis by (intro exI [of _ r] exI [of _ t] exI [of _ ps']) (auto simp: map_range_def)
qed

text \<open>A machine with the single free page 0x80201000, and an empty page directory.\<close>

definition vm_one :: vm where
  "vm_one = \<lparr>held = {}, ram = (\<lambda>_. 0), use_lock = 0, freelist = 0x80201000, kend = 0x80110000,
     page_counters = (\<lambda>_. 0), kpgdir = 0, kdata = 0x80108000, gdt = [], ts_addr = 0x80112000, ts_ss0 = 0, ts_esp0 = 0,
     cr2 = 0, cr3 = 0\<rparr>"

lemma vm_one_inv:
  "kmem_inv vm_one [0x80201000]"
  "vm_inv (vm_one\<lparr>ram := memset (ram vm_one) 0x80200000 0 PGSIZE\<rparr>) [0x80201000] 0x80200000"
  "pte_at (memset (ram vm_one) 0x80200000 0 PGSIZE) 0x80200000 = (\<lambda>_. 0)"
proof -
  have ok: "page_ok 0x80110000 0x80201000" "page_ok 0x80110000 0x80200000"
    unfolding page_ok_def by (simp_all add: v2p_def)
  then show k: "kmem_inv vm_one [0x80201000]"
    by (simp add: kmem_inv_def vm_one_def load32_def)
  show "vm_inv (vm_one\<lparr>ram := memset (ram vm_one) 0x80200000 0 PGSIZE\<rparr>) [0x80201000] 0x80200000"
    by (rule fresh_pgdir(1) [OF k _ _ refl]) (use ok(2) in \<open>simp_all add: vm_one_def\<close>)
  show "pte_at (memset (ram vm_one) 0x80200000 0 PGSIZE) 0x80200000 = (\<lambda>_. 0)"
    using fresh_pgdir(2) [OF k _ _ refl, of "0x80200000"] ok(2) by (simp add: vm_one_def)
qed

theorem mappages_maps_witness:
  "\<exists>r t ps'. mappages 0x80200000 0x1000 0x2000 0x300000 PTE_U (vm_one\<lparr>ram := memset (ram vm_one) 0x80200000 0 PGSIZE\<rparr>) = Done r t
     \<and> vm_inv t ps' 0x80200000 \<and> (if r = 0 then pte_at (ram t) 0x80200000 0x2abc = 0x301005 else r = -1 \<and> ps' = [])"
proof -
  have "\<forall>w. in_range 0x1000 0x2000 w \<longrightarrow>
      \<not> present (pte_at (ram (vm_one\<lparr>ram := memset (ram vm_one) 0x80200000 0 PGSIZE\<rparr>)) 0x80200000 w)"
    by (simp add: vm_one_inv(3) present_def)
  from mappages_maps [OF vm_one_inv(2) this, of "0x300000" PTE_U] obtain r t ps' where
      t: "mappages 0x80200000 0x1000 0x2000 0x300000 PTE_U (vm_one\<lparr>ram := memset (ram vm_one) 0x80200000 0 PGSIZE\<rparr>) = Done r t"
      "vm_inv t ps' 0x80200000"
    and r: "if r = 0
        then \<forall>w. pte_at (ram t) 0x80200000 w =
               (if in_range 0x1000 0x2000 w then (0x300000 + (PGROUNDDOWN w - PGROUNDDOWN 0x1000)) OR PTE_U OR PTE_P
                else pte_at (ram (vm_one\<lparr>ram := memset (ram vm_one) 0x80200000 0 PGSIZE\<rparr>)) 0x80200000 w)
        else r = -1 \<and> ps' = []" by blast
  have "in_range 0x1000 0x2000 0x2abc" "PGROUNDDOWN 0x2abc = 0x2000" "PGROUNDDOWN 0x1000 = 0x1000"
    by (simp_all add: in_range_def PGROUNDDOWN_def)
  with r have "if r = 0 then pte_at (ram t) 0x80200000 0x2abc = 0x301005 else r = -1 \<and> ps' = []"
    by (auto split: if_splits)
  with t show ?thesis by blast
qed

text \<open>C23: \<^verbatim>\<open>setupkvm\<close> returns a page directory in which exactly the kernel's addresses are mapped: the
  I/O space and the data and memory above \<^verbatim>\<open>data\<close> writable, the text and read-only data not writable,
  the device space to itself, none of them accessible to user code, and nothing below \<^verbatim>\<open>KERNBASE\<close>. It
  fails only when no page is left, and cannot fail with more than 1025 free pages.\<close>

theorem setupkvm_maps_kernel:
  assumes "kmem_inv s ps" "page_aligned (kdata s)" "KERNLINK < kdata s" "kdata s < p2v PHYSTOP"
  shows "\<exists>d t ps'. setupkvm s = Done d t \<and> (1025 < length ps \<longrightarrow> d \<noteq> 0)
     \<and> (if d = 0 then kmem_inv t [] else vm_inv t ps' d \<and> (\<forall>w. pte_at (ram t) d w = kernel_pte (kdata s) w))"
proof -
  from setupkvm_run [OF assms] obtain d t ps' where "setupkvm s = Done d t"
     "d = 0 \<and> kmem_inv t [] \<and> length ps \<le> 1025
      \<or> d \<noteq> 0 \<and> vm_inv t ps' d \<and> new_pgdir s ps d t ps' \<and> pte_at (ram t) d = kernel_pte (kdata s)" by blast
  then show ?thesis by (intro exI [of _ d] exI [of _ t] exI [of _ ps']) auto
qed

theorem setupkvm_maps_kernel_witness:
  "\<exists>s d t ps'. setupkvm (s :: vm) = Done d t \<and> d \<noteq> 0 \<and> vm_inv t ps' d \<and> pte_at (ram t) d 0x80102345 = 0x102001"
proof -
  let ?s = "vm_one\<lparr>freelist := 0\<rparr>"
  have "kmem_inv ?s []" by (simp add: kmem_inv_def vm_one_def)
  moreover have "kend ?s = 0x80110000" by (simp add: vm_one_def)
  moreover have up: "PGROUNDUP 0x80110000 = 0x80110000" by (simp add: PGROUNDUP_def)
  moreover have big: "(unat (0x80800000 :: uint) - unat (PGROUNDUP 0x80110000)) div 4096 = 1776" by (simp add: up)
  ultimately obtain s where s: "kmem_inv s (rev (page_range 0x80110000 1776))"
    and ss: "s = ?s\<lparr>ram := ram s, freelist := freelist s\<rparr>"
    using freerange_run [of ?s "[]" "0x80110000" "0x80800000" 1776] by (auto simp: p2v_def)
  have kd: "kdata s = 0x80108000" using ss by (cases s) (simp add: vm_one_def)
  have len: "length (page_range p n) = n" for p n by (induction n arbitrary: p) auto
  from setupkvm_maps_kernel [OF s] kd len obtain d t ps' where "setupkvm s = Done d t" "d \<noteq> 0"
      "vm_inv t ps' d" "\<forall>w. pte_at (ram t) d w = kernel_pte 0x80108000 w"
    by (auto simp: page_aligned_def p2v_def)
  moreover have "kernel_pte 0x80108000 0x80102345 = 0x102001"
    by (simp add: kernel_pte_def v2p_def p2v_def PGROUNDDOWN_def)
  ultimately show ?thesis by (intro exI [of _ s] exI [of _ d] exI [of _ t] exI [of _ ps']) simp
qed

end
