(* ===== verification/Refcount.thy ===== *)
theory Refcount
  imports Paging
begin

text \<open>
  Reference counts of user pages (\<^verbatim>\<open>vm.c\<close>): \<^verbatim>\<open>cow_deallocuvm\<close> drops one reference for each mapped page
  of a range and frees exactly the pages whose last reference it drops, while \<^verbatim>\<open>deallocuvm\<close> frees
  them whatever their counters say.
\<close>

section \<open>User pages of a directory\<close>

definition frames :: "mem \<Rightarrow> uint \<Rightarrow> uint \<Rightarrow> uint \<Rightarrow> uint set" where
  "frames m d a b = {PTE_ADDR (pte_at m d w) | w. page_aligned w \<and> a \<le> w \<and> w < b \<and> present (pte_at m d w)}"

text \<open>The pages mapped from \<open>a\<close> to \<open>b\<close> are in use, counted, and mapped once each.\<close>

definition user_ok :: "'a vm_scheme \<Rightarrow> uint list \<Rightarrow> uint \<Rightarrow> uint \<Rightarrow> uint \<Rightarrow> bool" where
  "user_ok s ps d a b \<longleftrightarrow>
     (\<forall>w. page_aligned w \<and> a \<le> w \<and> w < b \<and> present (pte_at (ram s) d w) \<longrightarrow>
        (let f = PTE_ADDR (pte_at (ram s) d w) in
           f \<noteq> 0 \<and> page_ok (kend s) (p2v f) \<and> p2v f \<notin> set ps \<and> p2v f \<notin> pt_pages (ram s) d
           \<and> 1 \<le> page_counters s (PA_INX f)))
     \<and> (\<forall>v w. page_aligned v \<and> a \<le> v \<and> v < b \<and> present (pte_at (ram s) d v)
          \<and> page_aligned w \<and> a \<le> w \<and> w < b \<and> present (pte_at (ram s) d w)
          \<and> PTE_ADDR (pte_at (ram s) d v) = PTE_ADDR (pte_at (ram s) d w) \<longrightarrow> v = w)"

text \<open>A process image has no holes: from \<open>a\<close> on, the present pages are those below some \<open>brk\<close>.\<close>

definition no_holes :: "mem \<Rightarrow> uint \<Rightarrow> uint \<Rightarrow> uint \<Rightarrow> uint \<Rightarrow> bool" where
  "no_holes m d a b brk \<longleftrightarrow>
     (\<forall>w. page_aligned w \<and> a \<le> w \<and> w < b \<longrightarrow> (present (pte_at m d w) \<longleftrightarrow> w < brk))"

lemma PA_INX_inj: "page_aligned f \<Longrightarrow> page_aligned g \<Longrightarrow> PA_INX f = PA_INX g \<longleftrightarrow> f = g"
proof
  assume "page_aligned f" "page_aligned g" "PA_INX f = PA_INX g"
  then have "unat f mod 4096 = 0" "unat g mod 4096 = 0" "unat f div 4096 = unat g div 4096"
    by (simp_all add: PA_INX_def drop_bit_eq_div unat_div page_aligned_unat)
  then have "unat f = unat g" by (metis div_mult_mod_eq)
  then show "f = g" by (simp only: word_unat_eq_iff)
qed simp

lemma PA_INX_bound:
  assumes "page_ok e (p2v f)"
  shows "PA_INX f < NPAGES"
proof -
  have "unat f < 0xE000000" using assms by (simp add: page_ok_def word_less_nat_alt)
  then have "unat f div 4096 < 57344" by (simp add: less_mult_imp_div_less)
  then show ?thesis by (simp add: PA_INX_def drop_bit_eq_div unat_div)
qed

lemma counter_run [simp, krun]:
  "PA_INX pa < NPAGES \<Longrightarrow> get_counter pa s = Done (page_counters s (PA_INX pa)) s"
  "PA_INX pa < NPAGES \<Longrightarrow> set_counter pa c s = Done () (s\<lparr>page_counters := (page_counters s)(PA_INX pa := c)\<rparr>)"
  by (simp_all add: get_counter_def set_counter_def)

lemma kmem_inv_counters [simp]: "kmem_inv (s\<lparr>page_counters := c\<rparr>) ps = kmem_inv s ps"
  by (simp add: kmem_inv_def)

lemma vm_inv_counters [simp]: "vm_inv (s\<lparr>page_counters := c\<rparr>) ps d = vm_inv s ps d"
  by (simp add: vm_inv_def)

section \<open>One page\<close>

text \<open>Freeing a frame that is not a page-table page keeps the tables.\<close>

lemma kfree_vm:
  assumes inv: "vm_inv s ps d" and q: "page_ok (kend s) q" "q \<notin> set ps" "q \<notin> pt_pages (ram s) d"
  shows "\<exists>t. kfree q s = Done () t \<and> vm_inv t (q # ps) d
     \<and> (\<forall>w. pte_at (ram t) d w = pte_at (ram s) d w) \<and> pt_pages (ram t) d = pt_pages (ram s) d
     \<and> (\<forall>w. pte_addr (ram t) d w = pte_addr (ram s) d w)
     \<and> (\<forall>i. unat i < 1024 \<longrightarrow> has_table (ram t) d i = has_table (ram s) d i)
     \<and> (\<forall>x. PGROUNDDOWN x \<noteq> q \<longrightarrow> ram t x = ram s x)
     \<and> t = s\<lparr>ram := ram t, freelist := freelist t\<rparr>"
proof -
  note V = vm_invD [OF inv]
  let ?t = "s\<lparr>ram := store32 (memset (ram s) q 1 PGSIZE) q (freelist s), freelist := q\<rparr>"
  have run: "kfree q s = Done () ?t" by (rule kfree_run [OF q(1) kmem_invD(5) [OF V(1)]])
  have k: "kmem_inv ?t (q # ps)" by (rule kfree_inv [OF V(1) q(1,2) run])
  have al: "page_aligned q" using q(1) by (rule page_ok_aligned)
  then have q4: "q mod 4 = 0" using table_entry(1) [of q 0] by simp
  have frame: "ram ?t x = ram s x" if "PGROUNDDOWN x \<noteq> q" for x
    using that al by (simp add: store32_page [OF q4] memset_page)
  have same: "ram ?t x = ram s x" if "PGROUNDDOWN x \<in> pt_pages (ram s) d" for x
    by (rule frame) (use that q(3) in auto)
  note F = pt_frame [OF V(2) same]
  have "vm_inv ?t (q # ps) d" using k F(2,3) V(3) q(3) by (simp add: vm_inv_def)
  then show ?thesis
    using run F frame by (intro exI [of _ ?t]) (simp add: has_table_def)
qed

lemma page_of_frame: "PTE_ADDR e = f \<Longrightarrow> page_aligned f"
  by auto

lemma cow_dealloc_step:
  assumes inv: "vm_inv s ps d" and a: "a < b" "page_aligned a" and pr: "present (pte_at (ram s) d a)"
    and f: "f = PTE_ADDR (pte_at (ram s) d a)" "f \<noteq> 0"
    and q: "page_ok (kend s) (p2v f)" "p2v f \<notin> set ps" "p2v f \<notin> pt_pages (ram s) d"
  shows "\<exists>t. cow_deallocuvm_body d b a s = Done (Inl (a + PGSIZE)) t
     \<and> vm_inv t (if page_counters s (PA_INX f) = 1 then p2v f # ps else ps) d
     \<and> (\<forall>w. pte_at (ram t) d w = (if PGROUNDDOWN w = a then 0 else pte_at (ram s) d w))
     \<and> pt_pages (ram t) d = pt_pages (ram s) d
     \<and> (\<forall>x. PGROUNDDOWN x \<notin> pt_pages (ram s) d \<and> (page_counters s (PA_INX f) = 1 \<longrightarrow> PGROUNDDOWN x \<noteq> p2v f)
          \<longrightarrow> ram t x = ram s x)
     \<and> t = s\<lparr>ram := ram t, freelist := freelist t,
             page_counters := (page_counters s)(PA_INX f := page_counters s (PA_INX f) - 1)\<rparr>"
proof -
  let ?c = "page_counters s (PA_INX f)"
  let ?s1 = "s\<lparr>page_counters := (page_counters s)(PA_INX f := ?c - 1)\<rparr>"
  have tab: "has_table (ram s) d (PDX a)" using pr by (auto simp: pte_at_def present_def split: if_splits)
  have e: "load32 (ram s) (pte_addr (ram s) d a) = pte_at (ram s) d a" using tab by (simp add: pte_at_def)
  have bnd: "PA_INX f < NPAGES" using q(1) by (rule PA_INX_bound)
  have al: "PGROUNDDOWN a = a" using a(2) by simp
  define ps1 where "ps1 = (if ?c = 1 then p2v f # ps else ps)"
  have "\<exists>u. kwhen (?c - 1 = 0) (kfree (p2v f)) ?s1 = Done () u \<and> vm_inv u ps1 d
      \<and> (\<forall>w. pte_at (ram u) d w = pte_at (ram s) d w) \<and> pt_pages (ram u) d = pt_pages (ram s) d
      \<and> pte_addr (ram u) d a = pte_addr (ram s) d a \<and> has_table (ram u) d (PDX a)
      \<and> (\<forall>x. (?c = 1 \<longrightarrow> PGROUNDDOWN x \<noteq> p2v f) \<longrightarrow> ram u x = ram s x)
      \<and> u = ?s1\<lparr>ram := ram u, freelist := freelist u\<rparr>"
  proof (cases "?c = 1")
    case True
    from kfree_vm [of ?s1 ps d "p2v f"] inv q tab PDX_less [of a] True show ?thesis
      by (auto simp: ps1_def)
  next
    case False
    with inv tab kmem_same [of ?s1] show ?thesis by (intro exI [of _ ?s1]) (simp add: ps1_def)
  qed
  then obtain u where u: "kwhen (?c - 1 = 0) (kfree (p2v f)) ?s1 = Done () u" "vm_inv u ps1 d"
      "\<And>w. pte_at (ram u) d w = pte_at (ram s) d w" "pt_pages (ram u) d = pt_pages (ram s) d"
      "pte_addr (ram u) d a = pte_addr (ram s) d a" "has_table (ram u) d (PDX a)"
      "\<And>x. ?c = 1 \<longrightarrow> PGROUNDDOWN x \<noteq> p2v f \<Longrightarrow> ram u x = ram s x"
      "u = ?s1\<lparr>ram := ram u, freelist := freelist u\<rparr>" by blast
  define t where "t = u\<lparr>ram := store32 (ram u) (pte_addr (ram u) d a) 0\<rparr>"
  note S = set_pte [OF u(2) u(6) t_def]
  have body: "cow_deallocuvm_body d b a s = Done (Inl (a + PGSIZE)) t"
    using a(1) tab pr f bnd u(1) u(5)
    by (simp add: cow_deallocuvm_body_def walk_run e present_def t_def)
  have pp: "pt_pages (ram t) d = pt_pages (ram s) d"
    using set_pte_mem(2) [OF vm_invD(2) [OF u(2)] u(6) refl, of 0] u(4) by (simp add: t_def)
  have fr: "ram t x = ram s x"
    if "PGROUNDDOWN x \<notin> pt_pages (ram s) d" "?c = 1 \<longrightarrow> PGROUNDDOWN x \<noteq> p2v f" for x
    using S(2) that pp u(7) [of x] by (simp add: grows_def)
  have "t = s\<lparr>ram := ram t, freelist := freelist t, page_counters := (page_counters s)(PA_INX f := ?c - 1)\<rparr>"
    unfolding t_def by (subst u(8)) simp
  with body S(1,3) u(3) pp fr al show ?thesis unfolding ps1_def by (intro exI [of _ t]) auto
qed

section \<open>A range of pages\<close>

lemma pte_at_page: "PGROUNDDOWN v = PGROUNDDOWN w \<Longrightarrow> pte_at m d v = pte_at m d w"
  by (drule page_index_eq) (simp add: pte_at_def pte_addr_def)

lemma page_after:
  assumes "page_aligned a" "page_aligned w" "unat a + 4096 < 2 ^ 32"
  shows "a \<le> w \<longleftrightarrow> w = a \<or> a + PGSIZE \<le> w"
proof -
  obtain i j where ij: "unat a = 4096 * i" "unat w = 4096 * j"
    using assms(1,2) by (auto simp: page_aligned_unat elim!: dvdE)
  have "unat (a + PGSIZE) = unat a + 4096" using assms(3) by (simp add: unat_word_ariths)
  moreover have "w = a \<longleftrightarrow> j = i" using ij by (simp add: word_unat_eq_iff)
  ultimately show ?thesis using ij by (auto simp: word_le_nat_alt)
qed

lemma frames_step:
  assumes "page_aligned a" "a < b" "b \<le> KERNBASE"
  shows "frames m d a b = frames m d (a + PGSIZE) b
     \<union> (if present (pte_at m d a) then {PTE_ADDR (pte_at m d a)} else {})"
proof -
  have "unat a + 4096 < 2 ^ 32" using assms(2,3) by (simp add: word_less_nat_alt word_le_nat_alt)
  then have "page_aligned w \<Longrightarrow> a \<le> w \<longleftrightarrow> w = a \<or> a + PGSIZE \<le> w" for w
    using page_after assms(1) by blast
  then have "(page_aligned w \<and> a \<le> w \<and> w < b) \<longleftrightarrow> w = a \<or> page_aligned w \<and> a + PGSIZE \<le> w \<and> w < b" for w
    using assms(1,2) by auto
  note iff = this
  have im: "frames m d x b = (\<lambda>w. PTE_ADDR (pte_at m d w))
      ` {w. (page_aligned w \<and> x \<le> w \<and> w < b) \<and> present (pte_at m d w)}" for x
    unfolding frames_def by blast
  have "{w. (page_aligned w \<and> a \<le> w \<and> w < b) \<and> present (pte_at m d w)}
      = {w. (page_aligned w \<and> a + PGSIZE \<le> w \<and> w < b) \<and> present (pte_at m d w)}
        \<union> (if present (pte_at m d a) then {a} else {})"
    unfolding iff by auto
  then show ?thesis unfolding im by (simp only: image_Un) simp
qed

definition dropped :: "'a vm_scheme \<Rightarrow> uint list \<Rightarrow> uint \<Rightarrow> uint \<Rightarrow> uint \<Rightarrow> 'a vm_scheme \<Rightarrow> uint list \<Rightarrow> bool" where
  "dropped s ps d a b t ps' \<longleftrightarrow>
     (let F = frames (ram s) d a b; last_ref = {f \<in> F. page_counters s (PA_INX f) = 1} in
       (\<forall>w. pte_at (ram t) d w =
          (if a \<le> PGROUNDDOWN w \<and> PGROUNDDOWN w < b \<and> present (pte_at (ram s) d w) then 0
           else pte_at (ram s) d w))
       \<and> (\<forall>i. page_counters t i = page_counters s i - (if i \<in> PA_INX ` F then 1 else 0))
       \<and> set ps' = set ps \<union> p2v ` last_ref
       \<and> pt_pages (ram t) d = pt_pages (ram s) d
       \<and> (\<forall>x. PGROUNDDOWN x \<notin> pt_pages (ram s) d \<union> p2v ` last_ref \<longrightarrow> ram t x = ram s x)
       \<and> t = s\<lparr>ram := ram t, freelist := freelist t, page_counters := page_counters t\<rparr>)"

lemma dropped_empty:
  assumes "frames (ram s) d a b = {}"
  shows "dropped s ps d a b s ps"
proof -
  have "\<not> present (pte_at (ram s) d w)" if "a \<le> PGROUNDDOWN w" "PGROUNDDOWN w < b" for w
    using assms that pte_at_page [of w "PGROUNDDOWN w" "ram s" d] by (auto simp: frames_def)
  moreover have "s = s\<lparr>ram := ram s, freelist := freelist s, page_counters := page_counters s\<rparr>"
    by (cases s) simp
  ultimately show ?thesis using assms by (auto simp: dropped_def)
qed

lemma dropped_skip:
  assumes "dropped s ps d a' b t ps'" "a \<le> a'"
    and "\<And>w. page_aligned w \<Longrightarrow> a \<le> w \<Longrightarrow> w < a' \<Longrightarrow> w < b \<Longrightarrow> \<not> present (pte_at (ram s) d w)"
  shows "dropped s ps d a b t ps'"
proof -
  have np: "a' \<le> w" if "page_aligned w" "a \<le> w" "w < b" "present (pte_at (ram s) d w)" for w
    using assms(3) [of w] that by (meson not_le)
  then have "frames (ram s) d a b = frames (ram s) d a' b"
    using assms(2) unfolding frames_def by (auto intro: order_trans)
  moreover have "(a \<le> PGROUNDDOWN w \<and> PGROUNDDOWN w < b \<and> present (pte_at (ram s) d w)) \<longleftrightarrow>
      (a' \<le> PGROUNDDOWN w \<and> PGROUNDDOWN w < b \<and> present (pte_at (ram s) d w))" for w
    using np [of "PGROUNDDOWN w"] assms(2) pte_at_page [of w "PGROUNDDOWN w" "ram s" d]
    by (auto intro: order_trans)
  ultimately show ?thesis using assms(1) unfolding dropped_def by simp
qed

lemma user_okD:
  assumes "user_ok s ps d a b" "page_aligned w" "a \<le> w" "w < b" "present (pte_at (ram s) d w)"
    and "f = PTE_ADDR (pte_at (ram s) d w)"
  shows "f \<noteq> 0" "page_ok (kend s) (p2v f)" "p2v f \<notin> set ps" "p2v f \<notin> pt_pages (ram s) d"
    "1 \<le> page_counters s (PA_INX f)"
  using assms(1) [unfolded user_ok_def Let_def, THEN conjunct1, rule_format, of w] assms(2-6) by simp_all

lemma user_ok_inj:
  assumes "user_ok s ps d a b"
    and "page_aligned v" "a \<le> v" "v < b" "present (pte_at (ram s) d v)"
    and "page_aligned w" "a \<le> w" "w < b" "present (pte_at (ram s) d w)"
    and "PTE_ADDR (pte_at (ram s) d v) = PTE_ADDR (pte_at (ram s) d w)"
  shows "v = w"
  using assms unfolding user_ok_def by blast

lemma frames_aligned: "f \<in> frames m d a b \<Longrightarrow> page_aligned f"
  by (auto simp: frames_def)

lemma frames_cong:
  assumes "\<And>w. page_aligned w \<Longrightarrow> x \<le> w \<Longrightarrow> w < b \<Longrightarrow> pte_at m d w = pte_at m' d w"
  shows "frames m d x b = frames m' d x b"
proof -
  have "(v = PTE_ADDR (pte_at m d w) \<and> page_aligned w \<and> x \<le> w \<and> w < b \<and> present (pte_at m d w)) \<longleftrightarrow>
      (v = PTE_ADDR (pte_at m' d w) \<and> page_aligned w \<and> x \<le> w \<and> w < b \<and> present (pte_at m' d w))" for v w
    using assms [of w] by auto
  then show ?thesis by (simp only: frames_def)
qed

lemma update_chain:
  assumes "u = t\<lparr>ram := ram u, freelist := freelist u, page_counters := page_counters u\<rparr>"
    and "t = s\<lparr>ram := m, freelist := h, page_counters := c\<rparr>"
  shows "u = s\<lparr>ram := ram u, freelist := freelist u, page_counters := page_counters u\<rparr>"
  by (subst assms(1), subst assms(2)) simp

lemma dropped_compose:
  assumes first: "\<forall>w. pte_at (ram t) d w = (if PGROUNDDOWN w = a then 0 else pte_at (ram s) d w)"
      "pt_pages (ram t) d = pt_pages (ram s) d"
      "\<forall>x. PGROUNDDOWN x \<notin> pt_pages (ram s) d \<and> (page_counters s (PA_INX f) = 1 \<longrightarrow> PGROUNDDOWN x \<noteq> p2v f)
          \<longrightarrow> ram t x = ram s x"
      "t = s\<lparr>ram := ram t, freelist := freelist t,
             page_counters := (page_counters s)(PA_INX f := page_counters s (PA_INX f) - 1)\<rparr>"
    and rest: "dropped t (if page_counters s (PA_INX f) = 1 then p2v f # ps else ps) d (a + PGSIZE) b u ps'"
    and a: "page_aligned a" "a < b" "b \<le> KERNBASE" "present (pte_at (ram s) d a)"
    and f: "f = PTE_ADDR (pte_at (ram s) d a)" "f \<notin> frames (ram s) d (a + PGSIZE) b"
  shows "dropped s ps d a b u ps'"
proof -
  let ?F = "frames (ram s) d a b" and ?G = "frames (ram s) d (a + PGSIZE) b"
  have ua: "unat a + 4096 < 2 ^ 32" using a(2,3) by (simp add: word_less_nat_alt word_le_nat_alt)
  have na: "\<not> a + PGSIZE \<le> a" using ua by (simp add: word_le_nat_alt unat_word_ariths)
  have ct: "page_counters t = (page_counters s)(PA_INX f := page_counters s (PA_INX f) - 1)"
    by (subst first(4)) simp
  have F: "?F = insert f ?G" using frames_step [OF a(1,2,3)] a(4) f(1) by auto
  have G: "frames (ram t) d (a + PGSIZE) b = ?G"
    by (rule frames_cong) (use first(1) na in auto)
  have fa: "page_aligned f" using f(1) by simp
  have fG: "PA_INX f \<notin> PA_INX ` ?G"
  proof
    assume "PA_INX f \<in> PA_INX ` ?G"
    then obtain g where "g \<in> ?G" "PA_INX f = PA_INX g" by auto
    with PA_INX_inj [OF fa frames_aligned] f(2) show False by blast
  qed
  have cG: "page_counters t (PA_INX g) = page_counters s (PA_INX g)" if "g \<in> ?G" for g
  proof -
    have "PA_INX g \<noteq> PA_INX f" using imageI [OF that, of PA_INX] fG by metis
    then show ?thesis by (simp add: ct)
  qed
  then have lastG: "{g \<in> ?G. page_counters t (PA_INX g) = 1} = {g \<in> ?G. page_counters s (PA_INX g) = 1}"
    by auto
  have lastF: "{g \<in> ?F. page_counters s (PA_INX g) = 1}
      = (if page_counters s (PA_INX f) = 1 then {f} else {}) \<union> {g \<in> ?G. page_counters s (PA_INX g) = 1}"
    using F by auto
  note R = rest [unfolded dropped_def Let_def G lastG]
  have r1: "pte_at (ram u) d w = (if a \<le> PGROUNDDOWN w \<and> PGROUNDDOWN w < b \<and> present (pte_at (ram s) d w) then 0
           else pte_at (ram s) d w)" for w
  proof (cases "PGROUNDDOWN w = a")
    case True
    then have "present (pte_at (ram s) d w)"
      using a(4) pte_at_page [of w a "ram s" d] a(1) by simp
    with True R first(1) a(2) na show ?thesis by simp
  next
    case False
    then have "a \<le> PGROUNDDOWN w \<longleftrightarrow> a + PGSIZE \<le> PGROUNDDOWN w"
      using page_after [OF a(1) _ ua, of "PGROUNDDOWN w"] by simp
    with False R first(1) show ?thesis by simp
  qed
  have r2: "page_counters u i = page_counters s i - (if i \<in> PA_INX ` ?F then 1 else 0)" for i
    using R ct F fG by auto
  have r3: "set ps' = set ps \<union> p2v ` {g \<in> ?F. page_counters s (PA_INX g) = 1}"
    unfolding lastF using R by (auto split: if_splits)
  have r4: "pt_pages (ram u) d = pt_pages (ram s) d" using R first(2) by simp
  have r5: "ram u x = ram s x"
    if "PGROUNDDOWN x \<notin> pt_pages (ram s) d \<union> p2v ` {g \<in> ?F. page_counters s (PA_INX g) = 1}" for x
  proof -
    have "ram u x = ram t x" using R first(2) that unfolding lastF by auto
    moreover have "ram t x = ram s x" using first(3) that unfolding lastF by auto
    ultimately show ?thesis by simp
  qed
  have "u = t\<lparr>ram := ram u, freelist := freelist u, page_counters := page_counters u\<rparr>" using R by blast
  from this first(4) have r6: "u = s\<lparr>ram := ram u, freelist := freelist u, page_counters := page_counters u\<rparr>"
    by (rule update_chain)
  show ?thesis unfolding dropped_def Let_def using r1 r2 r3 r4 r5 r6 by blast
qed

lemma present_table: "present (pte_at m d w) \<Longrightarrow> has_table m d (PDX w)"
  by (auto simp: pte_at_def present_def split: if_splits)

lemma user_ok_fresh:
  assumes U: "user_ok s ps d a b" and a: "page_aligned a" "a < b" "b \<le> KERNBASE"
    and pr: "present (pte_at (ram s) d a)" and f: "f = PTE_ADDR (pte_at (ram s) d a)"
    and w: "page_aligned w" "a + PGSIZE \<le> w" "w < b" "present (pte_at (ram s) d w)"
  shows "PTE_ADDR (pte_at (ram s) d w) \<noteq> f"
proof -
  have "unat a + 4096 < 2 ^ 32" using a(2,3) by (simp add: word_less_nat_alt word_le_nat_alt)
  then have "unat (a + PGSIZE) = unat a + 4096" by (simp add: unat_word_ariths)
  with w(2) have "a \<le> w" "a \<noteq> w" by (auto simp: word_le_nat_alt)
  with user_ok_inj [OF U a(1) _ a(2) pr w(1) _ w(3,4)] f show ?thesis by auto
qed

lemma user_ok_after:
  assumes U: "user_ok s ps d a b"
    and first: "\<forall>w. pte_at (ram t) d w = (if PGROUNDDOWN w = a then 0 else pte_at (ram s) d w)"
      "pt_pages (ram t) d = pt_pages (ram s) d"
      "t = s\<lparr>ram := ram t, freelist := freelist t,
             page_counters := (page_counters s)(PA_INX f := page_counters s (PA_INX f) - 1)\<rparr>"
    and a: "page_aligned a" "a < b" "b \<le> KERNBASE"
    and pr: "present (pte_at (ram s) d a)" and f: "f = PTE_ADDR (pte_at (ram s) d a)"
  shows "user_ok t (if page_counters s (PA_INX f) = 1 then p2v f # ps else ps) d (a + PGSIZE) b"
proof -
  have "unat a + 4096 < 2 ^ 32" using a(2,3) by (simp add: word_less_nat_alt word_le_nat_alt)
  then have np: "unat (a + PGSIZE) = unat a + 4096" by (simp add: unat_word_ariths)
  then have le: "a \<le> w" if "a + PGSIZE \<le> w" for w using that by (simp add: word_le_nat_alt)
  have same: "pte_at (ram t) d w = pte_at (ram s) d w" if "page_aligned w" "a + PGSIZE \<le> w" for w
    using first(1) that np by (auto simp: word_le_nat_alt)
  have kt: "kend t = kend s" "page_counters t = (page_counters s)(PA_INX f := page_counters s (PA_INX f) - 1)"
    by (subst first(3), simp)+
  show ?thesis
    unfolding user_ok_def Let_def
  proof (intro conjI allI impI; elim conjE)
    fix w assume w: "page_aligned w" "a + PGSIZE \<le> w" "w < b" "present (pte_at (ram t) d w)"
    then have ws: "present (pte_at (ram s) d w)" using same by auto
    note W = user_okD [OF U w(1) le [OF w(2)] w(3) ws refl]
    let ?g = "PTE_ADDR (pte_at (ram t) d w)"
    have g: "?g = PTE_ADDR (pte_at (ram s) d w)" "?g \<noteq> f"
      using same w(1,2) user_ok_fresh [OF U a pr f w(1-3) ws] by auto
    then have "PA_INX ?g \<noteq> PA_INX f" using PA_INX_inj [of ?g f] by (simp add: f)
    with W g kt first(2) show "?g \<noteq> 0" "page_ok (kend t) (p2v ?g)" "p2v ?g \<notin> pt_pages (ram t) d"
      "p2v ?g \<notin> set (if page_counters s (PA_INX f) = 1 then p2v f # ps else ps)"
      "1 \<le> page_counters t (PA_INX ?g)"
      by (simp_all add: inj_p2v)
  next
    fix v w assume v: "page_aligned v" "a + PGSIZE \<le> v" "v < b" "present (pte_at (ram t) d v)"
      and w: "page_aligned w" "a + PGSIZE \<le> w" "w < b" "present (pte_at (ram t) d w)"
      and eq: "PTE_ADDR (pte_at (ram t) d v) = PTE_ADDR (pte_at (ram t) d w)"
    then show "v = w"
      using user_ok_inj [OF U v(1) le [OF v(2)] v(3) _ w(1) le [OF w(2)] w(3)] same by auto
  qed
qed

lemma cow_dealloc_loop:
  assumes "vm_inv s ps d" "user_ok s ps d a b" "no_holes (ram s) d a b brk"
    and "page_aligned a" "b \<le> KERNBASE" "unat b \<le> unat a + 4096 * n"
  shows "\<exists>t ps'. kloop (Suc n) (cow_deallocuvm_body d b) a s = Done () t \<and> vm_inv t ps' d
     \<and> dropped s ps d a b t ps'"
  using assms
proof (induction n arbitrary: a s ps)
  case 0
  then have "\<not> a < b" by (simp add: word_less_nat_alt)
  moreover from this have "frames (ram s) d a b = {}" by (auto simp: frames_def)
  ultimately show ?case
    using 0(1) dropped_empty by (intro exI [of _ s] exI [of _ ps]) (simp add: cow_deallocuvm_body_def)
next
  case (Suc n)
  show ?case
  proof (cases "a < b")
    case False
    then have "frames (ram s) d a b = {}" by (auto simp: frames_def)
    with False Suc.prems(1) dropped_empty show ?thesis
      by (intro exI [of _ s] exI [of _ ps]) (simp add: cow_deallocuvm_body_def)
  next
    case True
    then have ua: "unat a < 0x80000000"
      using Suc.prems(5) by (simp add: word_less_nat_alt word_le_nat_alt)
    then have np: "unat (a + PGSIZE) = unat a + 4096" by (simp add: unat_word_ariths)
    have al: "page_aligned (a + PGSIZE)" using Suc.prems(4) page_aligned_add by simp
    have le: "a \<le> a + PGSIZE" using np by (simp add: word_le_nat_alt)
    note H = Suc.prems(3) [unfolded no_holes_def, rule_format]
    show ?thesis
    proof (cases "present (pte_at (ram s) d a)")
      case pr: True
      define f where "f = PTE_ADDR (pte_at (ram s) d a)"
      note U = user_okD [OF Suc.prems(2) Suc.prems(4) _ True pr f_def, simplified]
      from cow_dealloc_step [OF Suc.prems(1) True Suc.prems(4) pr f_def U(1,2,3,4)]
      obtain t where t: "cow_deallocuvm_body d b a s = Done (Inl (a + PGSIZE)) t"
        "vm_inv t (if page_counters s (PA_INX f) = 1 then p2v f # ps else ps) d"
        and first: "\<forall>w. pte_at (ram t) d w = (if PGROUNDDOWN w = a then 0 else pte_at (ram s) d w)"
          "pt_pages (ram t) d = pt_pages (ram s) d"
          "\<forall>x. PGROUNDDOWN x \<notin> pt_pages (ram s) d \<and> (page_counters s (PA_INX f) = 1 \<longrightarrow> PGROUNDDOWN x \<noteq> p2v f)
            \<longrightarrow> ram t x = ram s x"
          "t = s\<lparr>ram := ram t, freelist := freelist t,
             page_counters := (page_counters s)(PA_INX f := page_counters s (PA_INX f) - 1)\<rparr>" by blast
      have same: "pte_at (ram t) d w = pte_at (ram s) d w" if "page_aligned w" "a + PGSIZE \<le> w" for w
        using first(1) that np ua by (auto simp: word_le_nat_alt)
      have "\<exists>u ps'. kloop (Suc n) (cow_deallocuvm_body d b) (a + PGSIZE) t = Done () u \<and> vm_inv u ps' d
          \<and> dropped t (if page_counters s (PA_INX f) = 1 then p2v f # ps else ps) d (a + PGSIZE) b u ps'"
      proof (rule Suc.IH [OF t(2) _ _ al Suc.prems(5)])
        show "unat b \<le> unat (a + PGSIZE) + 4096 * n" using Suc.prems(6) np by simp
        show "no_holes (ram t) d (a + PGSIZE) b brk"
          unfolding no_holes_def using same H le by (auto intro: order_trans)
        show "user_ok t (if page_counters s (PA_INX f) = 1 then p2v f # ps else ps) d (a + PGSIZE) b"
          by (rule user_ok_after [OF Suc.prems(2) first(1,2,4) Suc.prems(4) True Suc.prems(5) pr f_def])
      qed
      then obtain u ps' where u: "kloop (Suc n) (cow_deallocuvm_body d b) (a + PGSIZE) t = Done () u" "vm_inv u ps' d"
        "dropped t (if page_counters s (PA_INX f) = 1 then p2v f # ps else ps) d (a + PGSIZE) b u ps'" by blast
      have "f \<notin> frames (ram s) d (a + PGSIZE) b"
        using user_ok_fresh [OF Suc.prems(2) Suc.prems(4) True Suc.prems(5) pr f_def] by (auto simp: frames_def)
      then have "dropped s ps d a b u ps'"
        by (rule dropped_compose [OF first u(3) Suc.prems(4) True Suc.prems(5) pr f_def])
      moreover have "kloop (Suc (Suc n)) (cow_deallocuvm_body d b) a s = Done () u"
        using u(1) by (simp only: kloop_step(1) [of "cow_deallocuvm_body d b", OF t(1)])
      ultimately show ?thesis using u(2) by blast
    next
      case np_a: False
      define a' where "a' = (if has_table (ram s) d (PDX a) then a + PGSIZE else a + 0x400000)"
      have ua': "unat a + 4096 \<le> unat a'" "page_aligned a'"
      proof -
        have "page_aligned (0x400000 :: uint)" by (simp add: page_aligned_def)
        then show "page_aligned a'" using al Suc.prems(4) page_aligned_add by (simp add: a'_def)
        have "unat (a + 0x400000) = unat a + 0x400000" using ua by (simp add: unat_word_ariths)
        then show "unat a + 4096 \<le> unat a'" using np by (simp add: a'_def)
      qed
      then have le': "a \<le> a'" by (simp add: word_le_nat_alt)
      have body: "cow_deallocuvm_body d b a s = Done (Inl a') s"
        using True np_a by (cases "has_table (ram s) d (PDX a)")
          (simp_all add: cow_deallocuvm_body_def walk_run a'_def present_def pte_at_def algebra_simps)
      have above: "\<not> present (pte_at (ram s) d w)" if "page_aligned w" "a \<le> w" "w < b" for w
        using H [of a] H [of w] that np_a Suc.prems(4) True by auto
      have "\<exists>u ps'. kloop (Suc n) (cow_deallocuvm_body d b) a' s = Done () u \<and> vm_inv u ps' d
          \<and> dropped s ps d a' b u ps'"
      proof (rule Suc.IH [OF Suc.prems(1) _ _ ua'(2) Suc.prems(5)])
        show "unat b \<le> unat a' + 4096 * n" using Suc.prems(6) ua' by simp
        show "no_holes (ram s) d a' b brk"
          unfolding no_holes_def using H le' by (auto intro: order_trans)
        show "user_ok s ps d a' b"
          unfolding user_ok_def Let_def using above le' by (meson order_trans)
      qed
      then obtain u ps' where u: "kloop (Suc n) (cow_deallocuvm_body d b) a' s = Done () u" "vm_inv u ps' d"
        "dropped s ps d a' b u ps'" by blast
      have "dropped s ps d a b u ps'"
        by (rule dropped_skip [OF u(3) le']) (use above in blast)
      moreover have "kloop (Suc (Suc n)) (cow_deallocuvm_body d b) a s = Done () u"
        using u(1) by (simp only: kloop_step(1) [of "cow_deallocuvm_body d b", OF body])
      ultimately show ?thesis using u(2) by blast
    qed
  qed
qed

lemma dropped_held:
  assumes "dropped (s\<lparr>held := insert l (held s)\<rparr>) ps d a b t ps'" "l \<notin> held s"
  shows "l \<in> held t" "dropped s ps d a b (t\<lparr>held := held t - {l}\<rparr>) ps'"
proof -
  have t: "t = s\<lparr>held := insert l (held s), ram := ram t, freelist := freelist t, page_counters := page_counters t\<rparr>"
    using assms(1) unfolding dropped_def Let_def by simp
  show "l \<in> held t" by (subst t) simp
  have "t\<lparr>held := held t - {l}\<rparr> = s\<lparr>ram := ram t, freelist := freelist t, page_counters := page_counters t\<rparr>"
    using assms(2) by (subst t, subst (2) t) (cases s, simp)
  with assms(1) show "dropped s ps d a b (t\<lparr>held := held t - {l}\<rparr>) ps'"
    unfolding dropped_def Let_def by simp
qed

lemma vm_inv_held: "vm_inv s ps d \<Longrightarrow> use_lock s \<noteq> 0 \<longrightarrow> L_kmem \<notin> h \<Longrightarrow> vm_inv (s\<lparr>held := h\<rparr>) ps d"
  by (simp add: vm_inv_def kmem_inv_def)

lemma cow_deallocuvm_run:
  assumes inv: "vm_inv s ps d" and sz: "newsz < oldsz" "oldsz \<le> KERNBASE" and lk: "L_pgcount \<notin> held s"
    and img: "user_ok s ps d (PGROUNDUP newsz) oldsz" "no_holes (ram s) d (PGROUNDUP newsz) oldsz brk"
  shows "\<exists>t ps'. cow_deallocuvm d oldsz newsz s = Done newsz t \<and> vm_inv t ps' d
     \<and> dropped s ps d (PGROUNDUP newsz) oldsz t ps'"
proof -
  let ?s = "s\<lparr>held := insert L_pgcount (held s)\<rparr>"
  have kl: "use_lock s \<noteq> 0 \<longrightarrow> L_kmem \<notin> held s" using kmem_invD(5) [OF vm_invD(1) [OF inv]] by simp
  then have i: "vm_inv ?s ps d" by (intro vm_inv_held [OF inv]) auto
  have "unat oldsz \<le> unat (PGROUNDUP newsz) + 4096 * (unat oldsz div 4096 + 1)"
    using dividend_less_div_times [of 4096 "unat oldsz"] by simp
  moreover have "user_ok ?s ps d (PGROUNDUP newsz) oldsz" using img(1) by (simp add: user_ok_def)
  moreover have "no_holes (ram ?s) d (PGROUNDUP newsz) oldsz brk" using img(2) by simp
  ultimately obtain t ps' where t: "kloop (Suc (unat oldsz div 4096 + 1)) (cow_deallocuvm_body d oldsz) (PGROUNDUP newsz) ?s = Done () t"
      "vm_inv t ps' d" "dropped ?s ps d (PGROUNDUP newsz) oldsz t ps'"
    using cow_dealloc_loop [OF i _ _ page_aligned_PGROUNDUP sz(2)] by blast
  note H = dropped_held [OF t(3) lk]
  have "\<not> oldsz \<le> newsz" using sz(1) by simp
  then have "cow_deallocuvm d oldsz newsz s = Done newsz (t\<lparr>held := held t - {L_pgcount}\<rparr>)"
    using lk t(1) H(1) by (simp add: cow_deallocuvm_def)
  moreover have "vm_inv (t\<lparr>held := held t - {L_pgcount}\<rparr>) ps' d"
    by (rule vm_inv_held [OF t(2)]) (use kmem_invD(5) [OF vm_invD(1) [OF t(2)]] in auto)
  ultimately show ?thesis using H(2) by blast
qed

section \<open>Properties\<close>

text \<open>C2: \<^verbatim>\<open>cow_deallocuvm\<close> terminates on a process image without holes and drops exactly one reference
  for every page mapped between the new and the old size: its entry is cleared, its counter goes
  down by one, and the page goes to the free list if and only if that was the last reference. Pages
  with references left keep every byte; the entries and counters of all other pages are unchanged.\<close>

theorem cow_deallocuvm_drops_references:
  assumes "vm_inv s ps d" "newsz < oldsz" "oldsz \<le> KERNBASE" "L_pgcount \<notin> held s"
    and "user_ok s ps d (PGROUNDUP newsz) oldsz" "no_holes (ram s) d (PGROUNDUP newsz) oldsz brk"
    and F: "F = frames (ram s) d (PGROUNDUP newsz) oldsz"
  shows "\<exists>t ps'. cow_deallocuvm d oldsz newsz s = Done newsz t \<and> vm_inv t ps' d \<and> held t = held s
     \<and> (\<forall>w. pte_at (ram t) d w =
          (if PGROUNDUP newsz \<le> PGROUNDDOWN w \<and> PGROUNDDOWN w < oldsz \<and> present (pte_at (ram s) d w) then 0
           else pte_at (ram s) d w))
     \<and> (\<forall>i. page_counters t i = page_counters s i - (if i \<in> PA_INX ` F then 1 else 0))
     \<and> set ps' = set ps \<union> p2v ` {f \<in> F. page_counters s (PA_INX f) = 1}
     \<and> (\<forall>x. PGROUNDDOWN x \<notin> pt_pages (ram s) d \<union> p2v ` {f \<in> F. page_counters s (PA_INX f) = 1}
          \<longrightarrow> ram t x = ram s x)"
proof -
  from cow_deallocuvm_run [OF assms(1-6)] obtain t ps' where t: "cow_deallocuvm d oldsz newsz s = Done newsz t"
    "vm_inv t ps' d" and D: "dropped s ps d (PGROUNDUP newsz) oldsz t ps'" by blast
  have "t = s\<lparr>ram := ram t, freelist := freelist t, page_counters := page_counters t\<rparr>"
    using D unfolding dropped_def Let_def by blast
  from arg_cong [OF this, of held] have "held t = held s" by simp
  with t D show ?thesis unfolding dropped_def Let_def F by blast
qed

text \<open>A directory at 0x80200000 with the table 0x80201000 and one user page, the frame 0x300000, whose
  counter says that two directories map it.\<close>

definition shared_ram :: mem where
  "shared_ram =
     (let m = store32 (memset (memset (\<lambda>_. 0) 0x80200000 0 PGSIZE) 0x80201000 0 PGSIZE)
                (0x80200000 + 4 * PDX 0) (v2p 0x80201000 OR PTE_P OR PTE_W OR PTE_U)
      in store32 m (pte_addr m 0x80200000 0) 0x300005)"

definition vm_shared :: vm where
  "vm_shared = vm_one\<lparr>ram := shared_ram, freelist := 0, page_counters := (\<lambda>_. 0)(0x300 := 2)\<rparr>"

lemma vm_shared_inv:
  "vm_inv vm_shared [] 0x80200000" "pt_pages shared_ram 0x80200000 = {0x80200000, 0x80201000}"
  "pte_at shared_ram 0x80200000 w = (if PGROUNDDOWN w = 0 then 0x300005 else 0)"
proof -
  let ?d = "0x80200000 :: uint" and ?p = "0x80201000 :: uint" and ?e = "0x80110000 :: uint"
  have ok: "page_ok ?e ?d" "page_ok ?e ?p" unfolding page_ok_def by (simp_all add: v2p_def)
  let ?s0 = "vm_one\<lparr>freelist := 0\<rparr>"
  have k0: "kmem_inv ?s0 []" by (simp add: kmem_inv_def vm_one_def)
  let ?m0 = "memset (\<lambda>_. 0) ?d 0 PGSIZE"
  note F = fresh_pgdir [OF k0 _ _ refl, of ?d, simplified]
  have f: "pgdir_ok ?e ?m0 ?d" "pte_at ?m0 ?d = (\<lambda>_. 0)" "pt_pages ?m0 ?d = {?d}"
    using F ok(1) by (simp_all add: vm_one_def vm_inv_def)
  have none: "\<not> has_table ?m0 ?d (PDX 0)"
    using f(3) ok(1) load32_zero_page [OF page_ok_aligned [OF ok(1)] table_entry(2,1) [OF page_ok_aligned [OF ok(1)] PDX_less [of 0]]]
    by (simp add: has_table_def pde_at_def)
  define m1 where "m1 = store32 (memset ?m0 ?p 0 PGSIZE) (?d + 4 * PDX 0) (v2p ?p OR PTE_P OR PTE_W OR PTE_U)"
  have pd: "?p \<notin> pt_pages ?m0 ?d" by (simp add: f(3))
  note I = install_table [OF f(1) none ok(2) pd m1_def]
  have sr: "shared_ram = store32 m1 (pte_addr m1 ?d 0) 0x300005"
    by (simp only: shared_ram_def m1_def Let_def)
  note S = set_pte_mem [OF I(1) I(4) sr]
  show pp: "pt_pages shared_ram ?d = {?d, ?p}" using S(2) I(2) f(3) by auto
  show "pte_at shared_ram ?d w = (if PGROUNDDOWN w = 0 then 0x300005 else 0)"
    using S(3) I(3) f(2) by simp
  show "vm_inv vm_shared [] ?d"
    using S(1) by (simp add: vm_inv_def kmem_inv_def vm_shared_def vm_one_def)
qed

lemma small_page:
  assumes "page_aligned w" "w < PGSIZE"
  shows "w = 0"
proof -
  have "unat w < 4096" using assms(2) by (simp add: word_less_nat_alt)
  with assms(1) show ?thesis by (simp add: page_aligned_unat unat_eq_0)
qed

lemma shared_page:
  "present (pte_at shared_ram 0x80200000 0)" "PTE_ADDR (pte_at shared_ram 0x80200000 0) = 0x300000"
  "page_ok 0x80110000 (p2v 0x300000)" "PA_INX 0x300000 = 0x300"
  unfolding page_ok_def
  by (simp_all add: vm_shared_inv(3) present_def PTE_ADDR_def v2p_def p2v_def PA_INX_def)

theorem cow_deallocuvm_drops_references_witness:
  "\<exists>t. cow_deallocuvm 0x80200000 PGSIZE 0 vm_shared = Done 0 t \<and> kmem_inv t []
     \<and> page_counters t 0x300 = 1 \<and> pte_at (ram t) 0x80200000 0 = 0"
proof -
  let ?d = "0x80200000 :: uint"
  have r: "ram vm_shared = shared_ram" "kend vm_shared = 0x80110000" "held vm_shared = {}"
    "page_counters vm_shared 0x300 = 2"
    by (simp_all add: vm_shared_def vm_one_def)
  have up: "PGROUNDUP 0 = 0" by (simp add: PGROUNDUP_def)
  have F: "frames (ram vm_shared) ?d (PGROUNDUP 0) PGSIZE = {0x300000}"
    using shared_page small_page by (auto simp: frames_def r up)
  have U: "user_ok vm_shared [] ?d (PGROUNDUP 0) PGSIZE"
    unfolding user_ok_def
  proof (intro conjI allI impI; elim conjE)
    fix w assume w: "page_aligned w" "w < PGSIZE"
    show "let f = PTE_ADDR (pte_at (ram vm_shared) ?d w) in f \<noteq> 0 \<and> page_ok (kend vm_shared) (p2v f)
       \<and> p2v f \<notin> set [] \<and> p2v f \<notin> pt_pages (ram vm_shared) ?d \<and> 1 \<le> page_counters vm_shared (PA_INX f)"
      unfolding small_page [OF w] r shared_page Let_def using shared_page(3) vm_shared_inv(2) r(4)
      by (simp add: p2v_def)
  qed (use small_page in blast)
  have H: "no_holes (ram vm_shared) ?d (PGROUNDUP 0) PGSIZE PGSIZE"
    unfolding no_holes_def r up using small_page shared_page(1) by auto
  from cow_deallocuvm_drops_references [OF vm_shared_inv(1) _ _ _ U H F [symmetric]] r
  obtain t ps' where t: "cow_deallocuvm ?d PGSIZE 0 vm_shared = Done 0 t" "vm_inv t ps' ?d"
    "\<forall>w. pte_at (ram t) ?d w =
          (if PGROUNDUP 0 \<le> PGROUNDDOWN w \<and> PGROUNDDOWN w < PGSIZE \<and> present (pte_at (ram vm_shared) ?d w) then 0
           else pte_at (ram vm_shared) ?d w)"
    "\<forall>i. page_counters t i = page_counters vm_shared i - (if i \<in> PA_INX ` {0x300000} then 1 else 0)"
    "set ps' = set [] \<union> p2v ` {f \<in> {0x300000}. page_counters vm_shared (PA_INX f) = 1}"
    by auto
  have "{f \<in> {0x300000}. page_counters vm_shared (PA_INX f) = 1} = {}" using r(4) shared_page(4) by auto
  with t(5) have "ps' = []" by (simp only: image_empty) simp
  then have "kmem_inv t []" using vm_invD(1) [OF t(2)] by simp
  moreover have "page_counters t 0x300 = 1" using t(4) r(4) shared_page(4) by simp
  moreover have "pte_at (ram t) ?d 0 = 0" using t(3) r(1) shared_page(1) up by simp
  ultimately show ?thesis using t(1) by blast
qed

text \<open>C35: \<^verbatim>\<open>deallocuvm\<close>, which \<^verbatim>\<open>freevm\<close> and \<^verbatim>\<open>growproc\<close> call, does not respect sharing. When it takes a mapped
  page off the end of a user address space, at whatever user address, it puts the page's frame on the free list
  whatever the reference counter says, and leaves the counter as it was: a second directory that maps the frame
  still does so afterwards, and its frame is the next page that \<^verbatim>\<open>kalloc\<close> hands out.\<close>

theorem deallocuvm_ignores_references:
  assumes inv: "vm_inv s ps d" and w: "page_aligned w" "w < KERNBASE" and pr: "present (pte_at (ram s) d w)"
    and f: "f = PTE_ADDR (pte_at (ram s) d w)" "f \<noteq> 0"
    and q: "page_ok (kend s) (p2v f)" "p2v f \<notin> set ps" "p2v f \<notin> pt_pages (ram s) d"
    and other: "pgdir_ok (kend s) (ram s) d'" "pt_pages (ram s) d' \<inter> insert (p2v f) (pt_pages (ram s) d) = {}"
      "present (pte_at (ram s) d' v)" "PTE_ADDR (pte_at (ram s) d' v) = f"
  shows "\<exists>t. deallocuvm d (w + PGSIZE) w s = Done w t \<and> vm_inv t (p2v f # ps) d \<and> freelist t = p2v f
     \<and> page_counters t = page_counters s
     \<and> present (pte_at (ram t) d' v) \<and> PTE_ADDR (pte_at (ram t) d' v) = f"
proof -
  have tab: "has_table (ram s) d (PDX w)" using pr by (rule present_table)
  have e: "load32 (ram s) (pte_addr (ram s) d w) = pte_at (ram s) d w" using tab by (simp add: pte_at_def)
  from kfree_vm [OF inv q] obtain u where u: "kfree (p2v f) s = Done () u" "vm_inv u (p2v f # ps) d"
    "pte_addr (ram u) d w = pte_addr (ram s) d w" "has_table (ram u) d (PDX w)"
    "pt_pages (ram u) d = pt_pages (ram s) d" "\<And>x. PGROUNDDOWN x \<noteq> p2v f \<Longrightarrow> ram u x = ram s x"
    "u = s\<lparr>ram := ram u, freelist := freelist u\<rparr>"
    using tab PDX_less [of w] by metis
  define t where "t = u\<lparr>ram := store32 (ram u) (pte_addr (ram u) d w) 0\<rparr>"
  have n: "unat w < 2 ^ 31" "unat w mod 4096 = 0" using w by (simp_all add: word_less_nat_alt page_aligned_unat)
  have n1: "unat (w + PGSIZE) = unat w + 4096" using n(1) by (simp add: unat_word_ariths)
  have lt: "w < w + PGSIZE" by (simp only: word_less_nat_alt n1)
  have body: "deallocuvm_body d (w + PGSIZE) w s = Done (Inl (w + PGSIZE)) t"
    using tab pr f u(1,3) lt by (simp add: deallocuvm_body_def walk_run e present_def t_def)
  have stop: "deallocuvm_body d (w + PGSIZE) (w + PGSIZE) t = Done (Inr ()) t" by (simp add: deallocuvm_body_def)
  obtain k where "unat w = 4096 * k" using n(2) by (metis dvdE mod_0_imp_dvd)
  then have up: "PGROUNDUP w = w" using n(1) by (simp add: word_unat_eq_iff unat_PGROUNDUP)
  have "deallocuvm d (w + PGSIZE) w s = Done w t"
    unfolding deallocuvm_def up add_2_eq_Suc' using body stop lt by (simp del: kloop.simps add: kloop_step)
  moreover have inv_t: "vm_inv t (p2v f # ps) d" by (rule set_pte(1) [OF u(2) u(4) t_def])
  moreover have "freelist t = p2v f" using kmem_invD(2) [OF vm_invD(1) [OF inv_t]] by simp
  moreover have "page_counters t = page_counters s" unfolding t_def by (subst u(7)) simp
  moreover have "pte_at (ram t) d' v = pte_at (ram s) d' v"
  proof (rule pt_frame(1) [OF other(1)])
    fix x assume x: "PGROUNDDOWN x \<in> pt_pages (ram s) d'"
    have "ram t x = ram u x"
    proof (rule set_pte_mem(4) [OF vm_invD(2) [OF u(2)] u(4)])
      show "ram t = store32 (ram u) (pte_addr (ram u) d w) 0" by (simp add: t_def)
      show "PGROUNDDOWN x \<noteq> table_of (ram u) d (PDX w)"
        using pt_pagesI(1) [OF PDX_less u(4)] x other(2) u(5) by auto
    qed
    moreover have "PGROUNDDOWN x \<noteq> p2v f" using x other(2) by (metis disjoint_iff insertI1)
    ultimately show "ram t x = ram s x" using u(6) by simp
  qed
  ultimately show ?thesis using other(3,4) by metis
qed

text \<open>The memory of \<^const>\<open>vm_shared\<close> with a second directory at 0x80202000, whose table 0x80203000 maps the same frame.\<close>

definition twice_ram :: mem where
  "twice_ram =
     (let m = store32 (memset (memset shared_ram 0x80202000 0 PGSIZE) 0x80203000 0 PGSIZE)
                (0x80202000 + 4 * PDX 0) (v2p 0x80203000 OR PTE_P OR PTE_W OR PTE_U)
      in store32 m (pte_addr m 0x80202000 0) 0x300005)"

lemma twice_inv:
  "vm_inv (vm_shared\<lparr>ram := twice_ram\<rparr>) [] 0x80200000" "pt_pages twice_ram 0x80200000 = {0x80200000, 0x80201000}"
  "pte_at twice_ram 0x80200000 0 = 0x300005" "pgdir_ok 0x80110000 twice_ram 0x80202000"
  "pt_pages twice_ram 0x80202000 = {0x80202000, 0x80203000}" "pte_at twice_ram 0x80202000 0 = 0x300005"
proof -
  let ?d = "0x80202000 :: uint" and ?p = "0x80203000 :: uint" and ?e = "0x80110000 :: uint"
  have ok: "page_ok ?e ?d" "page_ok ?e ?p" unfolding page_ok_def by (simp_all add: v2p_def)
  have al: "page_aligned ?d" using ok(1) by (rule page_ok_aligned)
  have r: "ram vm_shared = shared_ram" "kend vm_shared = ?e" by (simp_all add: vm_shared_def vm_one_def)
  let ?m0 = "memset shared_ram ?d 0 PGSIZE"
  have V: "pgdir_ok ?e shared_ram 0x80200000" "kmem_inv vm_shared []" using vm_invD [OF vm_shared_inv(1)] r by simp_all
  have f: "pgdir_ok ?e ?m0 ?d" "pte_at ?m0 ?d = (\<lambda>_. 0)" "pt_pages ?m0 ?d = {?d}"
    using fresh_pgdir [OF V(2) _ _ refl, of ?d] ok(1) r by (simp_all add: vm_inv_def)
  have none: "\<not> has_table ?m0 ?d (PDX 0)"
    using load32_zero_page [OF al table_entry(2,1) [OF al PDX_less [of 0]]]
    by (simp add: has_table_def pde_at_def)
  define m1 where "m1 = store32 (memset ?m0 ?p 0 PGSIZE) (?d + 4 * PDX 0) (v2p ?p OR PTE_P OR PTE_W OR PTE_U)"
  have pd: "?p \<notin> pt_pages ?m0 ?d" by (simp add: f(3))
  note I = install_table [OF f(1) none ok(2) pd m1_def]
  have tr: "twice_ram = store32 m1 (pte_addr m1 ?d 0) 0x300005"
    by (simp only: twice_ram_def m1_def Let_def)
  note S = set_pte_mem [OF I(1) I(4) tr]
  show "pgdir_ok ?e twice_ram ?d" by (rule S(1))
  show "pt_pages twice_ram ?d = {?d, ?p}" using S(2) I(2) f(3) by auto
  show "pte_at twice_ram ?d 0 = 0x300005" using S(3) by simp
  have frame: "twice_ram x = shared_ram x" if "PGROUNDDOWN x \<in> pt_pages shared_ram 0x80200000" for x
  proof -
    have x: "PGROUNDDOWN x \<noteq> ?d" "PGROUNDDOWN x \<noteq> ?p" using that vm_shared_inv(2) by auto
    then have "twice_ram x = m1 x" using S(4) [of x] I(5) by simp
    also have "\<dots> = ?m0 x" by (rule I(6) [OF x])
    also have "\<dots> = shared_ram x" using x(1) by (simp add: memset_page [OF al])
    finally show ?thesis .
  qed
  note F = pt_frame [OF V(1) frame]
  show p: "pt_pages twice_ram 0x80200000 = {0x80200000, 0x80201000}" using F(2) vm_shared_inv(2) by simp
  show "pte_at twice_ram 0x80200000 0 = 0x300005" using F(1) [of 0] vm_shared_inv(3) [of 0] by simp
  show "vm_inv (vm_shared\<lparr>ram := twice_ram\<rparr>) [] 0x80200000" using F(3) V(2) r by (simp add: vm_inv_def kmem_inv_def)
qed

theorem deallocuvm_ignores_references_witness:
  "\<exists>t. deallocuvm 0x80200000 PGSIZE 0 (vm_shared\<lparr>ram := twice_ram\<rparr>) = Done 0 t \<and> kmem_inv t [0x80300000]
     \<and> page_counters t 0x300 = 2 \<and> PTE_ADDR (pte_at (ram t) 0x80202000 0) = 0x300000"
proof -
  let ?s = "vm_shared\<lparr>ram := twice_ram\<rparr>"
  have r: "ram ?s = twice_ram" "kend ?s = 0x80110000" "page_counters ?s 0x300 = 2"
    by (simp_all add: vm_shared_def vm_one_def)
  have e: "present 0x300005" "PTE_ADDR 0x300005 = 0x300000" by (simp_all add: present_def PTE_ADDR_def)
  have "\<exists>t. deallocuvm 0x80200000 (0 + PGSIZE) 0 ?s = Done 0 t \<and> vm_inv t [p2v 0x300000] 0x80200000
     \<and> freelist t = p2v 0x300000 \<and> page_counters t = page_counters ?s
     \<and> present (pte_at (ram t) 0x80202000 0) \<and> PTE_ADDR (pte_at (ram t) 0x80202000 0) = 0x300000"
    by (rule deallocuvm_ignores_references [OF twice_inv(1)])
      (use shared_page(3) in \<open>simp_all add: r twice_inv e page_aligned_unat p2v_def\<close>)
  with r(3) show ?thesis by (auto dest: vm_invD(1) simp: p2v_def)
qed

end
