(* ===== verification/Proc.thy ===== *)
theory Proc
  imports Refcount
begin

text \<open>
  The process table (\<^verbatim>\<open>proc.h\<close>, \<^verbatim>\<open>kthread.h\<close>, \<^verbatim>\<open>proc.c\<close>): processes and their threads, allocation of a
  process with its first thread (with \<^verbatim>\<open>allocthread\<close> of \<^verbatim>\<open>kthread.c\<close>), giving up the CPU, sleeping and
  waking up, \<^verbatim>\<open>kill\<close>, and the scheduler. A pointer to a process or thread is its index in the table.
  A thread that switches to the scheduler is the outcome \<open>Block\<close>, with the state at the switch; what
  it does when it is run again is a definition of its own (\<open>sleep_resume\<close>, \<open>yield_resume\<close>). The system
  calls that create and end processes are in the theory Process.
\<close>

section \<open>Processes and threads\<close>

datatype procstate = UNUSED | EMBRYO | SLEEPING | RUNNABLE | RUNNING | ZOMBIE

record thread =
  kstack :: uint
  tstate :: procstate
  tid :: int
  tproc :: "nat option"
  tf :: uint             \<comment> \<open>address of the trap frame on the kernel stack\<close>
  context_a :: uint      \<comment> \<open>\<^verbatim>\<open>context\<close>\<close>
  tchan :: "chan option" \<comment> \<open>\<^verbatim>\<open>chan\<close>\<close>
  tkilled :: int

record proc =
  psz :: uint           \<comment> \<open>\<^verbatim>\<open>sz\<close>\<close>
  pgdir :: uint
  pstate :: procstate
  pid :: int
  parent :: "nat option"
  killed :: int
  ofile :: "nat option list"   \<comment> \<open>indices into the file table\<close>
  cwd :: "nat option"          \<comment> \<open>index into the inode cache\<close>
  pname :: string
  pthreads :: "thread list"
  executed :: int

record ptable = vm +
  procs :: "proc list"
  initproc :: "nat option"
  nextpid :: int
  nexttid :: int
  curproc :: "nat option"            \<comment> \<open>\<^verbatim>\<open>proc\<close> of the executing CPU\<close>
  curthread :: "(nat \<times> nat) option"  \<comment> \<open>\<^verbatim>\<open>thread\<close> of the executing CPU\<close>
  trapret :: uint                    \<comment> \<open>code addresses\<close>
  forkret_a :: uint

text \<open>Byte sizes and field offsets of the structures on a kernel stack.\<close>

abbreviation (input) TF_SIZE :: uint where "TF_SIZE \<equiv> 76"
abbreviation (input) CONTEXT_SIZE :: uint where "CONTEXT_SIZE \<equiv> 20"
abbreviation (input) CONTEXT_EIP :: uint where "CONTEXT_EIP \<equiv> 16"

definition upd_proc :: "nat \<Rightarrow> (proc \<Rightarrow> proc) \<Rightarrow> 'a ptable_scheme \<Rightarrow> (unit, 'a ptable_scheme) outcome" where
  "upd_proc i f = kmod (\<lambda>s. s\<lparr>procs := (procs s)[i := f (procs s ! i)]\<rparr>)"

definition upd_thread :: "nat \<Rightarrow> nat \<Rightarrow> (thread \<Rightarrow> thread) \<Rightarrow> 'a ptable_scheme \<Rightarrow> (unit, 'a ptable_scheme) outcome" where
  "upd_thread i j f = upd_proc i (\<lambda>p. p\<lparr>pthreads := (pthreads p)[j := f (pthreads p ! j)]\<rparr>)"

definition thread_at :: "'a ptable_scheme \<Rightarrow> nat \<Rightarrow> nat \<Rightarrow> thread" where
  "thread_at s i j = pthreads (procs s ! i) ! j"

text \<open>A routine that uses \<^verbatim>\<open>proc\<close> or \<^verbatim>\<open>thread\<close> faults when it is null.\<close>

definition with_proc :: "(nat \<Rightarrow> 'a ptable_scheme \<Rightarrow> ('b, 'a ptable_scheme) outcome) \<Rightarrow> 'a ptable_scheme \<Rightarrow> ('b, 'a ptable_scheme) outcome" where
  "with_proc f s = (case curproc s of None \<Rightarrow> Fault ''proc'' | Some i \<Rightarrow> f i s)"

definition with_thread :: "(nat \<Rightarrow> nat \<Rightarrow> 'a ptable_scheme \<Rightarrow> ('b, 'a ptable_scheme) outcome) \<Rightarrow> 'a ptable_scheme \<Rightarrow> ('b, 'a ptable_scheme) outcome" where
  "with_thread f s = (case curthread s of None \<Rightarrow> Fault ''thread'' | Some (i, j) \<Rightarrow> f i j s)"

section \<open>Allocation\<close>

definition pinit :: "'a ptable_scheme \<Rightarrow> (unit, 'a ptable_scheme) outcome" where
  "pinit = initlock L_ptable"

text \<open>The part of \<^verbatim>\<open>allocthread\<close> after the label \<^verbatim>\<open>found\<close> and the stack's allocation: room for the trap
  frame, the return address \<^verbatim>\<open>trapret\<close>, and a context that starts at \<^verbatim>\<open>forkret\<close>.\<close>

definition setup_stack :: "nat \<Rightarrow> nat \<Rightarrow> uint \<Rightarrow> 'a ptable_scheme \<Rightarrow> (unit, 'a ptable_scheme) outcome" where
  "setup_stack i j stk =
     (let sp1 = stk + KSTACKSIZE - TF_SIZE; sp2 = sp1 - 4; sp3 = sp2 - CONTEXT_SIZE in
      kseq (upd_thread i j (\<lambda>t. t\<lparr>tf := sp1\<rparr>))
     (kseq (\<lambda>s. store_word sp2 (trapret s) s)
     (kseq (upd_thread i j (\<lambda>t. t\<lparr>context_a := sp3\<rparr>))
     (kseq (kmod (\<lambda>s. s\<lparr>ram := memset (ram s) sp3 0 CONTEXT_SIZE\<rparr>))
           (\<lambda>s. store_word (sp3 + CONTEXT_EIP) (forkret_a s) s)))))"

definition allocthread :: "nat \<Rightarrow> 'a ptable_scheme \<Rightarrow> ((nat \<times> nat) option, 'a ptable_scheme) outcome" where
  "allocthread i =
     kseq (acquire (L_proc i))
     (kbind (kget (\<lambda>s. find_idx (\<lambda>t. tstate t = UNUSED) (pthreads (procs s ! i)))) (\<lambda>r. case r of
       None \<Rightarrow> kseq (release (L_proc i)) (kret None)
     | Some j \<Rightarrow>
         kseq (upd_thread i j (\<lambda>t. t\<lparr>tstate := EMBRYO\<rparr>))
        (kseq (\<lambda>s. upd_thread i j (\<lambda>t. t\<lparr>tid := nexttid s\<rparr>) s)
        (kseq (kmod (\<lambda>s. s\<lparr>nexttid := inc32 (nexttid s)\<rparr>))
        (kseq (upd_thread i j (\<lambda>t. t\<lparr>tproc := Some i\<rparr>))
        (kseq (release (L_proc i))
        (kbind kalloc (\<lambda>stk.
         kseq (upd_thread i j (\<lambda>t. t\<lparr>kstack := stk\<rparr>))
        (if stk = 0
         then kseq (upd_thread i j (\<lambda>t. t\<lparr>tstate := UNUSED\<rparr>)) (kret None)
         else kseq (setup_stack i j stk) (kret (Some (i, j)))))))))))) "

definition allocproc :: "'a ptable_scheme \<Rightarrow> ((nat \<times> nat) option, 'a ptable_scheme) outcome" where
  "allocproc =
     kseq (acquire L_ptable)
     (kbind (kget (\<lambda>s. find_idx (\<lambda>p. pstate p = UNUSED) (procs s))) (\<lambda>r. case r of
       None \<Rightarrow> kseq (release L_ptable) (kret None)
     | Some i \<Rightarrow>
         kseq (upd_proc i (\<lambda>p. p\<lparr>pstate := EMBRYO\<rparr>))
        (kseq (\<lambda>s. upd_proc i (\<lambda>p. p\<lparr>pid := nextpid s\<rparr>) s)
        (kseq (kmod (\<lambda>s. s\<lparr>nextpid := inc32 (nextpid s)\<rparr>))
        (kseq (upd_proc i (\<lambda>p. p\<lparr>executed := 0\<rparr>))
        (kseq (upd_proc i (\<lambda>p. p\<lparr>pthreads := map (\<lambda>t. t\<lparr>tstate := UNUSED\<rparr>) (pthreads p)\<rparr>))
        (kseq (release L_ptable)
        (kseq (initlock (L_proc i))
              (allocthread i)))))))))"

section \<open>Giving up the CPU\<close>

text \<open>
  \<^verbatim>\<open>sched\<close> switches to the scheduler. In the view of the executing CPU the nesting of \<^verbatim>\<open>pushcli\<close> is the
  number of locks held, so \<^verbatim>\<open>cpu->ncli != 1\<close> says that another lock is held too; interrupts are off
  whenever a lock is held, so its last test cannot succeed. \<open>c\<close> is what the thread waits for.
\<close>

definition sched :: "chan \<Rightarrow> 'a ptable_scheme \<Rightarrow> ('b, 'a ptable_scheme) outcome" where
  "sched c s =
     (if L_ptable \<notin> held s then Panic ''sched ptable.lock''
      else if held s \<noteq> {L_ptable} then Panic ''sched locks''
      else with_proc (\<lambda>i s. if pstate (procs s ! i) = RUNNING then Panic ''sched running'' else Block c s) s)"

definition yield :: "'a ptable_scheme \<Rightarrow> (unit, 'a ptable_scheme) outcome" where
  "yield =
     kseq (acquire L_ptable)
    (kseq (with_thread (\<lambda>i j. upd_thread i j (\<lambda>t. t\<lparr>tstate := RUNNABLE\<rparr>))) (sched Ch_cpu))"

definition yield_resume :: "'a ptable_scheme \<Rightarrow> (unit, 'a ptable_scheme) outcome" where
  "yield_resume = release L_ptable"

definition sleep :: "chan \<Rightarrow> lockid option \<Rightarrow> 'a ptable_scheme \<Rightarrow> ('b, 'a ptable_scheme) outcome" where
  "sleep c lk s =
     (case (curproc s, curthread s, lk) of
        (Some _, Some (i, j), Some l) \<Rightarrow>
          kseq (kwhen (l \<noteq> L_ptable) (kseq (acquire L_ptable) (release l)))
         (kseq (upd_thread i j (\<lambda>t. t\<lparr>tchan := Some c\<rparr>))
         (kseq (upd_thread i j (\<lambda>t. t\<lparr>tstate := SLEEPING\<rparr>))
               (sched c))) s
      | (Some _, Some _, None) \<Rightarrow> Panic ''sleep without lk''
      | _ \<Rightarrow> Panic ''sleep'')"

definition sleep_resume :: "lockid \<Rightarrow> 'a ptable_scheme \<Rightarrow> (unit, 'a ptable_scheme) outcome" where
  "sleep_resume l =
     kseq (with_thread (\<lambda>i j. upd_thread i j (\<lambda>t. t\<lparr>tchan := None\<rparr>)))
          (kwhen (l \<noteq> L_ptable) (kseq (release L_ptable) (acquire l)))"

section \<open>Waking up\<close>

definition wake :: "chan \<Rightarrow> thread \<Rightarrow> thread" where
  "wake c t = (if tstate t = SLEEPING \<and> tchan t = Some c then t\<lparr>tstate := RUNNABLE\<rparr> else t)"

definition wakeup1 :: "chan \<Rightarrow> 'a ptable_scheme \<Rightarrow> (unit, 'a ptable_scheme) outcome" where
  "wakeup1 c = kmod (\<lambda>s. s\<lparr>procs := map (\<lambda>p. p\<lparr>pthreads := map (wake c) (pthreads p)\<rparr>) (procs s)\<rparr>)"

definition wakeup :: "chan \<Rightarrow> 'a ptable_scheme \<Rightarrow> (unit, 'a ptable_scheme) outcome" where
  "wakeup c = kseq (acquire L_ptable) (kseq (wakeup1 c) (release L_ptable))"

definition kill :: "int \<Rightarrow> 'a ptable_scheme \<Rightarrow> (int, 'a ptable_scheme) outcome" where
  "kill p =
     kseq (acquire L_ptable)
     (kbind (kget (\<lambda>s. find_idx (\<lambda>q. pid q = p) (procs s))) (\<lambda>r. case r of
       None \<Rightarrow> kseq (release L_ptable) (kret (-1))
     | Some i \<Rightarrow> kseq (upd_proc i (\<lambda>q. q\<lparr>killed := 1\<rparr>)) (kseq (release L_ptable) (kret 0))))"

definition acqptable :: "'a ptable_scheme \<Rightarrow> (unit, 'a ptable_scheme) outcome" where
  "acqptable = acquire L_ptable"

definition relptable :: "'a ptable_scheme \<Rightarrow> (unit, 'a ptable_scheme) outcome" where
  "relptable = release L_ptable"

section \<open>Switching address spaces and the scheduler\<close>

text \<open>\<^verbatim>\<open>switchuvm\<close> of \<^verbatim>\<open>vm.c\<close>; a task-state segment has 104 bytes. Its \<^verbatim>\<open>pushcli\<close> and \<^verbatim>\<open>popcli\<close> balance and are not part of the view.\<close>

definition switchuvm :: "nat \<Rightarrow> 'a ptable_scheme \<Rightarrow> (unit, 'a ptable_scheme) outcome" where
  "switchuvm p =
     kseq (kmod (\<lambda>s. s\<lparr>gdt := (gdt s)[unat SEG_TSS := (SEG16 STS_T32A (ts_addr s) (104 - 1) 0)\<lparr>sd_s := 0\<rparr>]\<rparr>))
    (kseq (kmod (\<lambda>s. s\<lparr>ts_ss0 := push_bit 3 SEG_KDATA\<rparr>))
    (kseq (with_thread (\<lambda>i j. kmod (\<lambda>s. s\<lparr>ts_esp0 := kstack (thread_at s i j) + KSTACKSIZE\<rparr>)))
          (\<lambda>s. if pgdir (procs s ! p) = 0 then Panic ''switchuvm: no pgdir''
               else Done () (s\<lparr>cr3 := v2p (pgdir (procs s ! p))\<rparr>))))"

text \<open>One turn of the scheduler's inner loop. \<open>run i j\<close> is what the kernel does from the \<^verbatim>\<open>swtch\<close> to thread
  \<open>j\<close> of process \<open>i\<close> until some thread switches back to this scheduler.\<close>

definition sched_thread :: "(nat \<Rightarrow> nat \<Rightarrow> 'a ptable_scheme \<Rightarrow> (unit, 'a ptable_scheme) outcome)
    \<Rightarrow> nat \<Rightarrow> nat \<Rightarrow> 'a ptable_scheme \<Rightarrow> (unit, 'a ptable_scheme) outcome" where
  "sched_thread run i j s =
     (if tstate (thread_at s i j) \<noteq> RUNNABLE then Done () s
      else (kseq (kmod (\<lambda>s. s\<lparr>curproc := Some i\<rparr>))
           (kseq (kmod (\<lambda>s. s\<lparr>curthread := Some (i, j)\<rparr>))
           (kseq (switchuvm i)
           (kseq (upd_thread i j (\<lambda>t. t\<lparr>tstate := RUNNING\<rparr>))
           (kseq (run i j)
           (kseq switchkvm
                 (kmod (\<lambda>s. s\<lparr>curthread := None\<rparr>)))))))) s)"

text \<open>One round of the endless loop of \<^verbatim>\<open>scheduler\<close>.\<close>

definition scheduler_round :: "(nat \<Rightarrow> nat \<Rightarrow> 'a ptable_scheme \<Rightarrow> (unit, 'a ptable_scheme) outcome)
    \<Rightarrow> 'a ptable_scheme \<Rightarrow> (unit, 'a ptable_scheme) outcome" where
  "scheduler_round run =
     kseq (acquire L_ptable)
    (kseq (kforeach (\<lambda>i. kseq (kforeach (sched_thread run i) [0..<NTHREAD])
                              (kmod (\<lambda>s. s\<lparr>curproc := None\<rparr>))) [0..<NPROC])
          (release L_ptable))"

section \<open>Invariants\<close>

definition wf_ptable :: "'a ptable_scheme \<Rightarrow> bool" where
  "wf_ptable s \<longleftrightarrow> length (procs s) = NPROC
     \<and> (\<forall>p \<in> set (procs s). length (pthreads p) = NTHREAD \<and> length (ofile p) = NOFILE)"

text \<open>Process ids in use are positive, below \<^verbatim>\<open>nextpid\<close>, and different.\<close>

definition pid_inv :: "'a ptable_scheme \<Rightarrow> bool" where
  "pid_inv s \<longleftrightarrow> 0 < nextpid s
     \<and> (\<forall>i < length (procs s). pstate (procs s ! i) \<noteq> UNUSED \<longrightarrow> 0 < pid (procs s ! i) \<and> pid (procs s ! i) < nextpid s)
     \<and> (\<forall>i < length (procs s). \<forall>j < length (procs s). pstate (procs s ! i) \<noteq> UNUSED \<and> pstate (procs s ! j) \<noteq> UNUSED
          \<and> pid (procs s ! i) = pid (procs s ! j) \<longrightarrow> i = j)"

section \<open>Lemmas\<close>

lemma upd_run [simp, krun]:
  "upd_proc i f s = Done () (s\<lparr>procs := (procs s)[i := f (procs s ! i)]\<rparr>)"
  "upd_thread i j g s = Done () (s\<lparr>procs := (procs s)[i := (procs s ! i)\<lparr>pthreads :=
      (pthreads (procs s ! i))[j := g (pthreads (procs s ! i) ! j)]\<rparr>]\<rparr>)"
  by (simp_all add: upd_proc_def upd_thread_def)

lemma wf_ptableD:
  assumes "wf_ptable s"
  shows "length (procs s) = 64" "i < 64 \<Longrightarrow> length (pthreads (procs s ! i)) = 16"
    "i < 64 \<Longrightarrow> length (ofile (procs s ! i)) = 16"
  using assms by (auto simp: wf_ptable_def)

lemma wf_ptable_update:
  assumes "wf_ptable s" "length (pthreads p) = 16" "length (ofile p) = 16"
    and "procs t = (procs s)[i := p]"
  shows "wf_ptable t"
  using assms unfolding wf_ptable_def by (auto dest: set_update_subset_insert [THEN subsetD])

lemma wakeup_run:
  assumes "L_ptable \<notin> held s"
  shows "wakeup c s = Done () (s\<lparr>procs := map (\<lambda>p. p\<lparr>pthreads := map (wake c) (pthreads p)\<rparr>) (procs s)\<rparr>)"
  using assms by (cases s) (simp add: wakeup_def wakeup1_def)

lemma sleep_run:
  assumes cur: "curproc s = Some p" "curthread s = Some (i, j)"
    and lk: "held s = {l}" and st: "pstate (procs s ! p) \<noteq> RUNNING"
    and ij: "i < length (procs s)" "j < length (pthreads (procs s ! i))"
  shows "sleep c (Some l) s = Block c (s\<lparr>held := {L_ptable}, procs := (procs s)[i := (procs s ! i)\<lparr>pthreads :=
      (pthreads (procs s ! i))[j := (pthreads (procs s ! i) ! j)\<lparr>tchan := Some c, tstate := SLEEPING\<rparr>]\<rparr>]\<rparr>)"
proof -
  have *: "pstate ((procs s)[i := (procs s ! i)\<lparr>pthreads := ts\<rparr>] ! p) \<noteq> RUNNING" for ts
    using st ij by (cases "p = i") simp_all
  show ?thesis
  proof (cases "l = L_ptable")
    case True
    with cur lk ij * show ?thesis
      by (cases s) (simp add: sleep_def sched_def with_proc_def)
  next
    case False
    with cur lk ij * show ?thesis
      by (cases s) (simp add: sleep_def sched_def with_proc_def insert_Diff_if)
  qed
qed

section \<open>Allocating a process\<close>

lemma load32_memset_outside:
  assumes "\<And>k. unat k < 4 \<Longrightarrow> unat n \<le> unat (a + k - dst)"
  shows "load32 (memset m dst c n) a = load32 m a"
  using assms [of 0] assms [of 1] assms [of 2] assms [of 3]
  by (intro load32_cong) (simp_all add: memset_eq stosb_def)

text \<open>The memory of a fresh kernel stack at \<open>p\<close>.\<close>

definition stack_mem :: "mem \<Rightarrow> uint \<Rightarrow> uint \<Rightarrow> uint \<Rightarrow> mem" where
  "stack_mem m p tr fr =
     store32 (memset (store32 m (p + KSTACKSIZE - TF_SIZE - 4) tr) (p + KSTACKSIZE - TF_SIZE - 4 - CONTEXT_SIZE) 0 CONTEXT_SIZE)
       (p + KSTACKSIZE - TF_SIZE - 4 - CONTEXT_SIZE + CONTEXT_EIP) fr"

lemma stack_mem_words:
  assumes "page_aligned p"
  shows "load32 (stack_mem m p tr fr) (p + 4012) = fr"
    "load32 (stack_mem m p tr fr) (p + 4016) = tr"
    "PGROUNDDOWN x \<noteq> p \<Longrightarrow> stack_mem m p tr fr x = m x"
proof -
  have e: "stack_mem m p tr fr = store32 (memset (store32 m (p + 4016) tr) (p + 3996) 0 20) (p + 4012) fr"
    by (simp add: stack_mem_def algebra_simps)
  have al: "(p + 4012) mod 4 = 0" "(p + 4016) mod 4 = 0"
    using table_entry(1) [OF assms, of 1003] table_entry(1) [OF assms, of 1004] by simp_all
  show "load32 (stack_mem m p tr fr) (p + 4012) = fr" by (simp add: e)
  have "load32 (stack_mem m p tr fr) (p + 4016)
      = load32 (memset (store32 m (p + 4016) tr) (p + 3996) 0 20) (p + 4016)"
    unfolding e by (rule load32_store32_apart) (use al in simp_all)
  also have "\<dots> = load32 (store32 m (p + 4016) tr) (p + 4016)"
    by (rule load32_memset_outside) (simp add: unat_word_ariths)
  finally show "load32 (stack_mem m p tr fr) (p + 4016) = tr" by simp
  assume x: "PGROUNDDOWN x \<noteq> p"
  have pg: "PGROUNDDOWN (p + 4012) = p" "PGROUNDDOWN (p + 4016) = p"
    by (rule page_of_add [OF assms], simp)+
  have "20 \<le> unat (x - (p + 3996))"
  proof (rule ccontr)
    assume not_ge: "\<not> 20 \<le> unat (x - (p + 3996))"
    define k where "k = x - (p + 3996)"
    have "unat (3996 + k) < 4096" using not_ge by (simp add: k_def [symmetric] unat_word_ariths)
    from page_of_add [OF assms this] x show False by (simp add: k_def)
  qed
  then show "stack_mem m p tr fr x = m x"
    using x pg al by (simp add: e store32_page memset_eq stosb_def)
qed

text \<open>The thread \<^verbatim>\<open>allocthread\<close> leaves in the slot it takes, with the kernel stack at \<open>p\<close>, or without one.\<close>

definition fresh_thread :: "nat \<Rightarrow> int \<Rightarrow> uint \<Rightarrow> thread \<Rightarrow> thread" where
  "fresh_thread i n p t = t\<lparr>tstate := EMBRYO, tid := n, tproc := Some i, kstack := p,
     tf := p + 4020, context_a := p + 3996\<rparr>"

definition stackless_thread :: "nat \<Rightarrow> int \<Rightarrow> thread \<Rightarrow> thread" where
  "stackless_thread i n t = t\<lparr>tid := n, tproc := Some i, kstack := 0, tstate := UNUSED\<rparr>"

definition put_thread :: "nat \<Rightarrow> nat \<Rightarrow> (thread \<Rightarrow> thread) \<Rightarrow> proc list \<Rightarrow> proc list" where
  "put_thread i j g ps = ps[i := (ps ! i)\<lparr>pthreads := (pthreads (ps ! i))[j := g (pthreads (ps ! i) ! j)]\<rparr>]"

lemma kalloc_Done:
  "use_lock s = 0 \<or> L_kmem \<notin> held s \<Longrightarrow> kalloc s = Done (freelist s)
     (if freelist s = 0 then s else s\<lparr>freelist := load32 (ram s) (freelist s)\<rparr>)"
  by (rule kalloc_run) auto

lemma allocthread_run:
  assumes i: "i < length (procs s)" and lk: "L_proc i \<notin> held s"
    and km: "use_lock s = 0 \<or> L_kmem \<notin> held s"
    and j: "find_idx (\<lambda>t. tstate t = UNUSED) (pthreads (procs s ! i)) = Some j"
  shows "allocthread i s = (if freelist s = 0
     then Done None (s\<lparr>procs := put_thread i j (stackless_thread i (nexttid s)) (procs s), nexttid := inc32 (nexttid s)\<rparr>)
     else Done (Some (i, j)) (s\<lparr>ram := stack_mem (ram s) (freelist s) (trapret s) (forkret_a s),
            freelist := load32 (ram s) (freelist s),
            procs := put_thread i j (fresh_thread i (nexttid s) (freelist s)) (procs s), nexttid := inc32 (nexttid s)\<rparr>))"
proof -
  have jl: "j < length (pthreads (procs s ! i))" using j by (rule find_idx_bound)
  show ?thesis
  proof (cases "freelist s = 0")
    case True
    then show ?thesis
      using i lk km j jl
      by (cases s) (simp add: allocthread_def kalloc_Done put_thread_def stackless_thread_def)
  next
    case False
    then show ?thesis
      using i lk km j jl
      by (cases s) (simp add: allocthread_def kalloc_Done put_thread_def fresh_thread_def setup_stack_def Let_def
          stack_mem_def algebra_simps)
  qed
qed

definition fresh_proc :: "int \<Rightarrow> proc \<Rightarrow> proc" where
  "fresh_proc n p = p\<lparr>pstate := EMBRYO, pid := n, executed := 0,
     pthreads := map (\<lambda>t. t\<lparr>tstate := UNUSED\<rparr>) (pthreads p)\<rparr>"

lemma allocproc_run:
  assumes i: "find_idx (\<lambda>p. pstate p = UNUSED) (procs s) = Some i" and th: "pthreads (procs s ! i) \<noteq> []"
    and lk: "L_ptable \<notin> held s" "L_proc i \<notin> held s" and km: "use_lock s = 0 \<or> L_kmem \<notin> held s"
    and ps: "pr = (procs s)[i := fresh_proc (nextpid s) (procs s ! i)]"
  shows "allocproc s = (if freelist s = 0
     then Done None (s\<lparr>procs := put_thread i 0 (stackless_thread i (nexttid s)) pr,
            nextpid := inc32 (nextpid s), nexttid := inc32 (nexttid s)\<rparr>)
     else Done (Some (i, 0)) (s\<lparr>ram := stack_mem (ram s) (freelist s) (trapret s) (forkret_a s),
            freelist := load32 (ram s) (freelist s),
            procs := put_thread i 0 (fresh_thread i (nexttid s) (freelist s)) pr,
            nextpid := inc32 (nextpid s), nexttid := inc32 (nexttid s)\<rparr>))"
proof -
  have il: "i < length (procs s)" using i by (rule find_idx_bound)
  let ?s = "s\<lparr>procs := pr, nextpid := inc32 (nextpid s)\<rparr>"
  have "allocproc s = allocthread i ?s"
    using i il lk ps by (cases s) (simp add: allocproc_def fresh_proc_def)
  moreover have "find_idx (\<lambda>t. tstate t = UNUSED) (pthreads (procs ?s ! i)) = Some 0"
    using th il by (cases "pthreads (procs s ! i)") (simp_all add: ps fresh_proc_def)
  then have "allocthread i ?s = (if freelist ?s = 0
     then Done None (?s\<lparr>procs := put_thread i 0 (stackless_thread i (nexttid ?s)) (procs ?s), nexttid := inc32 (nexttid ?s)\<rparr>)
     else Done (Some (i, 0)) (?s\<lparr>ram := stack_mem (ram ?s) (freelist ?s) (trapret ?s) (forkret_a ?s),
            freelist := load32 (ram ?s) (freelist ?s),
            procs := put_thread i 0 (fresh_thread i (nexttid ?s) (freelist ?s)) (procs ?s), nexttid := inc32 (nexttid ?s)\<rparr>))"
    by (intro allocthread_run) (use il lk km ps in simp_all)
  ultimately show ?thesis by (cases s) simp
qed

lemma put_thread_nth:
  assumes "i < length ps"
  shows "put_thread i j g ps ! k = (if k = i then (ps ! i)\<lparr>pthreads := (pthreads (ps ! i))[j := g (pthreads (ps ! i) ! j)]\<rparr> else ps ! k)"
  using assms by (simp add: put_thread_def)

lemma length_put_thread [simp]: "length (put_thread i j g ps) = length ps"
  by (simp add: put_thread_def)

lemma wf_put_thread:
  assumes "wf_ptable s" "i < 64" "procs t = put_thread i j g ((procs s)[i := fresh_proc n (procs s ! i)])"
  shows "wf_ptable t"
  using wf_ptableD [OF assms(1)] assms(2,3)
  unfolding wf_ptable_def all_set_conv_all_nth
  by (simp add: put_thread_nth nth_list_update fresh_proc_def)

lemma pid_inv_fresh:
  assumes "pid_inv s" "wf_ptable s" "i < 64" "nextpid t = nextpid s + 1"
    and "procs t = put_thread i j g ((procs s)[i := fresh_proc (nextpid s) (procs s ! i)])"
  shows "pid_inv t"
proof -
  have len: "length (procs t) = length (procs s)" "length (procs s) = 64"
    using assms(5) wf_ptableD(1) [OF assms(2)] by simp_all
  have nth: "pid (procs t ! k) = (if k = i then nextpid s else pid (procs s ! k))"
    "pstate (procs t ! k) = (if k = i then EMBRYO else pstate (procs s ! k))" for k
    using assms(3,5) len by (simp_all add: put_thread_nth fresh_proc_def nth_list_update)
  have old: "0 < nextpid s"
    "k < 64 \<Longrightarrow> pstate (procs s ! k) \<noteq> UNUSED \<Longrightarrow> 0 < pid (procs s ! k) \<and> pid (procs s ! k) < nextpid s"
    "k < 64 \<Longrightarrow> l < 64 \<Longrightarrow> pstate (procs s ! k) \<noteq> UNUSED \<Longrightarrow> pstate (procs s ! l) \<noteq> UNUSED
      \<Longrightarrow> pid (procs s ! k) = pid (procs s ! l) \<Longrightarrow> k = l" for k l
    using assms(1) len unfolding pid_inv_def by auto
  show ?thesis
    unfolding pid_inv_def len nth assms(4)
  proof (intro conjI allI impI; (elim conjE)?)
    fix k assume "k < 64" "(if k = i then EMBRYO else pstate (procs s ! k)) \<noteq> UNUSED"
    then show "0 < (if k = i then nextpid s else pid (procs s ! k))"
      "(if k = i then nextpid s else pid (procs s ! k)) < nextpid s + 1"
      using old(1) old(2) [of k] by (auto split: if_splits)
  next
    fix k l assume "k < 64" "l < 64" "(if k = i then EMBRYO else pstate (procs s ! k)) \<noteq> UNUSED"
      "(if l = i then EMBRYO else pstate (procs s ! l)) \<noteq> UNUSED"
      "(if k = i then nextpid s else pid (procs s ! k)) = (if l = i then nextpid s else pid (procs s ! l))"
    then show "k = l" using old(2) [of k] old(2) [of l] old(3) [of k l] by (auto split: if_splits)
  qed (use old(1) in simp)
qed

section \<open>Properties\<close>

text \<open>C24: with a free slot in the table, a free page and the process id counter below the largest \<^verbatim>\<open>int\<close>, \<^verbatim>\<open>allocproc\<close> takes the first free slot, gives the
  process the next id and its thread 0 the first free page as kernel stack, on which the saved context
  starts at \<^verbatim>\<open>forkret\<close> with the return address \<^verbatim>\<open>trapret\<close> above it and the trap frame above that. No
  other process changes, and the allocator's, the table's and the process ids' invariants hold
  afterwards.\<close>

theorem allocproc_creates:
  assumes inv: "wf_ptable s" "pid_inv s" "kmem_inv s (p # qs)"
    and np: "nextpid s < 2147483647"
    and lk: "L_ptable \<notin> held s" "L_proc i \<notin> held s"
    and i: "find_idx (\<lambda>q. pstate q = UNUSED) (procs s) = Some i"
  shows "\<exists>t. allocproc s = Done (Some (i, 0)) t \<and> wf_ptable t \<and> pid_inv t \<and> kmem_inv t qs
     \<and> pstate (procs t ! i) = EMBRYO \<and> pid (procs t ! i) = nextpid s \<and> nextpid t = nextpid s + 1
     \<and> (\<forall>k. k \<noteq> i \<longrightarrow> procs t ! k = procs s ! k)
     \<and> (let th = thread_at t i 0 in tstate th = EMBRYO \<and> tid th = nexttid s \<and> tproc th = Some i \<and> kstack th = p
          \<and> load32 (ram t) (context_a th + CONTEXT_EIP) = forkret_a s
          \<and> load32 (ram t) (context_a th + CONTEXT_SIZE) = trapret s
          \<and> tf th = context_a th + CONTEXT_SIZE + 4 \<and> tf th + TF_SIZE = p + KSTACKSIZE)"
proof -
  note K = kmem_invD [OF inv(3)]
  have p: "freelist s = p" "page_ok (kend s) p" "p \<noteq> 0" "p \<notin> set qs"
    using K(2,3) K(4) [of p] page_ok_nonnull [OF _ K(1), of p] by auto
  have al: "page_aligned p" using p(2) by (rule page_ok_aligned)
  have il: "i < 64" using find_idx_bound [OF i] wf_ptableD(1) [OF inv(1)] by simp
  have th: "pthreads (procs s ! i) \<noteq> []" using wf_ptableD(2) [OF inv(1) il] by auto
  let ?pr = "(procs s)[i := fresh_proc (nextpid s) (procs s ! i)]"
  define t where "t = s\<lparr>ram := stack_mem (ram s) p (trapret s) (forkret_a s), freelist := load32 (ram s) p,
      procs := put_thread i 0 (fresh_thread i (nexttid s) p) ?pr, nextpid := inc32 (nextpid s), nexttid := inc32 (nexttid s)\<rparr>"
  have run: "allocproc s = Done (Some (i, 0)) t"
    using allocproc_run [OF i th lk _ refl] K(5) p(1,3) by (auto simp: t_def)
  have pt: "procs t = put_thread i 0 (fresh_thread i (nexttid s) p) ?pr" by (simp add: t_def)
  have wf: "wf_ptable t" by (rule wf_put_thread [OF inv(1) il pt])
  have np: "nextpid t = nextpid s + 1" using inv(2) np by (simp add: t_def pid_inv_def)
  then have pi: "pid_inv t" by (rule pid_inv_fresh [OF inv(2,1) il _ pt])
  have "free_chain (ram t) (freelist t) qs"
  proof (rule free_chain_frame)
    show "free_chain (ram s) (freelist t) qs" using K(2) by (simp add: t_def)
    show "page_aligned q" if "q \<in> set qs" for q using K(4) [of q] that page_ok_aligned by auto
    fix q x assume "q \<in> set qs" "PGROUNDDOWN x = q"
    with p(4) have "PGROUNDDOWN x \<noteq> p" by blast
    then show "ram t x = ram s x" by (simp add: t_def stack_mem_words(3) [OF al])
  qed
  then have km: "kmem_inv t qs" using inv(3) by (simp add: kmem_inv_def t_def)
  have len: "i < length ?pr" "length (procs s) = 64" "0 < length (pthreads (procs s ! i))"
    using il wf_ptableD(1,2) [OF inv(1)] by simp_all
  have th0: "thread_at t i 0 = fresh_thread i (nexttid s) p ((pthreads (procs s ! i) ! 0)\<lparr>tstate := UNUSED\<rparr>)"
    using len by (simp add: thread_at_def pt put_thread_nth fresh_proc_def)
  have other: "procs t ! k = procs s ! k" if "k \<noteq> i" for k using that len by (simp add: pt put_thread_nth)
  have self: "pstate (procs t ! i) = EMBRYO" "pid (procs t ! i) = nextpid s"
    using len by (simp_all add: pt put_thread_nth fresh_proc_def)
  have words: "load32 (ram t) (p + 4012) = forkret_a s" "load32 (ram t) (p + 4016) = trapret s"
    using stack_mem_words(1,2) [OF al] by (simp_all add: t_def)
  show ?thesis
    using run wf pi km self other words
    by (intro exI [of _ t]) (simp add: th0 Let_def fresh_thread_def np add.commute)
qed

definition boot_thread :: thread where
  "boot_thread = \<lparr>kstack = 0, tstate = UNUSED, tid = 0, tproc = None, tf = 0, context_a = 0, tchan = None, tkilled = 0\<rparr>"

definition boot_proc :: proc where
  "boot_proc = \<lparr>psz = 0, pgdir = 0, pstate = UNUSED, pid = 0, parent = None, killed = 0,
     ofile = replicate 16 None, cwd = None, pname = [], pthreads = replicate 16 boot_thread, executed = 0\<rparr>"

definition boot_ptable :: ptable where
  "boot_ptable = vm.extend vm_one \<lparr>procs = replicate 64 boot_proc, initproc = None, nextpid = 1, nexttid = 1,
     curproc = None, curthread = None, trapret = 0x80104000, forkret_a = 0x80103000\<rparr>"

lemma boot_ptable_inv:
  "wf_ptable boot_ptable" "pid_inv boot_ptable" "kmem_inv boot_ptable [0x80201000]"
  "find_idx (\<lambda>q. pstate q = UNUSED) (procs boot_ptable) = Some 0" "held boot_ptable = {}"
proof -
  show "kmem_inv boot_ptable [0x80201000]"
    using vm_one_inv(1) by (simp add: kmem_inv_def boot_ptable_def vm.defs vm_one_def)
  show "find_idx (\<lambda>q. pstate q = UNUSED) (procs boot_ptable) = Some 0"
    by (rule find_idx_unique) (simp_all add: boot_ptable_def vm.defs boot_proc_def)
qed (simp_all add: boot_ptable_def vm.defs wf_ptable_def pid_inv_def boot_proc_def vm_one_def)

theorem allocproc_creates_witness:
  "\<exists>t. allocproc boot_ptable = Done (Some (0, 0)) t \<and> pid (procs t ! 0) = 1 \<and> kmem_inv t []"
  using allocproc_creates [OF boot_ptable_inv(1-3) _ _ _ boot_ptable_inv(4)] boot_ptable_inv(5)
  by (auto simp: boot_ptable_def vm.defs)

text \<open>The states that can follow a state as far as entry \<open>i\<close> of the process table is concerned: calls of
  \<^verbatim>\<open>allocproc\<close>, whatever they return, in between any steps that leave the state of this entry as it is.\<close>

inductive entry_run :: "nat \<Rightarrow> 'a ptable_scheme \<Rightarrow> 'a ptable_scheme \<Rightarrow> bool" for i where
  entry_refl: "entry_run i s s"
| entry_allocproc: "entry_run i s t \<Longrightarrow> allocproc t = Done r u \<Longrightarrow> entry_run i s u"
| entry_other: "entry_run i s t \<Longrightarrow> pstate (procs u ! i) = pstate (procs t ! i) \<Longrightarrow> entry_run i s u"

lemma nth_list_update_if: "xs[k := x] ! i = (if i = k \<and> k < length xs then x else xs ! i)"
  by (cases "k < length xs") (simp_all add: list_update_beyond)

lemma upd_keeps_pstate:
  "k \<noteq> i \<or> (\<forall>p. pstate (f p) = pstate p) \<Longrightarrow> keeps (\<lambda>s. pstate (procs s ! i)) (upd_proc k f)"
  "keeps (\<lambda>s. pstate (procs s ! i)) (upd_thread k j g)"
  by (auto simp: keeps_def nth_list_update_if)

lemma keeps_branch:
  "keeps f m \<Longrightarrow> keeps f n \<Longrightarrow> keeps f (if b then m else n)"
  "keeps f m \<Longrightarrow> (\<And>x. keeps f (g x)) \<Longrightarrow> keeps f (case r of None \<Rightarrow> m | Some x \<Rightarrow> g x)"
  by (simp_all split: option.split)

lemma allocthread_keeps_pstate: "keeps (\<lambda>s. pstate (procs s ! i)) (allocthread k)"
proof -
  let ?K = "keeps (\<lambda>s :: 'a ptable_scheme. pstate (procs s ! i))"
  have l: "?K (acquire l)" "?K (release l)" for l by (auto simp: keeps_def acquire_def release_def)
  have a: "?K kalloc" by (auto simp: keeps_def kalloc_def acquire_def release_def kwhen_def kseq_def kbind_def
        split: outcome.splits if_splits)
  have t: "?K (\<lambda>s. upd_thread k j (g s) s)" for j g by (auto simp: keeps_def nth_list_update_if)
  have w: "?K (\<lambda>s. store_word x (f s) s)" for x f by (auto simp: keeps_def store_word_def)
  have st: "?K (setup_stack k j p)" for j p
    unfolding setup_stack_def Let_def by (intro keeps_intros upd_keeps_pstate w) simp
  show ?thesis unfolding allocthread_def
    by (intro keeps_branch keeps_intros l a t st upd_keeps_pstate) simp_all
qed

lemma allocthread_slot: "allocthread k s = Done (Some r) t \<Longrightarrow> fst r = k"
  by (auto simp: allocthread_def elim!: kseq_DoneE kbind_DoneE split: option.splits if_splits)

text \<open>A call of \<^verbatim>\<open>allocproc\<close> leaves the state of an entry that is not unused as it is, and gives out another.\<close>

lemma allocproc_spares:
  assumes "pstate (procs s ! i) \<noteq> UNUSED" "allocproc s = Done r t"
  shows "pstate (procs t ! i) = pstate (procs s ! i)" "r = Some q \<Longrightarrow> fst q \<noteq> i"
proof -
  have lk: "L_ptable \<notin> held s" using assms(2) by (auto simp: allocproc_def acquire_def)
  have "pstate (procs t ! i) = pstate (procs s ! i) \<and> (r = Some q \<longrightarrow> fst q \<noteq> i)"
  proof (cases "find_idx (\<lambda>p. pstate p = UNUSED) (procs s)")
    case None
    then show ?thesis using assms(2) lk by (auto simp: allocproc_def)
  next
    case (Some k)
    then have k: "k \<noteq> i" using find_idx_holds [OF Some] assms(1) by auto
    let ?s = "s\<lparr>held := held s - {L_proc k}, procs := (procs s)[k := fresh_proc (nextpid s) (procs s ! k)],
      nextpid := inc32 (nextpid s)\<rparr>"
    have run: "allocthread k ?s = Done r t"
      using assms(2) Some find_idx_bound [OF Some] lk by (cases s) (auto simp: allocproc_def fresh_proc_def)
    have "pstate (procs t ! i) = pstate (procs ?s ! i)" by (rule keepsD(1) [OF allocthread_keeps_pstate run])
    then show ?thesis using allocthread_slot [of k ?s q t] run k by auto
  qed
  then show "pstate (procs t ! i) = pstate (procs s ! i)" "r = Some q \<Longrightarrow> fst q \<noteq> i" by simp_all
qed

lemma entry_run_pstate: "entry_run i s t \<Longrightarrow> pstate (procs s ! i) \<noteq> UNUSED \<Longrightarrow> pstate (procs t ! i) = pstate (procs s ! i)"
  by (induction rule: entry_run.induct) (metis allocproc_spares(1))+

text \<open>C36: when no page is left for the kernel stack, \<^verbatim>\<open>allocproc\<close> reports failure but leaves the slot it
  took in state \<^verbatim>\<open>EMBRYO\<close>. The slot is lost: in every later state that is reached by calls of \<^verbatim>\<open>allocproc\<close>, with
  memory or without, and steps that do not themselves write this entry's state, it is still \<^verbatim>\<open>EMBRYO\<close>, and
  no call of \<^verbatim>\<open>allocproc\<close> in such a state returns a thread of this slot.\<close>

theorem allocproc_leaks_slot:
  assumes inv: "wf_ptable s" "kmem_inv s []"
    and lk: "L_ptable \<notin> held s" "L_proc i \<notin> held s"
    and i: "find_idx (\<lambda>q. pstate q = UNUSED) (procs s) = Some i"
  shows "\<exists>t. allocproc s = Done None t \<and> pstate (procs s ! i) = UNUSED \<and> pstate (procs t ! i) = EMBRYO
     \<and> (\<forall>u. entry_run i t u \<longrightarrow> pstate (procs u ! i) = EMBRYO
          \<and> (\<forall>q v. allocproc u = Done (Some q) v \<longrightarrow> fst q \<noteq> i))"
proof -
  note K = kmem_invD [OF inv(2)]
  have il: "i < 64" using find_idx_bound [OF i] wf_ptableD(1) [OF inv(1)] by simp
  have th: "pthreads (procs s ! i) \<noteq> []" using wf_ptableD(2) [OF inv(1) il] by auto
  let ?pr = "(procs s)[i := fresh_proc (nextpid s) (procs s ! i)]"
  define t where "t = s\<lparr>procs := put_thread i 0 (stackless_thread i (nexttid s)) ?pr,
      nextpid := inc32 (nextpid s), nexttid := inc32 (nexttid s)\<rparr>"
  have run: "allocproc s = Done None t"
    using allocproc_run [OF i th lk _ refl] K(2,5) by (auto simp: t_def)
  have st: "pstate (procs t ! i) = EMBRYO"
    using il wf_ptableD(1) [OF inv(1)] by (simp add: t_def put_thread_nth fresh_proc_def)
  have later: "pstate (procs u ! i) = EMBRYO" if "entry_run i t u" for u
    using entry_run_pstate [OF that] st by simp
  then have "fst q \<noteq> i" if "entry_run i t u" "allocproc u = Done (Some q) v" for u q v
    using allocproc_spares(2) [OF _ that(2) refl] that(1) by simp
  with run st later find_idx_holds [OF i] show ?thesis by blast
qed

theorem allocproc_leaks_slot_witness:
  "\<exists>t. allocproc (boot_ptable\<lparr>freelist := 0\<rparr>) = Done None t \<and> pstate (procs t ! 0) = EMBRYO"
proof -
  let ?s = "boot_ptable\<lparr>freelist := 0\<rparr>"
  have "wf_ptable ?s" "find_idx (\<lambda>q. pstate q = UNUSED) (procs ?s) = Some 0" "held ?s = {}"
    using boot_ptable_inv(1,4,5) by (simp_all add: wf_ptable_def)
  moreover have "kmem_inv ?s []" by (simp add: kmem_inv_def boot_ptable_def vm.defs vm_one_def)
  ultimately show ?thesis using allocproc_leaks_slot [of ?s 0] by auto
qed

text \<open>C25: a thread that calls \<^verbatim>\<open>sleep\<close> with one lock held switches to the scheduler with that lock released
  and only \<^verbatim>\<open>ptable.lock\<close> held, asleep on its channel. Once the scheduler has released \<^verbatim>\<open>ptable.lock\<close>, a
  \<^verbatim>\<open>wakeup\<close> on the channel makes it runnable, and wakes exactly the threads asleep on that channel.\<close>

theorem sleep_wakeup:
  assumes wf: "wf_ptable s" and ij: "i < NPROC" "j < NTHREAD"
    and cur: "curproc s = Some i" "curthread s = Some (i, j)"
    and lk: "held s = {l}" and st: "pstate (procs s ! i) \<noteq> RUNNING"
  shows "\<exists>t u. sleep c (Some l) s = Block c t \<and> held t = {L_ptable}
     \<and> tstate (thread_at t i j) = SLEEPING \<and> tchan (thread_at t i j) = Some c
     \<and> wakeup c (t\<lparr>held := {}\<rparr>) = Done () u \<and> held u = {} \<and> tstate (thread_at u i j) = RUNNABLE
     \<and> (\<forall>k < NPROC. \<forall>m < NTHREAD. thread_at u k m =
          (if tstate (thread_at t k m) = SLEEPING \<and> tchan (thread_at t k m) = Some c
           then (thread_at t k m)\<lparr>tstate := RUNNABLE\<rparr> else thread_at t k m))"
proof -
  note W = wf_ptableD [OF wf]
  define t where "t = s\<lparr>held := {L_ptable}, procs := (procs s)[i := (procs s ! i)\<lparr>pthreads :=
      (pthreads (procs s ! i))[j := (pthreads (procs s ! i) ! j)\<lparr>tchan := Some c, tstate := SLEEPING\<rparr>]\<rparr>]\<rparr>"
  have b: "sleep c (Some l) s = Block c t"
    unfolding t_def by (rule sleep_run [OF cur lk st]) (use ij W in simp_all)
  have len: "length (procs t) = 64" "\<And>k. k < 64 \<Longrightarrow> length (pthreads (procs t ! k)) = 16"
    using W ij by (simp_all add: t_def nth_list_update)
  define u where "u = t\<lparr>held := {}, procs := map (\<lambda>p. p\<lparr>pthreads := map (wake c) (pthreads p)\<rparr>) (procs t)\<rparr>"
  have w: "wakeup c (t\<lparr>held := {}\<rparr>) = Done () u" using wakeup_run [of "t\<lparr>held := {}\<rparr>" c] by (simp add: u_def)
  have th: "thread_at u k m = wake c (thread_at t k m)" if "k < 64" "m < 16" for k m
    using that len by (simp add: thread_at_def u_def)
  have me: "tstate (thread_at t i j) = SLEEPING" "tchan (thread_at t i j) = Some c"
    using ij W by (simp_all add: thread_at_def t_def)
  have "held t = {L_ptable}" "held u = {}" by (simp_all add: t_def u_def)
  with b w me th ij show ?thesis by (intro exI [of _ t] exI [of _ u]) (simp add: wake_def)
qed

theorem sleep_wakeup_witness:
  "\<exists>t. sleep Ch_ticks (Some L_ticks) (boot_ptable\<lparr>held := {L_ticks}, curproc := Some 3, curthread := Some (3, 2)\<rparr>) = Block Ch_ticks t
     \<and> tstate (thread_at t 3 2) = SLEEPING"
proof -
  let ?s = "boot_ptable\<lparr>held := {L_ticks}, curproc := Some 3, curthread := Some (3, 2)\<rparr>"
  have "wf_ptable ?s" using boot_ptable_inv(1) by (simp add: wf_ptable_def)
  moreover have "pstate (procs ?s ! 3) \<noteq> RUNNING" by (simp add: boot_ptable_def vm.defs boot_proc_def)
  ultimately have "\<exists>t u. sleep Ch_ticks (Some L_ticks) ?s = Block Ch_ticks t \<and> held t = {L_ptable}
     \<and> tstate (thread_at t 3 2) = SLEEPING \<and> tchan (thread_at t 3 2) = Some Ch_ticks
     \<and> wakeup Ch_ticks (t\<lparr>held := {}\<rparr>) = Done () u \<and> held u = {} \<and> tstate (thread_at u 3 2) = RUNNABLE
     \<and> (\<forall>k < NPROC. \<forall>m < NTHREAD. thread_at u k m =
          (if tstate (thread_at t k m) = SLEEPING \<and> tchan (thread_at t k m) = Some Ch_ticks
           then (thread_at t k m)\<lparr>tstate := RUNNABLE\<rparr> else thread_at t k m))"
    by (intro sleep_wakeup) simp_all
  then show ?thesis by blast
qed

text \<open>The machine as \<^verbatim>\<open>swtch\<close> finds it when it switches to thread \<open>j\<close> of process \<open>i\<close>.\<close>

definition ready_to_run :: "nat \<Rightarrow> nat \<Rightarrow> 'a ptable_scheme \<Rightarrow> bool" where
  "ready_to_run i j s \<longleftrightarrow> L_ptable \<in> held s \<and> tstate (thread_at s i j) = RUNNING
     \<and> curproc s = Some i \<and> curthread s = Some (i, j) \<and> pgdir (procs s ! i) \<noteq> 0
     \<and> cr3 s = v2p (pgdir (procs s ! i)) \<and> ts_esp0 s = kstack (thread_at s i j) + KSTACKSIZE"

definition guarded :: "(nat \<Rightarrow> nat \<Rightarrow> 's \<Rightarrow> bool) \<Rightarrow> (nat \<Rightarrow> nat \<Rightarrow> 's \<Rightarrow> ('b, 's) outcome)
    \<Rightarrow> nat \<Rightarrow> nat \<Rightarrow> 's \<Rightarrow> ('b, 's) outcome" where
  "guarded G run i j s = (if G i j s then run i j s else Fault ''guard'')"

lemma sched_thread_guarded:
  assumes "wf_ptable s" "L_ptable \<in> held s" "i < 64" "j < 16"
  shows "sched_thread (guarded ready_to_run run) i j s = sched_thread run i j s"
proof (cases "tstate (thread_at s i j) = RUNNABLE \<and> pgdir (procs s ! i) \<noteq> 0")
  case True
  define t where "t = s\<lparr>gdt := (gdt s)[unat SEG_TSS := (SEG16 STS_T32A (ts_addr s) (104 - 1) 0)\<lparr>sd_s := 0\<rparr>],
      ts_ss0 := push_bit 3 SEG_KDATA, ts_esp0 := kstack (thread_at s i j) + KSTACKSIZE,
      cr3 := v2p (pgdir (procs s ! i)), curproc := Some i, curthread := Some (i, j),
      procs := put_thread i j (\<lambda>t. t\<lparr>tstate := RUNNING\<rparr>) (procs s)\<rparr>"
  have run: "sched_thread r i j s = kseq (r i j) (kseq switchkvm (kmod (\<lambda>s. s\<lparr>curthread := None\<rparr>))) t" for r
    using True by (cases s) (simp add: sched_thread_def switchuvm_def with_thread_def thread_at_def t_def put_thread_def)
  note W = wf_ptableD [OF assms(1)]
  have "ready_to_run i j t"
    using True assms W by (simp add: ready_to_run_def t_def thread_at_def put_thread_nth)
  then show ?thesis unfolding run by (simp add: kseq_def kbind_def guarded_def)
next
  case False
  then show ?thesis
    by (cases s) (auto simp: sched_thread_def switchuvm_def with_thread_def thread_at_def)
qed

lemma sched_thread_keeps:
  assumes "wf_ptable s \<and> L_ptable \<in> held s" "i < 64" "sched_thread run i j s = Done () t"
    and run: "\<And>s t. wf_ptable s \<and> L_ptable \<in> held s \<Longrightarrow> run i j s = Done () t \<Longrightarrow> wf_ptable t \<and> L_ptable \<in> held t"
  shows "wf_ptable t \<and> L_ptable \<in> held t"
proof (cases "tstate (thread_at s i j) = RUNNABLE \<and> pgdir (procs s ! i) \<noteq> 0")
  case True
  let ?u = "s\<lparr>gdt := (gdt s)[unat SEG_TSS := (SEG16 STS_T32A (ts_addr s) (104 - 1) 0)\<lparr>sd_s := 0\<rparr>],
      ts_ss0 := push_bit 3 SEG_KDATA, ts_esp0 := kstack (thread_at s i j) + KSTACKSIZE,
      cr3 := v2p (pgdir (procs s ! i)), curproc := Some i, curthread := Some (i, j),
      procs := put_thread i j (\<lambda>t. t\<lparr>tstate := RUNNING\<rparr>) (procs s)\<rparr>"
  have "sched_thread run i j s = kseq (run i j) (kseq switchkvm (kmod (\<lambda>s. s\<lparr>curthread := None\<rparr>))) ?u"
    using True by (cases s) (simp add: sched_thread_def switchuvm_def with_thread_def thread_at_def put_thread_def)
  with assms(3) obtain v where v: "run i j ?u = Done () v" and t: "t = v\<lparr>cr3 := v2p (kpgdir v), curthread := None\<rparr>"
    by (auto elim!: kseq_DoneE simp: switchkvm_def)
  have "wf_ptable ?u"
    by (rule wf_ptable_update [of s "(procs s ! i)\<lparr>pthreads := (pthreads (procs s ! i))[j := (pthreads (procs s ! i) ! j)\<lparr>tstate := RUNNING\<rparr>]\<rparr>" _ i])
      (use assms(1,2) wf_ptableD [of s] in \<open>simp_all add: put_thread_def\<close>)
  then have "wf_ptable v \<and> L_ptable \<in> held v" by (intro run [OF _ v]) (use assms(1) in simp)
  then show ?thesis by (simp add: t wf_ptable_def)
next
  case False
  with assms(1,3) show ?thesis
    by (cases s) (auto simp: sched_thread_def switchuvm_def with_thread_def thread_at_def split: if_splits)
qed

text \<open>C33: whatever the threads do, a round of the scheduler switches to a thread only with \<^verbatim>\<open>ptable.lock\<close>
  held, the thread marked running and recorded as the CPU's current one, the address space of its
  process loaded, and the CPU's kernel stack pointer at the top of its kernel stack: a round behaves
  the same when every switch is guarded by a test of these conditions.\<close>

theorem scheduler_switches_ready:
  assumes "wf_ptable s" "L_ptable \<notin> held s"
    and run: "\<forall>i j s t. wf_ptable s \<and> L_ptable \<in> held s \<and> run i j s = Done () t \<longrightarrow> wf_ptable t \<and> L_ptable \<in> held t"
  shows "scheduler_round (guarded ready_to_run run) s = scheduler_round run s"
proof -
  let ?I = "\<lambda>s. wf_ptable s \<and> L_ptable \<in> held s"
  let ?inner = "\<lambda>r i. kforeach (sched_thread r i) [0..<NTHREAD]"
  have step: "?I v" if "i < 64" "?I u" "sched_thread run i j u = Done () v" for i j u v
    by (rule sched_thread_keeps [OF that(2,1,3)]) (use run in blast)
  have inner: "?inner (guarded ready_to_run run) i u = ?inner run i u" if i: "i < 64" and u: "?I u" for i u
  proof (rule kforeach_cong [where I = ?I, OF _ _ u])
    show "sched_thread (guarded ready_to_run run) i j v = sched_thread run i j v"
      if "j \<in> set [0..<NTHREAD]" "?I v" for j v
      using sched_thread_guarded [of v i j] that i by simp
  qed (rule step [OF i])
  have keep: "?I t" if "i < 64" "?I u" "?inner run i u = Done () t" for i u t
    by (rule kforeach_invariant [where I = ?I, OF _ that(2,3)]) (rule step [OF that(1)])
  let ?outer = "\<lambda>r i. kseq (?inner r i) (kmod (\<lambda>s. s\<lparr>curproc := None\<rparr>))"
  have "kforeach (?outer (guarded ready_to_run run)) [0..<NPROC] u = kforeach (?outer run) [0..<NPROC] u" if "?I u" for u
  proof (rule kforeach_cong [where I = ?I])
    show "?outer (guarded ready_to_run run) i v = ?outer run i v" if "i \<in> set [0..<NPROC]" "?I v" for i v
      using inner [of i v] that by (simp add: kseq_def kbind_def)
    show "?I w" if "i \<in> set [0..<NPROC]" "?I v" "?outer run i v = Done () w" for i v w
      using that keep [of i v] by (auto elim!: kseq_DoneE simp: wf_ptable_def)
  qed (use that in simp)
  moreover have "?I (s\<lparr>held := insert L_ptable (held s)\<rparr>)" using assms(1) by (simp add: wf_ptable_def)
  ultimately show ?thesis using assms(2) by (simp add: scheduler_round_def kseq_def kbind_def)
qed

theorem scheduler_switches_ready_witness:
  "scheduler_round (guarded ready_to_run (\<lambda>i j. kret ())) boot_ptable = scheduler_round (\<lambda>i j. kret ()) boot_ptable"
  by (rule scheduler_switches_ready) (use boot_ptable_inv in simp_all)

end
