(* ===== verification/Cow.thy ===== *)
theory Cow
  imports Proc
begin

text \<open>
  Copy-on-write (\<^verbatim>\<open>vm.c\<close>): \<^verbatim>\<open>cow_shareuvm\<close> maps the pages of a process into a new directory read-only
  and counts the new references, \<^verbatim>\<open>cow_copyuvm\<close> gives a process that faults on a shared page a page of
  its own; and \<^verbatim>\<open>growproc\<close> of \<^verbatim>\<open>proc.c\<close>. The theorem on \<^verbatim>\<open>cow_copyuvm\<close> says that the faulting process
  keeps its view of memory and every other directory keeps its own.
\<close>

section \<open>Operations\<close>

definition cow_share_body :: "uint \<Rightarrow> uint \<Rightarrow> uint \<Rightarrow> uint \<Rightarrow> 'a vm_scheme \<Rightarrow> (uint + bool, 'a vm_scheme) outcome" where
  "cow_share_body dir size_b d i =
     (if \<not> i < size_b then kret (Inr True)
      else kbind (walkpgdir dir i False) (\<lambda>r. case r of
        None \<Rightarrow> kpanic ''copyuvm: pte should exist''
      | Some pte \<Rightarrow> kbind (kget (\<lambda>s. load32 (ram s) pte)) (\<lambda>e.
          if e AND PTE_P = 0 then kpanic ''copyuvm: page not present''
          else kseq (store_word pte (e OR PTE_SH))
              (kseq (\<lambda>s. store_word pte (load32 (ram s) pte AND NOT PTE_W) s)
              (kbind (kget (\<lambda>s. load32 (ram s) pte)) (\<lambda>e'.
               kbind (mappages d i PGSIZE (PTE_ADDR e') (PTE_FLAGS e')) (\<lambda>x.
                 if x < 0 then kret (Inr False)
                 else kseq (inc_counter (PTE_ADDR e')) (kret (Inl (i + PGSIZE)))))))))) "

definition cow_shareuvm :: "uint \<Rightarrow> uint \<Rightarrow> 'a ptable_scheme \<Rightarrow> (uint, 'a ptable_scheme) outcome" where
  "cow_shareuvm dir size_b =
     kbind setupkvm (\<lambda>d.
       if d = 0 then kret 0
       else kseq (acquire L_pgcount)
           (kbind (kloop (unat size_b div 4096 + 2) (cow_share_body dir size_b d) 0) (\<lambda>ok.
             if ok then kseq (release L_pgcount) (kseq (with_proc switchuvm) (kret d))
             else kseq (release L_pgcount) (kseq (freevm d) (kret 0)))))"

text \<open>The result 0 is the null pointer: the fault is not a copy-on-write fault, or memory is used up.\<close>

definition cow_bad :: "'a ptable_scheme \<Rightarrow> (uint, 'a ptable_scheme) outcome" where
  "cow_bad = kseq (release L_pgcount) (kret 0)"

definition cow_copyuvm :: "uint \<Rightarrow> 'a ptable_scheme \<Rightarrow> (uint, 'a ptable_scheme) outcome" where
  "cow_copyuvm dir =
     kseq (acquire L_pgcount)
    (kbind (kget cr2) (\<lambda>va.
     kbind (walkpgdir dir va False) (\<lambda>r. case r of
       None \<Rightarrow> cow_bad
     | Some pte \<Rightarrow> kbind (kget (\<lambda>s. load32 (ram s) pte)) (\<lambda>e.
         let pa = PTE_ADDR e; flags = PTE_FLAGS e in
         if flags AND PTE_SH = 0 then cow_bad
         else with_proc (\<lambda>p. kbind (kget (\<lambda>s. psz (procs s ! p))) (\<lambda>size_b.
           if \<not> va < size_b then cow_bad
           else kbind (get_counter pa) (\<lambda>c.
             if c > 1
             then kbind kalloc (\<lambda>m.
               if m = 0 then cow_bad
               else kseq (kmod (\<lambda>s. s\<lparr>ram := memmove (ram s) m (p2v pa) PGSIZE\<rparr>))
                   (kseq (set_counter (v2p m) 1)
                   (kseq (store_word pte (v2p m OR flags))
                   (kseq (\<lambda>s. store_word pte (load32 (ram s) pte AND NOT PTE_SH) s)
                   (kseq (\<lambda>s. store_word pte (load32 (ram s) pte OR PTE_W) s)
                   (kseq (kbind (get_counter pa) (\<lambda>c'. set_counter pa (c' - 1)))
                   (kseq (release L_pgcount)
                   (kseq (with_proc switchuvm) (kret pte)))))))))
             else kseq (\<lambda>s. store_word pte (load32 (ram s) pte AND NOT PTE_SH) s)
                 (kseq (\<lambda>s. store_word pte (load32 (ram s) pte OR PTE_W) s)
                 (kseq (release L_pgcount)
                 (kseq (with_proc switchuvm) (kret pte)))))))))))"

definition growproc :: "int \<Rightarrow> 'a ptable_scheme \<Rightarrow> (int, 'a ptable_scheme) outcome" where
  "growproc n =
     with_proc (\<lambda>p. kbind (kget (\<lambda>s. procs s ! p)) (\<lambda>pr.
       kbind (if n > 0 then allocuvm (pgdir pr) (psz pr) (psz pr + of_int n)
              else if n < 0 then deallocuvm (pgdir pr) (psz pr) (psz pr + of_int n)
              else kret (psz pr)) (\<lambda>size_b.
         if n \<noteq> 0 \<and> size_b = 0 then kret (-1)
         else kseq (upd_proc p (\<lambda>q. q\<lparr>psz := size_b\<rparr>)) (kseq (switchuvm p) (kret 0)))))"

section \<open>Lemmas\<close>

lemma store32_store32 [simp]: "store32 (store32 m a v) a w = store32 m a w"
  by (auto simp: store32_def fun_eq_iff)

lemma switchuvm_run:
  assumes "curthread s = Some (i, j)" "pgdir (procs s ! p) \<noteq> 0"
  shows "\<exists>t. switchuvm p s = Done () t \<and> cr3 t = v2p (pgdir (procs s ! p))
     \<and> t = s\<lparr>gdt := gdt t, ts_ss0 := ts_ss0 t, ts_esp0 := ts_esp0 t, cr3 := cr3 t\<rparr>"
  using assms by (intro exI [of _ "s\<lparr>gdt := (gdt s)[unat SEG_TSS := (SEG16 STS_T32A (ts_addr s) (104 - 1) 0)\<lparr>sd_s := 0\<rparr>],
      ts_ss0 := push_bit 3 SEG_KDATA, ts_esp0 := kstack (thread_at s i j) + KSTACKSIZE,
      cr3 := v2p (pgdir (procs s ! p))\<rparr>"])
    (cases s, simp add: switchuvm_def with_thread_def thread_at_def)

text \<open>The entry a copied page gets: its own frame, writable, not shared.\<close>

definition private_pte :: "uint \<Rightarrow> uint \<Rightarrow> uint" where
  "private_pte pa e = ((pa OR PTE_FLAGS e) AND NOT PTE_SH) OR PTE_W"

lemma flag_bits:
  "bit (PTE_P :: uint) n \<longleftrightarrow> n = 0" "bit (PTE_W :: uint) n \<longleftrightarrow> n = 1" "bit (PTE_U :: uint) n \<longleftrightarrow> n = 2"
  "bit (PTE_SH :: uint) n \<longleftrightarrow> n = 9"
proof -
  have p: "bit (2 ^ k :: uint) n \<longleftrightarrow> n = k" if "k < 32" for k
    using that by (auto simp: bit_exp_iff)
  show "bit (PTE_W :: uint) n \<longleftrightarrow> n = 1" "bit (PTE_U :: uint) n \<longleftrightarrow> n = 2" "bit (PTE_SH :: uint) n \<longleftrightarrow> n = 9"
    using p [of 1] p [of 2] p [of 9] by simp_all
qed (auto simp: bit_1_iff)

lemma flag_set:
  "(w AND PTE_P :: uint) \<noteq> 0 \<longleftrightarrow> bit w 0" "(w AND PTE_W :: uint) \<noteq> 0 \<longleftrightarrow> bit w 1"
  "(w AND PTE_U :: uint) \<noteq> 0 \<longleftrightarrow> bit w 2" "(w AND PTE_SH :: uint) \<noteq> 0 \<longleftrightarrow> bit w 9"
proof -
  have *: "(w AND f :: uint) \<noteq> 0 \<longleftrightarrow> bit w k" if "\<And>n. bit f n \<longleftrightarrow> n = k" for f k
  proof
    assume "w AND f \<noteq> 0"
    then obtain n where "bit (w AND f) n" using bit_eq_iff [of "w AND f" 0] by (auto simp del: bit_and_iff)
    with that show "bit w k" by (auto simp: bit_and_iff)
  next
    assume "bit w k"
    with that have "bit (w AND f) k" by (simp add: bit_and_iff)
    then show "w AND f \<noteq> 0" by (metis bit_0_eq bot_apply bot_bool_def)
  qed
  show "(w AND PTE_P :: uint) \<noteq> 0 \<longleftrightarrow> bit w 0" "(w AND PTE_W :: uint) \<noteq> 0 \<longleftrightarrow> bit w 1"
    "(w AND PTE_U :: uint) \<noteq> 0 \<longleftrightarrow> bit w 2" "(w AND PTE_SH :: uint) \<noteq> 0 \<longleftrightarrow> bit w 9"
    by (rule *, rule flag_bits)+
qed

lemma private_pte_parts:
  assumes "page_aligned pa"
  shows "PTE_ADDR (private_pte pa e) = pa" "private_pte pa e AND PTE_W \<noteq> 0" "private_pte pa e AND PTE_SH = 0"
    "e AND PTE_P \<noteq> 0 \<Longrightarrow> private_pte pa e AND PTE_P \<noteq> 0" "e AND PTE_U \<noteq> 0 \<Longrightarrow> private_pte pa e AND PTE_U \<noteq> 0"
proof -
  have b: "bit (private_pte pa e) n \<longleftrightarrow> n = 1 \<or> n \<noteq> 9 \<and> (bit pa n \<or> n < 12 \<and> bit e n)" if "n < 32" for n
    using that unfolding private_pte_def PTE_FLAGS_mask bit_or_iff bit_and_iff bit_not_iff flag_bits
    by (auto simp: bit_mask_iff possible_bit_word)
  have al: "bit pa n \<Longrightarrow> 12 \<le> n" for n using page_aligned_bit [OF assms] .
  show "PTE_ADDR (private_pte pa e) = pa"
  proof (rule bit_word_eqI)
    fix n assume "n < LENGTH(32)"
    then show "bit (PTE_ADDR (private_pte pa e)) n = bit pa n"
      using al [of n] b [of n] by (auto simp: PTE_ADDR_mask bit_simps)
  qed
  show "private_pte pa e AND PTE_W \<noteq> 0" unfolding flag_set using b [of 1] by simp
  have "\<not> bit (private_pte pa e) 9" using b [of 9] by simp
  then show "private_pte pa e AND PTE_SH = 0" using flag_set(4) by blast
  show "e AND PTE_P \<noteq> 0 \<Longrightarrow> private_pte pa e AND PTE_P \<noteq> 0"
    unfolding flag_set using b [of 0] by simp
  show "e AND PTE_U \<noteq> 0 \<Longrightarrow> private_pte pa e AND PTE_U \<noteq> 0"
    unfolding flag_set using b [of 2] by simp
qed

lemma flags_SH: "PTE_FLAGS e AND PTE_SH = 0 \<longleftrightarrow> e AND PTE_SH = 0"
proof -
  have "bit (PTE_FLAGS e) 9 \<longleftrightarrow> bit e 9" by (simp add: PTE_FLAGS_mask bit_simps)
  then show ?thesis using flag_set(4) [of "PTE_FLAGS e"] flag_set(4) [of e] by blast
qed

lemma cow_copy_run:
  assumes inv: "kmem_inv s (m # qs)" and lk: "L_pgcount \<notin> held s"
    and cur: "curproc s = Some p" "curthread s = Some (i, j)" "pgdir (procs s ! p) \<noteq> 0"
    and va: "va = cr2 s" "va < psz (procs s ! p)" and tab: "has_table (ram s) d (PDX va)"
    and e: "e = pte_at (ram s) d va" "e AND PTE_SH \<noteq> 0"
    and f: "f = PTE_ADDR e" "page_ok (kend s) (p2v f)" "p2v f \<noteq> m" and c: "1 < page_counters s (PA_INX f)"
  shows "\<exists>t. cow_copyuvm d s = Done (pte_addr (ram s) d va) t
     \<and> ram t = store32 (memmove (ram s) m (p2v f) PGSIZE) (pte_addr (ram s) d va) (private_pte (v2p m) e)
     \<and> page_counters t = (page_counters s)(PA_INX (v2p m) := 1, PA_INX f := page_counters s (PA_INX f) - 1)
     \<and> freelist t = load32 (ram s) m \<and> held t = held s \<and> kend t = kend s \<and> use_lock t = use_lock s
     \<and> procs t = procs s \<and> cr3 t = v2p (pgdir (procs s ! p))"
proof -
  note K = kmem_invD [OF inv]
  have m: "freelist s = m" "m \<noteq> 0" "page_ok (kend s) m"
    using K(2) K(4) [of m] by auto
  have km: "use_lock s = 0 \<or> L_kmem \<notin> insert L_pgcount (held s)" using K(5) by auto
  have b: "PA_INX f < NPAGES" "PA_INX (v2p m) < NPAGES"
    using PA_INX_bound [OF f(2)] PA_INX_bound [of "kend s" "v2p m"] m(3) by simp_all
  have al: "page_aligned (v2p m)" "page_aligned f" using page_ok_aligned [OF m(3)] f(1) by simp_all
  have ne: "PA_INX (v2p m) \<noteq> PA_INX f"
  proof
    assume "PA_INX (v2p m) = PA_INX f"
    with PA_INX_inj [OF al] have "v2p m = f" by simp
    with f(3) show False by (metis p2v_v2p)
  qed
  have le: "load32 (ram s) (pte_addr (ram s) d va) = e" using e(1) tab by (simp add: pte_at_def)
  have fl: "PTE_FLAGS e AND PTE_SH \<noteq> 0" using e(2) flags_SH by blast
  let ?u = "s\<lparr>ram := store32 (memmove (ram s) m (p2v f) PGSIZE) (pte_addr (ram s) d va) (private_pte (v2p m) e),
      freelist := load32 (ram s) m,
      page_counters := (page_counters s)(PA_INX (v2p m) := 1, PA_INX f := page_counters s (PA_INX f) - 1)\<rparr>"
  have "curthread ?u = Some (i, j)" "pgdir (procs ?u ! p) \<noteq> 0" using cur by simp_all
  from switchuvm_run [OF this] obtain t where sw: "switchuvm p ?u = Done () t"
    and c3: "cr3 t = v2p (pgdir (procs ?u ! p))"
    and t: "t = ?u\<lparr>gdt := gdt t, ts_ss0 := ts_ss0 t, ts_esp0 := ts_esp0 t, cr3 := cr3 t\<rparr>" by blast
  have "cow_copyuvm d s = kseq (with_proc switchuvm) (kret (pte_addr (ram s) d va)) ?u"
    using lk cur va tab fl b ne c m km le f(1)
    by (cases s) (simp add: cow_copyuvm_def walk_run kalloc_Done with_proc_def Let_def private_pte_def)
  also have "\<dots> = Done (pte_addr (ram s) d va) t" using cur(1) sw by (simp add: with_proc_def)
  finally have run: "cow_copyuvm d s = Done (pte_addr (ram s) d va) t" .
  have "ram t = ram ?u" "page_counters t = page_counters ?u" "freelist t = freelist ?u" "held t = held ?u"
    "kend t = kend ?u" "use_lock t = use_lock ?u" "procs t = procs ?u"
    by (subst t, simp)+
  with run c3 show ?thesis by (intro exI [of _ t]) simp
qed

section \<open>Properties\<close>

text \<open>C3: on a write fault at a shared page with more than one reference, \<^verbatim>\<open>cow_copyuvm\<close> maps the faulting
  address to a fresh page, writable and no longer shared, with the same contents; the entries of all
  other addresses stay, the shared page itself keeps every byte, no other directory (with tables apart
  from this one's) changes, the new page has one reference and the old one has one less.\<close>

theorem cow_copyuvm_isolates:
  assumes inv: "vm_inv s (m # qs) d" and lk: "L_pgcount \<notin> held s"
    and cur: "curproc s = Some p" "curthread s = Some (i, j)" "pgdir (procs s ! p) \<noteq> 0"
    and va: "va = cr2 s" "va < psz (procs s ! p)" and tab: "has_table (ram s) d (PDX va)"
    and e: "e = pte_at (ram s) d va" "e AND PTE_SH \<noteq> 0"
    and f: "f = PTE_ADDR e" "page_ok (kend s) (p2v f)" "p2v f \<notin> set (m # qs)" "p2v f \<notin> pt_pages (ram s) d"
    and c: "1 < page_counters s (PA_INX f)"
  shows "\<exists>a t. cow_copyuvm d s = Done a t \<and> a \<noteq> 0 \<and> vm_inv t qs d
     \<and> (let e' = pte_at (ram t) d va in
          PTE_ADDR e' = v2p m \<and> e' AND PTE_W \<noteq> 0 \<and> e' AND PTE_SH = 0 \<and> (e AND PTE_P \<noteq> 0 \<longrightarrow> e' AND PTE_P \<noteq> 0))
     \<and> (\<forall>w. PGROUNDDOWN w \<noteq> PGROUNDDOWN va \<longrightarrow> pte_at (ram t) d w = pte_at (ram s) d w)
     \<and> (\<forall>k. unat k < 4096 \<longrightarrow> ram t (m + k) = ram s (p2v f + k))
     \<and> (\<forall>x. PGROUNDDOWN x = p2v f \<longrightarrow> ram t x = ram s x)
     \<and> (\<forall>d' w. pgdir_ok (kend s) (ram s) d' \<and> pt_pages (ram s) d' \<inter> insert m (pt_pages (ram s) d) = {}
          \<longrightarrow> pte_at (ram t) d' w = pte_at (ram s) d' w)
     \<and> page_counters t = (page_counters s)(PA_INX (v2p m) := 1, PA_INX f := page_counters s (PA_INX f) - 1)"
proof -
  note V = vm_invD [OF inv]
  note K = kmem_invD [OF V(1)]
  have fm: "p2v f \<noteq> m" using f(3) by auto
  from cow_copy_run [OF V(1) lk cur va tab e f(1,2) fm c] obtain t where
      t: "cow_copyuvm d s = Done (pte_addr (ram s) d va) t"
      "ram t = store32 (memmove (ram s) m (p2v f) PGSIZE) (pte_addr (ram s) d va) (private_pte (v2p m) e)"
      "page_counters t = (page_counters s)(PA_INX (v2p m) := 1, PA_INX f := page_counters s (PA_INX f) - 1)"
      "freelist t = load32 (ram s) m" "held t = held s" "kend t = kend s" "use_lock t = use_lock s" by blast
  have pm: "page_ok (kend s) m" "m \<notin> pt_pages (ram s) d" "m \<notin> set qs"
    using K(3) K(4) [of m] V(3) by auto
  have al: "page_aligned m" "page_aligned (p2v f)"
    by (rule page_ok_aligned [OF pm(1)], rule page_ok_aligned [OF f(2)])
  have below: "unat m + 4096 < 2 ^ 32" "unat (p2v f) + 4096 < 2 ^ 32"
    by (rule page_ok_below [OF pm(1) K(1)], rule page_ok_below [OF f(2) K(1)])
  define r where "r = memmove (ram s) m (p2v f) PGSIZE"
  have r: "r x = (if PGROUNDDOWN x = m then ram s (p2v f + (x - m)) else ram s x)" for x
    unfolding r_def by (rule memmove_page [OF al below])
  have same: "r x = ram s x" if "PGROUNDDOWN x \<in> pt_pages (ram s) d" for x using that pm(2) r by auto
  have F: "pte_at r d w = pte_at (ram s) d w" "pt_pages r d = pt_pages (ram s) d" "pgdir_ok (kend s) r d"
    "pde_at r d (PDX va) = pde_at (ram s) d (PDX va)" "pte_addr r d va = pte_addr (ram s) d va" for w
    by (rule pt_frame [OF V(2)], rule same, simp_all add: PDX_less)+
  have tabr: "has_table r d (PDX va)" using F(4) tab by (simp add: has_table_def)
  have rt: "ram t = store32 r (pte_addr r d va) (private_pte (v2p m) e)" using t(2) F(5) by (simp add: r_def)
  note S = set_pte_mem [OF F(3) tabr rt]
  have tp: "table_of r d (PDX va) \<in> pt_pages (ram s) d" using pt_pagesI(1) [OF PDX_less tabr] F(2) by simp
  have frame: "ram t x = ram s x" if "PGROUNDDOWN x \<notin> insert m (pt_pages (ram s) d)" for x
  proof -
    have "PGROUNDDOWN x \<noteq> table_of r d (PDX va)" using tp that by (metis insertI2)
    from S(4) [OF this] r [of x] that show ?thesis by simp
  qed
  have "free_chain (ram t) (freelist t) qs"
  proof (rule free_chain_frame)
    show "free_chain (ram s) (freelist t) qs" using K(2) t(4) by simp
    show "page_aligned q" if "q \<in> set qs" for q using K(4) [of q] that page_ok_aligned by auto
    show "ram t x = ram s x" if "q \<in> set qs" "PGROUNDDOWN x = q" for q x
      using frame [of x] that pm(3) V(3) by auto
  qed
  then have "kmem_inv t qs" using V(1) t(5,6,7) by (simp add: kmem_inv_def)
  moreover have "pt_pages (ram t) d \<inter> set qs = {}" using S(2) F(2) V(3) by auto
  ultimately have vi: "vm_inv t qs d" using S(1) t(6) by (simp add: vm_inv_def)
  have av: "page_aligned (v2p m)" using al(1) by simp
  note P = private_pte_parts [OF av, of e]
  have new: "pte_at (ram t) d va = private_pte (v2p m) e" using S(3) by simp
  have others: "pte_at (ram t) d w = pte_at (ram s) d w" if "PGROUNDDOWN w \<noteq> PGROUNDDOWN va" for w
    using S(3) F(1) that by simp
  have copied: "ram t (m + k) = ram s (p2v f + k)" if "unat k < 4096" for k
  proof -
    have pg: "PGROUNDDOWN (m + k) = m" by (rule page_of_add [OF al(1) that])
    then have "ram t (m + k) = r (m + k)" by (intro S(4)) (use tp pm(2) in auto)
    with pg r [of "m + k"] show ?thesis by simp
  qed
  have old: "ram t x = ram s x" if "PGROUNDDOWN x = p2v f" for x
    by (rule frame) (use that fm f(4) in auto)
  have apart: "pte_at (ram t) d' w = pte_at (ram s) d' w"
    if "pgdir_ok (kend s) (ram s) d'" "pt_pages (ram s) d' \<inter> insert m (pt_pages (ram s) d) = {}" for d' w
    by (rule pt_frame(1) [OF that(1)], rule frame) (use that(2) in blast)
  have nz: "pte_addr (ram s) d va \<noteq> 0"
  proof
    assume "pte_addr (ram s) d va = 0"
    then have "table_of (ram s) d (PDX va) = 0"
      using table_entry(2) [OF pgdir_okD(4) [OF V(2) PDX_less tab] PTX_less [of va]] by (simp add: pte_addr_def)
    with page_ok_nonnull [OF pgdir_okD(3) [OF V(2) PDX_less tab] K(1)] show False by simp
  qed
  show ?thesis
    using t(1,3) nz vi P new others copied old apart
    by (intro exI [of _ "pte_addr (ram s) d va"] exI [of _ t]) (simp add: Let_def)
qed

text \<open>The directory of \<^const>\<open>vm_shared\<close> with its page marked shared, one free page, and a process of one page.\<close>

definition cow_ram :: mem where
  "cow_ram = store32 shared_ram (pte_addr shared_ram 0x80200000 0) 0x300205"

definition cow_state :: ptable where
  "cow_state = boot_ptable\<lparr>ram := cow_ram, freelist := 0x80202000, page_counters := (\<lambda>_. 0)(0x300 := 2),
     procs := (procs boot_ptable)[0 := boot_proc\<lparr>psz := PGSIZE, pgdir := 0x80200000\<rparr>],
     curproc := Some 0, curthread := Some (0, 0), cr2 := 0x123\<rparr>"

lemma shared_table: "pgdir_ok 0x80110000 shared_ram 0x80200000" "has_table shared_ram 0x80200000 (PDX 0)"
  using vm_invD(2) [OF vm_shared_inv(1)] present_table [OF shared_page(1)]
  by (simp_all add: vm_shared_def vm_one_def)

lemma cow_ram_view:
  "pgdir_ok 0x80110000 cow_ram 0x80200000" "pt_pages cow_ram 0x80200000 = {0x80200000, 0x80201000}"
  "pte_at cow_ram 0x80200000 w = (if PGROUNDDOWN w = 0 then 0x300205 else 0)" "has_table cow_ram 0x80200000 (PDX 0)"
proof -
  note S = set_pte_mem [OF shared_table cow_ram_def]
  show "pgdir_ok 0x80110000 cow_ram 0x80200000" by (rule S)
  show "pt_pages cow_ram 0x80200000 = {0x80200000, 0x80201000}" using S(2) vm_shared_inv(2) by simp
  show "pte_at cow_ram 0x80200000 w = (if PGROUNDDOWN w = 0 then 0x300205 else 0)"
    using S(3) vm_shared_inv(3) by simp
  show "has_table cow_ram 0x80200000 (PDX 0)" using S(5) [OF PDX_less] shared_table(2) by simp
qed

lemma cow_ram_zero:
  assumes "PGROUNDDOWN x \<notin> {0x80200000, 0x80201000}"
  shows "cow_ram x = 0"
proof -
  let ?d = "0x80200000 :: uint" and ?p = "0x80201000 :: uint"
  define m1 where "m1 = store32 (memset (memset (\<lambda>_. 0) ?d 0 PGSIZE) ?p 0 PGSIZE)
      (?d + 4 * PDX 0) (v2p ?p OR PTE_P OR PTE_W OR PTE_U)"
  have al: "page_aligned ?d" "page_aligned ?p" by (simp_all add: page_aligned_def)
  have tp: "table_of shared_ram ?d (PDX 0) \<in> {?d, ?p}"
    using pt_pagesI(1) [OF PDX_less shared_table(2)] vm_shared_inv(2) by simp
  have "cow_ram x = shared_ram x"
    by (rule set_pte_mem(4) [OF shared_table cow_ram_def]) (use assms tp in auto)
  also have "shared_ram x = 0"
  proof -
    have sr: "shared_ram = store32 m1 (pte_addr m1 ?d 0) 0x300005"
      by (simp only: shared_ram_def m1_def Let_def)
    note e = table_entry [OF al(1) PDX_less [of 0]]
    have m1x: "m1 y = 0" if "PGROUNDDOWN y \<noteq> ?d" for y
      using that e al by (simp add: m1_def store32_page memset_page)
    have "pde_at m1 ?d (PDX 0) = v2p ?p OR PTE_P OR PTE_W OR PTE_U" by (simp add: pde_at_def m1_def)
    then have pa: "pte_addr m1 ?d 0 = ?p + 4 * PTX 0"
      using table_pde(1) [OF al(2)] by (simp only: pte_addr_def table_of_def p2v_v2p)
    note e' = table_entry [OF al(2) PTX_less [of 0]]
    show ?thesis unfolding sr pa
      by (subst store32_page) (use e' assms m1x in auto)
  qed
  finally show ?thesis .
qed

theorem cow_copyuvm_isolates_witness:
  "\<exists>a t. cow_copyuvm 0x80200000 cow_state = Done a t \<and> a \<noteq> 0
     \<and> PTE_ADDR (pte_at (ram t) 0x80200000 0x123) = 0x202000 \<and> page_counters t 0x300 = 1 \<and> page_counters t 0x202 = 1"
proof -
  let ?d = "0x80200000 :: uint" and ?m = "0x80202000 :: uint"
  have f: "ram cow_state = cow_ram" "kend cow_state = 0x80110000" "held cow_state = {}" "use_lock cow_state = 0"
    "freelist cow_state = ?m" "cr2 cow_state = 0x123" "page_counters cow_state = (\<lambda>_. 0)(0x300 := 2)"
    "procs cow_state ! 0 = boot_proc\<lparr>psz := PGSIZE, pgdir := ?d\<rparr>" "curproc cow_state = Some 0" "curthread cow_state = Some (0, 0)"
    by (simp_all add: cow_state_def boot_ptable_def vm.defs vm_one_def)
  have al: "?m mod 4 = 0" "PGROUNDDOWN ?m = ?m" by (simp_all add: PGROUNDDOWN_def)
  have "load32 cow_ram ?m = load32 (\<lambda>_. 0) ?m"
    by (rule load32_page_cong [OF al(1)], rule cow_ram_zero) (simp add: al(2))
  then have "load32 cow_ram ?m = 0" by (simp add: load32_def)
  moreover have "page_ok 0x80110000 ?m" unfolding page_ok_def by (simp add: v2p_def)
  ultimately have inv: "vm_inv cow_state [?m] ?d"
    using cow_ram_view(1,2) by (simp add: vm_inv_def kmem_inv_def f)
  have i: "PDX 0x123 = PDX 0" "PGROUNDDOWN 0x123 = 0" by (simp_all add: PDX_def PGROUNDDOWN_def)
  have e: "pte_at cow_ram ?d 0x123 = 0x300205" using cow_ram_view(3) i(2) by simp
  have a: "PTE_ADDR 0x300205 = 0x300000" "PA_INX 0x300000 = 0x300" "PA_INX (v2p ?m) = 0x202"
    by (simp_all add: PTE_ADDR_def PA_INX_def v2p_def)
  have "\<exists>a t. cow_copyuvm ?d cow_state = Done a t \<and> a \<noteq> 0 \<and> vm_inv t [] ?d
     \<and> (let e' = pte_at (ram t) ?d 0x123 in
          PTE_ADDR e' = v2p ?m \<and> e' AND PTE_W \<noteq> 0 \<and> e' AND PTE_SH = 0 \<and> (0x300205 AND PTE_P \<noteq> (0 :: uint) \<longrightarrow> e' AND PTE_P \<noteq> 0))
     \<and> (\<forall>w. PGROUNDDOWN w \<noteq> PGROUNDDOWN 0x123 \<longrightarrow> pte_at (ram t) ?d w = pte_at (ram cow_state) ?d w)
     \<and> (\<forall>k. unat k < 4096 \<longrightarrow> ram t (?m + k) = ram cow_state (p2v 0x300000 + k))
     \<and> (\<forall>x. PGROUNDDOWN x = p2v 0x300000 \<longrightarrow> ram t x = ram cow_state x)
     \<and> (\<forall>d' w. pgdir_ok (kend cow_state) (ram cow_state) d' \<and> pt_pages (ram cow_state) d' \<inter> insert ?m (pt_pages (ram cow_state) ?d) = {}
          \<longrightarrow> pte_at (ram t) d' w = pte_at (ram cow_state) d' w)
     \<and> page_counters t = (page_counters cow_state)(PA_INX (v2p ?m) := 1, PA_INX 0x300000 := page_counters cow_state (PA_INX 0x300000) - 1)"
  proof (rule cow_copyuvm_isolates [OF inv _ f(9,10)])
    show "has_table (ram cow_state) ?d (PDX 0x123)" using cow_ram_view(4) i(1) f(1) by simp
    show "page_ok (kend cow_state) (p2v 0x300000)" using shared_page(3) f(2) by simp
  qed (use f e a cow_ram_view(2) in \<open>simp_all add: p2v_def\<close>)
  then obtain a t where "cow_copyuvm ?d cow_state = Done a t" "a \<noteq> 0" "PTE_ADDR (pte_at (ram t) ?d 0x123) = v2p ?m"
     "page_counters t = (page_counters cow_state)(PA_INX (v2p ?m) := 1, PA_INX 0x300000 := page_counters cow_state (PA_INX 0x300000) - 1)"
    by (auto simp: Let_def)
  with a f(7) show ?thesis by (intro exI [of _ a] exI [of _ t]) (simp add: v2p_def)
qed

end
