(* ===== verification/Kthread.thy ===== *)
theory Kthread
  imports Cow
begin

text \<open>
  Kernel threads (\<^verbatim>\<open>kthread.c\<close>): creating a thread in the calling process, asking for its id, and
  joining another one. \<^verbatim>\<open>kthread_exit\<close>, which may end the whole process, is in the theory Process.
\<close>

section \<open>Operations\<close>

text \<open>Offsets in the trap frame.\<close>

abbreviation (input) TF_EAX :: uint where "TF_EAX \<equiv> 28"
abbreviation (input) TF_EIP :: uint where "TF_EIP \<equiv> 56"
abbreviation (input) TF_ESP :: uint where "TF_ESP \<equiv> 68"

definition copy_tf :: "uint \<Rightarrow> uint \<Rightarrow> 'a kmem_scheme \<Rightarrow> (unit, 'a kmem_scheme) outcome" where
  "copy_tf dst src = kmod (\<lambda>s. s\<lparr>ram := memmove (ram s) dst src TF_SIZE\<rparr>)"

definition kthread_create :: "uint \<Rightarrow> uint \<Rightarrow> int \<Rightarrow> 'a ptable_scheme \<Rightarrow> (int, 'a ptable_scheme) outcome" where
  "kthread_create start_func stack stack_size =
     with_proc (\<lambda>p. kbind (allocthread p) (\<lambda>r. case r of
       None \<Rightarrow> kret (-1)
     | Some (i, j) \<Rightarrow>
         kseq (with_thread (\<lambda>ci cj s. copy_tf (tf (thread_at s i j)) (tf (thread_at s ci cj)) s))
        (kseq (\<lambda>s. store_word (tf (thread_at s i j) + TF_EIP) start_func s)
        (kseq (\<lambda>s. store_word (tf (thread_at s i j) + TF_ESP) (stack + of_int stack_size) s)
        (kseq (acquire (L_proc p))
        (kseq (upd_thread i j (\<lambda>t. t\<lparr>tstate := RUNNABLE\<rparr>))
        (kseq (release (L_proc p))
              (kget (\<lambda>s. tid (thread_at s i j))))))))))"

definition kthread_id :: "'a ptable_scheme \<Rightarrow> (int, 'a ptable_scheme) outcome" where
  "kthread_id = with_thread (\<lambda>i j. kget (\<lambda>s. if tid (thread_at s i j) \<le> 0 then -1 else tid (thread_at s i j)))"

text \<open>Freeing a thread that has ended, with the process lock held.\<close>

definition reap :: "nat \<Rightarrow> nat \<Rightarrow> 'a ptable_scheme \<Rightarrow> (int, 'a ptable_scheme) outcome" where
  "reap p j =
     kseq (\<lambda>s. kfree (kstack (thread_at s p j)) s)
    (kseq (upd_thread p j (\<lambda>t. t\<lparr>kstack := 0\<rparr>))
    (kseq (upd_thread p j (\<lambda>t. t\<lparr>tstate := UNUSED\<rparr>))
    (kseq (release (L_proc p)) (kret 0))))"

text \<open>The loop \<^verbatim>\<open>while(t->state != ZOMBIE) sleep(...)\<close>, from its test on.\<close>

definition join_wait :: "nat \<Rightarrow> nat \<Rightarrow> 'a ptable_scheme \<Rightarrow> (int, 'a ptable_scheme) outcome" where
  "join_wait p j s =
     (if tstate (thread_at s p j) \<noteq> ZOMBIE then sleep (Ch_thread p j) (Some (L_proc p)) s
      else if tstate (thread_at s p j) = UNUSED then Panic ''kthread_join: thread become unused''
      else reap p j s)"

definition kthread_join :: "int \<Rightarrow> 'a ptable_scheme \<Rightarrow> (int, 'a ptable_scheme) outcome" where
  "kthread_join thread_id =
     with_proc (\<lambda>p. kseq (acquire (L_proc p))
       (kbind (kget (\<lambda>s. find_idx (\<lambda>t. tid t = thread_id) (pthreads (procs s ! p)))) (\<lambda>r. case r of
          None \<Rightarrow> kseq (release (L_proc p)) (kret (-1))
        | Some j \<Rightarrow> kbind (kget (\<lambda>s. tstate (thread_at s p j))) (\<lambda>st.
            if st = ZOMBIE then reap p j
            else if st = UNUSED then kseq (release (L_proc p)) (kret 0)
            else join_wait p j))))"

text \<open>A joining thread that is run again after its sleep.\<close>

definition kthread_join_resume :: "nat \<Rightarrow> nat \<Rightarrow> 'a ptable_scheme \<Rightarrow> (int, 'a ptable_scheme) outcome" where
  "kthread_join_resume p j = kseq (sleep_resume (L_proc p)) (join_wait p j)"

text \<open>\<^verbatim>\<open>wakeup2\<close> runs its pointer up to \<^verbatim>\<open>&proc->pthreads[NPROC]\<close>, past the end of the array of \<^verbatim>\<open>NTHREAD\<close>
  threads: after the entries of the array it reads outside it.\<close>

definition wakeup2 :: "chan \<Rightarrow> 'a ptable_scheme \<Rightarrow> (unit, 'a ptable_scheme) outcome" where
  "wakeup2 c =
     with_proc (\<lambda>p. kseq (upd_proc p (\<lambda>q. q\<lparr>pthreads := map (wake c) (pthreads q)\<rparr>))
       (if NTHREAD < NPROC then kfault ''pthreads[NTHREAD]'' else kret ()))"

section \<open>Lemmas\<close>

lemma reap_run:
  assumes inv: "kmem_inv s ps" and pj: "p < length (procs s)" "j < length (pthreads (procs s ! p))"
    and st: "page_ok (kend s) (kstack (thread_at s p j))" "kstack (thread_at s p j) \<notin> set ps"
    and lk: "L_proc p \<in> held s"
  shows "\<exists>t. reap p j s = Done 0 t \<and> kmem_inv t (kstack (thread_at s p j) # ps) \<and> held t = held s - {L_proc p}
     \<and> procs t = put_thread p j (\<lambda>t. t\<lparr>kstack := 0, tstate := UNUSED\<rparr>) (procs s)"
proof -
  let ?v = "kstack (thread_at s p j)"
  let ?u = "s\<lparr>ram := store32 (memset (ram s) ?v 1 PGSIZE) ?v (freelist s), freelist := ?v\<rparr>"
  have run: "kfree ?v s = Done () ?u" by (rule kfree_run [OF st(1) kmem_invD(5) [OF inv]])
  have ku: "kmem_inv ?u (?v # ps)" by (rule kfree_inv [OF inv st run])
  let ?t = "?u\<lparr>held := held s - {L_proc p}, procs := put_thread p j (\<lambda>t. t\<lparr>kstack := 0, tstate := UNUSED\<rparr>) (procs s)\<rparr>"
  have "reap p j s = Done 0 ?t"
    using run pj lk by (cases s) (simp add: reap_def put_thread_def)
  moreover have "kmem_inv ?t (?v # ps)" using ku by (auto simp: kmem_inv_def)
  ultimately show ?thesis by (intro exI [of _ ?t]) simp
qed

section \<open>Properties\<close>

text \<open>C31: joining a thread of the calling process that has ended frees its kernel stack, gives its slot
  back and returns 0; joining an unknown id returns -1 and changes nothing. No lock is left held.\<close>

theorem kthread_join_reaps:
  assumes inv: "wf_ptable s" "kmem_inv s ps" and cur: "curproc s = Some p" "p < NPROC" and lk: "L_proc p \<notin> held s"
  shows "case find_idx (\<lambda>t. tid t = n) (pthreads (procs s ! p)) of
       None \<Rightarrow> kthread_join n s = Done (-1) s
     | Some j \<Rightarrow> tstate (thread_at s p j) = ZOMBIE \<and> page_ok (kend s) (kstack (thread_at s p j))
           \<and> kstack (thread_at s p j) \<notin> set ps \<longrightarrow>
         (\<exists>t. kthread_join n s = Done 0 t \<and> kmem_inv t (kstack (thread_at s p j) # ps) \<and> held t = held s
           \<and> procs t = put_thread p j (\<lambda>t. t\<lparr>kstack := 0, tstate := UNUSED\<rparr>) (procs s))"
proof (cases "find_idx (\<lambda>t. tid t = n) (pthreads (procs s ! p))")
  case None
  with cur lk show ?thesis by (cases s) (simp add: kthread_join_def with_proc_def)
next
  case (Some j)
  let ?s = "s\<lparr>held := insert (L_proc p) (held s)\<rparr>"
  have j: "j < length (pthreads (procs s ! p))" "p < length (procs s)"
    using find_idx_bound [OF Some] wf_ptableD(1) [OF inv(1)] cur(2) by simp_all
  have th: "thread_at ?s p j = thread_at s p j" by (simp add: thread_at_def)
  have "\<exists>t. kthread_join n s = Done 0 t \<and> kmem_inv t (kstack (thread_at s p j) # ps) \<and> held t = held s
           \<and> procs t = put_thread p j (\<lambda>t. t\<lparr>kstack := 0, tstate := UNUSED\<rparr>) (procs s)"
    if z: "tstate (thread_at s p j) = ZOMBIE" "page_ok (kend s) (kstack (thread_at s p j))"
      "kstack (thread_at s p j) \<notin> set ps"
  proof -
    have "kmem_inv ?s ps" using inv(2) by (auto simp: kmem_inv_def)
    then obtain t where t: "reap p j ?s = Done 0 t" "kmem_inv t (kstack (thread_at s p j) # ps)"
      "held t = held ?s - {L_proc p}" "procs t = put_thread p j (\<lambda>t. t\<lparr>kstack := 0, tstate := UNUSED\<rparr>) (procs s)"
      using reap_run [of ?s ps p j] j z th by auto
    have "kthread_join n s = reap p j ?s"
      using cur lk Some z(1) by (simp add: kthread_join_def with_proc_def thread_at_def)
    with t lk show ?thesis by auto
  qed
  with Some show ?thesis by simp
qed

text \<open>A process with a finished second thread.\<close>

definition join_state :: ptable where
  "join_state = boot_ptable\<lparr>curproc := Some 0, procs := put_thread 0 1
     (\<lambda>t. t\<lparr>tid := 5, tstate := ZOMBIE, kstack := 0x80300000\<rparr>) (procs boot_ptable)\<rparr>"

theorem kthread_join_reaps_witness:
  "\<exists>t. kthread_join 5 join_state = Done 0 t \<and> kmem_inv t [0x80300000, 0x80201000] \<and> tstate (thread_at t 0 1) = UNUSED
     \<and> kthread_join 9 join_state = Done (-1) join_state"
proof -
  let ?g = "\<lambda>t. t\<lparr>tid := 5, tstate := ZOMBIE, kstack := 0x80300000\<rparr>"
  have pr: "procs boot_ptable = replicate 64 boot_proc" by (simp add: boot_ptable_def vm.defs)
  have p0: "pthreads (procs join_state ! 0) = (replicate 16 boot_thread)[1 := ?g boot_thread]"
    by (simp add: join_state_def put_thread_nth pr boot_proc_def)
  have wf: "wf_ptable join_state"
    by (rule wf_ptable_update [OF boot_ptable_inv(1), of "(procs boot_ptable ! 0)\<lparr>pthreads := (pthreads (procs boot_ptable ! 0))[1 := ?g (pthreads (procs boot_ptable ! 0) ! 1)]\<rparr>" _ 0])
      (simp_all add: join_state_def put_thread_def pr boot_proc_def)
  have km: "kmem_inv join_state [0x80201000]"
    using boot_ptable_inv(3) by (simp add: kmem_inv_def join_state_def)
  have f: "held join_state = {}" "curproc join_state = Some 0" "kend join_state = 0x80110000"
    using boot_ptable_inv(5) by (simp_all add: join_state_def boot_ptable_def vm.defs vm_one_def)
  have i5: "find_idx (\<lambda>t. tid t = 5) (pthreads (procs join_state ! 0)) = Some 1"
    by (rule find_idx_unique) (simp_all add: p0 boot_thread_def)
  have i9: "find_idx (\<lambda>t. tid t = 9) (pthreads (procs join_state ! 0)) = None"
    by (auto simp: find_idx_None_iff p0 boot_thread_def dest!: set_update_subset_insert [THEN subsetD])
  have th: "thread_at join_state 0 1 = ?g boot_thread" by (simp add: thread_at_def p0)
  have ok: "page_ok 0x80110000 0x80300000" unfolding page_ok_def by (simp add: v2p_def)
  note J = kthread_join_reaps [OF wf km f(2)]
  from J [of 5] i5 th f ok obtain t where t: "kthread_join 5 join_state = Done 0 t" "kmem_inv t [0x80300000, 0x80201000]"
    "procs t = put_thread 0 1 (\<lambda>t. t\<lparr>kstack := 0, tstate := UNUSED\<rparr>) (procs join_state)" by auto
  have "length (procs join_state) = 64" by (rule wf_ptableD [OF wf])
  then have "tstate (thread_at t 0 1) = UNUSED" by (simp add: thread_at_def t(3) put_thread_nth p0)
  with t J [of 9] i9 f show ?thesis by auto
qed

end
