(* ===== verification/Mutex.thy ===== *)
theory Mutex
  imports Kthread
begin

text \<open>
  The kernel's mutexes (\<^verbatim>\<open>mutex.c\<close>, \<^verbatim>\<open>mutex.h\<close>): a table of \<^verbatim>\<open>MAX_MUTEXES\<close> entries under \<^verbatim>\<open>mxtable.lock\<close>, with the
  four system calls, each a routine on the kernel state with every branch. A thread that waits for a locked mutex is the
  outcome \<open>Block\<close>; \<open>kthread_mutex_lock_resume\<close> is what it does when it runs again. \<open>mx_run\<close> interleaves the
  calls of any number of threads; mutual exclusion is proved over it by rule induction.
\<close>

section \<open>The mutex table\<close>

datatype mxstate = FREE | LOCKED | UNLOCKED

record kmutex =
  mstate :: mxstate
  mxid :: int
  owner :: "(nat \<times> nat) option"

record mxtab = ptable +
  mutexes :: "kmutex list"
  nextmxid :: int

abbreviation (input) MAX_MUTEXES :: nat where "MAX_MUTEXES \<equiv> 64"

definition upd_mutex :: "nat \<Rightarrow> (kmutex \<Rightarrow> kmutex) \<Rightarrow> 'a mxtab_scheme \<Rightarrow> (unit, 'a mxtab_scheme) outcome" where
  "upd_mutex i f = kmod (\<lambda>s. s\<lparr>mutexes := (mutexes s)[i := f (mutexes s ! i)]\<rparr>)"

section \<open>Operations\<close>

definition mxinit :: "'a mxtab_scheme \<Rightarrow> (unit, 'a mxtab_scheme) outcome" where
  "mxinit = initlock L_mxtable"

definition kthread_mutex_alloc :: "'a mxtab_scheme \<Rightarrow> (int, 'a mxtab_scheme) outcome" where
  "kthread_mutex_alloc =
     kseq (acquire L_mxtable)
     (kbind (kget (\<lambda>s. find_idx (\<lambda>m. mstate m = FREE) (mutexes s))) (\<lambda>r. case r of
       None \<Rightarrow> kseq (release L_mxtable) (kret (-1))
     | Some i \<Rightarrow>
         kseq (upd_mutex i (\<lambda>m. m\<lparr>mstate := UNLOCKED\<rparr>))
        (kseq (\<lambda>s. upd_mutex i (\<lambda>m. m\<lparr>mxid := nextmxid s\<rparr>) s)
        (kseq (kmod (\<lambda>s. s\<lparr>nextmxid := inc32 (nextmxid s)\<rparr>))
        (kseq (upd_mutex i (\<lambda>m. m\<lparr>owner := None\<rparr>))
        (kseq (release L_mxtable)
              (kget (\<lambda>s. mxid (mutexes s ! i)))))))))"

definition kthread_mutex_dealloc :: "int \<Rightarrow> 'a mxtab_scheme \<Rightarrow> (int, 'a mxtab_scheme) outcome" where
  "kthread_mutex_dealloc mutex_id =
     kseq (acquire L_mxtable)
     (kbind (kget (\<lambda>s. find_idx (\<lambda>m. mxid m = mutex_id) (mutexes s))) (\<lambda>r. case r of
       None \<Rightarrow> kseq (release L_mxtable) (kret (-1))
     | Some i \<Rightarrow> kbind (kget (\<lambda>s. mstate (mutexes s ! i))) (\<lambda>st.
         if st = LOCKED then kseq (release L_mxtable) (kret (-1))
         else kseq (upd_mutex i (\<lambda>m. m\<lparr>mstate := FREE\<rparr>))
             (kseq (upd_mutex i (\<lambda>m. m\<lparr>owner := None\<rparr>))
             (kseq (upd_mutex i (\<lambda>m. m\<lparr>mxid := 0\<rparr>))
             (kseq (release L_mxtable) (kret 0)))))))"

text \<open>The loop \<^verbatim>\<open>while(xchg(&mx->state, LOCKED) == LOCKED) sleep(mx, &mxtable.lock)\<close>, from its test on.\<close>

definition mutex_grab :: "nat \<Rightarrow> 'a mxtab_scheme \<Rightarrow> (int, 'a mxtab_scheme) outcome" where
  "mutex_grab i =
     kbind (kget (\<lambda>s. mstate (mutexes s ! i))) (\<lambda>old.
       kseq (upd_mutex i (\<lambda>m. m\<lparr>mstate := LOCKED\<rparr>))
      (if old = LOCKED then sleep (Ch_mutex i) (Some L_mxtable)
       else kseq (\<lambda>s. upd_mutex i (\<lambda>m. m\<lparr>owner := curthread s\<rparr>) s)
           (kseq (release L_mxtable) (kret 0))))"

definition kthread_mutex_lock :: "int \<Rightarrow> 'a mxtab_scheme \<Rightarrow> (int, 'a mxtab_scheme) outcome" where
  "kthread_mutex_lock mutex_id =
     kseq (acquire L_mxtable)
     (kbind (kget (\<lambda>s. find_idx (\<lambda>m. mxid m = mutex_id) (mutexes s))) (\<lambda>r. case r of
       None \<Rightarrow> kseq (release L_mxtable) (kret (-1))
     | Some i \<Rightarrow> kbind (kget (\<lambda>s. mstate (mutexes s ! i))) (\<lambda>st.
         if st = FREE then kpanic ''kthread_mutex_lock: trying to catch FREE mutex''
         else mutex_grab i)))"

definition kthread_mutex_lock_resume :: "nat \<Rightarrow> 'a mxtab_scheme \<Rightarrow> (int, 'a mxtab_scheme) outcome" where
  "kthread_mutex_lock_resume i = kseq (sleep_resume L_mxtable) (mutex_grab i)"

definition kthread_mutex_unlock :: "int \<Rightarrow> 'a mxtab_scheme \<Rightarrow> (int, 'a mxtab_scheme) outcome" where
  "kthread_mutex_unlock mutex_id =
     kseq (acquire L_mxtable)
     (kbind (kget (\<lambda>s. find_idx (\<lambda>m. mxid m = mutex_id) (mutexes s))) (\<lambda>r. case r of
       None \<Rightarrow> kseq (release L_mxtable) (kret (-1))
     | Some i \<Rightarrow> kbind (kget (\<lambda>s. mstate (mutexes s ! i))) (\<lambda>st.
         if st = UNLOCKED then kseq (release L_mxtable) (kret (-1))
         else kseq (upd_mutex i (\<lambda>m. m\<lparr>mstate := UNLOCKED\<rparr>))
             (kseq (upd_mutex i (\<lambda>m. m\<lparr>owner := None\<rparr>))
             (kseq (release L_mxtable)
             (kseq (wakeup (Ch_mutex i)) (kret 0)))))))"

section \<open>Interleaved calls\<close>

text \<open>
  The calls of all threads, in the order in which they get \<^verbatim>\<open>mxtable.lock\<close>. A call starts with no lock held;
  a thread that resumes from its sleep has \<^verbatim>\<open>ptable.lock\<close>, handed over by the scheduler. The second
  component records which thread has which mutex: it is added when the lock call returns 0 and removed when that
  thread unlocks. A thread unlocks only a mutex it has; every other call is unrestricted. \<open>mx_other\<close> is whatever else
  the kernel does: it leaves the mutex table alone.
\<close>

definition as_thread :: "nat \<times> nat \<Rightarrow> lockid set \<Rightarrow> 'a mxtab_scheme \<Rightarrow> 'a mxtab_scheme" where
  "as_thread \<tau> L s = s\<lparr>held := L, curproc := Some (fst \<tau>), curthread := Some \<tau>\<rparr>"

inductive mx_run :: "'a mxtab_scheme \<Rightarrow> ((nat \<times> nat) \<times> nat) set \<Rightarrow> bool" where
  mx_start: "\<forall>m \<in> set (mutexes s). mstate m = FREE \<Longrightarrow> mx_run s {}"
| mx_alloc: "mx_run s H \<Longrightarrow> kthread_mutex_alloc (as_thread \<tau> {} s) = Done r t \<Longrightarrow> mx_run t H"
| mx_dealloc: "mx_run s H \<Longrightarrow> kthread_mutex_dealloc n (as_thread \<tau> {} s) = Done r t \<Longrightarrow> mx_run t H"
| mx_lock: "mx_run s H \<Longrightarrow> kthread_mutex_lock n (as_thread \<tau> {} s) = Done 0 t
    \<Longrightarrow> find_idx (\<lambda>m. mxid m = n) (mutexes s) = Some i \<Longrightarrow> mx_run t (insert (\<tau>, i) H)"
| mx_lock_fails: "mx_run s H \<Longrightarrow> kthread_mutex_lock n (as_thread \<tau> {} s) = Done (-1) t \<Longrightarrow> mx_run t H"
| mx_lock_sleeps: "mx_run s H \<Longrightarrow> kthread_mutex_lock n (as_thread \<tau> {} s) = Block c t \<Longrightarrow> mx_run t H"
| mx_resume: "mx_run s H \<Longrightarrow> kthread_mutex_lock_resume i (as_thread \<tau> {L_ptable} s) = Done 0 t
    \<Longrightarrow> i < length (mutexes s) \<Longrightarrow> mx_run t (insert (\<tau>, i) H)"
| mx_resume_sleeps: "mx_run s H \<Longrightarrow> kthread_mutex_lock_resume i (as_thread \<tau> {L_ptable} s) = Block c t
    \<Longrightarrow> i < length (mutexes s) \<Longrightarrow> mx_run t H"
| mx_unlock: "mx_run s H \<Longrightarrow> kthread_mutex_unlock n (as_thread \<tau> {} s) = Done r t
    \<Longrightarrow> find_idx (\<lambda>m. mxid m = n) (mutexes s) = Some i \<Longrightarrow> (\<tau>, i) \<in> H \<Longrightarrow> mx_run t (H - {(\<tau>, i)})"
| mx_other: "mx_run s H \<Longrightarrow> mutexes t = mutexes s \<Longrightarrow> mx_run t H"

text \<open>A mutex is locked exactly when a thread has it, only one has it, and it is the recorded owner.\<close>

definition mx_inv :: "kmutex list \<Rightarrow> ((nat \<times> nat) \<times> nat) set \<Rightarrow> bool" where
  "mx_inv ms H \<longleftrightarrow> (\<forall>\<tau> i. (\<tau>, i) \<in> H \<longrightarrow> i < length ms \<and> mstate (ms ! i) = LOCKED \<and> owner (ms ! i) = Some \<tau>)"

section \<open>Lemmas\<close>

lemma upd_mutex_run [simp, krun]:
  "upd_mutex i f s = Done () (s\<lparr>mutexes := (mutexes s)[i := f (mutexes s ! i)]\<rparr>)"
  by (simp add: upd_mutex_def)

lemma kmutex_all_set:
  "(m::kmutex)\<lparr>mstate := a, mxid := b, owner := c\<rparr> = \<lparr>mstate = a, mxid = b, owner = c\<rparr>"
  "(m::kmutex)\<lparr>mstate := a, owner := c, mxid := b\<rparr> = \<lparr>mstate = a, mxid = b, owner = c\<rparr>"
  by (cases m, simp)+

text \<open>What each call does to the table, on every branch.\<close>

lemma sleep_mutexes:
  assumes "sleep c lk s = r"
  shows "(case r of Done a t \<Rightarrow> False | Block d t \<Rightarrow> mutexes t = mutexes s | _ \<Rightarrow> True)"
  unfolding assms [symmetric]
  by (auto simp: sleep_def sched_def with_proc_def acquire_def release_def kseq_def kbind_def kwhen_def
      split: option.splits prod.splits)

lemma mutex_grab_run:
  assumes i: "i < length (mutexes s)" and lk: "L_mxtable \<in> held s"
  shows "mstate (mutexes s ! i) \<noteq> LOCKED \<Longrightarrow> mutex_grab i s = Done 0 (s\<lparr>held := held s - {L_mxtable},
       mutexes := (mutexes s)[i := (mutexes s ! i)\<lparr>mstate := LOCKED, owner := curthread s\<rparr>]\<rparr>)"
    and "mstate (mutexes s ! i) = LOCKED \<Longrightarrow> mutex_grab i s = sleep (Ch_mutex i) (Some L_mxtable) s"
proof -
  show "mutex_grab i s = Done 0 (s\<lparr>held := held s - {L_mxtable},
       mutexes := (mutexes s)[i := (mutexes s ! i)\<lparr>mstate := LOCKED, owner := curthread s\<rparr>]\<rparr>)"
    if "mstate (mutexes s ! i) \<noteq> LOCKED"
    using that i lk by (cases s) (simp add: mutex_grab_def)
  show "mutex_grab i s = sleep (Ch_mutex i) (Some L_mxtable) s" if l: "mstate (mutexes s ! i) = LOCKED"
  proof -
    have "(mutexes s ! i)\<lparr>mstate := LOCKED\<rparr> = mutexes s ! i" using l by (cases "mutexes s ! i") simp
    then have "s\<lparr>mutexes := (mutexes s)[i := (mutexes s ! i)\<lparr>mstate := LOCKED\<rparr>]\<rparr> = s" by (cases s) simp
    with l show ?thesis by (simp add: mutex_grab_def)
  qed
qed

lemma mutex_alloc_run:
  assumes "L_mxtable \<notin> held s"
  shows "kthread_mutex_alloc s = (case find_idx (\<lambda>m. mstate m = FREE) (mutexes s) of None \<Rightarrow> Done (-1) s
    | Some i \<Rightarrow> Done (nextmxid s) (s\<lparr>mutexes := (mutexes s)[i := \<lparr>mstate = UNLOCKED, mxid = nextmxid s, owner = None\<rparr>],
                  nextmxid := inc32 (nextmxid s)\<rparr>))"
proof (cases "find_idx (\<lambda>m. mstate m = FREE) (mutexes s)")
  case None
  with assms show ?thesis by (cases s) (simp add: kthread_mutex_alloc_def)
next
  case (Some i)
  moreover from Some have "i < length (mutexes s)" by (rule find_idx_bound)
  ultimately show ?thesis using assms by (cases s) (simp add: kthread_mutex_alloc_def kmutex_all_set)
qed

lemma mutex_dealloc_run:
  assumes "L_mxtable \<notin> held s"
  shows "kthread_mutex_dealloc n s = (case find_idx (\<lambda>m. mxid m = n) (mutexes s) of None \<Rightarrow> Done (-1) s
    | Some i \<Rightarrow> if mstate (mutexes s ! i) = LOCKED then Done (-1) s
        else Done 0 (s\<lparr>mutexes := (mutexes s)[i := \<lparr>mstate = FREE, mxid = 0, owner = None\<rparr>]\<rparr>))"
proof (cases "find_idx (\<lambda>m. mxid m = n) (mutexes s)")
  case None
  with assms show ?thesis by (cases s) (simp add: kthread_mutex_dealloc_def)
next
  case (Some i)
  moreover from Some have "i < length (mutexes s)" by (rule find_idx_bound)
  ultimately show ?thesis using assms by (cases s) (simp add: kthread_mutex_dealloc_def kmutex_all_set)
qed

lemma mutex_lock_run:
  assumes "L_mxtable \<notin> held s"
  shows "kthread_mutex_lock n s = (case find_idx (\<lambda>m. mxid m = n) (mutexes s) of None \<Rightarrow> Done (-1) s
    | Some i \<Rightarrow> if mstate (mutexes s ! i) = FREE then Panic ''kthread_mutex_lock: trying to catch FREE mutex''
        else if mstate (mutexes s ! i) = LOCKED
          then sleep (Ch_mutex i) (Some L_mxtable) (s\<lparr>held := insert L_mxtable (held s)\<rparr>)
        else Done 0 (s\<lparr>mutexes := (mutexes s)[i := (mutexes s ! i)\<lparr>mstate := LOCKED, owner := curthread s\<rparr>]\<rparr>))"
proof (cases "find_idx (\<lambda>m. mxid m = n) (mutexes s)")
  case None
  with assms show ?thesis by (cases s) (simp add: kthread_mutex_lock_def)
next
  case (Some i)
  let ?s = "s\<lparr>held := insert L_mxtable (held s)\<rparr>"
  have i: "i < length (mutexes ?s)" using find_idx_bound [OF Some] by simp
  show ?thesis using assms Some mutex_grab_run [OF i] by (simp add: kthread_mutex_lock_def)
qed

lemma mutex_unlock_run:
  assumes "L_mxtable \<notin> held s" "L_ptable \<notin> held s"
  shows "kthread_mutex_unlock n s = (case find_idx (\<lambda>m. mxid m = n) (mutexes s) of None \<Rightarrow> Done (-1) s
    | Some i \<Rightarrow> if mstate (mutexes s ! i) = UNLOCKED then Done (-1) s
        else Done 0 (s\<lparr>procs := map (\<lambda>p. p\<lparr>pthreads := map (wake (Ch_mutex i)) (pthreads p)\<rparr>) (procs s),
                       mutexes := (mutexes s)[i := (mutexes s ! i)\<lparr>mstate := UNLOCKED, owner := None\<rparr>]\<rparr>))"
proof (cases "find_idx (\<lambda>m. mxid m = n) (mutexes s)")
  case None
  with assms show ?thesis by (cases s) (simp add: kthread_mutex_unlock_def)
next
  case (Some i)
  moreover from Some have "i < length (mutexes s)" by (rule find_idx_bound)
  ultimately show ?thesis using assms by (cases s) (simp add: kthread_mutex_unlock_def wakeup_run)
qed


lemma mutex_resume_run:
  assumes "held s = {L_ptable}" "curthread s = Some (k, j)" and i: "i < length (mutexes s)"
  shows "kthread_mutex_lock_resume i s =
    (let u = s\<lparr>held := {L_mxtable}, procs := put_thread k j (\<lambda>t. t\<lparr>tchan := None\<rparr>) (procs s)\<rparr> in
     if mstate (mutexes s ! i) = LOCKED then sleep (Ch_mutex i) (Some L_mxtable) u
     else Done 0 (u\<lparr>held := {}, mutexes := (mutexes s)[i := (mutexes s ! i)\<lparr>mstate := LOCKED, owner := Some (k, j)\<rparr>]\<rparr>))"
proof -
  let ?u = "s\<lparr>held := {L_mxtable}, procs := put_thread k j (\<lambda>t. t\<lparr>tchan := None\<rparr>) (procs s)\<rparr>"
  have "kthread_mutex_lock_resume i s = mutex_grab i ?u"
    using assms(1,2) by (cases s) (simp add: kthread_mutex_lock_resume_def sleep_resume_def with_thread_def put_thread_def)
  then show ?thesis using mutex_grab_run [of i ?u] assms by (simp add: Let_def)
qed

lemma mx_invD:
  "mx_inv ms H \<Longrightarrow> (\<tau>, i) \<in> H \<Longrightarrow> i < length ms \<and> mstate (ms ! i) = LOCKED \<and> owner (ms ! i) = Some \<tau>"
  unfolding mx_inv_def by blast

lemma mx_inv_update:
  assumes "mx_inv ms H" "\<And>\<tau>. (\<tau>, i) \<notin> H"
  shows "mx_inv (ms[i := m]) H"
  unfolding mx_inv_def
proof (intro allI impI)
  fix \<sigma> k assume k: "(\<sigma>, k) \<in> H"
  with assms(2) have "k \<noteq> i" by blast
  with mx_invD [OF assms(1) k] show "k < length (ms[i := m]) \<and> mstate (ms[i := m] ! k) = LOCKED \<and> owner (ms[i := m] ! k) = Some \<sigma>"
    by simp
qed

lemma mx_inv_free: "mx_inv ms H \<Longrightarrow> mstate (ms ! i) \<noteq> LOCKED \<Longrightarrow> (\<tau>, i) \<notin> H"
  by (auto dest: mx_invD)

lemma mx_inv_grab:
  assumes "mx_inv ms H" "mstate (ms ! i) \<noteq> LOCKED" "i < length ms"
  shows "mx_inv (ms[i := (ms ! i)\<lparr>mstate := LOCKED, owner := Some \<tau>\<rparr>]) (insert (\<tau>, i) H)"
  using mx_inv_update [OF assms(1) mx_inv_free [OF assms(1,2)]] assms(3) by (simp add: mx_inv_def)

lemma mx_inv_drop:
  assumes "mx_inv ms H" "(\<tau>, i) \<in> H"
  shows "mx_inv (ms[i := m]) (H - {(\<tau>, i)})"
proof (rule mx_inv_update)
  show "mx_inv ms (H - {(\<tau>, i)})" using assms(1) by (auto simp: mx_inv_def)
  show "(\<sigma>, i) \<notin> H - {(\<tau>, i)}" for \<sigma> using mx_invD [OF assms(1), of \<sigma> i] mx_invD [OF assms] by auto
qed

lemma as_thread_sel [simp]:
  "held (as_thread \<tau> L s) = L" "mutexes (as_thread \<tau> L s) = mutexes s" "curthread (as_thread \<tau> L s) = Some \<tau>"
  "procs (as_thread \<tau> L s) = procs s" "nextmxid (as_thread \<tau> L s) = nextmxid s" "curproc (as_thread \<tau> L s) = Some (fst \<tau>)"
  by (simp_all add: as_thread_def)

lemma sleep_not_Done: "sleep c lk s \<noteq> Done a t"
  by (auto simp: sleep_def sched_def with_proc_def acquire_def release_def kseq_def kbind_def kwhen_def
      split: option.splits prod.splits if_splits)

lemma sleep_Block_mutexes: "sleep c lk s = Block d t \<Longrightarrow> mutexes t = mutexes s"
  using sleep_mutexes [of c lk s "Block d t"] by auto

lemma mx_run_inv: "mx_run s H \<Longrightarrow> mx_inv (mutexes s) H"
proof (induction rule: mx_run.induct)
  case (mx_start s)
  then show ?case by (simp add: mx_inv_def)
next
  case (mx_alloc s H \<tau> r t)
  show ?case
  proof (cases "find_idx (\<lambda>m. mstate m = FREE) (mutexes s)")
    case None
    then show ?thesis using mx_alloc by (auto simp: mutex_alloc_run)
  next
    case (Some i)
    then have "mstate (mutexes s ! i) \<noteq> LOCKED" using find_idx_holds [OF Some] by simp
    then show ?thesis using mx_alloc Some mx_inv_update [OF mx_alloc.IH mx_inv_free [OF mx_alloc.IH]]
      by (auto simp: mutex_alloc_run)
  qed
next
  case (mx_dealloc s H n \<tau> r t)
  then show ?case using mx_inv_update [OF mx_dealloc.IH mx_inv_free [OF mx_dealloc.IH]]
    by (auto simp: mutex_dealloc_run split: option.splits if_splits)
next
  case (mx_lock s H n \<tau> t i)
  then show ?case using mx_inv_grab [OF mx_lock.IH, of i \<tau>] find_idx_bound [OF mx_lock(3)]
    by (auto simp: mutex_lock_run sleep_not_Done split: if_splits)
next
  case (mx_lock_fails s H n \<tau> t)
  then show ?case by (auto simp: mutex_lock_run sleep_not_Done split: option.splits if_splits)
next
  case (mx_lock_sleeps s H n \<tau> c t)
  then show ?case by (auto simp: mutex_lock_run dest: sleep_Block_mutexes split: option.splits if_splits)
next
  case (mx_resume s H i \<tau> t)
  then show ?case using mx_inv_grab [OF mx_resume.IH, of i \<tau>]
    by (cases \<tau>) (auto simp: mutex_resume_run Let_def sleep_not_Done split: if_splits)
next
  case (mx_resume_sleeps s H i \<tau> c t)
  then show ?case
    by (cases \<tau>) (auto simp: mutex_resume_run Let_def dest: sleep_Block_mutexes split: if_splits)
next
  case (mx_unlock s H n \<tau> r t i)
  have "mstate (mutexes s ! i) = LOCKED" using mx_invD [OF mx_unlock.IH mx_unlock(4)] by simp
  then show ?case using mx_unlock mx_inv_drop [OF mx_unlock.IH mx_unlock(4)] by (auto simp: mutex_unlock_run)
next
  case (mx_other s H t)
  then show ?case by simp
qed


section \<open>Properties\<close>

text \<open>C6: mutual exclusion. Whatever calls any threads make in whatever order, as long as a thread unlocks only a
  mutex it has, at most one thread has a mutex at a time, the mutex is locked meanwhile, and its owner
  field names that thread.\<close>

theorem mutex_mutual_exclusion:
  assumes "mx_run s H" and "(\<tau>, i) \<in> H" and "(\<sigma>, i) \<in> H"
  shows "\<sigma> = \<tau> \<and> mstate (mutexes s ! i) = LOCKED \<and> owner (mutexes s ! i) = Some \<tau>"
  using mx_invD [OF mx_run_inv [OF assms(1)] assms(2)] mx_invD [OF mx_run_inv [OF assms(1)] assms(3)] by simp

text \<open>The kernel at start, two mutexes in use and the rest free.\<close>

definition mx_boot :: mxtab where
  "mx_boot = ptable.extend boot_ptable
     \<lparr>mutexes = replicate 64 \<lparr>mstate = FREE, mxid = 0, owner = None\<rparr>, nextmxid = 1\<rparr>"

definition mx_one :: mxtab where
  "mx_one = (as_thread (0, 0) {} mx_boot)\<lparr>nextmxid := 2,
     mutexes := (replicate 64 \<lparr>mstate = FREE, mxid = 0, owner = None\<rparr>)[0 := \<lparr>mstate = UNLOCKED, mxid = 1, owner = None\<rparr>]\<rparr>"

lemma mx_boot_sel: "mutexes mx_boot = replicate 64 \<lparr>mstate = FREE, mxid = 0, owner = None\<rparr>" "nextmxid mx_boot = 1"
  "procs mx_boot = replicate 64 boot_proc" "held mx_boot = {}"
  using boot_ptable_inv(5) by (simp_all add: mx_boot_def ptable.defs boot_ptable_def vm.defs vm_one_def)

lemma mx_one_run: "mx_run mx_one {}"
proof (rule mx_alloc)
  show "mx_run mx_boot {}" by (rule mx_start) (simp add: mx_boot_sel)
  have "find_idx (\<lambda>m. mstate m = FREE) (mutexes mx_boot) = Some 0"
    by (rule find_idx_unique) (simp_all add: mx_boot_sel)
  then show "kthread_mutex_alloc (as_thread (0, 0) {} mx_boot) = Done 1 mx_one"
    by (simp add: mutex_alloc_run mx_boot_sel) (simp add: mx_one_def)
qed

lemma mx_one_find: "find_idx (\<lambda>m. mxid m = 1) (mutexes mx_one) = Some 0"
  by (rule find_idx_unique) (simp_all add: mx_one_def)

theorem mutex_mutual_exclusion_witness:
  "\<exists>t. kthread_mutex_lock 1 (as_thread (2, 3) {} mx_one) = Done 0 t \<and> mx_run t {((2, 3), 0)}
     \<and> mstate (mutexes t ! 0) = LOCKED \<and> owner (mutexes t ! 0) = Some (2, 3)"
proof -
  obtain t where t: "kthread_mutex_lock 1 (as_thread (2, 3) {} mx_one) = Done 0 t"
    using mx_one_find by (simp add: mutex_lock_run) (simp add: mx_one_def)
  have "mx_run t {((2, 3), 0)}" by (rule mx_lock [OF mx_one_run t mx_one_find])
  with t mutex_mutual_exclusion [of t "{((2, 3), 0)}" "(2, 3)" 0 "(2, 3)"] show ?thesis by simp
qed

text \<open>C26: handing over a mutex. When a locked mutex is unlocked, every thread that sleeps in a lock call on it
  becomes runnable, and whichever of them runs next gets the mutex: its call returns 0 as the recorded
  owner, with no lock left held.\<close>

theorem mutex_unlock_hands_over:
  assumes wf: "wf_ptable s" and lk: "L_mxtable \<notin> held s" "L_ptable \<notin> held s"
    and i: "find_idx (\<lambda>m. mxid m = n) (mutexes s) = Some i" "mstate (mutexes s ! i) = LOCKED"
    and w: "k < NPROC" "j < NTHREAD" "tstate (thread_at s k j) = SLEEPING" "tchan (thread_at s k j) = Some (Ch_mutex i)"
  shows "\<exists>t u. kthread_mutex_unlock n s = Done 0 t \<and> held t = held s \<and> tstate (thread_at t k j) = RUNNABLE
     \<and> kthread_mutex_lock_resume i (as_thread (k, j) {L_ptable} t) = Done 0 u \<and> held u = {}
     \<and> mstate (mutexes u ! i) = LOCKED \<and> owner (mutexes u ! i) = Some (k, j) \<and> tchan (thread_at u k j) = None"
proof -
  define t where "t = s\<lparr>procs := map (\<lambda>p. p\<lparr>pthreads := map (wake (Ch_mutex i)) (pthreads p)\<rparr>) (procs s),
                       mutexes := (mutexes s)[i := (mutexes s ! i)\<lparr>mstate := UNLOCKED, owner := None\<rparr>]\<rparr>"
  have len: "i < length (mutexes s)" "k < length (procs s)" "j < length (pthreads (procs s ! k))"
    using find_idx_bound [OF i(1)] wf_ptableD [OF wf] w by simp_all
  have run: "kthread_mutex_unlock n s = Done 0 t" using lk i by (simp add: mutex_unlock_run t_def)
  let ?a = "as_thread (k, j) {L_ptable} t"
  define u where "u = ?a\<lparr>held := {}, procs := put_thread k j (\<lambda>t. t\<lparr>tchan := None\<rparr>) (procs t),
     mutexes := (mutexes t)[i := (mutexes t ! i)\<lparr>mstate := LOCKED, owner := Some (k, j)\<rparr>]\<rparr>"
  have "mstate (mutexes t ! i) \<noteq> LOCKED" using len by (simp add: t_def)
  then have "kthread_mutex_lock_resume i ?a = Done 0 u"
    using mutex_resume_run [of ?a k j i] len by (simp add: u_def t_def)
  moreover have "tstate (thread_at t k j) = RUNNABLE"
    using w len by (simp add: thread_at_def t_def wake_def)
  ultimately show ?thesis
    using run len by (intro exI [of _ t] exI [of _ u]) (simp add: t_def u_def thread_at_def put_thread_nth)
qed

definition mx_wait :: mxtab where
  "mx_wait = mx_one\<lparr>mutexes := (mutexes mx_one)[0 := \<lparr>mstate = LOCKED, mxid = 1, owner = Some (0, 0)\<rparr>],
     procs := put_thread 5 2 (\<lambda>t. t\<lparr>tstate := SLEEPING, tchan := Some (Ch_mutex 0)\<rparr>) (procs mx_one)\<rparr>"

lemma mx_wait_sel:
  "wf_ptable mx_wait" "held mx_wait = {}" "find_idx (\<lambda>m. mxid m = 1) (mutexes mx_wait) = Some 0"
  "mutexes mx_wait ! 0 = \<lparr>mstate = LOCKED, mxid = 1, owner = Some (0, 0)\<rparr>"
  "tstate (thread_at mx_wait 5 2) = SLEEPING" "tchan (thread_at mx_wait 5 2) = Some (Ch_mutex 0)"
proof -
  let ?g = "\<lambda>t. t\<lparr>tstate := SLEEPING, tchan := Some (Ch_mutex 0)\<rparr>"
  have p: "procs mx_one = replicate 64 boot_proc" by (simp add: mx_one_def mx_boot_sel)
  show "wf_ptable mx_wait"
    unfolding wf_ptable_def all_set_conv_all_nth
    by (simp add: mx_wait_def put_thread_nth p boot_proc_def)
  show "find_idx (\<lambda>m. mxid m = 1) (mutexes mx_wait) = Some 0"
    by (rule find_idx_unique) (simp_all add: mx_wait_def mx_one_def)
  show "held mx_wait = {}" "mutexes mx_wait ! 0 = \<lparr>mstate = LOCKED, mxid = 1, owner = Some (0, 0)\<rparr>"
    by (simp_all add: mx_wait_def mx_one_def)
  show "tstate (thread_at mx_wait 5 2) = SLEEPING" "tchan (thread_at mx_wait 5 2) = Some (Ch_mutex 0)"
    by (simp_all add: mx_wait_def thread_at_def put_thread_nth p boot_proc_def)
qed

theorem mutex_unlock_hands_over_witness:
  "\<exists>t u. kthread_mutex_unlock 1 mx_wait = Done 0 t
     \<and> kthread_mutex_lock_resume 0 (as_thread (5, 2) {L_ptable} t) = Done 0 u \<and> owner (mutexes u ! 0) = Some (5, 2)"
  using mutex_unlock_hands_over [OF mx_wait_sel(1) _ _ mx_wait_sel(3) _ _ _ mx_wait_sel(5,6)] mx_wait_sel by auto

text \<open>C32: a mutex can be deallocated while threads wait for it. If it is deallocated after its unlock and before a
  waiting thread runs, that thread's call still returns 0, but on the freed entry, which is then locked with id 0.
  In that state no call with the mutex's id reaches the entry any more: \<^verbatim>\<open>kthread_mutex_lock\<close>, \<^verbatim>\<open>kthread_mutex_unlock\<close> and
  \<^verbatim>\<open>kthread_mutex_dealloc\<close> with this id return -1 and change nothing, and \<^verbatim>\<open>kthread_mutex_alloc\<close> leaves the
  entry alone.\<close>

theorem mutex_dealloc_strands_waiter:
  assumes lk: "L_mxtable \<notin> held s" "L_ptable \<notin> held s"
    and i: "find_idx (\<lambda>m. mxid m = n) (mutexes s) = Some i" "mstate (mutexes s ! i) = LOCKED" "n \<noteq> 0"
    and only: "\<forall>k < length (mutexes s). mxid (mutexes s ! k) = n \<longrightarrow> k = i"
  shows "\<exists>t u v. kthread_mutex_unlock n s = Done 0 t \<and> kthread_mutex_dealloc n t = Done 0 u
     \<and> kthread_mutex_lock_resume i (as_thread \<tau> {L_ptable} u) = Done 0 v
     \<and> mstate (mutexes v ! i) = LOCKED \<and> mxid (mutexes v ! i) = 0 \<and> owner (mutexes v ! i) = Some \<tau>
     \<and> kthread_mutex_unlock n v = Done (-1) v \<and> kthread_mutex_lock n v = Done (-1) v \<and> kthread_mutex_dealloc n v = Done (-1) v
     \<and> (\<exists>r w. kthread_mutex_alloc v = Done r w \<and> mutexes w ! i = mutexes v ! i)"
proof -
  let ?ps = "map (\<lambda>p. p\<lparr>pthreads := map (wake (Ch_mutex i)) (pthreads p)\<rparr>) (procs s)"
  obtain k j where \<tau>: "\<tau> = (k, j)" by (cases \<tau>)
  define t where "t = s\<lparr>procs := ?ps, mutexes := (mutexes s)[i := (mutexes s ! i)\<lparr>mstate := UNLOCKED, owner := None\<rparr>]\<rparr>"
  have il: "i < length (mutexes s)" and im: "mxid (mutexes s ! i) = n" "\<forall>j < i. mxid (mutexes s ! j) \<noteq> n"
    using find_idx_SomeD [OF i(1)] by simp_all
  have t: "kthread_mutex_unlock n s = Done 0 t" using lk i by (simp add: mutex_unlock_run t_def)
  have ft: "find_idx (\<lambda>m. mxid m = n) (mutexes t) = Some i"
    by (rule find_idx_unique) (use il im in \<open>simp_all add: t_def\<close>)
  define u where "u = t\<lparr>mutexes := (mutexes s)[i := \<lparr>mstate = FREE, mxid = 0, owner = None\<rparr>]\<rparr>"
  have u: "kthread_mutex_dealloc n t = Done 0 u"
    using mutex_dealloc_run [of t n] lk ft il by (simp add: t_def u_def)
  define v where "v = (as_thread \<tau> {L_ptable} u)\<lparr>held := {}, procs := put_thread k j (\<lambda>t. t\<lparr>tchan := None\<rparr>) (procs u),
     mutexes := (mutexes s)[i := \<lparr>mstate = LOCKED, mxid = 0, owner = Some \<tau>\<rparr>]\<rparr>"
  have v: "kthread_mutex_lock_resume i (as_thread \<tau> {L_ptable} u) = Done 0 v"
    using mutex_resume_run [of "as_thread \<tau> {L_ptable} u" k j i] il by (simp add: \<tau> v_def u_def)
  have "mxid m \<noteq> n" if "m \<in> set (mutexes v)" for m
  proof -
    from that obtain k where k: "k < length (mutexes s)" "m = mutexes v ! k" by (auto simp: in_set_conv_nth v_def)
    then show ?thesis using only i(3) by (cases "k = i") (auto simp: v_def)
  qed
  then have "find_idx (\<lambda>m. mxid m = n) (mutexes v) = None" by (simp add: find_idx_None_iff)
  then have gone: "kthread_mutex_unlock n v = Done (-1) v" "kthread_mutex_lock n v = Done (-1) v" "kthread_mutex_dealloc n v = Done (-1) v"
    by (simp_all add: mutex_unlock_run mutex_lock_run mutex_dealloc_run v_def)
  have "\<exists>r w. kthread_mutex_alloc v = Done r w \<and> mutexes w ! i = mutexes v ! i"
  proof (cases "find_idx (\<lambda>m. mstate m = FREE) (mutexes v)")
    case None
    then show ?thesis by (simp add: mutex_alloc_run v_def)
  next
    case (Some k)
    then have "k \<noteq> i" using find_idx_SomeD [OF Some] il by (auto simp: v_def)
    with Some show ?thesis by (simp add: mutex_alloc_run v_def)
  qed
  with t u v gone il show ?thesis by (intro exI [of _ t] exI [of _ u] exI [of _ v]) (simp add: v_def)
qed

theorem mutex_dealloc_strands_waiter_witness:
  "\<exists>t u v. kthread_mutex_unlock 1 mx_wait = Done 0 t \<and> kthread_mutex_dealloc 1 t = Done 0 u
     \<and> kthread_mutex_lock_resume 0 (as_thread (5, 2) {L_ptable} u) = Done 0 v \<and> mxid (mutexes v ! 0) = 0
     \<and> kthread_mutex_unlock 1 v = Done (-1) v"
proof -
  have "k = 0" if "k < length (mutexes mx_wait)" "mxid (mutexes mx_wait ! k) = 1" for k
    using that by (simp add: mx_wait_def mx_one_def nth_list_update split: if_splits)
  then have "\<forall>k < length (mutexes mx_wait). mxid (mutexes mx_wait ! k) = 1 \<longrightarrow> k = 0" by blast
  with mutex_dealloc_strands_waiter [of mx_wait 1 0 "(5, 2)"] mx_wait_sel show ?thesis by auto
qed

text \<open>Mutex id 0 is the id of every free entry: locking it stops the machine, and unlocking it takes a free
  entry out of use.\<close>

lemma mutex_id_zero:
  assumes "L_mxtable \<notin> held s" "L_ptable \<notin> held s"
    and "find_idx (\<lambda>m. mxid m = 0) (mutexes s) = Some i" "mstate (mutexes s ! i) = FREE"
  shows "kthread_mutex_lock 0 s = Panic ''kthread_mutex_lock: trying to catch FREE mutex''"
    and "\<exists>t. kthread_mutex_unlock 0 s = Done 0 t \<and> mstate (mutexes t ! i) = UNLOCKED"
  using assms find_idx_bound [OF assms(3)] by (simp_all add: mutex_lock_run mutex_unlock_run)

end
