(* ===== verification/Bio.thy ===== *)
theory Bio
  imports Mutex
begin

text \<open>
  Disk blocks and the buffer cache (\<^verbatim>\<open>buf.h\<close>, \<^verbatim>\<open>bio.c\<close>) over the memory disk of \<^verbatim>\<open>memide.c\<close>, whose \<^verbatim>\<open>iderw\<close> is synchronous.
  A block is the list of its bytes; the buffers are an array with one more entry, the list head, and the
  \<^verbatim>\<open>next\<close> and \<^verbatim>\<open>prev\<close> pointers are indices into it. \<open>writes\<close> is the history of the blocks written to the disk,
  oldest first: a crash leaves the disk with a prefix of it. The IDE driver of \<^verbatim>\<open>ide.c\<close> is in the theory Ide.
\<close>

section \<open>Little-endian fields of a block\<close>

type_synonym block = "uchar list"

abbreviation (input) BSIZE :: nat where "BSIZE \<equiv> 512"

definition get16 :: "uchar list \<Rightarrow> nat \<Rightarrow> ushort" where
  "get16 d k = ucast (d ! k) OR push_bit 8 (ucast (d ! (k + 1)))"

definition put16 :: "nat \<Rightarrow> ushort \<Rightarrow> uchar list \<Rightarrow> uchar list" where
  "put16 k v d = d[k := ucast v, k + 1 := ucast (drop_bit 8 v)]"

definition get32 :: "uchar list \<Rightarrow> nat \<Rightarrow> uint" where
  "get32 d k = ucast (d ! k) OR push_bit 8 (ucast (d ! (k + 1)))
     OR push_bit 16 (ucast (d ! (k + 2))) OR push_bit 24 (ucast (d ! (k + 3)))"

definition put32 :: "nat \<Rightarrow> uint \<Rightarrow> uchar list \<Rightarrow> uchar list" where
  "put32 k v d = d[k := ucast v, k + 1 := ucast (drop_bit 8 v), k + 2 := ucast (drop_bit 16 v),
     k + 3 := ucast (drop_bit 24 v)]"

text \<open>\<^verbatim>\<open>memmove(dst->data + o, src, n)\<close> of bytes that lie inside both blocks.\<close>

definition put_bytes :: "nat \<Rightarrow> uchar list \<Rightarrow> uchar list \<Rightarrow> uchar list" where
  "put_bytes k bs d = take k d @ bs @ drop (k + length bs) d"

section \<open>Buffers and the disk\<close>

abbreviation (input) B_BUSY :: uint where "B_BUSY \<equiv> 1"
abbreviation (input) B_VALID :: uint where "B_VALID \<equiv> 2"
abbreviation (input) B_DIRTY :: uint where "B_DIRTY \<equiv> 4"
abbreviation (input) NBUF :: nat where "NBUF \<equiv> 30"

text \<open>The index of \<^verbatim>\<open>bcache.head\<close>.\<close>

abbreviation (input) HEAD :: nat where "HEAD \<equiv> 30"

record buf =
  bflags :: uint
  bdev :: uint
  blockno :: uint
  bprev :: "nat option"
  bnext :: "nat option"
  qnext :: "nat option"
  bdata :: block

record bcache = mxtab +
  bufs :: "buf list"
  memdisk :: "block list"
  writes :: "(nat \<times> block) list"

definition upd_buf :: "nat \<Rightarrow> (buf \<Rightarrow> buf) \<Rightarrow> 'a bcache_scheme \<Rightarrow> (unit, 'a bcache_scheme) outcome" where
  "upd_buf i f = kmod (\<lambda>s. s\<lparr>bufs := (bufs s)[i := f (bufs s ! i)]\<rparr>)"

text \<open>Following a pointer of a buffer.\<close>

definition deref :: "nat option \<Rightarrow> (nat \<Rightarrow> 's \<Rightarrow> ('b, 's) outcome) \<Rightarrow> 's \<Rightarrow> ('b, 's) outcome" where
  "deref p f = (case p of None \<Rightarrow> kfault ''null'' | Some i \<Rightarrow> f i)"

section \<open>The memory disk\<close>

definition ideinit :: "block list \<Rightarrow> 'a bcache_scheme \<Rightarrow> (unit, 'a bcache_scheme) outcome" where
  "ideinit img = kmod (\<lambda>s. s\<lparr>memdisk := img\<rparr>)"

definition ideintr :: "'a bcache_scheme \<Rightarrow> (unit, 'a bcache_scheme) outcome" where
  "ideintr = kret ()"

definition iderw :: "nat \<Rightarrow> 'a bcache_scheme \<Rightarrow> (unit, 'a bcache_scheme) outcome" where
  "iderw i s =
     (let b = bufs s ! i; k = unat (blockno b) in
      if bflags b AND B_BUSY = 0 then Panic ''iderw: buf not busy''
      else if bflags b AND (B_VALID OR B_DIRTY) = B_VALID then Panic ''iderw: nothing to do''
      else if bdev b \<noteq> 1 then Panic ''iderw: request not for disk 1''
      else if length (memdisk s) \<le> k then Panic ''iderw: block out of range''
      else kseq (if bflags b AND B_DIRTY \<noteq> 0
                 then kseq (upd_buf i (\<lambda>b. b\<lparr>bflags := bflags b AND NOT B_DIRTY\<rparr>))
                           (kmod (\<lambda>s. s\<lparr>memdisk := (memdisk s)[k := bdata b], writes := writes s @ [(k, bdata b)]\<rparr>))
                 else upd_buf i (\<lambda>b. b\<lparr>bdata := memdisk s ! k\<rparr>))
                (upd_buf i (\<lambda>b. b\<lparr>bflags := bflags b OR B_VALID\<rparr>)) s)"

section \<open>Operations of the cache\<close>

definition binit_one :: "nat \<Rightarrow> 'a bcache_scheme \<Rightarrow> (unit, 'a bcache_scheme) outcome" where
  "binit_one b =
     kseq (\<lambda>s. upd_buf b (\<lambda>x. x\<lparr>bnext := bnext (bufs s ! HEAD)\<rparr>) s)
    (kseq (upd_buf b (\<lambda>x. x\<lparr>bprev := Some HEAD\<rparr>))
    (kseq (upd_buf b (\<lambda>x. x\<lparr>bdev := - 1\<rparr>))
    (kseq (\<lambda>s. deref (bnext (bufs s ! HEAD)) (\<lambda>n. upd_buf n (\<lambda>x. x\<lparr>bprev := Some b\<rparr>)) s)
          (upd_buf HEAD (\<lambda>x. x\<lparr>bnext := Some b\<rparr>)))))"

definition binit :: "'a bcache_scheme \<Rightarrow> (unit, 'a bcache_scheme) outcome" where
  "binit =
     kseq (initlock L_bcache)
    (kseq (upd_buf HEAD (\<lambda>x. x\<lparr>bprev := Some HEAD\<rparr>))
    (kseq (upd_buf HEAD (\<lambda>x. x\<lparr>bnext := Some HEAD\<rparr>))
          (kforeach binit_one [0..<NBUF])))"

text \<open>The two loops of \<^verbatim>\<open>bget\<close>, over \<^verbatim>\<open>next\<close> and over \<^verbatim>\<open>prev\<close>: the first buffer from \<open>p\<close> on that satisfies a test. The list
  has \<open>NBUF\<close> buffers, so \<open>NBUF + 1\<close> iterations reach the head.\<close>

definition scan :: "(buf \<Rightarrow> nat option) \<Rightarrow> (buf \<Rightarrow> bool) \<Rightarrow> nat option \<Rightarrow> 'a bcache_scheme \<Rightarrow> (nat option, 'a bcache_scheme) outcome" where
  "scan nx P = kloop (Suc NBUF) (\<lambda>p. deref p (\<lambda>b s.
     if b = HEAD then Done (Inr None) s
     else if P (bufs s ! b) then Done (Inr (Some b)) s
     else Done (Inl (nx (bufs s ! b))) s))"

text \<open>\<^verbatim>\<open>bget\<close> from the label \<^verbatim>\<open>loop\<close> on.\<close>

definition bget_loop :: "uint \<Rightarrow> uint \<Rightarrow> 'a bcache_scheme \<Rightarrow> (nat, 'a bcache_scheme) outcome" where
  "bget_loop dev blk =
     kbind (\<lambda>s. scan bnext (\<lambda>b. bdev b = dev \<and> blockno b = blk) (bnext (bufs s ! HEAD)) s) (\<lambda>r. case r of
       Some b \<Rightarrow> (\<lambda>s.
         if bflags (bufs s ! b) AND B_BUSY = 0
         then kseq (upd_buf b (\<lambda>x. x\<lparr>bflags := bflags x OR B_BUSY\<rparr>)) (kseq (release L_bcache) (kret b)) s
         else sleep (Ch_buf b) (Some L_bcache) s)
     | None \<Rightarrow>
         kbind (\<lambda>s. scan bprev (\<lambda>b. bflags b AND B_BUSY = 0 \<and> bflags b AND B_DIRTY = 0) (bprev (bufs s ! HEAD)) s) (\<lambda>r. case r of
           Some b \<Rightarrow>
             kseq (upd_buf b (\<lambda>x. x\<lparr>bdev := dev\<rparr>))
            (kseq (upd_buf b (\<lambda>x. x\<lparr>blockno := blk\<rparr>))
            (kseq (upd_buf b (\<lambda>x. x\<lparr>bflags := B_BUSY\<rparr>))
            (kseq (release L_bcache) (kret b))))
         | None \<Rightarrow> kpanic ''bget: no buffers''))"

definition bget :: "uint \<Rightarrow> uint \<Rightarrow> 'a bcache_scheme \<Rightarrow> (nat, 'a bcache_scheme) outcome" where
  "bget dev blk = kseq (acquire L_bcache) (bget_loop dev blk)"

text \<open>A thread that waited for a busy buffer starts over at the label \<^verbatim>\<open>loop\<close>.\<close>

definition bget_resume :: "uint \<Rightarrow> uint \<Rightarrow> 'a bcache_scheme \<Rightarrow> (nat, 'a bcache_scheme) outcome" where
  "bget_resume dev blk = kseq (sleep_resume L_bcache) (bget_loop dev blk)"

definition bread :: "uint \<Rightarrow> uint \<Rightarrow> 'a bcache_scheme \<Rightarrow> (nat, 'a bcache_scheme) outcome" where
  "bread dev blk =
     kbind (bget dev blk) (\<lambda>b.
       kseq (\<lambda>s. kwhen (bflags (bufs s ! b) AND B_VALID = 0) (iderw b) s) (kret b))"

definition bwrite :: "nat \<Rightarrow> 'a bcache_scheme \<Rightarrow> (unit, 'a bcache_scheme) outcome" where
  "bwrite b s =
     (if bflags (bufs s ! b) AND B_BUSY = 0 then Panic ''bwrite''
      else kseq (upd_buf b (\<lambda>x. x\<lparr>bflags := bflags x OR B_DIRTY\<rparr>)) (iderw b) s)"

definition brelse :: "nat \<Rightarrow> 'a bcache_scheme \<Rightarrow> (unit, 'a bcache_scheme) outcome" where
  "brelse b s =
     (if bflags (bufs s ! b) AND B_BUSY = 0 then Panic ''brelse''
      else kseq (acquire L_bcache)
          (kseq (\<lambda>s. deref (bnext (bufs s ! b)) (\<lambda>n. upd_buf n (\<lambda>x. x\<lparr>bprev := bprev (bufs s ! b)\<rparr>)) s)
          (kseq (\<lambda>s. deref (bprev (bufs s ! b)) (\<lambda>p. upd_buf p (\<lambda>x. x\<lparr>bnext := bnext (bufs s ! b)\<rparr>)) s)
          (kseq (\<lambda>s. upd_buf b (\<lambda>x. x\<lparr>bnext := bnext (bufs s ! HEAD)\<rparr>) s)
          (kseq (upd_buf b (\<lambda>x. x\<lparr>bprev := Some HEAD\<rparr>))
          (kseq (\<lambda>s. deref (bnext (bufs s ! HEAD)) (\<lambda>n. upd_buf n (\<lambda>x. x\<lparr>bprev := Some b\<rparr>)) s)
          (kseq (upd_buf HEAD (\<lambda>x. x\<lparr>bnext := Some b\<rparr>))
          (kseq (upd_buf b (\<lambda>x. x\<lparr>bflags := bflags x AND NOT B_BUSY\<rparr>))
          (kseq (wakeup (Ch_buf b))
                (release L_bcache))))))))) s)"

section \<open>Byte lemmas\<close>

lemma length_put [simp]:
  "length (put16 k v d) = length d" "length (put32 k w d) = length d"
  "k + length bs \<le> length d \<Longrightarrow> length (put_bytes k bs d) = length d"
  by (simp_all add: put16_def put32_def put_bytes_def)

lemma get32_put32:
  assumes "k + 3 < length d"
  shows "get32 (put32 k v d) k = v"
proof (rule bit_word_eqI)
  fix n assume "n < LENGTH(32)"
  then consider "n < 8" | "8 \<le> n" "n < 16" | "16 \<le> n" "n < 24" | "24 \<le> n" "n < 32" by force
  then show "bit (get32 (put32 k v d) k) n = bit v n"
    using assms by cases (auto simp: get32_def put32_def nth_list_update bit_simps)
qed

lemma get32_put32_apart:
  assumes "k + 4 \<le> j \<or> j + 4 \<le> k"
  shows "get32 (put32 j v d) k = get32 d k"
  using assms unfolding get32_def put32_def by auto

lemma get16_put16:
  assumes "k + 1 < length d"
  shows "get16 (put16 k v d) k = v"
  using assms unfolding get16_def put16_def
  by (simp add: nth_list_update) (intro bit_eqI, auto simp: bit_simps)

lemma nth_put_bytes:
  assumes "k + length bs \<le> length d" "i < length d"
  shows "put_bytes k bs d ! i = (if k \<le> i \<and> i < k + length bs then bs ! (i - k) else d ! i)"
  using assms by (auto simp: put_bytes_def nth_append not_less)


section \<open>Flags\<close>

abbreviation busy :: "'a bcache_scheme \<Rightarrow> nat \<Rightarrow> bool" where "busy s i \<equiv> bit (bflags (bufs s ! i)) 0"
abbreviation valid :: "'a bcache_scheme \<Rightarrow> nat \<Rightarrow> bool" where "valid s i \<equiv> bit (bflags (bufs s ! i)) 1"
abbreviation dirty :: "'a bcache_scheme \<Rightarrow> nat \<Rightarrow> bool" where "dirty s i \<equiv> bit (bflags (bufs s ! i)) 2"

lemma bit_numerals:
  "bit (1::uint) n \<longleftrightarrow> n = 0" "bit (2::uint) n \<longleftrightarrow> n = 1" "bit (4::uint) n \<longleftrightarrow> n = 2"
proof -
  show "bit (1::uint) n \<longleftrightarrow> n = 0" by (simp add: bit_1_iff)
  show "bit (2::uint) n \<longleftrightarrow> n = 1" using bit_exp_iff [where 'a = uint, of 1 n] by auto
  show "bit (4::uint) n \<longleftrightarrow> n = 2" using bit_exp_iff [where 'a = uint, of 2 n] by auto
qed

lemma flag_zero: "(x :: uint) AND 2 ^ k = 0 \<longleftrightarrow> \<not> bit x k" if "k < 32"
proof -
  have "x AND 2 ^ k = (if bit x k then 2 ^ k else 0)"
    using that by (intro bit_word_eqI) (auto simp: bit_simps)
  then show ?thesis using that by simp
qed

lemma flag_tests [simp]:
  "(x :: uint) AND 1 = 0 \<longleftrightarrow> \<not> bit x 0" "x AND 2 = 0 \<longleftrightarrow> \<not> bit x 1" "x AND 4 = 0 \<longleftrightarrow> \<not> bit x 2"
  "x AND 6 = 2 \<longleftrightarrow> bit x 1 \<and> \<not> bit x 2"
proof -
  show "(x :: uint) AND 1 = 0 \<longleftrightarrow> \<not> bit x 0" "x AND 2 = 0 \<longleftrightarrow> \<not> bit x 1" "x AND 4 = 0 \<longleftrightarrow> \<not> bit x 2"
    using flag_zero [of 0 x] flag_zero [of 1 x] flag_zero [of 2 x] by simp_all
  have "x AND 6 = (if bit x 1 then 2 else 0) OR (if bit x 2 then 4 else 0)"
  proof (rule bit_word_eqI)
    fix n assume "n < LENGTH(32)"
    have "bit (6::uint) n = bit (2 OR 4 :: uint) n" by simp
    also have "\<dots> \<longleftrightarrow> n = 1 \<or> n = 2" by (simp only: bit_or_iff bit_numerals)
    finally have six: "bit (6::uint) n \<longleftrightarrow> n = 1 \<or> n = 2" .
    show "bit (x AND 6) n = bit ((if bit x 1 then 2 else 0) OR (if bit x 2 then 4 else 0) :: uint) n"
      unfolding bit_and_iff bit_or_iff six by (cases "bit x 1"; cases "bit x 2") (auto simp only: bit_numerals if_True if_False bit_0_eq bot_apply bot_bool_def)
  qed
  then show "x AND 6 = 2 \<longleftrightarrow> bit x 1 \<and> \<not> bit x 2" by auto
qed

lemma flag_updates [simp]:
  "bit ((x :: uint) OR 1) n \<longleftrightarrow> bit x n \<or> n = 0" "bit (x OR 2) n \<longleftrightarrow> bit x n \<or> n = 1" "bit (x OR 4) n \<longleftrightarrow> bit x n \<or> n = 2"
  "n < 32 \<Longrightarrow> bit (x AND - 2) n \<longleftrightarrow> bit x n \<and> n \<noteq> 0" "n < 32 \<Longrightarrow> bit (x AND - 5) n \<longleftrightarrow> bit x n \<and> n \<noteq> 2"
proof -
  show "bit ((x :: uint) OR 1) n \<longleftrightarrow> bit x n \<or> n = 0" "bit (x OR 2) n \<longleftrightarrow> bit x n \<or> n = 1" "bit (x OR 4) n \<longleftrightarrow> bit x n \<or> n = 2"
    unfolding bit_or_iff bit_numerals by auto
  have n: "(- 2 :: uint) = NOT 1" "(- 5 :: uint) = NOT 4" by simp_all
  show "bit (x AND - 2) n \<longleftrightarrow> bit x n \<and> n \<noteq> 0" "bit (x AND - 5) n \<longleftrightarrow> bit x n \<and> n \<noteq> 2" if "n < 32"
    using that unfolding n bit_and_iff bit_not_iff bit_numerals by (auto simp: possible_bit_def)
qed

lemma flag_one [simp]: "bit (1 :: uint) 1 \<longleftrightarrow> False" "bit (1 :: uint) 2 \<longleftrightarrow> False"
  unfolding bit_numerals by simp_all

section \<open>The doubly linked list\<close>

text \<open>From node \<open>i\<close>, \<open>nx\<close> leads through the nodes of the list to node \<open>j\<close>, and \<open>pv\<close> leads back.\<close>

fun linked :: "(nat \<Rightarrow> nat option) \<Rightarrow> (nat \<Rightarrow> nat option) \<Rightarrow> nat \<Rightarrow> nat list \<Rightarrow> nat \<Rightarrow> bool" where
  "linked nx pv i [] j \<longleftrightarrow> nx i = Some j \<and> pv j = Some i"
| "linked nx pv i (x # xs) j \<longleftrightarrow> nx i = Some x \<and> pv x = Some i \<and> linked nx pv x xs j"

lemma linked_append: "linked nx pv i (xs @ x # ys) j \<longleftrightarrow> linked nx pv i xs x \<and> linked nx pv x ys j"
  by (induction xs arbitrary: i) auto

lemma linked_rev: "linked nx pv i xs j \<Longrightarrow> linked pv nx j (rev xs) i"
  by (induction xs arbitrary: i) (auto simp: linked_append)

lemma linked_cong:
  assumes "\<And>k. k = i \<or> k \<in> set xs \<Longrightarrow> nx' k = nx k" "\<And>k. k = j \<or> k \<in> set xs \<Longrightarrow> pv' k = pv k"
  shows "linked nx' pv' i xs j = linked nx pv i xs j"
  using assms by (induction xs arbitrary: i) auto

text \<open>Taking a node out of the list and putting it behind the head.\<close>

lemma linked_unlink:
  assumes l: "linked nx pv h (ys @ b # zs) h" and d: "distinct (ys @ b # zs)" "h \<notin> set (ys @ b # zs)"
    and p: "pv b = Some p" and n: "nx b = Some n"
  shows "linked (nx(p := Some n)) (pv(n := Some p)) h (ys @ zs) h"
proof -
  from l have l1: "linked nx pv h ys b" and l2: "linked nx pv b zs h" by (simp_all add: linked_append)
  have pl: "if ys = [] then p = h else p = last ys" using l1 p d
    by (cases ys rule: rev_cases) (auto simp: linked_append)
  have nf: "if zs = [] then n = h else n = hd zs" using l2 n by (cases zs) auto
  show ?thesis
  proof (cases ys rule: rev_cases)
    case Nil
    with pl have ph: "p = h" by simp
    show ?thesis
    proof (cases zs)
      case Nil with \<open>ys = []\<close> ph nf show ?thesis by simp
    next
      case (Cons z ws)
      with nf have "n = z" by simp
      with l2 Cons \<open>ys = []\<close> ph d show ?thesis
        by (auto intro: linked_cong [THEN iffD1, rotated -1])
    qed
  next
    case (snoc us y)
    with pl have py: "p = y" by simp
    from l1 snoc have lu: "linked nx pv h us y" by (simp add: linked_append)
    have lu': "linked (nx(y := Some n)) (pv(n := Some y)) h us y"
      using lu d snoc nf by (subst linked_cong [of _ _ _ nx _ _ pv]) (auto split: if_splits)
    show ?thesis
    proof (cases zs)
      case Nil with snoc lu' py nf show ?thesis by (auto simp: linked_append)
    next
      case (Cons z ws)
      with nf have nz: "n = z" by simp
      from l2 Cons have lw: "linked nx pv z ws h" by simp
      have "linked (nx(y := Some z)) (pv(z := Some y)) z ws h"
        using lw d snoc Cons by (subst linked_cong [of _ _ _ nx _ _ pv]) auto
      with lu' py nz snoc Cons show ?thesis by (simp add: linked_append)
    qed
  qed
qed

lemma linked_push:
  assumes l: "linked nx pv h xs h" and b: "b \<notin> set xs" "b \<noteq> h" and h: "h \<notin> set xs" "distinct xs" and n: "nx h = Some n"
  shows "linked (nx(b := Some n, h := Some b)) (pv(b := Some h, n := Some b)) h (b # xs) h"
proof (cases xs)
  case Nil
  with l n b show ?thesis by simp
next
  case (Cons x ys)
  with l n have "n = x" "linked nx pv x ys h" by simp_all
  moreover have "linked (nx(b := Some x, h := Some b)) (pv(b := Some h, x := Some b)) x ys h"
    using calculation b h Cons by (subst linked_cong [of _ _ _ nx _ _ pv]) auto
  ultimately show ?thesis using Cons b h by simp
qed


section \<open>Invariant and contents\<close>

definition bnx :: "buf list \<Rightarrow> nat \<Rightarrow> nat option" where "bnx bs i = bnext (bs ! i)"
definition bpv :: "buf list \<Rightarrow> nat \<Rightarrow> nat option" where "bpv bs i = bprev (bs ! i)"

text \<open>Buffer \<open>i\<close> is the one for block \<open>b\<close> of the disk.\<close>

definition holds_block :: "'a bcache_scheme \<Rightarrow> nat \<Rightarrow> uint \<Rightarrow> bool" where
  "holds_block s i b \<longleftrightarrow> i < NBUF \<and> bdev (bufs s ! i) = 1 \<and> blockno (bufs s ! i) = b"

text \<open>The list links all buffers, most recently used first; a block is in at most one buffer; a clean buffer that is
  not in use agrees with the disk.\<close>

definition lru :: "buf list \<Rightarrow> nat list \<Rightarrow> bool" where
  "lru bs xs \<longleftrightarrow> length bs = Suc NBUF \<and> distinct xs \<and> set xs = {0..<NBUF} \<and> linked (bnx bs) (bpv bs) HEAD xs HEAD"

definition bc_ok :: "'a bcache_scheme \<Rightarrow> bool" where
  "bc_ok s \<longleftrightarrow>
     (\<forall>i < NBUF. length (bdata (bufs s ! i)) = BSIZE) \<and> (\<forall>d \<in> set (memdisk s). length d = BSIZE)
   \<and> (\<forall>i < NBUF. \<forall>j < NBUF. bdev (bufs s ! i) = 1 \<and> bdev (bufs s ! j) = 1 \<and> blockno (bufs s ! i) = blockno (bufs s ! j) \<longrightarrow> i = j)
   \<and> (\<forall>i < NBUF. valid s i \<longrightarrow> bdev (bufs s ! i) = 1 \<and> unat (blockno (bufs s ! i)) < length (memdisk s))
   \<and> (\<forall>i < NBUF. valid s i \<and> \<not> busy s i \<and> \<not> dirty s i \<longrightarrow> bdata (bufs s ! i) = memdisk s ! unat (blockno (bufs s ! i)))
   \<and> (\<forall>i < NBUF. dirty s i \<longrightarrow> valid s i)"

definition bc_inv :: "nat list \<Rightarrow> 'a bcache_scheme \<Rightarrow> bool" where
  "bc_inv xs s \<longleftrightarrow> lru (bufs s) xs \<and> bc_ok s"

text \<open>The contents of a block as the kernel sees it: the buffer where there is a valid one, the disk otherwise.\<close>

definition bview :: "'a bcache_scheme \<Rightarrow> uint \<Rightarrow> block" where
  "bview s b = (case find (\<lambda>i. bdev (bufs s ! i) = 1 \<and> blockno (bufs s ! i) = b \<and> valid s i) [0..<NBUF] of
     Some i \<Rightarrow> bdata (bufs s ! i) | None \<Rightarrow> memdisk s ! unat b)"

section \<open>Running the operations\<close>

lemma upd_buf_run [simp, krun]:
  "upd_buf i f s = Done () (s\<lparr>bufs := (bufs s)[i := f (bufs s ! i)]\<rparr>)"
  by (simp add: upd_buf_def)

lemma deref_run [simp, krun]: "deref (Some i) f = f i" "deref None f s = Fault ''null''"
  by (simp_all add: deref_def)

lemma scan_loop:
  assumes "linked nx' pv h xs HEAD" "\<And>i. nx (bufs s ! i) = nx' i" "HEAD \<notin> set xs" "length xs < n"
  shows "kloop n (\<lambda>p. deref p (\<lambda>b s. if b = HEAD then Done (Inr None) s
     else if P (bufs s ! b) then Done (Inr (Some b)) s else Done (Inl (nx (bufs s ! b))) s)) (nx' h) s
   = Done (find (\<lambda>i. P (bufs s ! i)) xs) s"
  using assms
proof (induction xs arbitrary: h n)
  case Nil
  then obtain m where "n = Suc m" by (cases n) auto
  with Nil show ?case by simp
next
  case (Cons x xs)
  then obtain m where m: "n = Suc m" by (cases n) auto
  from Cons.prems have x: "nx' h = Some x" "linked nx' pv x xs HEAD" "x \<noteq> HEAD" "HEAD \<notin> set xs" "length xs < m"
    by (simp_all add: m)
  show ?case
  proof (cases "P (bufs s ! x)")
    case True
    with x show ?thesis by (simp add: m)
  next
    case False
    with x Cons.IH [OF x(2) Cons.prems(2) x(4,5)] Cons.prems(2) show ?thesis by (simp add: m)
  qed
qed

lemma scan_run:
  assumes "lru (bufs s) xs"
  shows "scan bnext P (bnext (bufs s ! HEAD)) s = Done (find (\<lambda>i. P (bufs s ! i)) xs) s"
    and "scan bprev P (bprev (bufs s ! HEAD)) s = Done (find (\<lambda>i. P (bufs s ! i)) (rev xs)) s"
proof -
  have l: "linked (bnx (bufs s)) (bpv (bufs s)) HEAD xs HEAD" and h: "HEAD \<notin> set xs" and d: "distinct xs" "set xs = {0..<NBUF}"
    using assms by (auto simp: lru_def)
  have len: "length xs = NBUF" using d distinct_card [OF d(1)] by simp
  have hb: "bnext (bufs s ! HEAD) = bnx (bufs s) HEAD" "bprev (bufs s ! HEAD) = bpv (bufs s) HEAD"
    by (simp_all add: bnx_def bpv_def)
  show "scan bnext P (bnext (bufs s ! HEAD)) s = Done (find (\<lambda>i. P (bufs s ! i)) xs) s"
    unfolding scan_def hb by (rule scan_loop [OF l]) (use h len in \<open>simp_all add: bnx_def\<close>)
  show "scan bprev P (bprev (bufs s ! HEAD)) s = Done (find (\<lambda>i. P (bufs s ! i)) (rev xs)) s"
    unfolding scan_def hb by (rule scan_loop [OF linked_rev [OF l]]) (use h len in \<open>simp_all add: bpv_def\<close>)
qed

lemma find_SomeD: "find P xs = Some x \<Longrightarrow> x \<in> set xs \<and> P x"
  by (induction xs) (auto split: if_splits)

lemma find_NoneD: "find P xs = None \<longleftrightarrow> (\<forall>x \<in> set xs. \<not> P x)"
  by (induction xs) auto

lemma find_SomeI:
  assumes "x \<in> set xs" "P x" "\<And>y. y \<in> set xs \<Longrightarrow> P y \<Longrightarrow> y = x"
  shows "find P xs = Some x"
proof (cases "find P xs")
  case None
  with assms(1,2) show ?thesis by (simp add: find_NoneD)
next
  case (Some y)
  with assms(3) [of y] find_SomeD [OF Some] show ?thesis by simp
qed

lemma lruD: "lru bs xs \<Longrightarrow> length bs = 31" "lru bs xs \<Longrightarrow> i \<in> set xs \<longleftrightarrow> i < 30" "lru bs xs \<Longrightarrow> distinct xs"
  by (auto simp: lru_def)

lemma lru_fields:
  assumes "lru bs xs" "length cs = length bs" "\<And>i. bnext (cs ! i) = bnext (bs ! i)" "\<And>i. bprev (cs ! i) = bprev (bs ! i)"
  shows "lru cs xs"
proof -
  have "bnx cs = bnx bs" "bpv cs = bpv bs" using assms(3,4) by (auto simp: bnx_def bpv_def)
  with assms(1,2) show ?thesis by (simp add: lru_def)
qed

lemma nth_update_field: "f b = f (bs ! i) \<Longrightarrow> f (bs[i := b] ! k) = f (bs ! k)"
  by (cases "k = i"; cases "i < length bs") (auto simp: not_less list_update_beyond)

lemma lru_update:
  assumes "lru bs xs" "bnext b = bnext (bs ! i)" "bprev b = bprev (bs ! i)"
  shows "lru (bs[i := b]) xs"
  by (rule lru_fields [OF assms(1)]) (simp_all add: nth_update_field [where f = bnext] nth_update_field [where f = bprev] assms(2,3))

lemma bc_okD:
  assumes "bc_ok s"
  shows "i < 30 \<Longrightarrow> length (bdata (bufs s ! i)) = 512" "d \<in> set (memdisk s) \<Longrightarrow> length d = 512"
    "holds_block s i b \<Longrightarrow> holds_block s j b \<Longrightarrow> i = j"
    "i < 30 \<Longrightarrow> valid s i \<Longrightarrow> bdev (bufs s ! i) = 1 \<and> unat (blockno (bufs s ! i)) < length (memdisk s)"
    "i < 30 \<Longrightarrow> valid s i \<Longrightarrow> \<not> busy s i \<Longrightarrow> \<not> dirty s i \<Longrightarrow> bdata (bufs s ! i) = memdisk s ! unat (blockno (bufs s ! i))"
    "i < 30 \<Longrightarrow> dirty s i \<Longrightarrow> valid s i"
  using assms unfolding bc_ok_def holds_block_def by auto

text \<open>Replacing one buffer.\<close>

lemma bc_ok_set_buf:
  assumes ok: "bc_ok s" and i: "i < length (bufs s)" and t: "bufs t = (bufs s)[i := B]" "memdisk t = memdisk s"
    and B: "length (bdata B) = 512"
      "\<And>j. j < 30 \<Longrightarrow> j \<noteq> i \<Longrightarrow> bdev B = 1 \<Longrightarrow> bdev (bufs s ! j) = 1 \<Longrightarrow> blockno (bufs s ! j) \<noteq> blockno B"
      "bit (bflags B) 1 \<Longrightarrow> bdev B = 1 \<and> unat (blockno B) < length (memdisk s)"
      "bit (bflags B) 1 \<Longrightarrow> \<not> bit (bflags B) 0 \<Longrightarrow> \<not> bit (bflags B) 2 \<Longrightarrow> bdata B = memdisk s ! unat (blockno B)"
      "bit (bflags B) 2 \<Longrightarrow> bit (bflags B) 1"
  shows "bc_ok t"
proof -
  have nth: "bufs t ! k = (if k = i then B else bufs s ! k)" for k using i t by simp
  note D = ok [unfolded bc_ok_def]
  show ?thesis
    unfolding bc_ok_def t(2) nth
  proof (intro conjI allI impI)
    show "\<forall>d \<in> set (memdisk s). length d = 512" using D by blast
    fix k l
    show "length (bdata (if k = i then B else bufs s ! k)) = 512" if "k < 30" using that D B(1) by simp
    show "k = l" if "k < 30" "l < 30" "bdev (if k = i then B else bufs s ! k) = 1
        \<and> bdev (if l = i then B else bufs s ! l) = 1
        \<and> blockno (if k = i then B else bufs s ! k) = blockno (if l = i then B else bufs s ! l)"
      using that D B(2) [of k] B(2) [of l] by (cases "k = i"; cases "l = i") auto
    show "bdev (if k = i then B else bufs s ! k) = 1" "unat (blockno (if k = i then B else bufs s ! k)) < length (memdisk s)"
      if "k < 30" "bit (bflags (if k = i then B else bufs s ! k)) 1"
      using that bc_okD(4) [OF ok, of k] B(3) by (auto split: if_splits)
    show "bdata (if k = i then B else bufs s ! k) = memdisk s ! unat (blockno (if k = i then B else bufs s ! k))"
      if "k < 30" "bit (bflags (if k = i then B else bufs s ! k)) 1 \<and> \<not> bit (bflags (if k = i then B else bufs s ! k)) 0
        \<and> \<not> bit (bflags (if k = i then B else bufs s ! k)) 2"
      using that bc_okD(5) [OF ok, of k] B(4) by (auto split: if_splits)
    show "bit (bflags (if k = i then B else bufs s ! k)) 1" if "k < 30" "bit (bflags (if k = i then B else bufs s ! k)) 2"
      using that bc_okD(6) [OF ok, of k] B(5) by (auto split: if_splits)
  qed
qed

lemma bview_cached:
  assumes "bc_ok s" "holds_block s i b" "valid s i"
  shows "bview s b = bdata (bufs s ! i)"
proof -
  have "find (\<lambda>i. bdev (bufs s ! i) = 1 \<and> blockno (bufs s ! i) = b \<and> valid s i) [0..<NBUF] = Some i"
  proof (rule find_SomeI)
    fix y assume "y \<in> set [0..<NBUF]" "bdev (bufs s ! y) = 1 \<and> blockno (bufs s ! y) = b \<and> valid s y"
    then have "holds_block s y b" by (simp add: holds_block_def)
    then show "y = i" by (rule bc_okD(3) [OF assms(1) _ assms(2)])
  qed (use assms(2,3) in \<open>simp_all add: holds_block_def\<close>)
  then show ?thesis by (simp add: bview_def)
qed

lemma bview_disk:
  assumes "\<And>i. holds_block s i b \<Longrightarrow> \<not> valid s i"
  shows "bview s b = memdisk s ! unat b"
proof -
  have "find (\<lambda>i. bdev (bufs s ! i) = 1 \<and> blockno (bufs s ! i) = b \<and> valid s i) [0..<NBUF] = None"
    using assms by (auto simp: find_NoneD holds_block_def)
  then show ?thesis by (simp add: bview_def)
qed

text \<open>The contents of a block depend on the buffers that hold it and on its place on the disk.\<close>

lemma bview_cong:
  assumes ok: "bc_ok s" "bc_ok t" and m: "memdisk t ! unat b = memdisk s ! unat b"
    and st: "\<And>i. holds_block s i b \<Longrightarrow> valid s i \<Longrightarrow> (holds_block t i b \<and> valid t i \<and> bdata (bufs t ! i) = bdata (bufs s ! i))
        \<or> (bdata (bufs s ! i) = memdisk s ! unat b \<and> (\<forall>j. holds_block t j b \<longrightarrow> \<not> valid t j))"
    and ts: "\<And>i. holds_block t i b \<Longrightarrow> valid t i \<Longrightarrow> (\<exists>j. holds_block s j b \<and> valid s j) \<or> bdata (bufs t ! i) = memdisk s ! unat b"
  shows "bview t b = bview s b"
proof (cases "\<exists>i. holds_block s i b \<and> valid s i")
  case True
  then obtain i where i: "holds_block s i b" "valid s i" by blast
  from st [OF i] show ?thesis
  proof
    assume "holds_block t i b \<and> valid t i \<and> bdata (bufs t ! i) = bdata (bufs s ! i)"
    then show ?thesis using bview_cached [OF ok(1) i] bview_cached [OF ok(2), of i b] by simp
  next
    assume "bdata (bufs s ! i) = memdisk s ! unat b \<and> (\<forall>j. holds_block t j b \<longrightarrow> \<not> valid t j)"
    then show ?thesis using bview_cached [OF ok(1) i] bview_disk [of t b] m by simp
  qed
next
  case False
  then have v: "bview s b = memdisk s ! unat b" using bview_disk [of s b] by blast
  show ?thesis
  proof (cases "\<exists>i. holds_block t i b \<and> valid t i")
    case True
    then obtain i where i: "holds_block t i b" "valid t i" by blast
    with ts [OF i] False v bview_cached [OF ok(2) i] show ?thesis by auto
  next
    case False
    then show ?thesis using bview_disk [of t b] v m by auto
  qed
qed


text \<open>\<^verbatim>\<open>bget\<close>: a cached block that is not in use, and the recycling of a clean buffer.\<close>

lemma bget_cached:
  assumes "lru (bufs s) xs" "bc_ok s" "L_bcache \<notin> held s" "holds_block s i b" "\<not> busy s i"
  shows "bget 1 b s = Done i (s\<lparr>bufs := (bufs s)[i := (bufs s ! i)\<lparr>bflags := bflags (bufs s ! i) OR 1\<rparr>]\<rparr>)"
proof -
  let ?s = "s\<lparr>held := insert L_bcache (held s)\<rparr>"
  have "find (\<lambda>i. bdev (bufs s ! i) = 1 \<and> blockno (bufs s ! i) = b) xs = Some i"
  proof (rule find_SomeI)
    fix y assume "y \<in> set xs" "bdev (bufs s ! y) = 1 \<and> blockno (bufs s ! y) = b"
    then have "holds_block s y b" using lruD(2) [OF assms(1)] by (simp add: holds_block_def)
    then show "y = i" by (rule bc_okD(3) [OF assms(2) _ assms(4)])
  qed (use assms(4) lruD(2) [OF assms(1)] in \<open>simp_all add: holds_block_def\<close>)
  then have "scan bnext (\<lambda>x. bdev x = 1 \<and> blockno x = b) (bnext (bufs ?s ! HEAD)) ?s = Done (Some i) ?s"
    using scan_run(1) [of ?s xs] assms(1) by simp
  then show ?thesis
    using assms(3,5) by (cases s) (simp add: bget_def bget_loop_def)
qed

lemma bget_recycle:
  assumes "lru (bufs s) xs" "L_bcache \<notin> held s" "\<And>i. \<not> holds_block s i b"
    and "j < NBUF" "\<not> busy s j" "\<not> dirty s j"
  obtains i where "i < NBUF" "\<not> busy s i" "\<not> dirty s i"
    and "bget 1 b s = Done i (s\<lparr>bufs := (bufs s)[i := (bufs s ! i)\<lparr>bdev := 1, blockno := b, bflags := 1\<rparr>]\<rparr>)"
proof -
  let ?s = "s\<lparr>held := insert L_bcache (held s)\<rparr>"
  let ?P = "\<lambda>x. bflags x AND B_BUSY = 0 \<and> bflags x AND B_DIRTY = 0"
  have 1: "scan bnext (\<lambda>x. bdev x = 1 \<and> blockno x = b) (bnext (bufs ?s ! HEAD)) ?s = Done None ?s"
    using scan_run(1) [of ?s xs] assms(1,3) by (auto simp: find_NoneD holds_block_def lruD(2) [OF assms(1)])
  have "find (\<lambda>i. ?P (bufs s ! i)) (rev xs) \<noteq> None"
    using assms(4-6) lruD(2) [OF assms(1)] by (auto simp: find_NoneD)
  then obtain i where i: "find (\<lambda>i. ?P (bufs s ! i)) (rev xs) = Some i" by blast
  have 2: "scan bprev ?P (bprev (bufs ?s ! HEAD)) ?s = Done (Some i) ?s"
    using scan_run(2) [of ?s xs] assms(1) i by simp
  have il: "i < NBUF" "\<not> busy s i" "\<not> dirty s i" using find_SomeD [OF i] lruD(2) [OF assms(1)] by auto
  have len: "i < length (bufs s)" using il lruD(1) [OF assms(1)] by simp
  have "bget 1 b s = Done i (s\<lparr>bufs := (bufs s)[i := (bufs s ! i)\<lparr>bdev := 1, blockno := b, bflags := 1\<rparr>]\<rparr>)"
    using assms(2) 1 2 len by (cases s) (simp add: bget_def bget_loop_def)
  with il that show thesis by blast
qed

text \<open>What changes when a buffer is taken: its own entry, and nothing else.\<close>

definition took :: "uint \<Rightarrow> nat \<Rightarrow> 'a bcache_scheme \<Rightarrow> 'a bcache_scheme \<Rightarrow> bool" where
  "took b i s t \<longleftrightarrow> t = s\<lparr>bufs := bufs t\<rparr> \<and> length (bufs t) = length (bufs s)
     \<and> (\<forall>k. k \<noteq> i \<longrightarrow> bufs t ! k = bufs s ! k) \<and> (\<forall>j. holds_block s j b \<longrightarrow> j = i)
     \<and> holds_block t i b \<and> \<not> busy s i \<and> busy t i \<and> valid t i \<and> dirty t i = dirty s i \<and> (dirty s i \<longrightarrow> holds_block s i b)
     \<and> bdata (bufs t ! i) = bview s b \<and> (\<forall>c. bview t c = bview s c)"

lemma bread_cached:
  assumes inv: "bc_inv xs s" and lk: "L_bcache \<notin> held s" and b: "unat b < length (memdisk s)"
    and i: "holds_block s i b" "\<not> busy s i"
  shows "\<exists>t. bread 1 b s = Done i t \<and> bc_inv xs t \<and> took b i s t"
proof -
  have l: "lru (bufs s) xs" and ok: "bc_ok s" using inv by (simp_all add: bc_inv_def)
  have il: "i < 30" "i < length (bufs s)" using i(1) lruD(1) [OF l] by (simp_all add: holds_block_def)
  have only: "\<forall>j. holds_block s j b \<longrightarrow> j = i" using bc_okD(3) [OF ok _ i(1)] by blast
  define B where "B = (if valid s i then (bufs s ! i)\<lparr>bflags := bflags (bufs s ! i) OR 1\<rparr>
     else (bufs s ! i)\<lparr>bdata := memdisk s ! unat b, bflags := (bflags (bufs s ! i) OR 1) OR 2\<rparr>)"
  define t where "t = s\<lparr>bufs := (bufs s)[i := B]\<rparr>"
  have B: "bdev B = 1" "blockno B = b" "bit (bflags B) 0" "bit (bflags B) 1" "bit (bflags B) 2 = dirty s i"
    "bnext B = bnext (bufs s ! i)" "bprev B = bprev (bufs s ! i)"
    using i by (simp_all add: B_def holds_block_def)
  have Bd: "bdata B = bview s b"
  proof (cases "valid s i")
    case True
    then show ?thesis using bview_cached [OF ok i(1) True] by (simp add: B_def)
  next
    case False
    with only have "bview s b = memdisk s ! unat b" by (intro bview_disk) blast
    with False show ?thesis by (simp add: B_def)
  qed
  have nd: "\<not> valid s i \<Longrightarrow> \<not> dirty s i" using bc_okD(6) [OF ok il(1)] by blast
  have run: "bread 1 b s = Done i t"
    using bget_cached [OF l ok lk i] il i nd b by (cases s)
      (auto simp: bread_def t_def B_def iderw_def Let_def holds_block_def)
  have nth: "bufs t ! k = (if k = i then B else bufs s ! k)" for k using il by (simp add: t_def)
  have lt: "lru (bufs t) xs" using lru_update [OF l B(6,7)] by (simp add: t_def)
  have dl: "length (bdata B) = 512" using bc_okD(1) [OF ok il(1)] bc_okD(2) [OF ok nth_mem [OF b]] by (simp add: B_def)
  have hb: "holds_block t k c = holds_block s k c" for k c
    using i B by (auto simp: holds_block_def nth)
  have okt: "bc_ok t"
  proof (rule bc_ok_set_buf [OF ok il(2), of t B])
    show "bufs t = (bufs s)[i := B]" "memdisk t = memdisk s" by (simp_all add: t_def)
    fix j assume "j < 30" "j \<noteq> i" "bdev (bufs s ! j) = 1"
    then show "blockno (bufs s ! j) \<noteq> blockno B" using only B(2) by (auto simp: holds_block_def)
  qed (use B dl b bc_okD(6) [OF ok il(1)] in simp_all)
  have vw: "bview t c = bview s c" for c
  proof (rule bview_cong [OF ok okt])
    show "memdisk t ! unat c = memdisk s ! unat c" by (simp add: t_def)
    fix k
    show "(holds_block t k c \<and> valid t k \<and> bdata (bufs t ! k) = bdata (bufs s ! k))
        \<or> (bdata (bufs s ! k) = memdisk s ! unat c \<and> (\<forall>j. holds_block t j c \<longrightarrow> \<not> valid t j))"
      if "holds_block s k c" "valid s k"
      using that by (auto simp: hb nth B_def)
    show "(\<exists>j. holds_block s j c \<and> valid s j) \<or> bdata (bufs t ! k) = memdisk s ! unat c"
      if "holds_block t k c" "valid t k"
      using that i by (auto simp: hb nth B_def holds_block_def split: if_splits)
  qed
  have "took b i s t"
    unfolding took_def
  proof (intro conjI allI impI)
    show "t = s\<lparr>bufs := bufs t\<rparr>" "length (bufs t) = length (bufs s)" by (simp_all add: t_def)
    show "j = i" if "holds_block s j b" for j using only that by blast
  qed (use i B Bd in \<open>simp_all add: nth hb vw\<close>)
  with run lt okt show ?thesis by (auto simp: bc_inv_def)
qed


lemma bread_recycled:
  assumes inv: "bc_inv xs s" and lk: "L_bcache \<notin> held s" and b: "unat b < length (memdisk s)"
    and none: "\<And>i. \<not> holds_block s i b" and j: "j < NBUF" "\<not> busy s j" "\<not> dirty s j"
  shows "\<exists>i t. bread 1 b s = Done i t \<and> bc_inv xs t \<and> took b i s t"
proof -
  have l: "lru (bufs s) xs" and ok: "bc_ok s" using inv by (simp_all add: bc_inv_def)
  obtain i where i: "i < 30" "\<not> busy s i" "\<not> dirty s i"
    and get: "bget 1 b s = Done i (s\<lparr>bufs := (bufs s)[i := (bufs s ! i)\<lparr>bdev := 1, blockno := b, bflags := 1\<rparr>]\<rparr>)"
    using bget_recycle [OF l lk none j] by blast
  have il: "i < length (bufs s)" using i(1) lruD(1) [OF l] by simp
  define B where "B = (bufs s ! i)\<lparr>bdev := 1, blockno := b, bdata := memdisk s ! unat b, bflags := 3\<rparr>"
  define t where "t = s\<lparr>bufs := (bufs s)[i := B]\<rparr>"
  have B: "bdev B = 1" "blockno B = b" "bit (bflags B) 0" "bit (bflags B) 1" "\<not> bit (bflags B) 2"
    "bnext B = bnext (bufs s ! i)" "bprev B = bprev (bufs s ! i)" "bdata B = memdisk s ! unat b"
    by (simp_all add: B_def)
  have run: "bread 1 b s = Done i t"
    using get il b by (cases s) (auto simp: bread_def t_def B_def iderw_def Let_def)
  have nth: "bufs t ! k = (if k = i then B else bufs s ! k)" for k using il by (simp add: t_def)
  have lt: "lru (bufs t) xs" using lru_update [OF l B(6,7)] by (simp add: t_def)
  have okt: "bc_ok t"
  proof (rule bc_ok_set_buf [OF ok il, of t B])
    show "bufs t = (bufs s)[i := B]" "memdisk t = memdisk s" by (simp_all add: t_def)
    show "length (bdata B) = 512" using bc_okD(2) [OF ok nth_mem [OF b]] by (simp add: B)
    fix j assume "j < 30" "j \<noteq> i" "bdev (bufs s ! j) = 1"
    then show "blockno (bufs s ! j) \<noteq> blockno B" using none [of j] B(2) by (auto simp: holds_block_def)
  qed (use B b in simp_all)
  have hb: "holds_block t k c \<longleftrightarrow> (if k = i then c = b else holds_block s k c)" for k c
    using i B by (auto simp: holds_block_def nth)
  have vb: "bview s b = memdisk s ! unat b" using none by (intro bview_disk) blast
  have vw: "bview t c = bview s c" for c
  proof (cases "c = b")
    case True
    then show ?thesis using bview_cached [OF okt, of i b] B vb by (simp add: hb nth)
  next
    case False
    show ?thesis
    proof (rule bview_cong [OF ok okt])
      show "memdisk t ! unat c = memdisk s ! unat c" by (simp add: t_def)
      fix k
      show "(holds_block t k c \<and> valid t k \<and> bdata (bufs t ! k) = bdata (bufs s ! k))
          \<or> (bdata (bufs s ! k) = memdisk s ! unat c \<and> (\<forall>j. holds_block t j c \<longrightarrow> \<not> valid t j))"
        if k: "holds_block s k c" "valid s k"
      proof (cases "k = i")
        case True
        have "bdata (bufs s ! k) = memdisk s ! unat c"
          using bc_okD(5) [OF ok, of k] i k True by (simp add: holds_block_def)
        moreover have "\<not> holds_block t j c" for j
          using bc_okD(3) [OF ok k(1), of j] True False by (auto simp: hb)
        ultimately show ?thesis by blast
      qed (use k in \<open>simp add: hb nth\<close>)
      show "(\<exists>j. holds_block s j c \<and> valid s j) \<or> bdata (bufs t ! k) = memdisk s ! unat c"
        if "holds_block t k c" "valid t k"
        using that False by (auto simp: hb nth split: if_splits)
    qed
  qed
  have "took b i s t"
    unfolding took_def
  proof (intro conjI allI impI)
    show "t = s\<lparr>bufs := bufs t\<rparr>" "length (bufs t) = length (bufs s)" by (simp_all add: t_def)
    show "j = i" if "holds_block s j b" for j using none that by blast
  qed (use i B vb in \<open>simp_all add: nth hb vw\<close>)
  with run lt okt show ?thesis by (auto simp: bc_inv_def)
qed

text \<open>\<^verbatim>\<open>bread\<close> returns a buffer with the contents of the block and changes the contents of none.\<close>

lemma bread_run:
  assumes inv: "bc_inv xs s" and lk: "L_bcache \<notin> held s" and b: "unat b < length (memdisk s)"
    and free: "\<And>i. holds_block s i b \<Longrightarrow> \<not> busy s i"
    and room: "(\<exists>i. holds_block s i b) \<or> (\<exists>j < NBUF. \<not> busy s j \<and> \<not> dirty s j)"
  shows "\<exists>i t. bread 1 b s = Done i t \<and> bc_inv xs t \<and> took b i s t"
proof (cases "\<exists>i. holds_block s i b")
  case True
  then obtain i where i: "holds_block s i b" by blast
  show ?thesis using bread_cached [OF inv lk b i free [OF i]] by blast
next
  case False
  with room obtain j where "j < NBUF" "\<not> busy s j" "\<not> dirty s j" by blast
  with False bread_recycled [OF inv lk b] show ?thesis by blast
qed

text \<open>The holder of a buffer may change its data.\<close>

lemma bc_inv_set_data:
  assumes inv: "bc_inv xs s" and i: "i < NBUF" "busy s i" "length d = BSIZE"
    and t: "t = s\<lparr>bufs := (bufs s)[i := (bufs s ! i)\<lparr>bdata := d\<rparr>]\<rparr>"
  shows "bc_inv xs t"
proof -
  have l: "lru (bufs s) xs" and ok: "bc_ok s" using inv by (simp_all add: bc_inv_def)
  have il: "i < length (bufs s)" using i(1) lruD(1) [OF l] by simp
  have "bc_ok t"
  proof (rule bc_ok_set_buf [OF ok il, of t "(bufs s ! i)\<lparr>bdata := d\<rparr>"])
    show "blockno (bufs s ! j) \<noteq> blockno ((bufs s ! i)\<lparr>bdata := d\<rparr>)"
      if "j < 30" "j \<noteq> i" "bdev ((bufs s ! i)\<lparr>bdata := d\<rparr>) = 1" "bdev (bufs s ! j) = 1" for j
      using bc_okD(3) [OF ok, of i "blockno (bufs s ! i)" j] that i(1) by (auto simp: holds_block_def)
  qed (use i t bc_okD(4,6) [OF ok i(1)] in simp_all)
  moreover have "lru (bufs t) xs" using lru_update [OF l] t by simp
  ultimately show ?thesis by (simp add: bc_inv_def)
qed

lemma bwrite_run:
  assumes inv: "bc_inv xs s" and i: "holds_block s i b" "busy s i" "valid s i"
    and t: "t = s\<lparr>bufs := (bufs s)[i := (bufs s ! i)\<lparr>bflags := ((bflags (bufs s ! i) OR 4) AND - 5) OR 2\<rparr>],
       memdisk := (memdisk s)[unat b := bdata (bufs s ! i)], writes := writes s @ [(unat b, bdata (bufs s ! i))]\<rparr>"
  shows "bwrite i s = Done () t" and "bc_inv xs t"
proof -
  have l: "lru (bufs s) xs" and ok: "bc_ok s" using inv by (simp_all add: bc_inv_def)
  have il: "i < 30" "i < length (bufs s)" "bdev (bufs s ! i) = 1" "blockno (bufs s ! i) = b"
    using i(1) lruD(1) [OF l] by (simp_all add: holds_block_def)
  have b: "unat b < length (memdisk s)" using bc_okD(4) [OF ok il(1) i(3)] il by simp
  show "bwrite i s = Done () t"
    using i il b t by (cases s) (simp add: bwrite_def iderw_def Let_def)
  let ?B = "(bufs s ! i)\<lparr>bflags := ((bflags (bufs s ! i) OR 4) AND - 5) OR 2\<rparr>"
  have lt: "lru (bufs t) xs" using lru_update [OF l, of ?B i] t by simp
  have nth: "bufs t ! k = (if k = i then ?B else bufs s ! k)" for k using il t by simp
  have same: "bdev (bufs t ! k) = bdev (bufs s ! k)" "blockno (bufs t ! k) = blockno (bufs s ! k)"
    "bdata (bufs t ! k) = bdata (bufs s ! k)" "valid t k = valid s k" "busy t k = busy s k"
    "dirty t k \<longleftrightarrow> k \<noteq> i \<and> dirty s k" for k
    using i by (simp_all add: nth)
  have mt: "memdisk t = (memdisk s)[unat b := bdata (bufs s ! i)]" using t by simp
  note D = ok [unfolded bc_ok_def]
  have "bc_ok t"
    unfolding bc_ok_def same
  proof (intro conjI allI impI)
    show "\<forall>d \<in> set (memdisk t). length d = 512"
      using bc_okD(2) [OF ok] bc_okD(1) [OF ok il(1)]
      unfolding mt by (auto dest: set_update_subset_insert [THEN subsetD])
    fix k k'
    show "length (bdata (bufs s ! k)) = 512" if "k < 30" by (rule bc_okD(1) [OF ok that])
    show "k = k'" if "k < 30" "k' < 30" "bdev (bufs s ! k) = 1 \<and> bdev (bufs s ! k') = 1
        \<and> blockno (bufs s ! k) = blockno (bufs s ! k')" using D that by blast
    show "bdev (bufs s ! k) = 1" "unat (blockno (bufs s ! k)) < length (memdisk t)" if "k < 30" "valid s k"
      using bc_okD(4) [OF ok that] by (simp_all add: mt)
    show "bdata (bufs s ! k) = memdisk t ! unat (blockno (bufs s ! k))"
      if k: "k < 30" "valid s k \<and> \<not> busy s k \<and> \<not> (k \<noteq> i \<and> dirty s k)"
    proof (cases "k = i")
      case False
      have "blockno (bufs s ! k) \<noteq> b"
        using bc_okD(3) [OF ok i(1), of k] bc_okD(4) [OF ok k(1)] k False by (auto simp: holds_block_def)
      then show ?thesis using bc_okD(5) [OF ok k(1)] k False by (simp add: mt word_unat_eq_iff)
    qed (use il b in \<open>simp add: mt\<close>)
    show "valid s k" if "k < 30" "k \<noteq> i \<and> dirty s k" using that bc_okD(6) [OF ok, of k] by blast
  qed
  with lt show "bc_inv xs t" by (simp add: bc_inv_def)
qed


lemma links_update:
  assumes "k < length bs"
  shows "bnx (bs[k := (bs ! k)\<lparr>bnext := v\<rparr>]) = (bnx bs)(k := v)" "bpv (bs[k := (bs ! k)\<lparr>bnext := v\<rparr>]) = bpv bs"
    "bpv (bs[k := (bs ! k)\<lparr>bprev := v\<rparr>]) = (bpv bs)(k := v)" "bnx (bs[k := (bs ! k)\<lparr>bprev := v\<rparr>]) = bnx bs"
    "bnx (bs[k := (bs ! k)\<lparr>bflags := w\<rparr>]) = bnx bs" "bpv (bs[k := (bs ! k)\<lparr>bflags := w\<rparr>]) = bpv bs"
  using assms by (auto simp: bnx_def bpv_def fun_eq_iff nth_list_update)

lemma linked_ends:
  assumes "linked nx pv h xs j"
  shows "\<exists>n \<in> insert j (set xs). nx h = Some n" "\<exists>p \<in> insert h (set xs). pv j = Some p"
proof -
  show "\<exists>n \<in> insert j (set xs). nx h = Some n" using assms by (cases xs) auto
  show "\<exists>p \<in> insert h (set xs). pv j = Some p" using linked_rev [OF assms] by (cases "rev xs") auto
qed

text \<open>The buffers after \<^verbatim>\<open>brelse\<close>: the same data and identity, the busy flag off, relinked.\<close>

definition freed :: "nat \<Rightarrow> 'a bcache_scheme \<Rightarrow> 'a bcache_scheme \<Rightarrow> bool" where
  "freed i s t \<longleftrightarrow> t = s\<lparr>procs := procs t, bufs := bufs t\<rparr> \<and> length (bufs t) = length (bufs s)
     \<and> (\<forall>k. bdev (bufs t ! k) = bdev (bufs s ! k) \<and> blockno (bufs t ! k) = blockno (bufs s ! k)
         \<and> bdata (bufs t ! k) = bdata (bufs s ! k)
         \<and> bflags (bufs t ! k) = (if k = i then bflags (bufs s ! k) AND - 2 else bflags (bufs s ! k)))"

lemma brelse_links:
  assumes l: "lru (bufs s) xs" and lk: "L_bcache \<notin> held s" "L_ptable \<notin> held s" and b: "b < NBUF" "busy s b"
  shows "\<exists>t. brelse b s = Done () t \<and> lru (bufs t) (b # remove1 b xs) \<and> freed b s t"
proof -
  define bs where "bs = bufs s"
  have len: "length bs = 31" and dx: "distinct xs" and sx: "set xs = {0..<30}"
    and li: "linked (bnx bs) (bpv bs) 30 xs 30" using l by (simp_all add: lru_def bs_def)
  obtain ys zs where xs: "xs = ys @ b # zs" using b sx split_list [of b xs] by auto
  have l1: "linked (bnx bs) (bpv bs) 30 ys b" and l2: "linked (bnx bs) (bpv bs) b zs 30"
    using li by (simp_all add: xs linked_append)
  obtain n where n: "bnx bs b = Some n" "n \<in> insert 30 (set zs)" using linked_ends(1) [OF l2] by blast
  obtain p where p: "bpv bs b = Some p" "p \<in> insert 30 (set ys)" using linked_ends(2) [OF l1] by blast
  have bn: "n \<noteq> b" "p \<noteq> b" "b \<noteq> 30" using n(2) p(2) dx b by (auto simp: xs)
  have sub: "set ys \<subseteq> {0..<30}" "set zs \<subseteq> {0..<30}" using sx by (auto simp: xs)
  have lt: "n < 31" "p < 31" "b < 31" using n(2) p(2) sub b by force+
  define bs1 where "bs1 = bs[n := (bs ! n)\<lparr>bprev := Some p\<rparr>]"
  define bs2 where "bs2 = bs1[p := (bs1 ! p)\<lparr>bnext := Some n\<rparr>]"
  have len2: "length bs1 = 31" "length bs2 = 31" by (simp_all add: bs1_def bs2_def len)
  have nx1: "bnx bs1 = bnx bs" "bpv bs1 = (bpv bs)(n := Some p)" using lt len by (simp_all add: bs1_def links_update)
  have nx2: "bnx bs2 = (bnx bs)(p := Some n)" "bpv bs2 = (bpv bs)(n := Some p)"
    using lt len2 nx1 by (simp_all add: bs2_def links_update)
  have un: "linked (bnx bs2) (bpv bs2) 30 (ys @ zs) 30"
    unfolding nx2 by (rule linked_unlink) (use li dx sx p n in \<open>auto simp: xs\<close>)
  obtain m where m: "bnx bs2 30 = Some m" "m \<in> insert 30 (set (ys @ zs))" using linked_ends(1) [OF un] by blast
  have mb: "m < 31" "m \<noteq> b" using m(2) sub bn dx by (auto simp: xs)
  define bs3 where "bs3 = bs2[b := (bs2 ! b)\<lparr>bnext := Some m\<rparr>]"
  define bs4 where "bs4 = bs3[b := (bs3 ! b)\<lparr>bprev := Some 30\<rparr>]"
  define bs5 where "bs5 = bs4[m := (bs4 ! m)\<lparr>bprev := Some b\<rparr>]"
  define bs6 where "bs6 = bs5[30 := (bs5 ! 30)\<lparr>bnext := Some b\<rparr>]"
  define bs7 where "bs7 = bs6[b := (bs6 ! b)\<lparr>bflags := bflags (bs6 ! b) AND - 2\<rparr>]"
  note defs = bs1_def bs2_def bs3_def bs4_def bs5_def bs6_def bs7_def
  have lens: "length bs3 = 31" "length bs4 = 31" "length bs5 = 31" "length bs6 = 31" "length bs7 = 31"
    by (simp_all add: defs len)
  have nx3: "bnx bs3 = (bnx bs2)(b := Some m)" "bpv bs3 = bpv bs2" using lt len2 by (simp_all add: bs3_def links_update)
  have nx4: "bnx bs4 = (bnx bs2)(b := Some m)" "bpv bs4 = (bpv bs2)(b := Some 30)"
    using lt lens nx3 by (simp_all add: bs4_def links_update)
  have nx5: "bnx bs5 = bnx bs4" "bpv bs5 = (bpv bs4)(m := Some b)" using mb lens by (simp_all add: bs5_def links_update)
  have nx6: "bnx bs6 = (bnx bs5)(30 := Some b)" "bpv bs6 = bpv bs5" using lens by (simp_all add: bs6_def links_update)
  have nx7: "bnx bs7 = (bnx bs2)(b := Some m, 30 := Some b)" "bpv bs7 = (bpv bs2)(b := Some 30, m := Some b)"
    using lt lens nx4 nx5 nx6 by (simp_all add: bs7_def links_update)
  have "linked (bnx bs7) (bpv bs7) 30 (b # ys @ zs) 30"
    unfolding nx7 by (rule linked_push [OF un _ _ _ _ m(1)]) (use bn dx sub in \<open>auto simp: xs\<close>)
  moreover have "remove1 b xs = ys @ zs" using dx by (simp add: xs remove1_append)
  ultimately have l7: "lru bs7 (b # remove1 b xs)" using lens dx sx by (auto simp: lru_def xs)
  have look: "bnext (bs ! b) = Some n" "bprev (bs ! b) = Some p" "bprev (bs1 ! b) = Some p" "bnext (bs1 ! b) = Some n"
    "bnext (bs2 ! 30) = Some m" "bnext (bs4 ! 30) = Some m"
    using n p m nx1 nx4 bn by (simp_all add: bnx_def [symmetric] bpv_def [symmetric])
  define t where "t = s\<lparr>bufs := bs7, procs := map (\<lambda>p. p\<lparr>pthreads := map (wake (Ch_buf b)) (pthreads p)\<rparr>) (procs s)\<rparr>"
  have t: "t = s\<lparr>held := held s, bufs := bs7, procs := map (\<lambda>p. p\<lparr>pthreads := map (wake (Ch_buf b)) (pthreads p)\<rparr>) (procs s)\<rparr>"
    by (cases s) (simp add: t_def)
  have "brelse b s = Done () t"
    unfolding t using lk b(2) by (simp add: brelse_def bs_def [symmetric] look defs [symmetric] wakeup_run)
  moreover have "freed b s t"
    unfolding freed_def
  proof (intro conjI allI)
    have F: "bdev (bs7 ! k) = bdev (bs ! k)" "blockno (bs7 ! k) = blockno (bs ! k)" "bdata (bs7 ! k) = bdata (bs ! k)"
      "bflags (bs6 ! k) = bflags (bs ! k)" for k
      unfolding defs by (simp_all add: nth_update_field [where f = bdev] nth_update_field [where f = blockno]
          nth_update_field [where f = bdata] nth_update_field [where f = bflags])
    fix k
    show "bdev (bufs t ! k) = bdev (bufs s ! k)" "blockno (bufs t ! k) = blockno (bufs s ! k)"
      "bdata (bufs t ! k) = bdata (bufs s ! k)" by (simp_all add: t_def F bs_def [symmetric])
    show "bflags (bufs t ! k) = (if k = b then bflags (bufs s ! k) AND - 2 else bflags (bufs s ! k))"
      using lens lt by (simp add: t_def bs7_def F(4) bs_def [symmetric])
  qed (use len lens in \<open>simp_all add: t_def bs_def [symmetric]\<close>)
  ultimately show ?thesis using l7 by (auto simp: t_def)
qed

end
