(* ===== verification/Cache.thy ===== *)
theory Cache
  imports Bio
begin

text \<open>
  The contract of the buffer cache: an abstract view of it as a map from blocks to contents, and what \<^verbatim>\<open>bread\<close>,
  \<^verbatim>\<open>bwrite\<close>, \<^verbatim>\<open>brelse\<close> and \<^verbatim>\<open>binit\<close> do to the view. The log and the file system are verified against this view.
\<close>

section \<open>The cache as a map from blocks to contents\<close>

text \<open>Blocks whose buffer is dirty, that is, logged and not yet written.\<close>

definition dblocks :: "'a bcache_scheme \<Rightarrow> uint set" where
  "dblocks s = {c. \<exists>i. holds_block s i c \<and> dirty s i}"

text \<open>
  The abstract view: the contents \<open>V\<close> of every block, the disk \<open>M\<close>, the dirty blocks \<open>D\<close>, and the pairs \<open>H\<close> of a
  buffer in use and its block.
\<close>

definition cache_is :: "'a bcache_scheme \<Rightarrow> (uint \<Rightarrow> block) \<Rightarrow> block list \<Rightarrow> uint set \<Rightarrow> (nat \<times> uint) set \<Rightarrow> bool" where
  "cache_is s V M D H \<longleftrightarrow> (\<exists>xs. bc_inv xs s) \<and> bview s = V \<and> memdisk s = M \<and> dblocks s = D
     \<and> (\<forall>i < NBUF. busy s i \<longleftrightarrow> (\<exists>c. (i, c) \<in> H)) \<and> (\<forall>(i, c) \<in> H. holds_block s i c \<and> valid s i)"

text \<open>Only the buffers, the disk and the states of sleeping threads change.\<close>

definition bio_frame :: "'a bcache_scheme \<Rightarrow> 'a bcache_scheme \<Rightarrow> bool" where
  "bio_frame s t \<longleftrightarrow> t = s\<lparr>procs := procs t, bufs := bufs t, memdisk := memdisk t, writes := writes t\<rparr>"

lemma bio_frame_refl [simp]: "bio_frame s s"
  by (cases s) (simp add: bio_frame_def)

lemma bio_frame_trans: "bio_frame s t \<Longrightarrow> bio_frame t u \<Longrightarrow> bio_frame s u"
  by (cases s; cases t; cases u) (simp add: bio_frame_def)

lemma bio_frame_held: "bio_frame s t \<Longrightarrow> held t = held s"
  by (cases s; cases t) (simp add: bio_frame_def)

lemma cache_isD:
  assumes "cache_is s V M D H"
  shows "\<exists>xs. bc_inv xs s" "bc_ok s" "length (bufs s) = 31" "bview s c = V c" "memdisk s = M" "dblocks s = D"
    "i < 30 \<Longrightarrow> busy s i \<longleftrightarrow> (\<exists>c. (i, c) \<in> H)" "(i, c) \<in> H \<Longrightarrow> holds_block s i c \<and> valid s i \<and> busy s i \<and> i < 30"
  using assms by (auto simp: cache_is_def bc_inv_def lru_def holds_block_def)

lemma cache_is_data: "cache_is s V M D H \<Longrightarrow> (i, c) \<in> H \<Longrightarrow> bdata (bufs s ! i) = V c"
  using bview_cached [of s i c] cache_isD(2,4,8) [of s V M D H] by metis

lemma cache_is_length:
  assumes "cache_is s V M D H" "unat c < length M"
  shows "length (V c) = 512"
proof (cases "\<exists>i. holds_block s i c \<and> valid s i")
  case True
  then obtain i where i: "holds_block s i c" "valid s i" by blast
  then show ?thesis using bview_cached [OF cache_isD(2) [OF assms(1)] i] cache_isD(4) [OF assms(1)]
      bc_okD(1) [OF cache_isD(2) [OF assms(1)], of i] by (simp add: holds_block_def)
next
  case False
  then have "bview s c = memdisk s ! unat c" by (intro bview_disk) blast
  then show ?thesis
    using cache_isD(4,5) [OF assms(1)] bc_okD(2) [OF cache_isD(2) [OF assms(1)]] assms(2) by simp
qed

text \<open>A block that is neither dirty nor in use agrees with the disk.\<close>

lemma cache_is_clean:
  assumes ca: "cache_is s V M D H" and c: "c \<notin> D" "\<And>i. (i, c) \<notin> H"
  shows "V c = M ! unat c"
proof (cases "\<exists>i. holds_block s i c \<and> valid s i")
  case True
  then obtain i where i: "holds_block s i c" "valid s i" "i < 30" by (auto simp: holds_block_def)
  have ok: "bc_ok s" by (rule cache_isD(2) [OF ca])
  have "\<not> busy s i"
  proof
    assume "busy s i"
    then obtain e where e: "(i, e) \<in> H" using cache_isD(7) [OF ca i(3)] by blast
    with cache_isD(8) [OF ca e] i(1) have "e = c" by (simp add: holds_block_def)
    with e c(2) show False by blast
  qed
  moreover have "\<not> dirty s i" using c(1) cache_isD(6) [OF ca] i(1) by (auto simp: dblocks_def)
  ultimately have "bdata (bufs s ! i) = M ! unat c"
    using bc_okD(5) [OF ok i(3,2)] i(1) cache_isD(5) [OF ca] by (simp add: holds_block_def)
  then show ?thesis using bview_cached [OF ok i(1,2)] cache_isD(4) [OF ca] by simp
next
  case False
  then have "bview s c = memdisk s ! unat c" by (intro bview_disk) blast
  then show ?thesis using cache_isD(4,5) [OF ca] by simp
qed

lemma cache_is_finite:
  assumes ca: "cache_is s V M D H"
  shows "finite (D \<union> snd ` H)"
proof (rule finite_subset)
  show "D \<union> snd ` H \<subseteq> (\<lambda>j. blockno (bufs s ! j)) ` {0..<30}"
  proof
    fix c assume "c \<in> D \<union> snd ` H"
    then obtain i where "holds_block s i c"
      using cache_isD(6) [OF ca] by (auto simp: dblocks_def dest!: cache_isD(8) [OF ca])
    then show "c \<in> (\<lambda>j. blockno (bufs s ! j)) ` {0..<30}" by (auto simp: holds_block_def)
  qed
qed simp

text \<open>While fewer than \<open>NBUF\<close> blocks are dirty or in use, some buffer is neither.\<close>

lemma cache_is_room:
  assumes ca: "cache_is s V M D H" and card: "card (D \<union> snd ` H) < 30"
  shows "\<exists>j < 30. \<not> busy s j \<and> \<not> dirty s j"
proof (rule ccontr)
  assume "\<not> ?thesis"
  then have all: "\<And>j. j < 30 \<Longrightarrow> busy s j \<or> dirty s j" by blast
  let ?f = "\<lambda>j. blockno (bufs s ! j)"
  have ok: "bc_ok s" by (rule cache_isD(2) [OF ca])
  have hold: "holds_block s j (?f j) \<and> ?f j \<in> D \<union> snd ` H" if j: "j < 30" for j
  proof (cases "dirty s j")
    case True
    then have "holds_block s j (?f j)" using bc_okD(6,4) [OF ok j] j by (simp add: holds_block_def)
    with True show ?thesis using cache_isD(6) [OF ca] by (auto simp: dblocks_def)
  next
    case False
    with all j cache_isD(7) [OF ca j] obtain c where c: "(j, c) \<in> H" by blast
    with cache_isD(8) [OF ca c] show ?thesis by (force simp: holds_block_def)
  qed
  have inj: "inj_on ?f {0..<30}"
  proof (rule inj_onI)
    fix j k assume jk: "j \<in> {0..<30}" "k \<in> {0..<30}" "?f j = ?f k"
    then have "holds_block s j (?f j)" "holds_block s k (?f j)" using hold [of j] hold [of k] by simp_all
    then show "j = k" by (rule bc_okD(3) [OF ok])
  qed
  have fin: "finite (D \<union> snd ` H)" by (rule cache_is_finite [OF ca])
  have "?f ` {0..<30} \<subseteq> D \<union> snd ` H"
    by (rule image_subsetI, rule hold [THEN conjunct2]) simp
  from card_mono [OF fin this] card_image [OF inj] card show False by simp
qed


text \<open>The operations on the abstract view.\<close>

lemma bread_is:
  assumes ca: "cache_is s V M D H" and lk: "L_bcache \<notin> held s" and c: "unat c < length M" "c \<notin> snd ` H"
    and room: "c \<in> D \<or> card (D \<union> snd ` H) < 30"
  shows "\<exists>i t. bread 1 c s = Done i t \<and> cache_is t V M D (insert (i, c) H) \<and> bio_frame s t \<and> writes t = writes s"
proof -
  obtain xs where inv: "bc_inv xs s" using cache_isD(1) [OF ca] by blast
  have ok: "bc_ok s" by (rule cache_isD(2) [OF ca])
  have m: "memdisk s = M" by (rule cache_isD(5) [OF ca])
  have "\<exists>i t. bread 1 c s = Done i t \<and> bc_inv xs t \<and> took c i s t"
  proof (rule bread_run [OF inv lk])
    show "unat c < length (memdisk s)" using c(1) m by simp
    show "\<not> busy s i" if "holds_block s i c" for i
    proof
      assume "busy s i"
      moreover have "i < 30" using that by (simp add: holds_block_def)
      ultimately obtain e where e: "(i, e) \<in> H" using cache_isD(7) [OF ca] by blast
      with cache_isD(8) [OF ca e] that have "e = c" by (simp add: holds_block_def)
      with e c(2) show False by force
    qed
    show "(\<exists>i. holds_block s i c) \<or> (\<exists>j < 30. \<not> busy s j \<and> \<not> dirty s j)"
      using room cache_is_room [OF ca] cache_isD(6) [OF ca] by (auto simp: dblocks_def)
  qed
  then obtain i t where run: "bread 1 c s = Done i t" and it: "bc_inv xs t" and tk: "took c i s t" by blast
  note T = tk [unfolded took_def]
  have mt: "memdisk t = M" and wt: "writes t = writes s" and fr: "bio_frame s t"
    using T m by (cases s; cases t; simp add: bio_frame_def)+
  have nth: "k \<noteq> i \<Longrightarrow> bufs t ! k = bufs s ! k" for k using T by blast
  have hi: "holds_block t i c" "valid t i" "busy t i" "\<not> busy s i" "dirty t i = dirty s i" using T by blast+
  have other: "holds_block t k e = holds_block s k e" if "k \<noteq> i" for k e using nth [OF that] by (simp add: holds_block_def)
  have db: "holds_block t k e \<and> dirty t k \<longleftrightarrow> holds_block s k e \<and> dirty s k" for k e
  proof (cases "k = i")
    case True
    have "dirty s i \<Longrightarrow> holds_block s i c" using T by blast
    then show ?thesis using hi(1,5) True by (auto simp: holds_block_def)
  qed (simp add: other nth)
  have "dblocks t = D" using cache_isD(6) [OF ca] by (simp add: dblocks_def db)
  moreover have "bview t = V" using T cache_isD(4) [OF ca] by (auto simp: fun_eq_iff)
  moreover have "busy t k \<longleftrightarrow> (\<exists>e. (k, e) \<in> insert (i, c) H)" if "k < 30" for k
    using cache_isD(7) [OF ca that] hi(3) nth [of k] by (cases "k = i") auto
  moreover have "holds_block t k e \<and> valid t k" if "(k, e) \<in> insert (i, c) H" for k e
  proof (cases "k = i")
    case True
    then have "(k, e) \<notin> H" using hi(4) cache_isD(8) [OF ca, of k e] by blast
    with that hi True show ?thesis by auto
  next
    case False
    with that cache_isD(8) [OF ca, of k e] other [OF False] nth [OF False] show ?thesis by auto
  qed
  ultimately have "cache_is t V M D (insert (i, c) H)" using it mt unfolding cache_is_def by blast
  with run fr wt show ?thesis by blast
qed

lemma set_data_is:
  assumes ca: "cache_is s V M D H" and i: "(i, c) \<in> H" "length d = BSIZE"
  shows "cache_is (s\<lparr>bufs := (bufs s)[i := (bufs s ! i)\<lparr>bdata := d\<rparr>]\<rparr>) (V(c := d)) M D H"
proof -
  define t where "t = s\<lparr>bufs := (bufs s)[i := (bufs s ! i)\<lparr>bdata := d\<rparr>]\<rparr>"
  obtain xs where inv: "bc_inv xs s" using cache_isD(1) [OF ca] by blast
  note I = cache_isD(8) [OF ca i(1)]
  have it: "bc_inv xs t" by (rule bc_inv_set_data [OF inv _ _ i(2) t_def]) (use I in simp_all)
  have len: "i < length (bufs s)" using I cache_isD(3) [OF ca] by simp
  have nth: "bufs t ! k = (if k = i then (bufs s ! i)\<lparr>bdata := d\<rparr> else bufs s ! k)" for k using len by (simp add: t_def)
  have mt: "memdisk t = memdisk s" by (simp add: t_def)
  have f: "holds_block t k e = holds_block s k e" "bflags (bufs t ! k) = bflags (bufs s ! k)" for k e
    by (auto simp: holds_block_def nth)
  have okt: "bc_ok t" using it by (simp add: bc_inv_def)
  have "bview t = V(c := d)"
  proof
    fix e
    show "bview t e = (V(c := d)) e"
    proof (cases "e = c")
      case True
      have "bview t c = bdata (bufs t ! i)" by (rule bview_cached [OF okt]) (use I in \<open>simp_all only: f\<close>)
      then show ?thesis using True by (simp add: nth)
    next
      case False
      have ne: "holds_block s k e \<Longrightarrow> k \<noteq> i" for k using I False by (auto simp: holds_block_def)
      have "bview t e = bview s e"
      proof (rule bview_cong [OF cache_isD(2) [OF ca] okt])
        show "memdisk t ! unat e = memdisk s ! unat e" by (simp add: mt)
      qed (use ne in \<open>auto simp only: f nth if_False\<close>)
      then show ?thesis using False cache_isD(4) [OF ca] by simp
    qed
  qed
  moreover have "dblocks t = D" using cache_isD(6) [OF ca] by (simp only: dblocks_def f)
  ultimately have "cache_is t (V(c := d)) M D H" using ca it unfolding cache_is_def f mt by auto
  then show ?thesis unfolding t_def .
qed

lemma set_dirty_is:
  assumes ca: "cache_is s V M D H" and i: "(i, c) \<in> H"
  shows "cache_is (s\<lparr>bufs := (bufs s)[i := (bufs s ! i)\<lparr>bflags := bflags (bufs s ! i) OR B_DIRTY\<rparr>]\<rparr>) V M (insert c D) H"
proof -
  define t where "t = s\<lparr>bufs := (bufs s)[i := (bufs s ! i)\<lparr>bflags := bflags (bufs s ! i) OR B_DIRTY\<rparr>]\<rparr>"
  obtain xs where inv: "bc_inv xs s" using cache_isD(1) [OF ca] by blast
  have l: "lru (bufs s) xs" and ok: "bc_ok s" using inv by (simp_all add: bc_inv_def)
  note I = cache_isD(8) [OF ca i]
  have len: "i < length (bufs s)" using I cache_isD(3) [OF ca] by simp
  have nth: "bufs t ! k = (if k = i then (bufs s ! i)\<lparr>bflags := bflags (bufs s ! i) OR 4\<rparr> else bufs s ! k)" for k using len by (simp add: t_def)
  have mt: "memdisk t = memdisk s" by (simp add: t_def)
  have f: "holds_block t k e = holds_block s k e" "bdata (bufs t ! k) = bdata (bufs s ! k)"
    "valid t k = valid s k" "busy t k = busy s k" "dirty t k \<longleftrightarrow> k = i \<or> dirty s k" for k e
    by (auto simp: holds_block_def nth)
  have okt: "bc_ok t"
  proof (rule bc_ok_set_buf [OF ok len, of t "(bufs s ! i)\<lparr>bflags := bflags (bufs s ! i) OR 4\<rparr>"])
    show "blockno (bufs s ! j) \<noteq> blockno ((bufs s ! i)\<lparr>bflags := bflags (bufs s ! i) OR 4\<rparr>)"
      if "j < 30" "j \<noteq> i" "bdev ((bufs s ! i)\<lparr>bflags := bflags (bufs s ! i) OR 4\<rparr>) = 1" "bdev (bufs s ! j) = 1" for j
      using bc_okD(3) [OF ok, of i c j] that I by (auto simp: holds_block_def)
  qed (use I bc_okD(1,4) [OF ok, of i] in \<open>simp_all add: t_def\<close>)
  have lt: "lru (bufs t) xs"
    using lru_update [OF l, of "(bufs s ! i)\<lparr>bflags := bflags (bufs s ! i) OR 4\<rparr>" i] by (simp add: t_def)
  have "bview t e = bview s e" for e
  proof (rule bview_cong [OF ok okt])
    show "memdisk t ! unat e = memdisk s ! unat e" by (simp add: mt)
  qed (auto simp only: f)
  then have "bview t = V" using cache_isD(4) [OF ca] by (auto simp: fun_eq_iff)
  moreover have "dblocks t = insert c D"
  proof -
    have "(\<exists>k. holds_block s k e \<and> (k = i \<or> dirty s k)) \<longleftrightarrow> e = c \<or> (\<exists>k. holds_block s k e \<and> dirty s k)" for e
      using I by (auto simp: holds_block_def)
    then show ?thesis using cache_isD(6) [OF ca] by (auto simp only: dblocks_def f)
  qed
  ultimately have "cache_is t V M (insert c D) H" using ca okt lt unfolding cache_is_def f mt by (auto simp: bc_inv_def)
  then show ?thesis unfolding t_def .
qed


lemma bwrite_is:
  assumes ca: "cache_is s V M D H" and i: "(i, c) \<in> H"
  shows "\<exists>t. bwrite i s = Done () t \<and> cache_is t V (M[unat c := V c]) (D - {c}) H \<and> bio_frame s t
     \<and> writes t = writes s @ [(unat c, V c)]"
proof -
  obtain xs where inv: "bc_inv xs s" using cache_isD(1) [OF ca] by blast
  have ok: "bc_ok s" by (rule cache_isD(2) [OF ca])
  have I: "holds_block s i c" "valid s i" "busy s i" "i < 30" using cache_isD(8) [OF ca i] by simp_all
  have len: "i < length (bufs s)" using I cache_isD(3) [OF ca] by simp
  have d: "bdata (bufs s ! i) = V c" by (rule cache_is_data [OF ca i])
  define t where "t = s\<lparr>bufs := (bufs s)[i := (bufs s ! i)\<lparr>bflags := ((bflags (bufs s ! i) OR 4) AND - 5) OR 2\<rparr>],
       memdisk := (memdisk s)[unat c := bdata (bufs s ! i)], writes := writes s @ [(unat c, bdata (bufs s ! i))]\<rparr>"
  note W = bwrite_run [OF inv I(1,3,2) t_def]
  have okt: "bc_ok t" using W(2) by (simp add: bc_inv_def)
  have nth: "bufs t ! k = (if k = i then (bufs s ! i)\<lparr>bflags := ((bflags (bufs s ! i) OR 4) AND - 5) OR 2\<rparr> else bufs s ! k)"
    for k using len by (simp add: t_def)
  have f: "holds_block t k e = holds_block s k e" "bdata (bufs t ! k) = bdata (bufs s ! k)"
    "valid t k = valid s k" "busy t k = busy s k" "dirty t k \<longleftrightarrow> k \<noteq> i \<and> dirty s k" for k e
    using I by (auto simp: holds_block_def nth)
  have mt: "memdisk t = M[unat c := V c]" using cache_isD(5) [OF ca] d by (simp add: t_def)
  have "bview t e = bview s e" for e
  proof (cases "e = c")
    case True
    have "holds_block t i c" "valid t i" using I(1,2) unfolding f .
    with True show ?thesis using bview_cached [OF ok I(1,2)] bview_cached [OF okt, of i c] f(2) [of i] by metis
  next
    case False
    then have "unat e \<noteq> unat c" by (simp add: word_unat_eq_iff)
    then show ?thesis by (intro bview_cong [OF ok okt]) (use cache_isD(5) [OF ca] in \<open>auto simp only: f mt nth_list_update_neq\<close>)
  qed
  then have "bview t = V" using cache_isD(4) [OF ca] by (auto simp: fun_eq_iff)
  moreover have "dblocks t = D - {c}"
  proof -
    have key: "k \<noteq> i \<longleftrightarrow> e \<noteq> c" if "holds_block s k e" for k e
      using that I(1) bc_okD(3) [OF ok that, of i] by (auto simp: holds_block_def)
    have "(\<exists>k. holds_block s k e \<and> k \<noteq> i \<and> dirty s k) \<longleftrightarrow> e \<noteq> c \<and> (\<exists>k. holds_block s k e \<and> dirty s k)" for e
      using key by blast
    then show ?thesis using cache_isD(6) [OF ca] by (auto simp only: dblocks_def f)
  qed
  ultimately have "cache_is t V (M[unat c := V c]) (D - {c}) H"
    using ca W(2) unfolding cache_is_def f mt by auto
  moreover have "bio_frame s t" by (cases s) (simp add: bio_frame_def t_def)
  ultimately show ?thesis using W(1) d by (auto simp: t_def)
qed

lemma brelse_is:
  assumes ca: "cache_is s V M D H" and i: "(i, c) \<in> H" and lk: "L_bcache \<notin> held s" "L_ptable \<notin> held s"
    and clean: "c \<in> D \<or> V c = M ! unat c"
  shows "\<exists>t. brelse i s = Done () t \<and> cache_is t V M D (H - {(i, c)}) \<and> bio_frame s t \<and> writes t = writes s"
proof -
  obtain xs where inv: "bc_inv xs s" using cache_isD(1) [OF ca] by blast
  have l: "lru (bufs s) xs" and ok: "bc_ok s" using inv by (simp_all add: bc_inv_def)
  have I: "holds_block s i c" "valid s i" "busy s i" "i < 30" using cache_isD(8) [OF ca i] by simp_all
  obtain t where run: "brelse i s = Done () t" and lt: "lru (bufs t) (i # remove1 i xs)" and fr: "freed i s t"
    using brelse_links [OF l lk I(4,3)] by blast
  note F = fr [unfolded freed_def]
  have f: "bdev (bufs t ! k) = bdev (bufs s ! k)" "blockno (bufs t ! k) = blockno (bufs s ! k)"
    "bdata (bufs t ! k) = bdata (bufs s ! k)" "valid t k = valid s k" "dirty t k = dirty s k" "busy t k \<longleftrightarrow> k \<noteq> i \<and> busy s k" for k
    using F by auto
  have hb: "holds_block t k e = holds_block s k e" for k e by (simp add: holds_block_def f)
  have mt: "memdisk t = memdisk s" "writes t = writes s" and bf: "bio_frame s t"
    using F by (cases s; cases t; simp add: bio_frame_def)+
  have agree: "bdata (bufs s ! i) = memdisk s ! unat (blockno (bufs s ! i))" if "\<not> dirty s i"
  proof -
    have "c \<notin> D" using that cache_isD(6) [OF ca] bc_okD(3) [OF ok I(1)] unfolding dblocks_def by blast
    then show ?thesis using clean cache_is_data [OF ca i] cache_isD(5) [OF ca] I(1) by (simp add: holds_block_def)
  qed
  note D = ok [unfolded bc_ok_def]
  have okt: "bc_ok t"
    unfolding bc_ok_def f mt
  proof (intro conjI allI impI)
    fix k k'
    show "length (bdata (bufs s ! k)) = 512" if "k < 30" by (rule bc_okD(1) [OF ok that])
    show "k = k'" if "k < 30" "k' < 30" "bdev (bufs s ! k) = 1 \<and> bdev (bufs s ! k') = 1
        \<and> blockno (bufs s ! k) = blockno (bufs s ! k')" using D that by blast
    show "bdev (bufs s ! k) = 1" "unat (blockno (bufs s ! k)) < length (memdisk s)" if "k < 30" "valid s k"
      using bc_okD(4) [OF ok that] by simp_all
    show "bdata (bufs s ! k) = memdisk s ! unat (blockno (bufs s ! k))"
      if "k < 30" "valid s k \<and> \<not> (k \<noteq> i \<and> busy s k) \<and> \<not> dirty s k"
      using that bc_okD(5) [OF ok, of k] agree by (cases "k = i") auto
    show "valid s k" if "k < 30" "dirty s k" using that bc_okD(6) [OF ok] by blast
  qed (use bc_okD(2) [OF ok] in blast)
  have "bview t e = bview s e" for e by (rule bview_cong [OF ok okt]) (auto simp only: mt hb f)
  then have "bview t = V" using cache_isD(4) [OF ca] by (auto simp: fun_eq_iff)
  moreover have "dblocks t = D" using cache_isD(6) [OF ca] by (simp add: dblocks_def hb f)
  moreover have "busy t k \<longleftrightarrow> (\<exists>e. (k, e) \<in> H - {(i, c)})" if "k < 30" for k
  proof (cases "k = i")
    case True
    have "e = c" if "(i, e) \<in> H" for e using cache_isD(8) [OF ca that] I(1) by (simp add: holds_block_def)
    with True show ?thesis by (auto simp: f)
  qed (use cache_isD(7) [OF ca that] in \<open>simp add: f\<close>)
  moreover have "holds_block t k e \<and> valid t k" if "(k, e) \<in> H - {(i, c)}" for k e
    using cache_isD(8) [OF ca, of k e] that unfolding hb f by blast
  ultimately have "cache_is t V M D (H - {(i, c)})"
    using lt okt cache_isD(5) [OF ca] mt unfolding cache_is_def bc_inv_def by blast
  with run bf mt show ?thesis by blast
qed


section \<open>The contract as an interface\<close>

text \<open>
  \<open>st\<close> is the abstract view, \<open>idle\<close> says that the cache's locks are free, \<open>hist\<close> is the history of disk writes.
\<close>

locale block_cache =
  fixes st :: "'s \<Rightarrow> (uint \<Rightarrow> block) \<Rightarrow> block list \<Rightarrow> uint set \<Rightarrow> (nat \<times> uint) set \<Rightarrow> bool"
    and rd :: "uint \<Rightarrow> 's \<Rightarrow> (nat, 's) outcome"
    and wr :: "nat \<Rightarrow> 's \<Rightarrow> (unit, 's) outcome"
    and rl :: "nat \<Rightarrow> 's \<Rightarrow> (unit, 's) outcome"
    and dat :: "'s \<Rightarrow> nat \<Rightarrow> block"
    and put :: "nat \<Rightarrow> block \<Rightarrow> 's \<Rightarrow> 's"
    and frame :: "'s \<Rightarrow> 's \<Rightarrow> bool"
    and idle :: "'s \<Rightarrow> bool"
    and hist :: "'s \<Rightarrow> (nat \<times> block) list"
  assumes rd_law: "\<And>s V M D H c. st s V M D H \<Longrightarrow> idle s \<Longrightarrow> unat c < length M \<Longrightarrow> c \<notin> snd ` H
      \<Longrightarrow> c \<in> D \<or> card (D \<union> snd ` H) < NBUF
      \<Longrightarrow> \<exists>i t. rd c s = Done i t \<and> st t V M D (insert (i, c) H) \<and> frame s t \<and> hist t = hist s"
    and wr_law: "\<And>s V M D H i c. st s V M D H \<Longrightarrow> (i, c) \<in> H
      \<Longrightarrow> \<exists>t. wr i s = Done () t \<and> st t V (M[unat c := V c]) (D - {c}) H \<and> frame s t
             \<and> hist t = hist s @ [(unat c, V c)]"
    and rl_law: "\<And>s V M D H i c. st s V M D H \<Longrightarrow> idle s \<Longrightarrow> (i, c) \<in> H \<Longrightarrow> c \<in> D \<or> V c = M ! unat c
      \<Longrightarrow> \<exists>t. rl i s = Done () t \<and> st t V M D (H - {(i, c)}) \<and> frame s t \<and> hist t = hist s"
    and dat_law: "\<And>s V M D H i c. st s V M D H \<Longrightarrow> (i, c) \<in> H \<Longrightarrow> dat s i = V c"
    and put_law: "\<And>s V M D H i c d. st s V M D H \<Longrightarrow> (i, c) \<in> H \<Longrightarrow> length d = BSIZE
      \<Longrightarrow> st (put i d s) (V(c := d)) M D H \<and> frame s (put i d s) \<and> hist (put i d s) = hist s"
    and clean_law: "\<And>s V M D H c. st s V M D H \<Longrightarrow> c \<notin> D \<Longrightarrow> c \<notin> snd ` H \<Longrightarrow> V c = M ! unat c"
    and length_law: "\<And>s V M D H c. st s V M D H \<Longrightarrow> unat c < length M \<Longrightarrow> length (V c) = BSIZE"
    and finite_law: "\<And>s V M D H. st s V M D H \<Longrightarrow> finite (D \<union> snd ` H)"
    and frame_trans: "\<And>s t u. frame s t \<Longrightarrow> frame t u \<Longrightarrow> frame s u"
    and frame_idle: "\<And>s t. frame s t \<Longrightarrow> idle t = idle s"
begin

text \<open>Changing one block on the disk: read it, compute, write it, release it.\<close>

lemma write_block:
  assumes s: "st s V M D {}" "idle s" and c: "unat c < length M" "c \<in> D \<or> card D < NBUF" and f: "length (f (V c)) = BSIZE"
  shows "\<exists>t. kbind (rd c) (\<lambda>i. kseq (\<lambda>s. Done () (put i (f (dat s i)) s)) (kseq (wr i) (rl i))) s = Done () t
     \<and> st t (V(c := f (V c))) (M[unat c := f (V c)]) (D - {c}) {} \<and> frame s t
     \<and> hist t = hist s @ [(unat c, f (V c))]"
proof -
  from rd_law [OF s c(1)] c(2) obtain i t1 where 1: "rd c s = Done i t1" "st t1 V M D {(i, c)}" "frame s t1" "hist t1 = hist s"
    by auto
  have d1: "dat t1 i = V c" by (rule dat_law [OF 1(2)]) simp
  define t2 where "t2 = put i (f (V c)) t1"
  have 2: "st t2 (V(c := f (V c))) M D {(i, c)}" "frame t1 t2" "hist t2 = hist t1"
    using put_law [OF 1(2) _ f, of i] by (simp_all add: t2_def)
  from wr_law [OF 2(1), of i c] obtain t3 where
    3: "wr i t2 = Done () t3" "st t3 (V(c := f (V c))) (M[unat c := f (V c)]) (D - {c}) {(i, c)}" "frame t2 t3"
      "hist t3 = hist t2 @ [(unat c, f (V c))]" by auto
  have id: "idle t3" using s(2) 1(3) 2(2) 3(3) frame_idle by metis
  from rl_law [OF 3(2) id, of i c] c(1) obtain t4 where
    4: "rl i t3 = Done () t4" "st t4 (V(c := f (V c))) (M[unat c := f (V c)]) (D - {c}) {}" "frame t3 t4" "hist t4 = hist t3"
    by auto
  have "frame s t4" using 1(3) 2(2) 3(3) 4(3) frame_trans by blast
  with 1 2 3 4 d1 show ?thesis by (intro exI [of _ t4]) (simp add: t2_def)
qed

text \<open>Copying a block into another one on the disk, where the target, or the source, is read first.\<close>

lemma copy_block:
  assumes s: "st s V M D {}" "idle s" and x: "unat x < length M" "x \<in> D \<or> card D < NBUF"
    and y: "unat y < length M" "y \<in> D \<or> card D + 1 < NBUF" and xy: "x \<noteq> y"
  shows "\<exists>t. kbind (rd x) (\<lambda>i. kbind (rd y) (\<lambda>j. kseq (\<lambda>s. Done () (put i (dat s j) s))
       (kseq (wr i) (kseq (rl j) (rl i))))) s = Done () t
     \<and> st t (V(x := V y)) (M[unat x := V y]) (D - {x}) {} \<and> frame s t \<and> hist t = hist s @ [(unat x, V y)]"
    and "\<exists>t. kbind (rd x) (\<lambda>i. kbind (rd y) (\<lambda>j. kseq (\<lambda>s. Done () (put j (dat s i) s))
       (kseq (wr j) (kseq (rl i) (rl j))))) s = Done () t
     \<and> st t (V(y := V x)) (M[unat y := V x]) (D - {y}) {} \<and> frame s t \<and> hist t = hist s @ [(unat y, V x)]"
proof -
  from rd_law [OF s x(1)] x(2) obtain i t1 where 1: "rd x s = Done i t1" "st t1 V M D {(i, x)}" "frame s t1" "hist t1 = hist s"
    by auto
  have id1: "idle t1" using s(2) 1(3) frame_idle by blast
  have "finite D" using finite_law [OF s(1)] by simp
  then have "card (D \<union> snd ` {(i, x)}) \<le> card D + 1" by (simp add: card_insert_if)
  with rd_law [OF 1(2) id1 y(1)] y(2) xy obtain j t2 where
    2: "rd y t1 = Done j t2" "st t2 V M D {(j, y), (i, x)}" "frame t1 t2" "hist t2 = hist t1" by auto
  have dat: "dat t2 i = V x" "dat t2 j = V y" using dat_law [OF 2(2), of i x] dat_law [OF 2(2), of j y] by simp_all
  have clean: "c \<in> D \<or> V c = M ! unat c" for c using clean_law [OF s(1), of c] by auto
  have uxy: "unat x \<noteq> unat y" using xy by (simp add: word_unat_eq_iff)
  have fr2: "frame s t2" using 1(3) 2(3) frame_trans by blast
  have finish: "\<exists>t. kseq (wr a) (kseq (rl b) (rl a)) t3 = Done () t
     \<and> st t (V(p := V q)) (M[unat p := V q]) (D - {p}) {} \<and> frame s t \<and> hist t = hist s @ [(unat p, V q)]"
    if "st t3 (V(p := V q)) M D {(a, p), (b, q)}" "frame t2 t3" "hist t3 = hist t2" "p \<noteq> q" "unat p < length M" "unat p \<noteq> unat q"
    for t3 a b p q
  proof -
    from wr_law [OF that(1), of a p] obtain t4 where
      4: "wr a t3 = Done () t4" "st t4 (V(p := V q)) (M[unat p := V q]) (D - {p}) {(a, p), (b, q)}" "frame t3 t4"
        "hist t4 = hist t3 @ [(unat p, V q)]" by auto
    have id4: "idle t4" using s(2) fr2 that(2) 4(3) frame_idle by metis
    from rl_law [OF 4(2) id4, of b q] clean [of q] that(4,6) obtain t5 where
      5: "rl b t4 = Done () t5" "st t5 (V(p := V q)) (M[unat p := V q]) (D - {p}) ({(a, p), (b, q)} - {(b, q)})"
        "frame t4 t5" "hist t5 = hist t4" by auto
    have e: "{(a, p), (b, q)} - {(b, q)} = {(a, p)}" using that(4) by auto
    have id5: "idle t5" using id4 5(3) frame_idle by blast
    from rl_law [OF 5(2) [unfolded e] id5, of a p] that(5) obtain t6 where
      6: "rl a t5 = Done () t6" "st t6 (V(p := V q)) (M[unat p := V q]) (D - {p}) {}" "frame t5 t6" "hist t6 = hist t5" by auto
    have "frame s t6" using fr2 that(2) 4(3) 5(3) 6(3) frame_trans by blast
    with 4 5 6 that(3) 1 2 show ?thesis by (intro exI [of _ t6]) simp
  qed
  have lens: "length (V x) = 512" "length (V y) = 512" using length_law [OF s(1)] x(1) y(1) by simp_all
  have p1: "st (put i (V y) t2) (V(x := V y)) M D {(i, x), (j, y)}" "frame t2 (put i (V y) t2)" "hist (put i (V y) t2) = hist t2"
    using put_law [OF 2(2) _ lens(2), of i x] by (simp_all add: insert_commute)
  have p2: "st (put j (V x) t2) (V(y := V x)) M D {(j, y), (i, x)}" "frame t2 (put j (V x) t2)" "hist (put j (V x) t2) = hist t2"
    using put_law [OF 2(2) _ lens(1), of j y] by simp_all
  show "\<exists>t. kbind (rd x) (\<lambda>i. kbind (rd y) (\<lambda>j. kseq (\<lambda>s. Done () (put i (dat s j) s))
       (kseq (wr i) (kseq (rl j) (rl i))))) s = Done () t
     \<and> st t (V(x := V y)) (M[unat x := V y]) (D - {x}) {} \<and> frame s t \<and> hist t = hist s @ [(unat x, V y)]"
    using finish [OF p1 xy x(1) uxy] 1(1) 2(1) dat by simp
  show "\<exists>t. kbind (rd x) (\<lambda>i. kbind (rd y) (\<lambda>j. kseq (\<lambda>s. Done () (put j (dat s i) s))
       (kseq (wr j) (kseq (rl i) (rl j))))) s = Done () t
     \<and> st t (V(y := V x)) (M[unat y := V x]) (D - {y}) {} \<and> frame s t \<and> hist t = hist s @ [(unat y, V x)]"
    using finish [OF p2 xy [symmetric] y(1) uxy [symmetric]] 1(1) 2(1) dat by simp
qed

end

text \<open>The data of a buffer, and the change of it by its holder.\<close>

definition buf_data :: "'a bcache_scheme \<Rightarrow> nat \<Rightarrow> block" where
  "buf_data s i = bdata (bufs s ! i)"

definition set_data :: "nat \<Rightarrow> block \<Rightarrow> 'a bcache_scheme \<Rightarrow> 'a bcache_scheme" where
  "set_data i d s = s\<lparr>bufs := (bufs s)[i := (bufs s ! i)\<lparr>bdata := d\<rparr>]\<rparr>"

definition bio_idle :: "'a bcache_scheme \<Rightarrow> bool" where
  "bio_idle s \<longleftrightarrow> L_bcache \<notin> held s \<and> L_ptable \<notin> held s"

interpretation bc: block_cache cache_is "bread 1" bwrite brelse buf_data set_data bio_frame bio_idle writes
proof
  fix s :: "'a bcache_scheme" and V M D H c i d t u
  show "\<exists>i t. bread 1 c s = Done i t \<and> cache_is t V M D (insert (i, c) H) \<and> bio_frame s t \<and> writes t = writes s"
    if "cache_is s V M D H" "bio_idle s" "unat c < length M" "c \<notin> snd ` H" "c \<in> D \<or> card (D \<union> snd ` H) < 30"
    using bread_is [OF that(1) _ that(3-5)] that(2) by (simp add: bio_idle_def)
  show "\<exists>t. bwrite i s = Done () t \<and> cache_is t V (M[unat c := V c]) (D - {c}) H \<and> bio_frame s t
      \<and> writes t = writes s @ [(unat c, V c)]" if "cache_is s V M D H" "(i, c) \<in> H" by (rule bwrite_is [OF that])
  show "\<exists>t. brelse i s = Done () t \<and> cache_is t V M D (H - {(i, c)}) \<and> bio_frame s t \<and> writes t = writes s"
    if "cache_is s V M D H" "bio_idle s" "(i, c) \<in> H" "c \<in> D \<or> V c = M ! unat c"
    using brelse_is [OF that(1,3) _ _ that(4)] that(2) by (simp add: bio_idle_def)
  show "buf_data s i = V c" if "cache_is s V M D H" "(i, c) \<in> H"
    using cache_is_data [OF that] by (simp add: buf_data_def)
  show "cache_is (set_data i d s) (V(c := d)) M D H \<and> bio_frame s (set_data i d s) \<and> writes (set_data i d s) = writes s"
    if "cache_is s V M D H" "(i, c) \<in> H" "length d = 512"
    using set_data_is [OF that] by (cases s) (simp add: set_data_def bio_frame_def)
  show "V c = M ! unat c" if "cache_is s V M D H" "c \<notin> D" "c \<notin> snd ` H"
    by (rule cache_is_clean [OF that(1,2)]) (use that(3) in force)
  show "length (V c) = 512" if "cache_is s V M D H" "unat c < length M" by (rule cache_is_length [OF that])
  show "finite (D \<union> snd ` H)" if "cache_is s V M D H" by (rule cache_is_finite [OF that])
  show "bio_frame s u" if "bio_frame s t" "bio_frame t u" by (rule bio_frame_trans [OF that])
  show "bio_idle t = bio_idle s" if "bio_frame s t" using bio_frame_held [OF that] by (simp add: bio_idle_def)
qed


section \<open>Initialisation\<close>

text \<open>After \<open>k\<close> turns of the loop of \<^verbatim>\<open>binit\<close> the first \<open>k\<close> buffers are linked, the last one first.\<close>

definition binit_inv :: "buf list \<Rightarrow> nat \<Rightarrow> buf list \<Rightarrow> bool" where
  "binit_inv bs0 k bs \<longleftrightarrow> length bs = 31 \<and> linked (bnx bs) (bpv bs) 30 (rev [0..<k]) 30
     \<and> (\<forall>i < 31. bflags (bs ! i) = bflags (bs0 ! i) \<and> bdata (bs ! i) = bdata (bs0 ! i)) \<and> (\<forall>i < k. bdev (bs ! i) = - 1)"

lemma binit_one_run:
  assumes inv: "binit_inv bs0 k (bufs s)" and k: "k < 30"
  shows "\<exists>t. binit_one k s = Done () t \<and> t = s\<lparr>bufs := bufs t\<rparr> \<and> binit_inv bs0 (Suc k) (bufs t)"
proof -
  define bs where "bs = bufs s"
  have len: "length bs = 31" and li: "linked (bnx bs) (bpv bs) 30 (rev [0..<k]) 30"
    and ff: "\<And>i. i < 31 \<Longrightarrow> bflags (bs ! i) = bflags (bs0 ! i) \<and> bdata (bs ! i) = bdata (bs0 ! i)"
    and dv: "\<And>i. i < k \<Longrightarrow> bdev (bs ! i) = - 1"
    using inv by (simp_all add: binit_inv_def bs_def)
  obtain n where n: "bnx bs 30 = Some n" "n \<in> insert 30 (set (rev [0..<k]))" using linked_ends(1) [OF li] by blast
  then have nk: "n \<noteq> k" "n < 31" using k by auto
  define bs1 where "bs1 = bs[k := (bs ! k)\<lparr>bnext := Some n\<rparr>]"
  define bs2 where "bs2 = bs1[k := (bs1 ! k)\<lparr>bprev := Some 30\<rparr>]"
  define bs3 where "bs3 = bs2[k := (bs2 ! k)\<lparr>bdev := - 1\<rparr>]"
  define bs4 where "bs4 = bs3[n := (bs3 ! n)\<lparr>bprev := Some k\<rparr>]"
  define bs5 where "bs5 = bs4[30 := (bs4 ! 30)\<lparr>bnext := Some k\<rparr>]"
  note defs = bs1_def bs2_def bs3_def bs4_def bs5_def
  have lens: "length bs1 = 31" "length bs2 = 31" "length bs3 = 31" "length bs4 = 31" "length bs5 = 31"
    by (simp_all add: defs len)
  have nx1: "bnx bs1 = (bnx bs)(k := Some n)" "bpv bs1 = bpv bs" using k len by (simp_all add: bs1_def links_update)
  have nx2: "bnx bs2 = bnx bs1" "bpv bs2 = (bpv bs1)(k := Some 30)" using k lens by (simp_all add: bs2_def links_update)
  have nx3: "bnx bs3 = bnx bs2" "bpv bs3 = bpv bs2"
    by (auto simp: bs3_def bnx_def bpv_def fun_eq_iff nth_update_field [where f = bnext] nth_update_field [where f = bprev])
  have nx4: "bnx bs4 = bnx bs3" "bpv bs4 = (bpv bs3)(n := Some k)" using nk lens by (simp_all add: bs4_def links_update)
  have nx5: "bnx bs5 = (bnx bs)(k := Some n, 30 := Some k)" "bpv bs5 = (bpv bs)(k := Some 30, n := Some k)"
    using lens nx1 nx2 nx3 nx4 by (simp_all add: bs5_def links_update)
  have "linked (bnx bs5) (bpv bs5) 30 (k # rev [0..<k]) 30"
    unfolding nx5 by (rule linked_push [OF li _ _ _ _ n(1)]) (use k in auto)
  moreover have "bflags (bs5 ! i) = bflags (bs ! i)" "bdata (bs5 ! i) = bdata (bs ! i)"
    "bdev (bs5 ! i) = (if i = k then - 1 else bdev (bs ! i))" for i
    unfolding defs using k len
    by (simp_all add: nth_update_field [where f = bflags] nth_update_field [where f = bdata] nth_update_field [where f = bdev])
  ultimately have inv5: "binit_inv bs0 (Suc k) bs5" using lens ff dv by (simp add: binit_inv_def less_Suc_eq)
  have look: "bnext (bs ! 30) = Some n" "bnext (bs3 ! 30) = Some n"
    using n nx1 nx2 nx3 k by (simp_all add: bnx_def [symmetric])
  have "binit_one k s = Done () (s\<lparr>bufs := bs5\<rparr>)"
    by (simp add: binit_one_def bs_def [symmetric] look defs [symmetric])
  with inv5 show ?thesis by (intro exI [of _ "s\<lparr>bufs := bs5\<rparr>"]) simp
qed

lemma binit_loop:
  assumes "k + n = 30" "binit_inv bs0 k (bufs s)"
  shows "\<exists>t. kforeach binit_one [k..<30] s = Done () t \<and> t = s\<lparr>bufs := bufs t\<rparr> \<and> binit_inv bs0 30 (bufs t)"
  using assms
proof (induction n arbitrary: k s)
  case 0
  then show ?case by (intro exI [of _ s]) simp
next
  case (Suc n)
  then have k: "k < 30" by simp
  obtain u where u: "binit_one k s = Done () u" "u = s\<lparr>bufs := bufs u\<rparr>" "binit_inv bs0 (Suc k) (bufs u)"
    using binit_one_run [OF Suc.prems(2) k] by blast
  obtain t where t: "kforeach binit_one [Suc k..<30] u = Done () t" "t = u\<lparr>bufs := bufs t\<rparr>" "binit_inv bs0 30 (bufs t)"
    using Suc.IH [OF _ u(3)] Suc.prems(1) by auto
  have "t = s\<lparr>bufs := bufs t\<rparr>" using t(2) u(2) by (cases s; cases t; cases u) simp
  moreover have "kforeach binit_one [k..<30] s = Done () t" using u(1) t(1) k by (simp add: upt_conv_Cons)
  ultimately show ?case using t(3) by blast
qed

lemma binit_is:
  assumes len: "length (bufs s) = 31" and fl: "\<And>i. i < 30 \<Longrightarrow> bflags (bufs s ! i) = 0 \<and> length (bdata (bufs s ! i)) = BSIZE"
    and dk: "\<And>d. d \<in> set (memdisk s) \<Longrightarrow> length d = BSIZE"
  shows "\<exists>t. binit s = Done () t \<and> cache_is t (\<lambda>c. memdisk s ! unat c) (memdisk s) {} {} \<and> t = s\<lparr>held := held s - {L_bcache}, bufs := bufs t\<rparr>"
proof -
  define bs1 where "bs1 = (bufs s)[30 := (bufs s ! 30)\<lparr>bprev := Some 30\<rparr>]"
  define bs2 where "bs2 = bs1[30 := (bs1 ! 30)\<lparr>bnext := Some 30\<rparr>]"
  define u where "u = s\<lparr>held := held s - {L_bcache}, bufs := bs2\<rparr>"
  have lens: "length bs1 = 31" "length bs2 = 31" by (simp_all add: bs1_def bs2_def len)
  have "bnx bs2 30 = Some 30" "bpv bs2 30 = Some 30"
    using lens len by (simp_all add: bs2_def links_update) (simp_all add: bs1_def links_update)
  moreover have f2: "bflags (bs2 ! i) = bflags (bufs s ! i)" "bdata (bs2 ! i) = bdata (bufs s ! i)" for i
    by (simp_all add: bs2_def bs1_def nth_update_field [where f = bflags] nth_update_field [where f = bdata])
  ultimately have i0: "binit_inv (bufs s) 0 (bufs u)" using lens by (simp add: binit_inv_def u_def)
  obtain t where t: "kforeach binit_one [0..<30] u = Done () t" "t = u\<lparr>bufs := bufs t\<rparr>" "binit_inv (bufs s) 30 (bufs t)"
    using binit_loop [OF _ i0, of 30] by auto
  have run: "binit s = Done () t" using t(1) by (simp add: binit_def u_def bs1_def bs2_def)
  have ts: "t = s\<lparr>held := held s - {L_bcache}, bufs := bufs t\<rparr>" using t(2) by (cases s; cases t) (simp add: u_def)
  then have mt: "memdisk t = memdisk s" by (cases s; cases t) simp
  have T: "length (bufs t) = 31" "linked (bnx (bufs t)) (bpv (bufs t)) 30 (rev [0..<30]) 30"
    "\<And>i. i < 30 \<Longrightarrow> bflags (bufs t ! i) = 0 \<and> length (bdata (bufs t ! i)) = 512 \<and> bdev (bufs t ! i) = - 1"
    using t(3) fl by (simp_all add: binit_inv_def)
  have "lru (bufs t) (rev [0..<30])" using T(1,2) by (auto simp: lru_def)
  moreover have "bc_ok t" using T(3) dk by (auto simp: bc_ok_def mt)
  moreover have nh: "\<not> holds_block t i c" for i c using T(3) by (auto simp: holds_block_def)
  moreover have "bview t c = memdisk s ! unat c" for c using bview_disk [of t c] nh mt by simp
  ultimately have "cache_is t (\<lambda>c. memdisk s ! unat c) (memdisk s) {} {}"
    using T(3) by (auto simp: cache_is_def bc_inv_def dblocks_def mt fun_eq_iff)
  with run ts show ?thesis by blast
qed

section \<open>Properties\<close>

text \<open>C8: the buffer cache implements a map from block numbers to contents. \<^verbatim>\<open>bread\<close> returns a buffer with the contents
  of the block, \<^verbatim>\<open>bwrite\<close> makes the disk agree with them, \<^verbatim>\<open>brelse\<close> gives the buffer back, and none of them changes the
  contents of any block, whichever buffer is recycled. Recycling never fails while fewer than \<^verbatim>\<open>NBUF\<close> blocks
  are dirty or in use.\<close>

theorem buffer_cache_refines_map:
  assumes "cache_is s V M D H" "L_bcache \<notin> held s" "L_ptable \<notin> held s"
  shows "(\<forall>c. unat c < length M \<and> c \<notin> snd ` H \<and> (c \<in> D \<or> card (D \<union> snd ` H) < NBUF) \<longrightarrow>
        (\<exists>i t. bread 1 c s = Done i t \<and> cache_is t V M D (insert (i, c) H) \<and> bdata (bufs t ! i) = V c))
     \<and> (\<forall>i c. (i, c) \<in> H \<longrightarrow>
        (\<exists>t. bwrite i s = Done () t \<and> cache_is t V (M[unat c := V c]) (D - {c}) H))
     \<and> (\<forall>i c. (i, c) \<in> H \<and> (c \<in> D \<or> V c = M ! unat c) \<longrightarrow>
        (\<exists>t. brelse i s = Done () t \<and> cache_is t V M D (H - {(i, c)})))"
proof (intro conjI allI impI)
  fix c assume c: "unat c < length M \<and> c \<notin> snd ` H \<and> (c \<in> D \<or> card (D \<union> snd ` H) < NBUF)"
  then obtain i t where t: "bread 1 c s = Done i t" "cache_is t V M D (insert (i, c) H)"
    using bread_is [OF assms(1,2)] by blast
  moreover from cache_is_data [OF t(2)] have "bdata (bufs t ! i) = V c" by simp
  ultimately show "\<exists>i t. bread 1 c s = Done i t \<and> cache_is t V M D (insert (i, c) H) \<and> bdata (bufs t ! i) = V c" by blast
next
  fix i c assume "(i, c) \<in> H"
  from bwrite_is [OF assms(1) this]
  show "\<exists>t. bwrite i s = Done () t \<and> cache_is t V (M[unat c := V c]) (D - {c}) H" by blast
next
  fix i c assume "(i, c) \<in> H \<and> (c \<in> D \<or> V c = M ! unat c)"
  with brelse_is [OF assms(1) _ assms(2,3)]
  show "\<exists>t. brelse i s = Done () t \<and> cache_is t V M D (H - {(i, c)})" by blast
qed

text \<open>A machine with an empty cache and a disk of eight zero blocks.\<close>

definition boot_buf :: buf where
  "boot_buf = \<lparr>bflags = 0, bdev = 0, blockno = 0, bprev = None, bnext = None, qnext = None, bdata = replicate 512 0\<rparr>"

definition boot_bcache :: bcache where
  "boot_bcache = mxtab.extend mx_boot \<lparr>bufs = replicate 31 boot_buf, memdisk = replicate 8 (replicate 512 0), writes = []\<rparr>"

lemma boot_bcache_sel: "bufs boot_bcache = replicate 31 boot_buf" "memdisk boot_bcache = replicate 8 (replicate 512 0)"
  "held boot_bcache = {}"
  using mx_boot_sel(4) by (simp_all add: boot_bcache_def mxtab.defs)

lemma boot_bcache_init:
  "\<exists>t. binit boot_bcache = Done () t \<and> cache_is t (\<lambda>c. replicate 8 (replicate 512 0) ! unat c) (replicate 8 (replicate 512 0)) {} {}
     \<and> t = boot_bcache\<lparr>held := {}, bufs := bufs t\<rparr>"
  using binit_is [of boot_bcache] by (simp add: boot_bcache_sel boot_buf_def)

theorem buffer_cache_refines_map_witness:
  "\<exists>s i t. binit boot_bcache = Done () s \<and> bread 1 3 s = Done i t \<and> bdata (bufs t ! i) = replicate 512 0"
proof -
  let ?M = "replicate 8 (replicate 512 0) :: block list"
  obtain s where s: "binit boot_bcache = Done () s" "cache_is s (\<lambda>c. ?M ! unat c) ?M {} {}" "s = boot_bcache\<lparr>held := {}, bufs := bufs s\<rparr>"
    using boot_bcache_init by blast
  have h: "held s = {}" by (subst s(3)) simp
  have three: "unat (3::uint) = 3" by simp
  have "\<exists>i t. bread 1 3 s = Done i t \<and> cache_is t (\<lambda>c. ?M ! unat c) ?M {} {(i, 3)} \<and> bdata (bufs t ! i) = ?M ! unat (3::uint)"
    using buffer_cache_refines_map [OF s(2)] h by simp
  then obtain i t where "bread 1 3 s = Done i t" "bdata (bufs t ! i) = ?M ! unat (3::uint)" by blast
  then show ?thesis using s(1) three by (intro exI [of _ s] exI [of _ i] exI [of _ t]) simp
qed

end
