(* ===== verification/Log.thy ===== *)
theory Log
  imports Cache
begin

text \<open>
  The log (\<^verbatim>\<open>log.c\<close>): group commit of the file-system calls, the redo log on the disk and recovery after a crash.
  The disk is the list of its blocks and remembers the history of the writes to it; a crash leaves the disk with the
  effect of a prefix of the history, each block written as a whole. Block numbers in the log header are kept as the 32-bit words C stores;
  \<^verbatim>\<open>log.lh.n\<close> and the other \<^verbatim>\<open>int\<close> fields are integers.
\<close>

section \<open>State\<close>

abbreviation (input) MAXOPBLOCKS :: int where "MAXOPBLOCKS \<equiv> 10"
abbreviation (input) LOGSIZE :: nat where "LOGSIZE \<equiv> 30"

record superblock =
  sb_size :: uint
  sb_nblocks :: uint
  sb_ninodes :: uint
  sb_nlog :: uint
  sb_logstart :: uint
  sb_inodestart :: uint
  sb_bmapstart :: uint

record logst = bcache +
  lstart :: int
  lsize :: int
  outstanding :: int
  committing :: int
  ldev :: int
  lhn :: int
  lhblock :: "uint list"

text \<open>The super block from the bytes of block 1.\<close>

definition sb_of :: "block \<Rightarrow> superblock" where
  "sb_of d = \<lparr>sb_size = get32 d 0, sb_nblocks = get32 d 4, sb_ninodes = get32 d 8, sb_nlog = get32 d 12,
     sb_logstart = get32 d 16, sb_inodestart = get32 d 20, sb_bmapstart = get32 d 24\<rparr>"

section \<open>Operations\<close>

definition readsb :: "uint \<Rightarrow> 'a bcache_scheme \<Rightarrow> (superblock, 'a bcache_scheme) outcome" where
  "readsb dev =
     kbind (bread dev 1) (\<lambda>bp.
     kbind (kget (\<lambda>s. sb_of (buf_data s bp))) (\<lambda>sb.
     kseq (brelse bp) (kret sb)))"

text \<open>Access to \<^verbatim>\<open>log.lh.block[i]\<close>.\<close>

definition lh_at :: "nat \<Rightarrow> (uint \<Rightarrow> 'a logst_scheme \<Rightarrow> ('b, 'a logst_scheme) outcome) \<Rightarrow> 'a logst_scheme \<Rightarrow> ('b, 'a logst_scheme) outcome" where
  "lh_at i f s = (if i < LOGSIZE then f (lhblock s ! i) s else Fault ''log.lh.block'')"

definition set_lh :: "nat \<Rightarrow> uint \<Rightarrow> 'a logst_scheme \<Rightarrow> (unit, 'a logst_scheme) outcome" where
  "set_lh i b s = (if i < LOGSIZE then Done () (s\<lparr>lhblock := (lhblock s)[i := b]\<rparr>) else Fault ''log.lh.block'')"

text \<open>Reading a block of the log's device.\<close>

definition log_bread :: "uint \<Rightarrow> 'a logst_scheme \<Rightarrow> (nat, 'a logst_scheme) outcome" where
  "log_bread b s = bread (of_int (ldev s)) b s"

definition log_block :: "int \<Rightarrow> 'a logst_scheme \<Rightarrow> (nat, 'a logst_scheme) outcome" where
  "log_block k s = log_bread (of_int (lstart s + k)) s"

definition install_one :: "nat \<Rightarrow> 'a logst_scheme \<Rightarrow> (unit, 'a logst_scheme) outcome" where
  "install_one tail =
     kbind (log_block (int tail + 1)) (\<lambda>lbuf.
     kbind (lh_at tail log_bread) (\<lambda>dbuf.
     kseq (\<lambda>s. Done () (set_data dbuf (buf_data s lbuf) s))
    (kseq (bwrite dbuf)
    (kseq (brelse lbuf)
          (brelse dbuf)))))"

definition install_trans :: "'a logst_scheme \<Rightarrow> (unit, 'a logst_scheme) outcome" where
  "install_trans s = kforeach install_one [0..<nat (lhn s)] s"

definition read_head_one :: "nat \<Rightarrow> nat \<Rightarrow> 'a logst_scheme \<Rightarrow> (unit, 'a logst_scheme) outcome" where
  "read_head_one b i s = set_lh i (get32 (buf_data s b) (4 + 4 * i)) s"

definition read_head :: "'a logst_scheme \<Rightarrow> (unit, 'a logst_scheme) outcome" where
  "read_head =
     kbind (log_block 0) (\<lambda>b.
     kseq (kmod (\<lambda>s. s\<lparr>lhn := sint (get32 (buf_data s b) 0)\<rparr>))
    (kseq (\<lambda>s. kforeach (read_head_one b) [0..<nat (lhn s)] s)
          (brelse b)))"

definition write_head_one :: "nat \<Rightarrow> nat \<Rightarrow> 'a logst_scheme \<Rightarrow> (unit, 'a logst_scheme) outcome" where
  "write_head_one b i = lh_at i (\<lambda>v s. Done () (set_data b (put32 (4 + 4 * i) v (buf_data s b)) s))"

definition write_head :: "'a logst_scheme \<Rightarrow> (unit, 'a logst_scheme) outcome" where
  "write_head =
     kbind (log_block 0) (\<lambda>b.
     kseq (\<lambda>s. Done () (set_data b (put32 0 (of_int (lhn s)) (buf_data s b)) s))
    (kseq (\<lambda>s. kforeach (write_head_one b) [0..<nat (lhn s)] s)
    (kseq (bwrite b)
          (brelse b))))"

definition recover_from_log :: "'a logst_scheme \<Rightarrow> (unit, 'a logst_scheme) outcome" where
  "recover_from_log =
     kseq read_head
    (kseq install_trans
    (kseq (kmod (\<lambda>s. s\<lparr>lhn := 0\<rparr>))
          write_head))"

text \<open>\<^verbatim>\<open>sizeof(struct logheader)\<close> is \<open>4 + 4 * LOGSIZE\<close>.\<close>

definition initlog :: "int \<Rightarrow> 'a logst_scheme \<Rightarrow> (unit, 'a logst_scheme) outcome" where
  "initlog dev =
     (if BSIZE \<le> 4 + 4 * LOGSIZE then kpanic ''initlog: too big logheader'' else
      kseq (initlock L_log)
     (kbind (readsb (of_int dev)) (\<lambda>sb.
      kseq (kmod (\<lambda>s. s\<lparr>lstart := sint (sb_logstart sb)\<rparr>))
     (kseq (kmod (\<lambda>s. s\<lparr>lsize := sint (sb_nlog sb)\<rparr>))
     (kseq (kmod (\<lambda>s. s\<lparr>ldev := dev\<rparr>))
           recover_from_log)))))"

text \<open>The loop of \<^verbatim>\<open>begin_op\<close>, from its test on.\<close>

definition begin_op_loop :: "'a logst_scheme \<Rightarrow> (unit, 'a logst_scheme) outcome" where
  "begin_op_loop s =
     (if committing s \<noteq> 0 then sleep Ch_log (Some L_log) s
      else if int LOGSIZE < lhn s + (outstanding s + 1) * MAXOPBLOCKS then sleep Ch_log (Some L_log) s
      else kseq (kmod (\<lambda>s. s\<lparr>outstanding := outstanding s + 1\<rparr>)) (release L_log) s)"

definition begin_op :: "'a logst_scheme \<Rightarrow> (unit, 'a logst_scheme) outcome" where
  "begin_op = kseq (acquire L_log) begin_op_loop"

definition begin_op_resume :: "'a logst_scheme \<Rightarrow> (unit, 'a logst_scheme) outcome" where
  "begin_op_resume = kseq (sleep_resume L_log) begin_op_loop"

definition write_log_one :: "nat \<Rightarrow> 'a logst_scheme \<Rightarrow> (unit, 'a logst_scheme) outcome" where
  "write_log_one tail =
     kbind (log_block (int tail + 1)) (\<lambda>to.
     kbind (lh_at tail log_bread) (\<lambda>from.
     kseq (\<lambda>s. Done () (set_data to (buf_data s from) s))
    (kseq (bwrite to)
    (kseq (brelse from)
          (brelse to)))))"

definition write_log :: "'a logst_scheme \<Rightarrow> (unit, 'a logst_scheme) outcome" where
  "write_log s = kforeach write_log_one [0..<nat (lhn s)] s"

definition commit :: "'a logst_scheme \<Rightarrow> (unit, 'a logst_scheme) outcome" where
  "commit s = kwhen (0 < lhn s)
     (kseq write_log
     (kseq write_head
     (kseq install_trans
     (kseq (kmod (\<lambda>s. s\<lparr>lhn := 0\<rparr>))
           write_head)))) s"

definition end_op :: "'a logst_scheme \<Rightarrow> (unit, 'a logst_scheme) outcome" where
  "end_op =
     kseq (acquire L_log)
    (kseq (kmod (\<lambda>s. s\<lparr>outstanding := outstanding s - 1\<rparr>))
    (\<lambda>s. if committing s \<noteq> 0 then Panic ''log.committing''
         else if outstanding s = 0 then
           kseq (kmod (\<lambda>s. s\<lparr>committing := 1\<rparr>))
          (kseq (release L_log)
          (kseq commit
          (kseq (acquire L_log)
          (kseq (kmod (\<lambda>s. s\<lparr>committing := 0\<rparr>))
          (kseq (wakeup Ch_log)
                (release L_log)))))) s
         else kseq (wakeup Ch_log) (release L_log) s))"

text \<open>The loop of \<^verbatim>\<open>log_write\<close> stops at the first entry for the block, or behind the last one.\<close>

definition absorb :: "uint \<Rightarrow> 'a logst_scheme \<Rightarrow> nat" where
  "absorb b s = (case find_idx (\<lambda>c. c = b) (take (nat (lhn s)) (lhblock s)) of None \<Rightarrow> nat (lhn s) | Some i \<Rightarrow> i)"

definition log_write :: "nat \<Rightarrow> 'a logst_scheme \<Rightarrow> (unit, 'a logst_scheme) outcome" where
  "log_write b s =
     (if int LOGSIZE \<le> lhn s \<or> lsize s - 1 \<le> lhn s then Panic ''too big a transaction''
      else if outstanding s < 1 then Panic ''log_write outside of trans''
      else kseq (acquire L_log)
          (kbind (kget (absorb (blockno (bufs s ! b)))) (\<lambda>i.
           kseq (set_lh i (blockno (bufs s ! b)))
          (kseq (\<lambda>s. kwhen (int i = lhn s) (kmod (\<lambda>s. s\<lparr>lhn := lhn s + 1\<rparr>)) s)
          (kseq (upd_buf b (\<lambda>x. x\<lparr>bflags := bflags x OR B_DIRTY\<rparr>))
                (release L_log))))) s)"


section \<open>Histories of disk writes\<close>

definition apply_writes :: "block list \<Rightarrow> (nat \<times> block) list \<Rightarrow> block list" where
  "apply_writes M ws = fold (\<lambda>(b, d) M. M[b := d]) ws M"

text \<open>The contents of the blocks after the writes.\<close>

definition after :: "(uint \<Rightarrow> block) \<Rightarrow> (nat \<times> block) list \<Rightarrow> uint \<Rightarrow> block" where
  "after V ws c = (case map_of (rev ws) (unat c) of None \<Rightarrow> V c | Some d \<Rightarrow> d)"

lemma apply_writes_simps [simp]:
  "apply_writes M [] = M" "apply_writes M ((b, d) # ws) = apply_writes (M[b := d]) ws"
  "apply_writes M (ws @ vs) = apply_writes (apply_writes M ws) vs"
  by (simp_all add: apply_writes_def)

lemma length_apply_writes [simp]: "length (apply_writes M ws) = length M"
  by (induction ws arbitrary: M) auto

lemma nth_apply_writes:
  "b < length M \<Longrightarrow> apply_writes M ws ! b = (case map_of (rev ws) b of None \<Rightarrow> M ! b | Some d \<Rightarrow> d)"
  by (induction ws arbitrary: M) (auto simp: map_add_def nth_list_update split: option.splits)

lemma apply_writes_other: "b < length M \<Longrightarrow> b \<notin> fst ` set ws \<Longrightarrow> apply_writes M ws ! b = M ! b"
  by (simp add: nth_apply_writes map_of_eq_None_iff image_image split: option.splits)
    (metis fst_conv image_eqI map_of_SomeD not_None_eq set_rev)

lemma after_simps [simp]: "after V [] = V" "after V ((unat x, d) # ws) = after (V(x := d)) ws"
  by (auto simp: after_def fun_eq_iff map_add_def word_unat_eq_iff split: option.splits)

lemma apply_writes_blocks:
  assumes "\<forall>d \<in> set M. length d = n" "\<forall>(b, d) \<in> set ws. length d = n"
  shows "\<forall>d \<in> set (apply_writes M ws). length d = n"
  using assms
proof (induction ws arbitrary: M)
  case (Cons w ws)
  obtain b d where w: "w = (b, d)" by (cases w)
  have "\<forall>e \<in> set (M[b := d]). length e = n"
    using Cons.prems by (auto simp: w dest: set_update_subset_insert [THEN subsetD])
  with Cons show ?case by (simp add: w)
qed simp

section \<open>Frames\<close>

lemma cache_is_cong:
  assumes "bufs t = bufs s" "memdisk t = memdisk s"
  shows "cache_is t = cache_is s"
  by (intro ext) (simp only: cache_is_def bc_inv_def bc_ok_def bview_def [abs_def] dblocks_def holds_block_def assms)

lemma bio_frame_log:
  assumes "bio_frame s t"
  shows "lstart t = lstart s" "lsize t = lsize s" "ldev t = ldev s" "lhn t = lhn s" "lhblock t = lhblock s"
    "outstanding t = outstanding s" "committing t = committing s"
  using assms by (cases s; cases t; simp add: bio_frame_def)+

lemma kbind_cong:
  assumes "m s = m' s" "\<And>a t. m' s = Done a t \<Longrightarrow> f a t = f' a t"
  shows "kbind m f s = kbind m' f' s"
  using assms by (cases "m' s") (simp_all add: kbind_def)

lemma kseq_cong:
  assumes "m s = m' s" "\<And>a t. m' s = Done a t \<Longrightarrow> f t = f' t"
  shows "kseq m f s = kseq m' f' s"
  unfolding kseq_def by (rule kbind_cong) (use assms in auto)

text \<open>The log starts at block \<open>L\<close> of disk 1 and holds \<open>hs\<close>, home blocks outside the log area that lie on the disk of \<open>m\<close> blocks.\<close>

definition log_at :: "nat \<Rightarrow> uint list \<Rightarrow> nat \<Rightarrow> 'a logst_scheme \<Rightarrow> bool" where
  "log_at L hs m s \<longleftrightarrow> ldev s = 1 \<and> lstart s = int L \<and> lhn s = int (length hs) \<and> length (lhblock s) = LOGSIZE
     \<and> take (length hs) (lhblock s) = hs \<and> length hs < LOGSIZE \<and> L + length hs < m \<and> m \<le> 2 ^ 31
     \<and> distinct hs \<and> (\<forall>h \<in> set hs. unat h < m \<and> (unat h < L \<or> L + LOGSIZE \<le> unat h))"

definition lb :: "nat \<Rightarrow> nat \<Rightarrow> uint" where
  "lb L k = of_nat (L + k)"

lemma unat_of_nat32: "n < 2 ^ 32 \<Longrightarrow> unat (of_nat n :: uint) = n"
  by (simp add: unsigned_of_nat take_bit_nat_eq_self)

lemma log_at_frame: "bio_frame s t \<Longrightarrow> log_at L hs m t = log_at L hs m s"
  unfolding log_at_def using bio_frame_log [of s t] by simp

lemma log_atD:
  assumes "log_at L hs m s"
  shows "k \<le> length hs \<Longrightarrow> unat (lb L k) = L + k" "k < length hs \<Longrightarrow> lhblock s ! k = hs ! k"
    "k \<le> length hs \<Longrightarrow> h \<in> set hs \<Longrightarrow> h \<noteq> lb L k" "k \<le> length hs \<Longrightarrow> unat (lb L k) < m"
    "k < length hs \<Longrightarrow> unat (hs ! k) < m" "j \<le> length hs \<Longrightarrow> k \<le> length hs \<Longrightarrow> lb L j = lb L k \<Longrightarrow> j = k"
proof -
  have A: "L + length hs < m" "m \<le> 2 ^ 31" "take (length hs) (lhblock s) = hs" "length hs < 30"
    "\<And>h. h \<in> set hs \<Longrightarrow> unat h < m \<and> (unat h < L \<or> L + 30 \<le> unat h)"
    using assms by (auto simp: log_at_def)
  show u: "unat (lb L k) = L + k" if "k \<le> length hs" for k
    unfolding lb_def by (rule unat_of_nat32) (use A that in simp)
  show "lhblock s ! k = hs ! k" if "k < length hs" using A(3) that by (metis nth_take)
  show "h \<noteq> lb L k" if "k \<le> length hs" "h \<in> set hs"
    using u [OF that(1)] A(5) [OF that(2)] A(4) that(1) by auto
  show "unat (lb L k) < m" if "k \<le> length hs" using u [OF that] A(1) that by simp
  show "unat (hs ! k) < m" if "k < length hs" using A(5) [of "hs ! k"] that by simp
  show "j = k" if "j \<le> length hs" "k \<le> length hs" "lb L j = lb L k"
  proof -
    have "L + j = L + k" using u [OF that(1)] u [OF that(2)] that(3) by metis
    then show ?thesis by simp
  qed
qed

lemma log_at_sel:
  assumes "log_at L hs m s"
  shows "ldev s = 1" "lstart s = int L" "lhn s = int (length hs)" "length (lhblock s) = 30" "length hs < 30" "distinct hs"
  using assms unfolding log_at_def by blast+

lemma log_block_run:
  assumes "log_at L hs m s"
  shows "log_block (int k) s = bread 1 (lb L k) s"
  using log_at_sel(1,2) [OF assms] by (simp add: log_block_def log_bread_def lb_def)

lemma lh_at_run:
  assumes "log_at L hs m s" "k < length hs"
  shows "lh_at k log_bread s = bread 1 (hs ! k) s"
  using assms(2) log_at_sel(1,5) [OF assms(1)] log_atD(2) [OF assms] by (simp add: lh_at_def log_bread_def)


section \<open>Copying blocks\<close>

text \<open>One turn of \<^verbatim>\<open>write_log\<close> copies a home block to the log, one turn of \<^verbatim>\<open>install_trans\<close> copies it back.\<close>

lemma log_step:
  assumes ca: "cache_is s V M D {}" and idle: "bio_idle s" and L: "log_at L hs (length M) s" and k: "k < length hs"
    and room: "card D < 30" "hs ! k \<in> D \<or> card D + 1 < 30"
  shows "\<exists>t. write_log_one k s = Done () t \<and> cache_is t (V(lb L (k + 1) := V (hs ! k))) (M[unat (lb L (k + 1)) := V (hs ! k)])
       (D - {lb L (k + 1)}) {} \<and> bio_frame s t \<and> writes t = writes s @ [(unat (lb L (k + 1)), V (hs ! k))]"
    and "\<exists>t. install_one k s = Done () t \<and> cache_is t (V(hs ! k := V (lb L (k + 1)))) (M[unat (hs ! k) := V (lb L (k + 1))])
       (D - {hs ! k}) {} \<and> bio_frame s t \<and> writes t = writes s @ [(unat (hs ! k), V (lb L (k + 1)))]"
proof -
  let ?x = "lb L (k + 1)" and ?y = "hs ! k"
  have x: "unat ?x < length M" "?x \<in> D \<or> card D < 30" using log_atD(4) [OF L, of "k + 1"] k room by simp_all
  have y: "unat ?y < length M" using log_atD(5) [OF L k] .
  have xy: "?x \<noteq> ?y" using log_atD(3) [OF L, of "k + 1" ?y] k by auto
  obtain i t where rd: "bread 1 ?x s = Done i t" "bio_frame s t"
    using bc.rd_law [OF ca idle x(1)] x(2) by auto
  have lbk: "log_block (int k + 1) s = bread 1 ?x s" using log_block_run [OF L, of "k + 1"] by (simp add: add.commute)
  have h: "lh_at k log_bread u = bread 1 ?y u" if "bread 1 ?x s = Done a u" for a u
    by (rule lh_at_run [OF _ k, of L "length M"]) (use that rd L log_at_frame [OF rd(2)] in auto)
  have "write_log_one k s = kbind (bread 1 ?x) (\<lambda>i. kbind (bread 1 ?y) (\<lambda>j. kseq (\<lambda>s. Done () (set_data i (buf_data s j) s))
       (kseq (bwrite i) (kseq (brelse j) (brelse i))))) s"
    unfolding write_log_one_def by (rule kbind_cong, rule lbk, rule kbind_cong, erule h, rule refl)
  with bc.copy_block(1) [OF ca idle x y room(2) xy]
  show "\<exists>t. write_log_one k s = Done () t \<and> cache_is t (V(?x := V ?y)) (M[unat ?x := V ?y])
       (D - {?x}) {} \<and> bio_frame s t \<and> writes t = writes s @ [(unat ?x, V ?y)]" by simp
  have "install_one k s = kbind (bread 1 ?x) (\<lambda>i. kbind (bread 1 ?y) (\<lambda>j. kseq (\<lambda>s. Done () (set_data j (buf_data s i) s))
       (kseq (bwrite j) (kseq (brelse i) (brelse j))))) s"
    unfolding install_one_def by (rule kbind_cong, rule lbk, rule kbind_cong, erule h, rule refl)
  with bc.copy_block(2) [OF ca idle x y room(2) xy]
  show "\<exists>t. install_one k s = Done () t \<and> cache_is t (V(?y := V ?x)) (M[unat ?y := V ?x])
       (D - {?y}) {} \<and> bio_frame s t \<and> writes t = writes s @ [(unat ?y, V ?x)]" by simp
qed

text \<open>A loop of such turns, from \<open>y k\<close> to \<open>x k\<close>.\<close>

lemma copy_loop:
  assumes step: "\<And>k s V M D. k \<in> set ks \<Longrightarrow> cache_is s V M D {} \<Longrightarrow> bio_idle s \<Longrightarrow> log_at L hs (length M) s
      \<Longrightarrow> card D < 30 \<Longrightarrow> hs ! k \<in> D \<or> card D + 1 < 30 \<Longrightarrow> \<exists>t. f k s = Done () t
        \<and> cache_is t (V(x k := V (y k))) (M[unat (x k) := V (y k)]) (D - {x k}) {} \<and> bio_frame s t
        \<and> writes t = writes s @ [(unat (x k), V (y k))]"
    and apart: "\<And>j k. j \<in> set ks \<Longrightarrow> k \<in> set ks \<Longrightarrow> y j \<noteq> x k" and ks: "distinct ks"
    and own: "\<And>j k. j \<in> set ks \<Longrightarrow> k \<in> set ks \<Longrightarrow> x j = hs ! k \<Longrightarrow> j = k"
    and ca: "cache_is s V M D {}" and idle: "bio_idle s" and L: "log_at L hs (length M) s"
    and room: "card D < 30" "\<And>k. k \<in> set ks \<Longrightarrow> hs ! k \<in> D \<or> card D + 1 < 30"
  shows "\<exists>t. kforeach f ks s = Done () t \<and> cache_is t (after V (map (\<lambda>k. (unat (x k), V (y k))) ks))
       (apply_writes M (map (\<lambda>k. (unat (x k), V (y k))) ks)) (D - x ` set ks) {} \<and> bio_frame s t
     \<and> writes t = writes s @ map (\<lambda>k. (unat (x k), V (y k))) ks"
  using step apart ks own ca idle L room
proof (induction ks arbitrary: s V M D)
  case Nil
  then show ?case by (intro exI [of _ s]) simp
next
  case (Cons k ks)
  have kk: "k \<in> set (k # ks)" by simp
  obtain u where u: "f k s = Done () u" "cache_is u (V(x k := V (y k))) (M[unat (x k) := V (y k)]) (D - {x k}) {}"
    "bio_frame s u" "writes u = writes s @ [(unat (x k), V (y k))]"
    using Cons.prems(1) [OF kk Cons.prems(5-8) Cons.prems(9) [OF kk]] by blast
  have fin: "finite D" using bc.finite_law [OF Cons.prems(5)] by simp
  have c: "card (D - {x k}) \<le> card D" by (rule card_mono [OF fin]) auto
  have same: "map (\<lambda>j. (unat (x j), (V(x k := V (y k))) (y j))) ks = map (\<lambda>j. (unat (x j), V (y j))) ks"
    using Cons.prems(2) by auto
  have "\<exists>t. kforeach f ks u = Done () t
     \<and> cache_is t (after (V(x k := V (y k))) (map (\<lambda>j. (unat (x j), (V(x k := V (y k))) (y j))) ks))
       (apply_writes (M[unat (x k) := V (y k)]) (map (\<lambda>j. (unat (x j), (V(x k := V (y k))) (y j))) ks))
       (D - {x k} - x ` set ks) {} \<and> bio_frame u t
     \<and> writes t = writes u @ map (\<lambda>j. (unat (x j), (V(x k := V (y k))) (y j))) ks"
  proof (rule Cons.IH [OF _ _ _ _ u(2)])
    show "\<exists>t. f j s' = Done () t \<and> cache_is t (V'(x j := V' (y j))) (M'[unat (x j) := V' (y j)]) (D' - {x j}) {}
        \<and> bio_frame s' t \<and> writes t = writes s' @ [(unat (x j), V' (y j))]"
      if "j \<in> set ks" "cache_is s' V' M' D' {}" "bio_idle s'" "log_at L hs (length M') s'" "card D' < 30"
        "hs ! j \<in> D' \<or> card D' + 1 < 30" for j s' V' M' D'
      by (rule Cons.prems(1) [OF _ that(2-6)]) (use that(1) in simp)
    show "y i \<noteq> x j" if "i \<in> set ks" "j \<in> set ks" for i j using Cons.prems(2) that by simp
    show "i = j" if "i \<in> set ks" "j \<in> set ks" "x i = hs ! j" for i j using Cons.prems(4) that by simp
    show "bio_idle u" using bc.frame_idle [OF u(3)] Cons.prems(6) by simp
    show "log_at L hs (length (M[unat (x k) := V (y k)])) u" using log_at_frame [OF u(3)] Cons.prems(7) by simp
    show "card (D - {x k}) < 30" using c Cons.prems(8) by simp
    show "hs ! j \<in> D - {x k} \<or> card (D - {x k}) + 1 < 30" if j: "j \<in> set ks" for j
    proof -
      have "j \<noteq> k" using Cons.prems(3) j by auto
      then have "x k \<noteq> hs ! j" using Cons.prems(4) [of k j] j by auto
      then show ?thesis using Cons.prems(9) [of j] j c by auto
    qed
  qed (use Cons.prems(3) in simp)
  then obtain t where t: "kforeach f ks u = Done () t"
    "cache_is t (after (V(x k := V (y k))) (map (\<lambda>j. (unat (x j), V (y j))) ks))
       (apply_writes (M[unat (x k) := V (y k)]) (map (\<lambda>j. (unat (x j), V (y j))) ks)) (D - {x k} - x ` set ks) {}"
    "bio_frame u t" "writes t = writes u @ map (\<lambda>j. (unat (x j), V (y j))) ks"
    unfolding same by blast
  have "D - {x k} - x ` set ks = D - x ` set (k # ks)" by auto
  moreover have "bio_frame s t" using u(3) t(3) bio_frame_trans by blast
  ultimately show ?case using u(1,4) t by (intro exI [of _ t]) simp
qed


section \<open>The header block\<close>

text \<open>The header that \<^verbatim>\<open>write_head\<close> writes over the block \<open>d\<close>.\<close>

definition head_of :: "uint list \<Rightarrow> block \<Rightarrow> block" where
  "head_of hs d = fold (\<lambda>i. put32 (4 + 4 * i) (hs ! i)) [0..<length hs] (put32 0 (of_nat (length hs)) d)"

lemma length_fold_put32 [simp]: "length (fold (\<lambda>i. put32 (f i) (g i)) is d) = length d"
  by (induction "is" arbitrary: d) auto

lemma length_head_of [simp]: "length (head_of hs d) = length d"
  by (simp add: head_of_def)

lemma get32_fold_apart:
  "(\<And>i. i \<in> set is \<Longrightarrow> k + 4 \<le> f i \<or> f i + 4 \<le> k) \<Longrightarrow> get32 (fold (\<lambda>i. put32 (f i) (g i)) is d) k = get32 d k"
  by (induction "is" arbitrary: d) (auto simp: get32_put32_apart)

lemma head_of_fields:
  assumes "4 + 4 * length hs \<le> length d"
  shows "get32 (head_of hs d) 0 = of_nat (length hs)" "i < length hs \<Longrightarrow> get32 (head_of hs d) (4 + 4 * i) = hs ! i"
proof -
  have "get32 (head_of hs d) 0 = get32 (put32 0 (of_nat (length hs)) d) 0"
    unfolding head_of_def by (rule get32_fold_apart) simp
  then show "get32 (head_of hs d) 0 = of_nat (length hs)" using assms by (simp add: get32_put32)
  assume i: "i < length hs"
  let ?f = "\<lambda>i. put32 (4 + 4 * i) (hs ! i)"
  have split: "[0..<length hs] = [0..<i] @ i # [Suc i..<length hs]"
    using i by (metis le_add_diff_inverse less_imp_le_nat plus_nat.add_0 upt_add_eq_append upt_conv_Cons zero_le)
  let ?d = "fold ?f [0..<i] (put32 0 (of_nat (length hs)) d)"
  have "get32 (head_of hs d) (4 + 4 * i) = get32 (fold ?f [Suc i..<length hs] (put32 (4 + 4 * i) (hs ! i) ?d)) (4 + 4 * i)"
    by (simp add: head_of_def split)
  also have "\<dots> = get32 (put32 (4 + 4 * i) (hs ! i) ?d) (4 + 4 * i)" by (rule get32_fold_apart) auto
  also have "\<dots> = hs ! i" by (rule get32_put32) (use assms i in simp)
  finally show "get32 (head_of hs d) (4 + 4 * i) = hs ! i" .
qed

lemma set_data_sel [simp]:
  "b < length (bufs s) \<Longrightarrow> buf_data (set_data b d s) b = d" "set_data b e (set_data b d s) = set_data b e s"
  "length (bufs (set_data b d s)) = length (bufs s)" "lhn (set_data b d u) = lhn u" "lhblock (set_data b d u) = lhblock u"
  by (simp_all add: set_data_def buf_data_def) (cases "b < length (bufs s)"; simp add: list_update_beyond not_less)

lemma write_head_loop:
  assumes "b < length (bufs s)" "\<And>i. i \<in> set is \<Longrightarrow> i < 30" "is \<noteq> []"
  shows "kforeach (write_head_one b) is s
    = Done () (set_data b (fold (\<lambda>i. put32 (4 + 4 * i) (lhblock s ! i)) is (buf_data s b)) s)"
  using assms
proof (induction "is" arbitrary: s)
  case (Cons i "is")
  show ?case
  proof (cases "is = []")
    case True
    with Cons.prems show ?thesis by (simp add: write_head_one_def lh_at_def)
  next
    case False
    with Cons show ?thesis by (simp add: write_head_one_def lh_at_def)
  qed
qed simp

lemma set_data_self: "b < length (bufs s) \<Longrightarrow> set_data b (buf_data s b) s = s"
  by (cases s) (simp add: set_data_def buf_data_def)

lemma write_head_run:
  assumes ca: "cache_is s V M D {}" and idle: "bio_idle s" and L: "log_at L hs (length M) s" and room: "card D < 30"
    and h: "e = head_of hs (V (lb L 0))"
  shows "\<exists>t. write_head s = Done () t \<and> cache_is t (V(lb L 0 := e)) (M[unat (lb L 0) := e]) (D - {lb L 0}) {}
     \<and> bio_frame s t \<and> writes t = writes s @ [(unat (lb L 0), e)]"
proof -
  have x: "unat (lb L 0) < length M" using log_atD(4) [OF L, of 0] by simp
  have len: "length (head_of hs (V (lb L 0))) = 512" using bc.length_law [OF ca x] by simp
  obtain i t where rd: "bread 1 (lb L 0) s = Done i t" "cache_is t V M D {(i, lb L 0)}" "bio_frame s t"
    using bc.rd_law [OF ca idle x] room by auto
  have il: "i < length (bufs t)" using cache_isD(3,8) [OF rd(2)] by auto
  have lt: "lhn t = int (length hs)" "\<And>k. k < length hs \<Longrightarrow> lhblock t ! k = hs ! k" "length hs < 30"
    using log_at_frame [OF rd(3)] L log_at_sel(3,5) [of L hs "length M" t] log_atD(2) [of L hs "length M" t] by simp_all
  have "kseq (\<lambda>s. Done () (set_data i (put32 0 (of_int (lhn s)) (buf_data s i)) s))
      (kseq (\<lambda>s. kforeach (write_head_one i) [0..<nat (lhn s)] s) (kseq (bwrite i) (brelse i))) t
    = kseq (\<lambda>s. Done () (set_data i (head_of hs (buf_data s i)) s)) (kseq (bwrite i) (brelse i)) t"
  proof (cases "hs = []")
    case True
    then show ?thesis using lt by (simp add: head_of_def)
  next
    case False
    let ?u = "set_data i (put32 0 (of_nat (length hs)) (buf_data t i)) t"
    have eq: "fold (\<lambda>k. put32 (4 + 4 * k) (lhblock t ! k)) [0..<length hs] d = fold (\<lambda>k. put32 (4 + 4 * k) (hs ! k)) [0..<length hs] d" for d
      by (rule fold_cong) (use lt(2) in auto)
    have "kforeach (write_head_one i) [0..<length hs] ?u = Done () (set_data i (head_of hs (buf_data t i)) t)"
      using write_head_loop [of i ?u "[0..<length hs]"] il lt(3) False eq by (simp add: head_of_def)
    then show ?thesis using lt by simp
  qed
  then have "write_head s = kbind (bread 1 (lb L 0)) (\<lambda>i. kseq (\<lambda>s. Done () (set_data i (head_of hs (buf_data s i)) s))
      (kseq (bwrite i) (brelse i))) s"
    unfolding write_head_def using rd(1) log_block_run [OF L, of 0] by simp
  with bc.write_block [where f = "head_of hs", OF ca idle x _ len] room show ?thesis unfolding h by simp
qed


section \<open>Committing\<close>

text \<open>The writes of the two copying loops.\<close>

definition log_writes :: "nat \<Rightarrow> uint list \<Rightarrow> (uint \<Rightarrow> block) \<Rightarrow> (nat \<times> block) list" where
  "log_writes L hs V = map (\<lambda>k. (unat (lb L (k + 1)), V (hs ! k))) [0..<length hs]"

definition home_writes :: "nat \<Rightarrow> uint list \<Rightarrow> (uint \<Rightarrow> block) \<Rightarrow> (nat \<times> block) list" where
  "home_writes L hs V = map (\<lambda>k. (unat (hs ! k), V (lb L (k + 1)))) [0..<length hs]"

lemma log_apart:
  assumes L: "log_at L hs m s" and jk: "j < length hs" "k < length hs"
  shows "hs ! j \<noteq> lb L (k + 1)"
  using log_atD(3) [OF L, of "k + 1" "hs ! j"] jk by simp

lemma write_log_run:
  assumes ca: "cache_is s V M D {}" and idle: "bio_idle s" and L: "log_at L hs (length M) s"
    and room: "card D < 30" "set hs \<subseteq> D \<or> card D + 1 < 30"
  shows "\<exists>t. write_log s = Done () t \<and> cache_is t (after V (log_writes L hs V)) (apply_writes M (log_writes L hs V))
       (D - (\<lambda>k. lb L (k + 1)) ` set [0..<length hs]) {}
     \<and> bio_frame s t \<and> writes t = writes s @ log_writes L hs V"
proof -
  have "\<exists>t. kforeach write_log_one [0..<length hs] s = Done () t \<and> cache_is t (after V (log_writes L hs V))
      (apply_writes M (log_writes L hs V)) (D - (\<lambda>k. lb L (k + 1)) ` set [0..<length hs]) {} \<and> bio_frame s t
      \<and> writes t = writes s @ log_writes L hs V"
    unfolding log_writes_def
  proof (rule copy_loop [OF _ _ _ _ ca idle L room(1)])
    show "\<exists>t. write_log_one k u = Done () t \<and> cache_is t (V'(lb L (k + 1) := V' (hs ! k))) (M'[unat (lb L (k + 1)) := V' (hs ! k)])
        (D' - {lb L (k + 1)}) {} \<and> bio_frame u t \<and> writes t = writes u @ [(unat (lb L (k + 1)), V' (hs ! k))]"
      if "k \<in> set [0..<length hs]" "cache_is u V' M' D' {}" "bio_idle u" "log_at L hs (length M') u" "card D' < 30"
        "hs ! k \<in> D' \<or> card D' + 1 < 30" for k u V' M' D'
      by (rule log_step(1) [OF that(2-4) _ that(5,6)]) (use that(1) in simp)
    show "hs ! j \<noteq> lb L (k + 1)" if "j \<in> set [0..<length hs]" "k \<in> set [0..<length hs]" for j k
      using log_apart [OF L, of j k] that by simp
    show "j = k" if "j \<in> set [0..<length hs]" "k \<in> set [0..<length hs]" "lb L (j + 1) = hs ! k" for j k
      using log_apart [OF L, of k j] that by simp
    show "hs ! k \<in> D \<or> card D + 1 < 30" if "k \<in> set [0..<length hs]" for k using room(2) that nth_mem [of k hs] by auto
  qed simp
  then show ?thesis using log_at_sel(3) [OF L] by (simp add: write_log_def)
qed

lemma install_run:
  assumes ca: "cache_is s V M D {}" and idle: "bio_idle s" and L: "log_at L hs (length M) s"
    and room: "card D < 30" "set hs \<subseteq> D \<or> card D + 1 < 30"
  shows "\<exists>t. install_trans s = Done () t \<and> cache_is t (after V (home_writes L hs V)) (apply_writes M (home_writes L hs V))
       (D - set hs) {} \<and> bio_frame s t \<and> writes t = writes s @ home_writes L hs V"
proof -
  have "\<exists>t. kforeach install_one [0..<length hs] s = Done () t \<and> cache_is t (after V (home_writes L hs V))
      (apply_writes M (home_writes L hs V)) (D - (\<lambda>k. hs ! k) ` set [0..<length hs]) {} \<and> bio_frame s t
      \<and> writes t = writes s @ home_writes L hs V"
    unfolding home_writes_def
  proof (rule copy_loop [OF _ _ _ _ ca idle L room(1)])
    show "\<exists>t. install_one k u = Done () t \<and> cache_is t (V'(hs ! k := V' (lb L (k + 1)))) (M'[unat (hs ! k) := V' (lb L (k + 1))])
        (D' - {hs ! k}) {} \<and> bio_frame u t \<and> writes t = writes u @ [(unat (hs ! k), V' (lb L (k + 1)))]"
      if "k \<in> set [0..<length hs]" "cache_is u V' M' D' {}" "bio_idle u" "log_at L hs (length M') u" "card D' < 30"
        "hs ! k \<in> D' \<or> card D' + 1 < 30" for k u V' M' D'
      by (rule log_step(2) [OF that(2-4) _ that(5,6)]) (use that(1) in simp)
    show "lb L (j + 1) \<noteq> hs ! k" if "j \<in> set [0..<length hs]" "k \<in> set [0..<length hs]" for j k
      using log_apart [OF L, of k j] that by simp
    show "j = k" if "j \<in> set [0..<length hs]" "k \<in> set [0..<length hs]" "hs ! j = hs ! k" for j k
      using log_at_sel(6) [OF L] that by (simp add: nth_eq_iff_index_eq)
    show "hs ! k \<in> D \<or> card D + 1 < 30" if "k \<in> set [0..<length hs]" for k using room(2) that nth_mem [of k hs] by auto
  qed simp
  moreover have "(\<lambda>k. hs ! k) ` set [0..<length hs] = set hs" by (simp only: set_map [symmetric] map_nth)
  ultimately show ?thesis using log_at_sel(3) [OF L] by (simp add: install_trans_def)
qed

lemma log_at_nil:
  assumes "log_at L hs m s" "t = s\<lparr>lhn := 0\<rparr>"
  shows "log_at L [] m t"
  using assms unfolding log_at_def by simp

lemma after_other: "unat c \<notin> fst ` set ws \<Longrightarrow> after V ws c = V c"
  by (simp add: after_def map_of_eq_None_iff split: option.splits) (metis fst_conv image_eqI map_of_SomeD set_rev)

lemma after_append: "after V (ws @ vs) = after (after V ws) vs"
  by (auto simp: fun_eq_iff after_def map_add_def split: option.splits)

text \<open>The four groups of writes of a commit: the log blocks, the header, the home blocks, the empty header.\<close>

lemma commit_run:
  assumes ca: "cache_is s V M (set hs) {}" and idle: "bio_idle s" and L: "log_at L hs (length M) s" and ne: "hs \<noteq> []"
    and e: "e = head_of hs (V (lb L 0))" "e0 = head_of [] e"
    and ws: "ws = log_writes L hs V @ [(L, e)] @ map (\<lambda>h. (unat h, V h)) hs @ [(L, e0)]"
  shows "\<exists>t. commit s = Done () t \<and> cache_is t (after V ws) (apply_writes M ws) {} {} \<and> writes t = writes s @ ws
     \<and> lhn t = 0 \<and> bio_frame (s\<lparr>lhn := 0\<rparr>) t"
proof -
  have n: "length hs < 30" "lhn s = int (length hs)" using log_at_sel(3,5) [OF L] by simp_all
  have dist: "distinct hs" by (rule log_at_sel(6) [OF L])
  have card: "card (set hs) < 30" using n(1) distinct_card [OF dist] by simp
  have u0: "unat (lb L 0) = L" using log_atD(1) [OF L, of 0] by simp
  have notlog: "lb L k \<notin> set hs" if "k \<le> length hs" for k using log_atD(3) [OF L that] by blast
  let ?W = "log_writes L hs V"
  obtain t1 where 1: "write_log s = Done () t1" "cache_is t1 (after V ?W) (apply_writes M ?W) (set hs) {}"
    "bio_frame s t1" "writes t1 = writes s @ ?W"
  proof -
    have "set hs - (\<lambda>k. lb L (k + 1)) ` set [0..<length hs] = set hs" using notlog by force
    then show thesis using write_log_run [OF ca idle L card] that by auto
  qed
  have fW: "fst ` set ?W = (\<lambda>k. L + (k + 1)) ` {0..<length hs}"
    using log_atD(1) [OF L] by (force simp: log_writes_def)
  have V0: "after V ?W (lb L 0) = V (lb L 0)" by (rule after_other) (auto simp: fW u0)
  have L1: "log_at L hs (length (apply_writes M ?W)) t1" using log_at_frame [OF 1(3)] L by simp
  have i1: "bio_idle t1" using bc.frame_idle [OF 1(3)] idle by simp
  obtain t2 where 2: "write_head t1 = Done () t2" "cache_is t2 ((after V ?W)(lb L 0 := e)) ((apply_writes M ?W)[L := e]) (set hs) {}"
    "bio_frame t1 t2" "writes t2 = writes t1 @ [(L, e)]"
    using write_head_run [OF 1(2) i1 L1 card refl] notlog [of 0] unfolding V0 e(1) [symmetric] u0 by auto
  have L2: "log_at L hs (length ((apply_writes M ?W)[L := e])) t2" using log_at_frame [OF 2(3)] L1 by simp
  have i2: "bio_idle t2" using bc.frame_idle [OF 2(3)] i1 by simp
  define V2 where "V2 = (after V ?W)(lb L 0 := e)"
  have lbV: "V2 (lb L (k + 1)) = V (hs ! k)" if k: "k < length hs" for k
  proof -
    have "lb L (k + 1) \<noteq> lb L 0" using log_atD(6) [OF L, of "k + 1" 0] k by auto
    moreover have "map_of (rev ?W) (unat (lb L (k + 1))) = Some (V (hs ! k))"
    proof (rule map_of_is_SomeI)
      have "inj_on (\<lambda>k. unat (lb L (k + 1))) {0..<length hs}"
        using log_atD(1) [OF L] by (auto simp: inj_on_def)
      then show "distinct (map fst (rev ?W))" by (simp add: log_writes_def rev_map [symmetric] distinct_map comp_def)
      show "(unat (lb L (k + 1)), V (hs ! k)) \<in> set (rev ?W)" using k by (auto simp: log_writes_def)
    qed
    ultimately show ?thesis by (simp add: after_def V2_def)
  qed
  have hw: "home_writes L hs V2 = map (\<lambda>h. (unat h, V h)) hs"
    unfolding home_writes_def using lbV by (intro nth_equalityI) simp_all
  let ?H = "map (\<lambda>h. (unat h, V h)) hs"
  obtain t3 where 3: "install_trans t2 = Done () t3" "cache_is t3 (after V2 ?H) (apply_writes ((apply_writes M ?W)[L := e]) ?H) {} {}"
    "bio_frame t2 t3" "writes t3 = writes t2 @ ?H"
    using install_run [OF 2(2) [folded V2_def] i2 L2 card] unfolding hw by auto
  let ?u = "t3\<lparr>lhn := 0\<rparr>"
  have c3: "cache_is ?u (after V2 ?H) (apply_writes ((apply_writes M ?W)[L := e]) ?H) {} {}"
    using 3(2) cache_is_cong [of ?u t3] by simp
  have i3: "bio_idle ?u" using bc.frame_idle [OF 3(3)] i2 by (simp add: bio_idle_def)
  have L3: "log_at L [] (length (apply_writes ((apply_writes M ?W)[L := e]) ?H)) ?u"
    using log_at_nil [OF _ refl, of L hs _ t3] log_at_frame [OF 3(3)] L2 by simp
  have Vh: "after V2 ?H (lb L 0) = e"
  proof -
    have "unat (lb L 0) \<notin> fst ` set ?H"
    proof
      assume "unat (lb L 0) \<in> fst ` set ?H"
      then obtain h where "h \<in> set hs" "unat (lb L 0) = unat h" by auto
      then show False using notlog [of 0] by (simp add: word_unat_eq_iff [symmetric])
    qed
    then show ?thesis by (simp add: after_other V2_def)
  qed
  obtain t4 where 4: "write_head ?u = Done () t4"
    "cache_is t4 ((after V2 ?H)(lb L 0 := e0)) ((apply_writes ((apply_writes M ?W)[L := e]) ?H)[L := e0]) {} {}"
    "bio_frame ?u t4" "writes t4 = writes ?u @ [(L, e0)]"
    using write_head_run [OF c3 i3 L3 _ refl] unfolding Vh e(2) [symmetric] u0 by auto
  have vs: "(after V2 ?H)(lb L 0 := e0) = after V ws"
  proof -
    have "after X [(L, d)] = X(lb L 0 := d)" for X d using after_simps(2) [of X "lb L 0" d "[]"] u0 by simp
    then show ?thesis unfolding ws after_append V2_def by simp
  qed
  have ms: "(apply_writes ((apply_writes M ?W)[L := e]) ?H)[L := e0] = apply_writes M ws"
    unfolding ws by simp
  have run: "commit s = Done () t4" using n ne 1(1) 2(1) 3(1) 4(1) by (simp add: commit_def)
  have "bio_frame (s\<lparr>lhn := 0\<rparr>) ?u"
    using bio_frame_trans [OF bio_frame_trans [OF 1(3) 2(3)] 3(3)] by (cases s; cases t3) (simp add: bio_frame_def)
  then have "bio_frame (s\<lparr>lhn := 0\<rparr>) t4" using 4(3) bio_frame_trans by blast
  moreover have "lhn t4 = 0" using bio_frame_log(4) [OF 4(3)] by simp
  moreover have "writes t4 = writes s @ ws" using 1(4) 2(4) 3(4) 4(4) by (simp add: ws)
  ultimately show ?thesis using run 4(2) vs ms by auto
qed


section \<open>Recording updates\<close>

text \<open>The blocks in the log after an update of block \<open>c\<close>.\<close>

definition logged :: "uint \<Rightarrow> uint list \<Rightarrow> uint list" where
  "logged c hs = (if c \<in> set hs then hs else hs @ [c])"

lemma set_logged [simp]: "set (logged c hs) = insert c (set hs)"
  by (auto simp: logged_def)

lemma absorb_run:
  assumes L: "log_at L hs m s"
  shows "c \<in> set hs \<Longrightarrow> absorb c s < length hs \<and> hs ! absorb c s = c" "c \<notin> set hs \<Longrightarrow> absorb c s = length hs"
proof -
  have t: "take (nat (lhn s)) (lhblock s) = hs" and n: "lhn s = int (length hs)" using L by (simp_all add: log_at_def)
  show "absorb c s < length hs \<and> hs ! absorb c s = c" if "c \<in> set hs"
  proof (cases "find_idx (\<lambda>d. d = c) hs")
    case None
    with that show ?thesis by (auto simp: find_idx_None_iff)
  next
    case (Some i)
    then show ?thesis using find_idx_bound [OF Some] find_idx_holds [OF Some] t by (simp add: absorb_def)
  qed
  show "absorb c s = length hs" if "c \<notin> set hs"
  proof -
    have "find_idx (\<lambda>d. d = c) hs = None" using that by (auto simp: find_idx_None_iff)
    then show ?thesis using t n by (simp add: absorb_def)
  qed
qed

lemma take_snoc_update:
  assumes "take n xs = ys" "n < length xs"
  shows "take (Suc n) (xs[n := c]) = ys @ [c]"
  using assms by (auto simp: take_Suc_conv_app_nth take_update_swap list_update_append)

lemma log_at_logged:
  assumes L: "log_at L hs m s" and c: "unat c < m" "unat c < L \<or> L + 30 \<le> unat c" and n: "Suc (length hs) < 30" "L + Suc (length hs) < m"
    and t: "lhn t = int (length (logged c hs))" "lhblock t = (lhblock s)[absorb c s := c]" "ldev t = ldev s" "lstart t = lstart s"
  shows "log_at L (logged c hs) m t"
proof (cases "c \<in> set hs")
  case True
  note A = absorb_run(1) [OF L True]
  have l: "lhblock s ! absorb c s = c" using log_atD(2) [OF L, of "absorb c s"] A by simp
  then have "lhblock t = lhblock s" using t(2) by (metis list_update_id)
  with L t True show ?thesis by (simp add: log_at_def logged_def)
next
  case False
  note A = absorb_run(2) [OF L False]
  have "take (length hs) (lhblock s) = hs" "length hs < length (lhblock s)" using L by (simp_all add: log_at_def)
  from take_snoc_update [OF this] have "take (Suc (length hs)) (lhblock t) = hs @ [c]" by (simp add: t(2) A)
  with L t False c n A show ?thesis by (auto simp: log_at_def logged_def)
qed

lemma log_write_run:
  assumes ca: "cache_is s V M (set hs) H" and i: "(i, c) \<in> H" and L: "log_at L hs (length M) s"
    and lk: "L_log \<notin> held s" and out: "1 \<le> outstanding s" and sz: "int (length hs) < lsize s - 1" "lsize s \<le> 30"
    and c: "unat c < L \<or> L + 30 \<le> unat c" and fit: "L + 30 \<le> length M"
  shows "\<exists>t. log_write i s = Done () t \<and> cache_is t V M (set (logged c hs)) H \<and> log_at L (logged c hs) (length M) t
     \<and> t = s\<lparr>bufs := bufs t, lhn := lhn t, lhblock := lhblock t\<rparr> \<and> memdisk t = memdisk s"
proof -
  have I: "holds_block s i c" "i < 30" "valid s i" using cache_isD(8) [OF ca i] by simp_all
  have b: "blockno (bufs s ! i) = c" using I(1) by (simp add: holds_block_def)
  have cm: "unat c < length M"
    using bc_okD(4) [OF cache_isD(2) [OF ca] I(2,3)] b cache_isD(5) [OF ca] by simp
  have n: "lhn s = int (length hs)" "length hs < 29" using log_at_sel(3) [OF L] sz by simp_all
  define k where "k = absorb c s"
  have kb: "k \<le> length hs" "k = length hs \<longleftrightarrow> c \<notin> set hs"
    using absorb_run [OF L, of c] unfolding k_def by (cases "c \<in> set hs"; auto)+
  define t where "t = s\<lparr>bufs := (bufs s)[i := (bufs s ! i)\<lparr>bflags := bflags (bufs s ! i) OR 4\<rparr>],
      lhn := int (length (logged c hs)), lhblock := (lhblock s)[k := c]\<rparr>"
  have same: "absorb c (s\<lparr>held := insert L_log (held s)\<rparr>) = k" by (simp add: k_def absorb_def split: option.split)
  have run: "log_write i s = Done () t"
  proof (cases "c \<in> set hs")
    case True
    then have "k < length hs" "logged c hs = hs" using kb by (auto simp: logged_def)
    with n sz out lk kb b same show ?thesis by (cases s) (simp add: log_write_def set_lh_def t_def)
  next
    case False
    then have "k = length hs" "length (logged c hs) = length hs + 1" using kb by (auto simp: logged_def)
    with n sz out lk kb b same show ?thesis by (cases s) (simp add: log_write_def set_lh_def t_def)
  qed
  have "cache_is t V M (insert c (set hs)) H"
    using set_dirty_is [OF ca i] cache_is_cong [of t "s\<lparr>bufs := (bufs s)[i := (bufs s ! i)\<lparr>bflags := bflags (bufs s ! i) OR 4\<rparr>]\<rparr>"]
    by (simp add: t_def)
  moreover have "log_at L (logged c hs) (length M) t"
    by (rule log_at_logged [OF L cm c]) (use n fit in \<open>simp_all add: t_def k_def\<close>)
  ultimately show ?thesis using run by (intro exI [of _ t]) (simp add: t_def)
qed

section \<open>Contents of the disk after the writes of a commit\<close>

lemma fst_log_writes:
  assumes "log_at L hs m s"
  shows "fst ` set (log_writes L hs V) = (\<lambda>k. L + (k + 1)) ` {0..<length hs}"
  using log_atD(1) [OF assms] by (force simp: log_writes_def)

lemma log_writes_nth:
  assumes L: "log_at L hs m s" and k: "k < length hs" and M: "length M = m" "\<And>k. k < length hs \<Longrightarrow> L + k + 1 \<notin> fst ` set ws"
  shows "apply_writes M (log_writes L hs V @ ws) ! (L + k + 1) = V (hs ! k)"
proof -
  have b: "L + k + 1 < length M" "unat (lb L (k + 1)) = L + k + 1"
    using log_atD(1,4) [OF L, of "k + 1"] k M(1) by simp_all
  have "map_of (rev (log_writes L hs V)) (L + k + 1) = Some (V (hs ! k))"
  proof (rule map_of_is_SomeI)
    have "inj_on (\<lambda>k. unat (lb L (k + 1))) {0..<length hs}" using log_atD(1) [OF L] by (auto simp: inj_on_def)
    then show "distinct (map fst (rev (log_writes L hs V)))" by (simp add: log_writes_def rev_map [symmetric] distinct_map comp_def)
    show "(L + k + 1, V (hs ! k)) \<in> set (rev (log_writes L hs V))"
      using k b(2) unfolding log_writes_def set_rev set_map by (intro image_eqI [of _ _ k]) simp_all
  qed
  then have "apply_writes M (log_writes L hs V) ! (L + k + 1) = V (hs ! k)" using b(1) by (simp add: nth_apply_writes)
  then show ?thesis using apply_writes_other [of "L + k + 1" "apply_writes M (log_writes L hs V)" ws] b(1) M(2) [OF k] by simp
qed

lemma home_writes_nth:
  fixes V :: "uint \<Rightarrow> block"
  assumes "distinct hs" "b < length M" and V: "\<And>c. c \<notin> set hs \<Longrightarrow> unat c < length M \<Longrightarrow> unat c = b \<Longrightarrow> M ! unat c = V c"
    and m: "length M \<le> 2 ^ 31"
  shows "apply_writes M (map (\<lambda>h. (unat h, V h)) hs) ! b = V (of_nat b)"
proof -
  have u: "unat (of_nat b :: uint) = b" by (rule unat_of_nat32) (use assms(2) m in simp)
  have inj: "inj_on unat (set hs)" by (auto simp: inj_on_def word_unat_eq_iff)
  have d: "distinct (map fst (rev (map (\<lambda>h. (unat h, V h)) hs)))"
    using assms(1) inj by (simp add: rev_map [symmetric] distinct_map comp_def)
  show ?thesis
  proof (cases "of_nat b \<in> set hs")
    case True
    then have "(b, V (of_nat b)) \<in> set (rev (map (\<lambda>h. (unat h, V h)) hs))"
      unfolding set_rev set_map by (intro image_eqI [of _ _ "of_nat b"]) (simp_all only: u)
    then have "map_of (rev (map (\<lambda>h. (unat h, V h)) hs)) b = Some (V (of_nat b))" by (rule map_of_is_SomeI [OF d])
    then show ?thesis using assms(2) by (simp add: nth_apply_writes)
  next
    case False
    have "b \<notin> fst ` set (map (\<lambda>h. (unat h, V h)) hs)"
    proof
      assume "b \<in> fst ` set (map (\<lambda>h. (unat h, V h)) hs)"
      then obtain h where "h \<in> set hs" "b = unat h" by auto
      with u False show False by (simp add: word_unat_eq_iff [symmetric])
    qed
    then show ?thesis using apply_writes_other [OF assms(2)] V [OF False] assms(2) u by simp
  qed
qed

lemma map_take_over:
  assumes "b < length M"
  shows "apply_writes (apply_writes M (take j ws)) ws ! b = apply_writes M ws ! b"
proof (cases "map_of (rev ws) b")
  case None
  then have "b \<notin> fst ` set ws" by (simp add: map_of_eq_None_iff image_image)
  moreover from this have "b \<notin> fst ` set (take j ws)" using set_take_subset [of j ws] by force
  ultimately show ?thesis using assms by (simp add: apply_writes_other)
qed (use assms in \<open>simp add: nth_apply_writes\<close>)


text \<open>What the operations of the log leave alone.\<close>

definition log_frame :: "'a logst_scheme \<Rightarrow> 'a logst_scheme \<Rightarrow> bool" where
  "log_frame s t \<longleftrightarrow> t = s\<lparr>procs := procs t, bufs := bufs t, memdisk := memdisk t, writes := writes t,
     lhn := lhn t, lhblock := lhblock t\<rparr>"

lemma log_frame_trans: "log_frame s t \<Longrightarrow> log_frame t u \<Longrightarrow> log_frame s u"
  by (cases s; cases t; cases u) (simp add: log_frame_def)

lemma log_frame_bio: "bio_frame s t \<Longrightarrow> log_frame s t"
  by (cases s; cases t) (simp add: log_frame_def bio_frame_def)

lemma log_frame_sel:
  assumes "log_frame s t"
  shows "held t = held s" "lsize t = lsize s" "outstanding t = outstanding s" "committing t = committing s"
  using assms by (cases s; cases t; simp add: log_frame_def)+

text \<open>The pattern of the file system: read a block, change it, log it, release it.\<close>

lemma logged_update:
  assumes ca: "cache_is s V M (set hs) {}" and idle: "bio_idle s" "L_log \<notin> held s" and L: "log_at L hs (length M) s"
    and out: "1 \<le> outstanding s" and sz: "int (length hs) < lsize s - 1" "lsize s \<le> 30" and fit: "L + 30 \<le> length M"
    and c: "unat c < length M" "unat c < L \<or> L + 30 \<le> unat c" and f: "length (f (V c)) = BSIZE"
  shows "\<exists>t. kbind (bread 1 c) (\<lambda>i. kseq (\<lambda>s. Done () (set_data i (f (buf_data s i)) s)) (kseq (log_write i) (brelse i))) s = Done () t
     \<and> cache_is t (V(c := f (V c))) M (set (logged c hs)) {} \<and> log_at L (logged c hs) (length M) t \<and> log_frame s t"
proof -
  have room: "card (set hs) < 30" using sz card_length [of hs] by linarith
  obtain i t1 where 1: "bread 1 c s = Done i t1" "cache_is t1 V M (set hs) {(i, c)}" "bio_frame s t1"
    using bc.rd_law [OF ca idle(1) c(1)] room by auto
  have d1: "buf_data t1 i = V c" by (rule bc.dat_law [OF 1(2)]) simp
  define t2 where "t2 = set_data i (f (V c)) t1"
  have 2: "cache_is t2 (V(c := f (V c))) M (set hs) {(i, c)}" "bio_frame t1 t2"
    using bc.put_law [OF 1(2) _ f, of i] by (simp_all add: t2_def)
  have f2: "bio_frame s t2" using bio_frame_trans [OF 1(3) 2(2)] .
  note F = bio_frame_log [OF f2] bio_frame_held [OF f2]
  have L2: "log_at L hs (length M) t2" using log_at_frame [OF f2] L by simp
  obtain t3 where 3: "log_write i t2 = Done () t3" "cache_is t3 (V(c := f (V c))) M (set (logged c hs)) {(i, c)}"
    "log_at L (logged c hs) (length M) t3" "t3 = t2\<lparr>bufs := bufs t3, lhn := lhn t3, lhblock := lhblock t3\<rparr>"
    using log_write_run [OF 2(1) _ L2 _ _ _ _ c(2) fit, of i] idle(2) out sz F by auto
  have f3: "log_frame t2 t3" using 3(4) by (cases t2; cases t3) (simp add: log_frame_def)
  have i3: "bio_idle t3" using idle(1) log_frame_sel(1) [OF f3] F by (simp add: bio_idle_def)
  obtain t4 where 4: "brelse i t3 = Done () t4" "cache_is t4 (V(c := f (V c))) M (set (logged c hs)) {}" "bio_frame t3 t4"
    using bc.rl_law [OF 3(2) i3, of i c] by auto
  have "log_at L (logged c hs) (length M) t4" using log_at_frame [OF 4(3)] 3(3) by simp
  moreover have "log_frame s t4" using log_frame_trans log_frame_bio f2 f3 4(3) by blast
  ultimately show ?thesis using 1(1) 3(1) 4 d1 by (intro exI [of _ t4]) (simp add: t2_def)
qed

section \<open>Beginning and ending an operation\<close>

text \<open>C7: a file-system call that ends while others are active does not write to the disk; the last one commits. After it
  no block is dirty, every block outside the log area (the \<^verbatim>\<open>LOGSIZE\<close> blocks from \<open>L\<close> on, the header first) has its last logged contents on the disk, the log is empty, and no
  operation or commit is marked as running.\<close>

theorem end_op_commits:
  assumes ca: "cache_is s V M (set hs) {}" and idle: "held s = {}" and L: "log_at L hs (length M) s"
    and st: "committing s = 0" "1 \<le> outstanding s"
  shows "\<exists>t. end_op s = Done () t \<and> held t = {} \<and> committing t = 0 \<and> outstanding t = outstanding s - 1
     \<and> (if outstanding s = 1
        then lhn t = 0 \<and> cache_is t (\<lambda>c. memdisk t ! unat c) (memdisk t) {} {}
          \<and> (\<forall>c. unat c < length M \<and> (unat c < L \<or> L + LOGSIZE \<le> unat c) \<longrightarrow> memdisk t ! unat c = V c)
        else cache_is t V M (set hs) {} \<and> writes t = writes s \<and> log_at L hs (length M) t)"
proof (cases "outstanding s = 1")
  case False
  let ?t = "s\<lparr>outstanding := outstanding s - 1, procs := map (\<lambda>p. p\<lparr>pthreads := map (wake Ch_log) (pthreads p)\<rparr>) (procs s)\<rparr>"
  have "end_op s = Done () ?t"
    using False st idle by (cases s) (simp add: end_op_def wakeup_run)
  moreover have "cache_is ?t V M (set hs) {}" using ca cache_is_cong [of ?t s] by simp
  moreover have "log_at L hs (length M) ?t" using L by (simp add: log_at_def)
  ultimately show ?thesis using False st idle by (intro exI [of _ ?t]) simp
next
  case True
  define u where "u = s\<lparr>outstanding := 0, committing := 1\<rparr>"
  have cu: "cache_is u V M (set hs) {}" using ca cache_is_cong [of u s] by (simp add: u_def)
  have Lu: "log_at L hs (length M) u" using L by (simp add: log_at_def u_def)
  have iu: "bio_idle u" using idle by (simp add: bio_idle_def u_def)
  have mm: "length M \<le> 2 ^ 31" using L by (simp add: log_at_def)
  obtain v where v: "commit u = Done () v" "lhn v = 0" "bio_frame (u\<lparr>lhn := 0\<rparr>) v"
    and vc: "cache_is v (\<lambda>c. memdisk v ! unat c) (memdisk v) {} {}"
    and vd: "\<And>c. unat c < length M \<Longrightarrow> unat c < L \<or> L + 30 \<le> unat c \<Longrightarrow> memdisk v ! unat c = V c"
  proof (cases "hs = []")
    case True
    have Vm: "V c = M ! unat c" for c using bc.clean_law [OF cu, of c] True by simp
    then have "V = (\<lambda>c. M ! unat c)" by auto
    moreover have "lhn u = 0" using log_at_sel(3) [OF Lu] True by simp
    moreover have "memdisk u = M" by (rule cache_isD(5) [OF cu])
    moreover from calculation(2) have "bio_frame (u\<lparr>lhn := 0\<rparr>) u" by (cases u) (simp add: bio_frame_def)
    ultimately show thesis using that [of u] cu True by (simp add: commit_def)
  next
    case False
    define e where "e = head_of hs (V (lb L 0))"
    define e0 where "e0 = head_of [] e"
    define ws where "ws = log_writes L hs V @ [(L, e)] @ map (\<lambda>h. (unat h, V h)) hs @ [(L, e0)]"
    obtain v where v: "commit u = Done () v" "cache_is v (after V ws) (apply_writes M ws) {} {}" "lhn v = 0" "bio_frame (u\<lparr>lhn := 0\<rparr>) v"
      using commit_run [OF cu iu Lu False e_def e0_def ws_def] by blast
    have vm: "memdisk v = apply_writes M ws" by (rule cache_isD(5) [OF v(2)])
    have av: "after V ws c = memdisk v ! unat c" for c using bc.clean_law [OF v(2), of c] vm by simp
    have "memdisk v ! unat c = V c" if c: "unat c < length M" "unat c < L \<or> L + 30 \<le> unat c" for c
    proof -
      let ?M = "(apply_writes M (log_writes L hs V))[L := e]"
      have nb: "unat c \<notin> fst ` set (log_writes L hs V)" "unat c \<noteq> L"
        using c(2) log_at_sel(5) [OF Lu] fst_log_writes [OF Lu, of V] by auto
      have "apply_writes ?M (map (\<lambda>h. (unat h, V h)) hs) ! unat c = V (of_nat (unat c))"
      proof (rule home_writes_nth [OF log_at_sel(6) [OF Lu]])
        fix d assume "d \<notin> set hs" "unat d = unat c"
        then show "?M ! unat d = V d" using bc.clean_law [OF cu, of d] nb c(1) by (simp add: apply_writes_other)
      qed (use c(1) mm in simp_all)
      then show ?thesis using nb(2) by (simp add: vm ws_def)
    qed
    with v av vm show thesis using that [of v] by (metis (no_types, lifting) ext)
  qed
  have fr: "held v = {}" "committing v = 1" "outstanding v = 0"
    using bio_frame_held [OF v(3)] bio_frame_log [OF v(3)] idle by (simp_all add: u_def)
  let ?t = "v\<lparr>committing := 0, procs := map (\<lambda>p. p\<lparr>pthreads := map (wake Ch_log) (pthreads p)\<rparr>) (procs v)\<rparr>"
  have "end_op s = kseq commit (kseq (acquire L_log) (kseq (kmod (\<lambda>s. s\<lparr>committing := 0\<rparr>)) (kseq (wakeup Ch_log) (release L_log)))) u"
    using True st idle by (cases s) (simp add: end_op_def u_def)
  also have "\<dots> = Done () ?t" using v(1) fr(1) by (cases v) (simp add: wakeup_run)
  finally have run: "end_op s = Done () ?t" .
  have "cache_is ?t (\<lambda>c. memdisk ?t ! unat c) (memdisk ?t) {} {}" using vc cache_is_cong [of ?t v] by simp
  with run v(2) vd fr True show ?thesis by (intro exI [of _ ?t]) simp
qed

text \<open>A disk of 40 blocks with a super block that puts the log at block 2, the cache initialised, one operation active.\<close>

definition log_img :: "block list" where
  "log_img = (replicate 40 (replicate 512 0))[1 := put32 16 2 (replicate 512 0)]"

definition boot_log :: logst where
  "boot_log = bcache.extend (boot_bcache\<lparr>memdisk := log_img\<rparr>)
     \<lparr>lstart = 2, lsize = 30, outstanding = 1, committing = 0, ldev = 1, lhn = 0, lhblock = replicate 30 0\<rparr>"

lemma log_img_length: "length log_img = 40" "d \<in> set log_img \<Longrightarrow> length d = 512"
  by (auto simp: log_img_def dest!: set_update_subset_insert [THEN subsetD])

lemma boot_log_sel: "bufs boot_log = replicate 31 boot_buf" "memdisk boot_log = log_img" "held boot_log = {}" "lhblock boot_log = replicate 30 0"
  "lstart boot_log = 2" "lsize boot_log = 30" "outstanding boot_log = 1" "committing boot_log = 0" "ldev boot_log = 1" "lhn boot_log = 0"
  using boot_bcache_sel by (simp_all add: boot_log_def bcache.defs)

lemma boot_log_init:
  "\<exists>s. binit boot_log = Done () s \<and> cache_is s (\<lambda>c. log_img ! unat c) log_img {} {} \<and> log_at 2 [] 40 s \<and> held s = {}
     \<and> lsize s = 30 \<and> outstanding s = 1 \<and> committing s = 0 \<and> length (lhblock s) = 30"
proof -
  obtain s where s: "binit boot_log = Done () s" "cache_is s (\<lambda>c. log_img ! unat c) log_img {} {}"
    "s = boot_log\<lparr>held := held boot_log - {L_bcache}, bufs := bufs s\<rparr>"
    using binit_is [of boot_log] log_img_length(2) by (auto simp: boot_log_sel boot_buf_def)
  have "log_at 2 [] 40 s" "held s = {}" "lsize s = 30" "outstanding s = 1" "committing s = 0" "length (lhblock s) = 30"
    by (subst s(3), simp add: log_at_def boot_log_sel)+
  with s show ?thesis by blast
qed

text \<open>One update of block 35, logged.\<close>

definition demo_update :: "'a logst_scheme \<Rightarrow> (unit, 'a logst_scheme) outcome" where
  "demo_update = kbind (bread 1 35) (\<lambda>i. kseq (\<lambda>s. Done () (set_data i (put32 0 7 (buf_data s i)) s)) (kseq (log_write i) (brelse i)))"

definition demo_view :: "uint \<Rightarrow> block" where
  "demo_view = (\<lambda>c. log_img ! unat c)(35 := put32 0 7 (replicate 512 0))"

lemma demo_update_run:
  "\<exists>s t. binit boot_log = Done () s \<and> demo_update s = Done () t \<and> cache_is t demo_view log_img {35} {} \<and> log_at 2 [35] 40 t
     \<and> held t = {} \<and> committing t = 0 \<and> outstanding t = 1"
proof -
  obtain s where s: "binit boot_log = Done () s" "cache_is s (\<lambda>c. log_img ! unat c) log_img (set []) {}" "log_at 2 [] (length log_img) s"
    "held s = {}" "lsize s = 30" "outstanding s = 1" "committing s = 0"
    using boot_log_init log_img_length(1) by auto
  have b: "log_img ! unat (35::uint) = replicate 512 0" by (simp add: log_img_def)
  obtain t where t: "demo_update s = Done () t" "cache_is t ((\<lambda>c. log_img ! unat c)(35 := put32 0 7 (log_img ! unat (35::uint)))) log_img (set (logged 35 [])) {}"
    "log_at 2 (logged 35 []) (length log_img) t" "log_frame s t"
    using logged_update [where f = "put32 0 7", OF s(2) _ _ s(3), of 35] s b log_img_length(1)
    by (auto simp: bio_idle_def demo_update_def)
  have "cache_is t demo_view log_img {35} {}" using t(2) b by (simp add: demo_view_def logged_def)
  moreover have "log_at 2 [35] 40 t" using t(3) log_img_length(1) by (simp add: logged_def)
  ultimately show ?thesis using s t(1) log_frame_sel [OF t(4)] by auto
qed

theorem end_op_commits_witness:
  "\<exists>s t u. binit boot_log = Done () s \<and> demo_update s = Done () t \<and> end_op t = Done () u \<and> lhn u = 0
     \<and> memdisk u ! 35 = put32 0 7 (replicate 512 0)"
proof -
  obtain s t where t: "binit boot_log = Done () s" "demo_update s = Done () t" "cache_is t demo_view log_img (set [35]) {}"
    "log_at 2 [35] (length log_img) t" "held t = {}" "committing t = 0" "outstanding t = 1"
    using demo_update_run log_img_length(1) by auto
  have e: "\<exists>u. end_op t = Done () u \<and> held u = {} \<and> committing u = 0 \<and> outstanding u = outstanding t - 1
     \<and> (if outstanding t = 1
        then lhn u = 0 \<and> cache_is u (\<lambda>c. memdisk u ! unat c) (memdisk u) {} {}
          \<and> (\<forall>c. unat c < length log_img \<and> (unat c < 2 \<or> 2 + LOGSIZE \<le> unat c) \<longrightarrow> memdisk u ! unat c = demo_view c)
        else cache_is u demo_view log_img (set [35]) {} \<and> writes u = writes t \<and> log_at 2 [35] (length log_img) u)"
    by (rule end_op_commits [OF t(3,5,4,6)]) (simp add: t(7))
  then obtain u where u: "end_op t = Done () u" "lhn u = 0"
    "\<forall>c. unat c < length log_img \<and> (unat c < 2 \<or> 2 + LOGSIZE \<le> unat c) \<longrightarrow> memdisk u ! unat c = demo_view c"
    using t(7) by auto
  from u(3) [rule_format, of 35] log_img_length(1) have "memdisk u ! 35 = put32 0 7 (replicate 512 0)" by (simp add: demo_view_def)
  with t(1,2) u(1,2) show ?thesis by blast
qed

text \<open>C30: the reservation of log space is one block too generous for a log of \<^verbatim>\<open>LOGSIZE\<close> blocks with its header. \<^verbatim>\<open>begin_op\<close> admits
  a third operation while two others are active on an empty log, promising \<^verbatim>\<open>MAXOPBLOCKS\<close> blocks to each; yet \<^verbatim>\<open>log_write\<close>
  of any block panics once 29 blocks are in the log, whichever block it is.\<close>

theorem log_reservation_short:
  assumes "held s = {}" "committing s = 0" "lhn s = 0" "lsize s = 30" "outstanding s = 2"
  shows "(\<exists>t. begin_op s = Done () t \<and> outstanding t = 3 \<and> lsize t = 30)
     \<and> (\<forall>u b. lsize u = 30 \<and> lhn u = 3 * MAXOPBLOCKS - 1 \<longrightarrow> log_write b u = Panic ''too big a transaction'')"
  using assms by (cases s) (simp add: begin_op_def begin_op_loop_def log_write_def)

theorem log_reservation_short_witness:
  "\<exists>t. begin_op (boot_log\<lparr>outstanding := 2\<rparr>) = Done () t \<and> outstanding t = 3"
  using log_reservation_short [of "boot_log\<lparr>outstanding := 2\<rparr>"] boot_log_sel by auto

end
