(* ===== verification/Recovery.thy ===== *)
theory Recovery
  imports Log
begin

text \<open>
  Recovery of the log after a crash (\<^verbatim>\<open>recover_from_log\<close>, \<^verbatim>\<open>initlog\<close> of \<^verbatim>\<open>log.c\<close>, defined in the theory Log): what recovery does to a disk
  with a given log header, and the atomicity of a commit against a crash after any of its disk writes.
\<close>

section \<open>Recovering\<close>

lemma read_head_loop:
  assumes "length (lhblock s) = 30" "n \<le> 30"
  shows "kforeach (read_head_one b) [0..<n] s
    = Done () (s\<lparr>lhblock := map (\<lambda>i. get32 (buf_data s b) (4 + 4 * i)) [0..<n] @ drop n (lhblock s)\<rparr>)"
  using assms(2)
proof (induction n)
  case 0
  then show ?case by simp
next
  case (Suc n)
  let ?f = "\<lambda>i. get32 (buf_data s b) (4 + 4 * i)"
  have "(map ?f [0..<n] @ drop n (lhblock s))[n := ?f n] = map ?f [0..<Suc n] @ drop (Suc n) (lhblock s)"
    using Suc.prems assms(1) by (simp add: list_update_append Cons_nth_drop_Suc [symmetric])
  then show ?case
    using Suc by (simp add: kforeach_append read_head_one_def set_lh_def buf_data_def)
qed

lemma head_nat: "n < 2 ^ 31 \<Longrightarrow> sint (of_nat n :: uint) = int n"
  by (simp add: signed_of_nat signed_take_bit_int_eq_self)

lemma read_head_run:
  assumes ca: "cache_is s V M D {}" and idle: "bio_idle s" and L: "log_at L [] (length M) (s\<lparr>lhn := 0\<rparr>)" and room: "card D < 30"
    and h: "get32 (V (lb L 0)) 0 = of_nat (length hs)" "\<And>k. k < length hs \<Longrightarrow> get32 (V (lb L 0)) (4 + 4 * k) = hs ! k"
    and hs: "length hs < 30" "L + length hs < length M" "distinct hs"
      "\<And>c. c \<in> set hs \<Longrightarrow> unat c < length M \<and> (unat c < L \<or> L + 30 \<le> unat c)"
  shows "\<exists>t. read_head s = Done () t \<and> cache_is t V M D {} \<and> bio_idle t \<and> log_at L hs (length M) t \<and> writes t = writes s"
proof -
  have ub: "unat (lb L 0) < length M" using log_atD(4) [OF L, of 0] by simp
  obtain i t where 1: "bread 1 (lb L 0) s = Done i t" "cache_is t V M D {(i, lb L 0)}" "bio_frame s t" "writes t = writes s"
    using bc.rd_law [OF ca idle ub] room by auto
  have G: "ldev t = 1" "lstart t = int L" "length (lhblock t) = 30" "length M \<le> 2 ^ 31"
    using log_at_sel(1,2,4) [OF L] bio_frame_log [OF 1(3)] L by (simp_all add: log_at_def)
  have lbk: "log_block 0 s = bread 1 (lb L 0) s"
    using G(1,2) bio_frame_log [OF 1(3)] by (simp add: log_block_def log_bread_def lb_def)
  have d: "buf_data t i = V (lb L 0)" by (rule bc.dat_law [OF 1(2)]) simp
  define u where "u = t\<lparr>lhn := int (length hs), lhblock := hs @ drop (length hs) (lhblock t)\<rparr>"
  have "map (\<lambda>k. get32 (buf_data t i) (4 + 4 * k)) [0..<length hs] = hs"
    by (rule nth_equalityI) (simp_all add: d h(2))
  then have loop: "kforeach (read_head_one i) [0..<length hs] (t\<lparr>lhn := int (length hs)\<rparr>) = Done () u"
    using read_head_loop [of "t\<lparr>lhn := int (length hs)\<rparr>" "length hs" i] G(3) hs(1)
    by (simp add: u_def buf_data_def)
  have cu: "cache_is u V M D {(i, lb L 0)}" using 1(2) cache_is_cong [of u t] by (simp add: u_def)
  have iu: "bio_idle u" using bc.frame_idle [OF 1(3)] idle by (simp add: u_def bio_idle_def)
  have "lb L 0 \<in> D \<or> V (lb L 0) = M ! unat (lb L 0)" using bc.clean_law [OF ca, of "lb L 0"] by auto
  then obtain v where 2: "brelse i u = Done () v" "cache_is v V M D {}" "bio_frame u v" "writes v = writes u"
    using bc.rl_law [OF cu iu, of i "lb L 0"] by auto
  have run: "read_head s = Done () v"
    using lbk 1(1) loop 2(1) d h(1) hs(1) head_nat [of "length hs"] by (simp add: read_head_def)
  have Lu: "log_at L hs (length M) u"
    using G hs unfolding log_at_def u_def by auto
  then have "log_at L hs (length M) v" using log_at_frame [OF 2(3)] by simp
  moreover have "bio_idle v" using bc.frame_idle [OF 2(3)] iu by simp
  ultimately show ?thesis using run 2(2,4) 1(4) by (auto simp: u_def)
qed

lemma recover_run:
  assumes ca: "cache_is s (\<lambda>c. M ! unat c) M {} {}" and idle: "bio_idle s" and L: "log_at L [] (length M) (s\<lparr>lhn := 0\<rparr>)"
    and h: "get32 (M ! L) 0 = of_nat (length hs)" "\<And>k. k < length hs \<Longrightarrow> get32 (M ! L) (4 + 4 * k) = hs ! k"
    and hs: "length hs < 30" "L + length hs < length M" "distinct hs"
      "\<And>c. c \<in> set hs \<Longrightarrow> unat c < length M \<and> (unat c < L \<or> L + 30 \<le> unat c)"
    and W: "W = map (\<lambda>k. (unat (hs ! k), M ! (L + k + 1))) [0..<length hs]"
  shows "\<exists>t d. recover_from_log s = Done () t \<and> memdisk t = (apply_writes M W)[L := d] \<and> lhn t = 0
     \<and> cache_is t (\<lambda>c. memdisk t ! unat c) (memdisk t) {} {}"
proof -
  let ?V = "\<lambda>c :: uint. M ! unat c"
  have u0: "unat (lb L 0) = L" using log_atD(1) [OF L, of 0] by simp
  obtain t1 where 1: "read_head s = Done () t1" "cache_is t1 ?V M {} {}" "bio_idle t1" "log_at L hs (length M) t1"
    using read_head_run [OF ca idle L _ _ _ hs] h u0 by auto
  have hw: "home_writes L hs ?V = W"
    unfolding home_writes_def W using log_atD(1) [OF 1(4)] by auto
  obtain t2 where 2: "install_trans t1 = Done () t2" "cache_is t2 (after ?V W) (apply_writes M W) {} {}" "bio_frame t1 t2"
    using install_run [OF 1(2-4)] unfolding hw by auto
  let ?u = "t2\<lparr>lhn := 0\<rparr>"
  have c2: "cache_is ?u (after ?V W) (apply_writes M W) {} {}" using 2(2) cache_is_cong [of ?u t2] by simp
  have i2: "bio_idle ?u" using bc.frame_idle [OF 2(3)] 1(3) by (simp add: bio_idle_def)
  have L2: "log_at L [] (length (apply_writes M W)) ?u"
    using log_at_nil [OF _ refl, of L hs _ t2] log_at_frame [OF 2(3)] 1(4) by simp
  obtain t3 d where 3: "write_head ?u = Done () t3" "cache_is t3 ((after ?V W)(lb L 0 := d)) ((apply_writes M W)[L := d]) {} {}"
    "bio_frame ?u t3"
    using write_head_run [OF c2 i2 L2 _ refl] unfolding u0 by auto
  have m3: "memdisk t3 = (apply_writes M W)[L := d]" by (rule cache_isD(5) [OF 3(2)])
  have "((after ?V W)(lb L 0 := d)) c = memdisk t3 ! unat c" for c
    using bc.clean_law [OF 3(2), of c] m3 by simp
  then have "cache_is t3 (\<lambda>c. memdisk t3 ! unat c) (memdisk t3) {} {}" using 3(2) m3 by (metis (no_types, lifting) ext)
  moreover have "lhn t3 = 0" using bio_frame_log(4) [OF 3(3)] by simp
  moreover have "recover_from_log s = Done () t3" using 1(1) 2(1) 3(1) by (simp add: recover_from_log_def)
  ultimately show ?thesis using m3 by blast
qed

lemma initlog_run:
  assumes ca: "cache_is s (\<lambda>c. M ! unat c) M {} {}" and idle: "bio_idle s" and m: "1 < length M" "length M \<le> 2 ^ 31"
    and lh: "length (lhblock s) = 30" and sb: "sb_logstart (sb_of (M ! 1)) = of_nat L"
    and h: "get32 (M ! L) 0 = of_nat (length hs)" "\<And>k. k < length hs \<Longrightarrow> get32 (M ! L) (4 + 4 * k) = hs ! k"
    and hs: "length hs < 30" "L + length hs < length M" "distinct hs"
      "\<And>c. c \<in> set hs \<Longrightarrow> unat c < length M \<and> (unat c < L \<or> L + 30 \<le> unat c)"
    and W: "W = map (\<lambda>k. (unat (hs ! k), M ! (L + k + 1))) [0..<length hs]"
  shows "\<exists>t d. initlog 1 s = Done () t \<and> memdisk t = (apply_writes M W)[L := d] \<and> lhn t = 0
     \<and> cache_is t (\<lambda>c. memdisk t ! unat c) (memdisk t) {} {}"
proof -
  let ?V = "\<lambda>c :: uint. M ! unat c"
  let ?s = "s\<lparr>held := held s - {L_log}\<rparr>"
  have c0: "cache_is ?s ?V M {} {}" using ca cache_is_cong [of ?s s] by simp
  have i0: "bio_idle ?s" using idle by (simp add: bio_idle_def)
  obtain i t1 where 1: "bread 1 1 ?s = Done i t1" "cache_is t1 ?V M {} {(i, 1)}" "bio_frame ?s t1"
    using bc.rd_law [OF c0 i0, of 1] m(1) by auto
  have d: "buf_data t1 i = M ! 1" using bc.dat_law [OF 1(2), of i 1] by simp
  have i1: "bio_idle t1" using bc.frame_idle [OF 1(3)] i0 by simp
  obtain t2 where 2: "brelse i t1 = Done () t2" "cache_is t2 ?V M {} {}" "bio_frame t1 t2"
    using bc.rl_law [OF 1(2) i1, of i 1] by auto
  define u where "u = t2\<lparr>lstart := int L, lsize := sint (sb_nlog (sb_of (M ! 1))), ldev := 1\<rparr>"
  have cu: "cache_is u ?V M {} {}" using 2(2) cache_is_cong [of u t2] by (simp add: u_def)
  have iu: "bio_idle u" using bc.frame_idle [OF 2(3)] i1 by (simp add: bio_idle_def u_def)
  have "length (lhblock t2) = 30" using bio_frame_log(5) [OF 1(3)] bio_frame_log(5) [OF 2(3)] lh by simp
  then have Lu: "log_at L [] (length M) (u\<lparr>lhn := 0\<rparr>)" using m hs(2) by (simp add: log_at_def u_def)
  obtain t d where 3: "recover_from_log u = Done () t" "memdisk t = (apply_writes M W)[L := d]" "lhn t = 0"
    "cache_is t (\<lambda>c. memdisk t ! unat c) (memdisk t) {} {}"
    using recover_run [OF cu iu Lu h hs W] by blast
  have Ls: "sint (of_nat L :: uint) = int L" by (rule head_nat) (use m hs(2) in simp)
  have "initlog 1 s = recover_from_log u"
    using 1(1) 2(1) d sb Ls by (simp add: initlog_def readsb_def u_def)
  with 3 show ?thesis by auto
qed


section \<open>Crashes\<close>

text \<open>The machine after a restart with the disk \<open>M\<close>: an empty cache.\<close>

definition rebooted :: "block list \<Rightarrow> 'a logst_scheme \<Rightarrow> bool" where
  "rebooted M r \<longleftrightarrow> cache_is r (\<lambda>c. M ! unat c) M {} {} \<and> bio_idle r \<and> length (lhblock r) = LOGSIZE"

lemma recovery_empty:
  assumes r: "rebooted D r" and D: "1 < length D" "length D \<le> 2 ^ 31" "L < length D"
    and sb: "sb_logstart (sb_of (D ! 1)) = of_nat L" and h: "get32 (D ! L) 0 = 0"
  shows "\<exists>u d. initlog 1 r = Done () u \<and> lhn u = 0 \<and> memdisk u = D[L := d]"
proof -
  have R: "cache_is r (\<lambda>c. D ! unat c) D {} {}" "bio_idle r" "length (lhblock r) = 30" using r by (simp_all add: rebooted_def)
  show ?thesis using initlog_run [OF R(1,2) D(1,2) R(3) sb, of "[]"] h D(3) by auto
qed

lemma recovery_replays:
  assumes r: "rebooted D r" and L: "log_at L hs (length D) s" "1 < length D"
    and sb: "sb_logstart (sb_of (D ! 1)) = of_nat L" and h: "D ! L = head_of hs d" "length d = 512"
    and lg: "\<And>k. k < length hs \<Longrightarrow> D ! (L + k + 1) = V (hs ! k)"
  shows "\<exists>u e. initlog 1 r = Done () u \<and> lhn u = 0 \<and> memdisk u = (apply_writes D (map (\<lambda>h. (unat h, V h)) hs))[L := e]"
proof -
  have R: "cache_is r (\<lambda>c. D ! unat c) D {} {}" "bio_idle r" "length (lhblock r) = 30" using r by (simp_all add: rebooted_def)
  have g: "length hs < 30" "L + length hs < length D" "distinct hs" "length D \<le> 2 ^ 31"
    "\<And>c. c \<in> set hs \<Longrightarrow> unat c < length D \<and> (unat c < L \<or> L + 30 \<le> unat c)"
    using L unfolding log_at_def by blast+
  have W: "map (\<lambda>h. (unat h, V h)) hs = map (\<lambda>k. (unat (hs ! k), D ! (L + k + 1))) [0..<length hs]"
    using lg by (intro nth_equalityI) simp_all
  have hd: "get32 (D ! L) 0 = of_nat (length hs)" "\<And>k. k < length hs \<Longrightarrow> get32 (D ! L) (4 + 4 * k) = hs ! k"
    unfolding h(1) using head_of_fields [of hs d] h(2) g(1) by simp_all
  show ?thesis using initlog_run [OF R(1,2) L(2) g(4) R(3) sb hd g(1-3,5) W] by blast
qed

lemma home_outside:
  assumes "log_at L hs m s" "b \<in> fst ` set (take j (map (\<lambda>h. (unat h, V h)) hs))"
  shows "b < L \<or> L + 30 \<le> b"
proof -
  from assms(2) obtain h where "h \<in> set hs" "b = unat h" by (auto dest!: in_set_takeD)
  then show ?thesis using assms(1) unfolding log_at_def by blast
qed

lemma crash_before:
  assumes r: "rebooted (apply_writes M vs) r" and vs: "\<And>b. b \<in> fst ` set vs \<Longrightarrow> L < b \<and> b < L + 30"
    and M: "L < length M" "length M \<le> 2 ^ 31" "1 < L" "sb_logstart (sb_of (M ! 1)) = of_nat L" "get32 (M ! L) 0 = 0"
  shows "\<exists>u. initlog 1 r = Done () u \<and> lhn u = 0 \<and> (\<forall>b < length M. b < L \<or> L + 30 \<le> b \<longrightarrow> memdisk u ! b = M ! b)"
proof -
  have same: "apply_writes M vs ! b = M ! b" if "b < length M" "b \<le> L \<or> L + 30 \<le> b" for b
  proof (rule apply_writes_other [OF that(1)], rule notI)
    assume "b \<in> fst ` set vs"
    with vs [OF this] that(2) show False by linarith
  qed
  obtain u d where u: "initlog 1 r = Done () u" "lhn u = 0" "memdisk u = (apply_writes M vs)[L := d]"
    using recovery_empty [OF r, of L] M same [of 1] same [of L] by auto
  moreover have "memdisk u ! b = M ! b" if "b < length M" "b < L \<or> L + 30 \<le> b" for b
    using u(3) same that by auto
  ultimately show ?thesis by blast
qed

text \<open>The facts on the commit that the last two cases share.\<close>

lemma crash_committed:
  assumes L: "log_at L hs (length M) s" and one: "1 < L" "1 \<notin> set hs" "sb_logstart (sb_of (M ! 1)) = of_nat L"
    and out: "\<forall>c. c \<notin> set hs \<longrightarrow> M ! unat c = V c"
    and ws: "ws = log_writes L hs V @ [(L, e)] @ take j (map (\<lambda>h. (unat h, V h)) hs)"
  shows "sb_logstart (sb_of (apply_writes M ws ! 1)) = of_nat L" "apply_writes M ws ! L = e"
    "k < length hs \<Longrightarrow> apply_writes M ws ! (L + k + 1) = V (hs ! k)"
    "b < length M \<Longrightarrow> b < L \<or> L + 30 \<le> b \<Longrightarrow> apply_writes (apply_writes M ws) (map (\<lambda>h. (unat h, V h)) hs) ! b = V (of_nat b)"
proof -
  let ?H = "map (\<lambda>h. (unat h, V h)) hs"
  note sel = log_at_sel [OF L]
  have m: "L + length hs < length M" "length M \<le> 2 ^ 31" using L by (simp_all add: log_at_def)
  have fW: "fst ` set (log_writes L hs V) = (\<lambda>k. L + (k + 1)) ` {0..<length hs}" by (rule fst_log_writes [OF L])
  have fH: "b < L \<or> L + 30 \<le> b" if "b \<in> fst ` set (take j ?H)" for b by (rule home_outside [OF L that])
  have "1 \<notin> fst ` set ws"
  proof
    assume "1 \<in> fst ` set ws"
    moreover have "fst ` set ws = fst ` set (log_writes L hs V) \<union> {L} \<union> fst ` set (take j ?H)" by (auto simp: ws image_Un)
    ultimately have "1 \<in> fst ` set (take j ?H)" using one(1) unfolding fW by auto
    then obtain h where "h \<in> set hs" "unat h = 1" by (auto dest!: in_set_takeD)
    moreover from this have "h = 1" by (simp add: word_unat_eq_iff)
    ultimately show False using one(2) by simp
  qed
  then have "apply_writes M ws ! 1 = M ! 1" using m one(1) by (intro apply_writes_other) simp_all
  then show "sb_logstart (sb_of (apply_writes M ws ! 1)) = of_nat L" using one(3) by simp
  have "L \<notin> fst ` set (take j ?H)" using fH [of L] by auto
  then show "apply_writes M ws ! L = e"
    using m apply_writes_other [of L "(apply_writes M (log_writes L hs V))[L := e]" "take j ?H"] by (simp add: ws)
  show "apply_writes M ws ! (L + k + 1) = V (hs ! k)" if "k < length hs"
    unfolding ws
  proof (rule log_writes_nth [OF L that refl])
    fix i assume "i < length hs"
    then show "L + i + 1 \<notin> fst ` set ([(L, e)] @ take j ?H)" using fH [of "L + i + 1"] sel(5) by auto
  qed
  assume b: "b < length M" "b < L \<or> L + 30 \<le> b"
  let ?M = "(apply_writes M (log_writes L hs V))[L := e]"
  have nb: "b \<notin> fst ` set (log_writes L hs V)" "b \<noteq> L" using b(2) sel(5) fW by auto
  have "apply_writes (apply_writes M ws) ?H ! b = apply_writes ?M ?H ! b"
    unfolding ws using b(1) map_take_over [of b ?M j ?H] by simp
  also have "\<dots> = V (of_nat b)"
  proof (rule home_writes_nth [OF sel(6)])
    fix c assume "c \<notin> set hs" "unat c = b"
    then show "?M ! unat c = V c" using out [rule_format, of c] nb b(1) by (simp add: apply_writes_other)
  qed (use b m in simp_all)
  finally show "apply_writes (apply_writes M ws) ?H ! b = V (of_nat b)" .
qed

lemma crash_between:
  assumes L: "log_at L hs (length M) s" and one: "1 < L" "1 \<notin> set hs" "sb_logstart (sb_of (M ! 1)) = of_nat L"
    and out: "\<forall>c. c \<notin> set hs \<longrightarrow> M ! unat c = V c" and d: "length d = 512"
    and r: "rebooted (apply_writes M (log_writes L hs V @ [(L, head_of hs d)] @ take j (map (\<lambda>h. (unat h, V h)) hs))) r"
  shows "\<exists>u. initlog 1 r = Done () u \<and> lhn u = 0 \<and> (\<forall>b < length M. b < L \<or> L + 30 \<le> b \<longrightarrow> memdisk u ! b = V (of_nat b))"
proof -
  define ws where "ws = log_writes L hs V @ [(L, head_of hs d)] @ take j (map (\<lambda>h. (unat h, V h)) hs)"
  let ?D = "apply_writes M ws"
  note C = crash_committed [OF L one out ws_def]
  have m: "L + length hs < length M" using L by (simp add: log_at_def)
  have "\<exists>u e. initlog 1 r = Done () u \<and> lhn u = 0 \<and> memdisk u = (apply_writes ?D (map (\<lambda>h. (unat h, V h)) hs))[L := e]"
    by (rule recovery_replays [of ?D r L hs s d]) (use r L C m one(1) d in \<open>simp_all add: ws_def\<close>)
  then obtain u e where u: "initlog 1 r = Done () u" "lhn u = 0" "memdisk u = (apply_writes ?D (map (\<lambda>h. (unat h, V h)) hs))[L := e]"
    by blast
  have "memdisk u ! b = V (of_nat b)" if "b < length M" "b < L \<or> L + 30 \<le> b" for b
    using u(3) C(4) [OF that] that by auto
  with u show ?thesis by blast
qed

lemma crash_after:
  assumes L: "log_at L hs (length M) s" and one: "1 < L" "1 \<notin> set hs" "sb_logstart (sb_of (M ! 1)) = of_nat L"
    and out: "\<forall>c. c \<notin> set hs \<longrightarrow> M ! unat c = V c" and d: "length e = 512"
    and r: "rebooted (apply_writes M (log_writes L hs V @ [(L, e)] @ map (\<lambda>h. (unat h, V h)) hs @ [(L, head_of [] e)])) r"
  shows "\<exists>u. initlog 1 r = Done () u \<and> lhn u = 0 \<and> (\<forall>b < length M. b < L \<or> L + 30 \<le> b \<longrightarrow> memdisk u ! b = V (of_nat b))"
proof -
  let ?H = "map (\<lambda>h. (unat h, V h)) hs"
  define ws where "ws = log_writes L hs V @ [(L, e)] @ take (length hs) ?H"
  let ?D = "(apply_writes M ws)[L := head_of [] e]"
  note C = crash_committed [OF L one out ws_def]
  have m: "L + length hs < length M" "length M \<le> 2 ^ 31" using L by (simp_all add: log_at_def)
  have D: "apply_writes M (log_writes L hs V @ [(L, e)] @ ?H @ [(L, head_of [] e)]) = ?D" by (simp add: ws_def)
  have "get32 (head_of [] e) 0 = 0" using head_of_fields(1) [of "[]" e] d by simp
  then obtain u f where u: "initlog 1 r = Done () u" "lhn u = 0" "memdisk u = ?D[L := f]"
    using recovery_empty [of ?D r L] r [unfolded D] m one(1) C(1) by auto
  have "memdisk u ! b = V (of_nat b)" if b: "b < length M" "b < L \<or> L + 30 \<le> b" for b
  proof -
    have "apply_writes (apply_writes M ws) ?H ! b = apply_writes M ws ! b"
      unfolding ws_def using b(1) map_take_over [of b "(apply_writes M (log_writes L hs V))[L := e]" "length hs" ?H] by simp
    then show ?thesis using u(3) C(4) [OF b] b by auto
  qed
  with u show ?thesis by blast
qed

text \<open>C1: a commit is atomic against crashes. From a state in which exactly the logged blocks are dirty, a commit returns; and
  if the machine stops after any number of its disk writes and starts again, \<^verbatim>\<open>initlog\<close> returns and leaves the
  disk, outside the log area (the \<^verbatim>\<open>LOGSIZE\<close> blocks from \<open>L\<close> on, the header first), either in every block as it was before the commit or in every block as the transaction
  left it. The first happens exactly when the machine stopped before the header was written.\<close>

theorem commit_crash_safe:
  assumes ca: "cache_is s V M (set hs) {}" and idle: "bio_idle s" and L: "log_at L hs (length M) s" and ne: "hs \<noteq> []"
    and one: "1 < L" "1 \<notin> set hs" "sb_logstart (sb_of (M ! 1)) = of_nat L" and empty: "get32 (M ! L) 0 = 0"
  shows "\<exists>t ws. commit s = Done () t \<and> writes t = writes s @ ws \<and> length ws = 2 * length hs + 2
     \<and> (\<forall>k r. k \<le> length ws \<and> rebooted (apply_writes M (take k ws)) r \<longrightarrow>
     (\<exists>u. initlog 1 r = Done () u \<and> lhn u = 0 \<and> (\<forall>b < length M. b < L \<or> L + LOGSIZE \<le> b \<longrightarrow>
        memdisk u ! b = (if k \<le> length hs then M ! b else V (of_nat b)))))"
proof -
  let ?W = "log_writes L hs V" and ?H = "map (\<lambda>h. (unat h, V h)) hs"
  define e where "e = head_of hs (V (lb L 0))"
  define e0 where "e0 = head_of [] e"
  define ws where "ws = ?W @ [(L, e)] @ ?H @ [(L, e0)]"
  have m: "L + length hs < length M" "length M \<le> 2 ^ 31" "length hs < 30" using L by (simp_all add: log_at_def)
  have u0: "unat (lb L 0) = L" using log_atD(1) [OF L, of 0] by simp
  have dl: "length (V (lb L 0)) = 512" using bc.length_law [OF ca, of "lb L 0"] u0 m(1) by simp
  have out: "\<forall>c. c \<notin> set hs \<longrightarrow> M ! unat c = V c" using bc.clean_law [OF ca] by simp
  have lW: "length ?W = length hs" by (simp add: log_writes_def)
  have lws: "length ws = 2 * length hs + 2" by (simp add: ws_def lW)
  obtain t where t: "commit s = Done () t" "writes t = writes s @ ws"
    using commit_run [OF ca idle L ne e_def e0_def ws_def] by blast
  have "\<exists>u. initlog 1 r = Done () u \<and> lhn u = 0 \<and> (\<forall>b < length M. b < L \<or> L + 30 \<le> b \<longrightarrow>
        memdisk u ! b = (if k \<le> length hs then M ! b else V (of_nat b)))"
    if k: "k \<le> length ws" "rebooted (apply_writes M (take k ws)) r" for k r
  proof -
    have "k \<le> length hs \<or> length hs < k \<and> k \<le> 2 * length hs + 1 \<or> k = 2 * length hs + 2" using k(1) lws by linarith
    then consider "k \<le> length hs" | "length hs < k" "k \<le> 2 * length hs + 1" | "k = 2 * length hs + 2" by blast
    then show ?thesis
    proof cases
      case 1
      have "L < b \<and> b < L + 30" if "b \<in> fst ` set (take k ?W)" for b
      proof -
        have "b \<in> fst ` set ?W" using that set_take_subset [of k ?W] by blast
        then obtain i where "i < length hs" "b = L + (i + 1)" unfolding fst_log_writes [OF L] by auto
        then show ?thesis using m(3) by simp
      qed
      moreover have "take k ws = take k ?W" using 1 lW by (simp add: ws_def)
      ultimately show ?thesis using crash_before [of M "take k ?W" r L] k(2) m one empty 1 by simp
    next
      case 2
      then have "take k ws = ?W @ [(L, e)] @ take (k - length hs - 1) ?H"
        using lW by (simp add: ws_def take_Cons' Suc_diff_le)
      then show ?thesis using crash_between [OF L one out dl] k(2) 2(1) by (simp add: e_def)
    next
      case 3
      then have "take k ws = ?W @ [(L, e)] @ ?H @ [(L, head_of [] e)]" using lW by (simp add: ws_def e0_def)
      then show ?thesis using crash_after [OF L one out, of e] dl k(2) 3 by (simp add: e_def)
    qed
  qed
  with t lws show ?thesis by blast
qed

theorem commit_crash_safe_witness:
  "\<exists>s t u ws. binit boot_log = Done () s \<and> demo_update s = Done () t \<and> commit t = Done () u \<and> writes u = writes t @ ws
     \<and> (\<forall>r :: logst. rebooted (apply_writes log_img (take 2 ws)) r \<longrightarrow>
          (\<exists>v. initlog 1 r = Done () v \<and> memdisk v ! 35 = put32 0 7 (replicate 512 0)))"
proof -
  obtain s t where t: "binit boot_log = Done () s" "demo_update s = Done () t" "cache_is t demo_view log_img (set [35]) {}"
    "log_at 2 [35] (length log_img) t" "held t = {}"
    using demo_update_run log_img_length(1) by auto
  have sb: "sb_logstart (sb_of (log_img ! 1)) = of_nat 2"
    by (simp add: sb_of_def log_img_def get32_put32)
  have z: "get32 (log_img ! 2) 0 = 0" by (simp add: log_img_def get32_def)
  have p: "[35 :: uint] \<noteq> []" "1 < (2 :: nat)" "1 \<notin> set [35 :: uint]" by simp_all
  have i: "bio_idle t" using t(5) by (simp add: bio_idle_def)
  obtain u ws where u: "commit t = Done () u" "writes u = writes t @ ws" and two: "length ws = 2 * length [35 :: uint] + 2"
    and all: "\<forall>k (r :: logst). k \<le> length ws \<and> rebooted (apply_writes log_img (take k ws)) r \<longrightarrow>
     (\<exists>u. initlog 1 r = Done () u \<and> lhn u = 0 \<and> (\<forall>b < length log_img. b < 2 \<or> 2 + LOGSIZE \<le> b \<longrightarrow>
        memdisk u ! b = (if k \<le> length [35 :: uint] then log_img ! b else demo_view (of_nat b))))"
    using commit_crash_safe [OF t(3) i t(4) p sb z] by blast
  have "\<exists>v. initlog 1 r = Done () v \<and> memdisk v ! 35 = put32 0 7 (replicate 512 0)"
    if reb: "rebooted (apply_writes log_img (take 2 ws)) r" for r :: logst
  proof -
    obtain v where v: "initlog 1 r = Done () v" "\<forall>b < length log_img. b < 2 \<or> 2 + LOGSIZE \<le> b \<longrightarrow>
        memdisk v ! b = (if 2 \<le> length [35 :: uint] then log_img ! b else demo_view (of_nat b))"
      using all [rule_format, of 2 r] two reb by auto
    from v(2) [rule_format, of 35] log_img_length(1) have "memdisk v ! 35 = demo_view 35" by simp
    with v(1) show ?thesis by (simp add: demo_view_def)
  qed
  with t(1,2) u show ?thesis by blast
qed

end
