(* ===== verification/Fs.thy ===== *)
theory Fs
  imports Log
begin

text \<open>
  The file system (\<^verbatim>\<open>fs.c\<close>, \<^verbatim>\<open>fs.h\<close>, \<^verbatim>\<open>stat.h\<close>, the inode of \<^verbatim>\<open>file.h\<close>): block allocation, inodes and their cache, file contents,
  directories and path names, over the log and the buffer cache. A pointer to an inode is its index in the cache. A routine that
  copies to or from a caller's memory returns, or takes, the list of the bytes copied. The table of device functions is an
  argument of the routines that use it: the console's functions are in the theory Console. C strings are the lists of
  their bytes before the terminating zero.
\<close>

section \<open>State\<close>

abbreviation (input) NINODE :: nat where "NINODE \<equiv> 50"
abbreviation (input) NDIRECT :: nat where "NDIRECT \<equiv> 12"
abbreviation (input) NINDIRECT :: nat where "NINDIRECT \<equiv> 128"
abbreviation (input) MAXFILE :: nat where "MAXFILE \<equiv> NDIRECT + NINDIRECT"
abbreviation (input) IPB :: nat where "IPB \<equiv> 8"
abbreviation (input) BPB :: nat where "BPB \<equiv> 4096"
abbreviation (input) DIRSIZ :: nat where "DIRSIZ \<equiv> 14"
abbreviation (input) ROOTINO :: uint where "ROOTINO \<equiv> 1"
abbreviation (input) ROOTDEV :: uint where "ROOTDEV \<equiv> 1"
abbreviation (input) NDEV :: nat where "NDEV \<equiv> 10"
abbreviation (input) T_DIR :: ushort where "T_DIR \<equiv> 1"
abbreviation (input) T_FILE :: ushort where "T_FILE \<equiv> 2"
abbreviation (input) T_DEV :: ushort where "T_DEV \<equiv> 3"
abbreviation (input) I_BUSY :: uint where "I_BUSY \<equiv> 1"
abbreviation (input) I_VALID :: uint where "I_VALID \<equiv> 2"
abbreviation (input) SLASH :: uchar where "SLASH \<equiv> 47"

text \<open>\<^verbatim>\<open>short\<close> fields are kept as their 16 bits.\<close>

record inode =
  idev :: uint
  inum :: uint
  iref :: int
  iflags :: uint
  itype :: ushort
  imajor :: ushort
  iminor :: ushort
  inlink :: ushort
  isize :: uint
  iaddrs :: "uint list"

record fsst = logst +
  sb :: superblock
  inodes :: "inode list"

record stat =
  st_type :: ushort
  st_dev :: int
  st_ino :: uint
  st_nlink :: ushort
  st_size :: uint

type_synonym 'a dev_read = "nat \<Rightarrow> int \<Rightarrow> 'a fsst_scheme \<Rightarrow> (int \<times> uchar list, 'a fsst_scheme) outcome"
type_synonym 'a dev_write = "nat \<Rightarrow> uchar list \<Rightarrow> int \<Rightarrow> 'a fsst_scheme \<Rightarrow> (int, 'a fsst_scheme) outcome"
type_synonym 'a devtab = "nat \<Rightarrow> 'a dev_read option \<times> 'a dev_write option"

definition upd_inode :: "nat \<Rightarrow> (inode \<Rightarrow> inode) \<Rightarrow> 'a fsst_scheme \<Rightarrow> (unit, 'a fsst_scheme) outcome" where
  "upd_inode i f = kmod (\<lambda>s. s\<lparr>inodes := (inodes s)[i := f (inodes s ! i)]\<rparr>)"

text \<open>The first element on which the body returns a result.\<close>

fun kfirst :: "('b \<Rightarrow> 's \<Rightarrow> ('r option, 's) outcome) \<Rightarrow> 'b list \<Rightarrow> 's \<Rightarrow> ('r option, 's) outcome" where
  "kfirst f [] = kret None"
| "kfirst f (x # xs) = kbind (f x) (\<lambda>r. case r of None \<Rightarrow> kfirst f xs | Some a \<Rightarrow> kret (Some a))"

section \<open>Blocks\<close>

definition IBLOCK :: "uint \<Rightarrow> superblock \<Rightarrow> uint" where
  "IBLOCK i b = i div of_nat IPB + sb_inodestart b"

definition BBLOCK :: "uint \<Rightarrow> superblock \<Rightarrow> uint" where
  "BBLOCK b x = b div of_nat BPB + sb_bmapstart x"

definition bzero :: "uint \<Rightarrow> uint \<Rightarrow> 'a logst_scheme \<Rightarrow> (unit, 'a logst_scheme) outcome" where
  "bzero dev bno =
     kbind (bread dev bno) (\<lambda>bp.
     kseq (\<lambda>s. Done () (set_data bp (replicate BSIZE 0) s))
    (kseq (log_write bp)
          (brelse bp)))"

definition bit_mask :: "nat \<Rightarrow> uchar" where
  "bit_mask bi = push_bit (bi mod 8) 1"

text \<open>The inner loop of \<^verbatim>\<open>balloc\<close>: the first clear bit of the bitmap block for the blocks from \<open>b\<close> on.\<close>

definition free_bit :: "superblock \<Rightarrow> nat \<Rightarrow> block \<Rightarrow> nat option" where
  "free_bit x b d = find (\<lambda>bi. b + bi < unat (sb_size x) \<and> d ! (bi div 8) AND bit_mask bi = 0) [0..<BPB]"

definition set_bit_at :: "nat \<Rightarrow> block \<Rightarrow> block" where
  "set_bit_at bi d = d[bi div 8 := d ! (bi div 8) OR bit_mask bi]"

definition clear_bit_at :: "nat \<Rightarrow> block \<Rightarrow> block" where
  "clear_bit_at bi d = d[bi div 8 := d ! (bi div 8) AND NOT (bit_mask bi)]"

definition balloc_group :: "uint \<Rightarrow> nat \<Rightarrow> 'a fsst_scheme \<Rightarrow> (uint option, 'a fsst_scheme) outcome" where
  "balloc_group dev b =
     kbind (\<lambda>s. bread dev (BBLOCK (of_nat b) (sb s)) s) (\<lambda>bp.
     kbind (kget (\<lambda>s. free_bit (sb s) b (buf_data s bp))) (\<lambda>r. case r of
       None \<Rightarrow> kseq (brelse bp) (kret None)
     | Some bi \<Rightarrow>
         kseq (\<lambda>s. Done () (set_data bp (set_bit_at bi (buf_data s bp)) s))
        (kseq (log_write bp)
        (kseq (brelse bp)
        (kseq (bzero dev (of_nat (b + bi)))
              (kret (Some (of_nat (b + bi)))))))))"

definition balloc :: "uint \<Rightarrow> 'a fsst_scheme \<Rightarrow> (uint, 'a fsst_scheme) outcome" where
  "balloc dev =
     kbind (\<lambda>s. kfirst (balloc_group dev) (map (\<lambda>k. BPB * k) [0..<(unat (sb_size (sb s)) + BPB - 1) div BPB]) s) (\<lambda>r. case r of
       Some a \<Rightarrow> kret a
     | None \<Rightarrow> kpanic ''balloc: out of blocks'')"

definition bfree :: "uint \<Rightarrow> uint \<Rightarrow> 'a fsst_scheme \<Rightarrow> (unit, 'a fsst_scheme) outcome" where
  "bfree dev b =
     kbind (readsb dev) (\<lambda>x.
     kseq (kmod (\<lambda>s. s\<lparr>sb := x\<rparr>))
    (kbind (\<lambda>s. bread dev (BBLOCK b (sb s)) s) (\<lambda>bp.
     let bi = unat b mod BPB in
     kbind (kget (\<lambda>s. buf_data s bp ! (bi div 8) AND bit_mask bi)) (\<lambda>v.
       if v = 0 then kpanic ''freeing free block''
       else kseq (\<lambda>s. Done () (set_data bp (clear_bit_at bi (buf_data s bp)) s))
           (kseq (log_write bp)
                 (brelse bp))))))"

section \<open>Inodes on the disk\<close>

text \<open>An inode's place in its block, and the transfer of its fields.\<close>

definition dip_off :: "uint \<Rightarrow> nat" where
  "dip_off n = 64 * (unat n mod IPB)"

definition put_addrs :: "nat \<Rightarrow> uint list \<Rightarrow> block \<Rightarrow> block" where
  "put_addrs k as d = fold (\<lambda>i. put32 (k + 4 * i) (as ! i)) [0..<NDIRECT + 1] d"

definition put_dinode :: "nat \<Rightarrow> inode \<Rightarrow> block \<Rightarrow> block" where
  "put_dinode k ip d = put_addrs (k + 12) (iaddrs ip) (put32 (k + 8) (isize ip) (put16 (k + 6) (inlink ip)
     (put16 (k + 4) (iminor ip) (put16 (k + 2) (imajor ip) (put16 k (itype ip) d)))))"

definition get_dinode :: "nat \<Rightarrow> block \<Rightarrow> inode \<Rightarrow> inode" where
  "get_dinode k d ip = ip\<lparr>itype := get16 d k, imajor := get16 d (k + 2), iminor := get16 d (k + 4),
     inlink := get16 d (k + 6), isize := get32 d (k + 8),
     iaddrs := map (\<lambda>i. get32 d (k + 12 + 4 * i)) [0..<NDIRECT + 1]\<rparr>"

definition iinit :: "uint \<Rightarrow> 'a fsst_scheme \<Rightarrow> (unit, 'a fsst_scheme) outcome" where
  "iinit dev =
     kseq (initlock L_icache)
     (kbind (readsb dev) (\<lambda>x. kmod (\<lambda>s. s\<lparr>sb := x\<rparr>)))"

definition iget :: "uint \<Rightarrow> uint \<Rightarrow> 'a fsst_scheme \<Rightarrow> (nat, 'a fsst_scheme) outcome" where
  "iget dev n =
     kseq (acquire L_icache)
     (kbind (kget (\<lambda>s. find_idx (\<lambda>ip. 0 < iref ip \<and> idev ip = dev \<and> inum ip = n) (inodes s))) (\<lambda>r. case r of
       Some i \<Rightarrow> kseq (upd_inode i (\<lambda>ip. ip\<lparr>iref := iref ip + 1\<rparr>)) (kseq (release L_icache) (kret i))
     | None \<Rightarrow>
         kbind (kget (\<lambda>s. find_idx (\<lambda>ip. iref ip = 0) (inodes s))) (\<lambda>e. case e of
           None \<Rightarrow> kpanic ''iget: no inodes''
         | Some i \<Rightarrow>
             kseq (upd_inode i (\<lambda>ip. ip\<lparr>idev := dev, inum := n, iref := 1, iflags := 0\<rparr>))
            (kseq (release L_icache) (kret i)))))"

definition ialloc_one :: "uint \<Rightarrow> ushort \<Rightarrow> nat \<Rightarrow> 'a fsst_scheme \<Rightarrow> (nat option, 'a fsst_scheme) outcome" where
  "ialloc_one dev ty n =
     kbind (\<lambda>s. bread dev (IBLOCK (of_nat n) (sb s)) s) (\<lambda>bp.
     kbind (kget (\<lambda>s. get16 (buf_data s bp) (dip_off (of_nat n)))) (\<lambda>t.
       if t = 0 then
         kseq (\<lambda>s. Done () (set_data bp (put16 (dip_off (of_nat n)) ty
                 (put_bytes (dip_off (of_nat n)) (replicate 64 0) (buf_data s bp))) s))
        (kseq (log_write bp)
        (kseq (brelse bp)
        (kbind (iget dev (of_nat n)) (\<lambda>i. kret (Some i)))))
       else kseq (brelse bp) (kret None)))"

definition ialloc :: "uint \<Rightarrow> ushort \<Rightarrow> 'a fsst_scheme \<Rightarrow> (nat, 'a fsst_scheme) outcome" where
  "ialloc dev ty =
     kbind (\<lambda>s. kfirst (ialloc_one dev ty) [1..<unat (sb_ninodes (sb s))] s) (\<lambda>r. case r of
       Some i \<Rightarrow> kret i
     | None \<Rightarrow> kpanic ''ialloc: no inodes'')"

definition iupdate :: "nat \<Rightarrow> 'a fsst_scheme \<Rightarrow> (unit, 'a fsst_scheme) outcome" where
  "iupdate i =
     kbind (\<lambda>s. bread (idev (inodes s ! i)) (IBLOCK (inum (inodes s ! i)) (sb s)) s) (\<lambda>bp.
     kseq (\<lambda>s. Done () (set_data bp (put_dinode (dip_off (inum (inodes s ! i))) (inodes s ! i) (buf_data s bp)) s))
    (kseq (log_write bp)
          (brelse bp)))"

section \<open>The inode cache\<close>

definition idup :: "nat \<Rightarrow> 'a fsst_scheme \<Rightarrow> (nat, 'a fsst_scheme) outcome" where
  "idup i =
     kseq (acquire L_icache)
    (kseq (upd_inode i (\<lambda>ip. ip\<lparr>iref := iref ip + 1\<rparr>))
    (kseq (release L_icache) (kret i)))"

definition ilock_load :: "nat \<Rightarrow> 'a fsst_scheme \<Rightarrow> (unit, 'a fsst_scheme) outcome" where
  "ilock_load i s =
     kwhen (iflags (inodes s ! i) AND I_VALID = 0)
      (kbind (bread (idev (inodes s ! i)) (IBLOCK (inum (inodes s ! i)) (sb s))) (\<lambda>bp.
       kseq (\<lambda>s. upd_inode i (get_dinode (dip_off (inum (inodes s ! i))) (buf_data s bp)) s)
      (kseq (brelse bp)
      (kseq (upd_inode i (\<lambda>ip. ip\<lparr>iflags := iflags ip OR I_VALID\<rparr>))
            (\<lambda>s. if itype (inodes s ! i) = 0 then Panic ''ilock: no type'' else Done () s))))) s"

text \<open>The loop \<^verbatim>\<open>while(ip->flags & I_BUSY) sleep(...)\<close> of \<^verbatim>\<open>ilock\<close>, from its test on.\<close>

definition ilock_loop :: "nat \<Rightarrow> 'a fsst_scheme \<Rightarrow> (unit, 'a fsst_scheme) outcome" where
  "ilock_loop i s =
     (if iflags (inodes s ! i) AND I_BUSY \<noteq> 0 then sleep (Ch_inode i) (Some L_icache) s
      else kseq (upd_inode i (\<lambda>ip. ip\<lparr>iflags := iflags ip OR I_BUSY\<rparr>))
          (kseq (release L_icache) (ilock_load i)) s)"

definition ilock :: "nat option \<Rightarrow> 'a fsst_scheme \<Rightarrow> (unit, 'a fsst_scheme) outcome" where
  "ilock p s = (case p of None \<Rightarrow> Panic ''ilock'' | Some i \<Rightarrow>
     if iref (inodes s ! i) < 1 then Panic ''ilock''
     else kseq (acquire L_icache) (ilock_loop i) s)"

definition ilock_resume :: "nat \<Rightarrow> 'a fsst_scheme \<Rightarrow> (unit, 'a fsst_scheme) outcome" where
  "ilock_resume i = kseq (sleep_resume L_icache) (ilock_loop i)"

definition iunlock :: "nat option \<Rightarrow> 'a fsst_scheme \<Rightarrow> (unit, 'a fsst_scheme) outcome" where
  "iunlock p s = (case p of None \<Rightarrow> Panic ''iunlock'' | Some i \<Rightarrow>
     if iflags (inodes s ! i) AND I_BUSY = 0 \<or> iref (inodes s ! i) < 1 then Panic ''iunlock''
     else kseq (acquire L_icache)
         (kseq (upd_inode i (\<lambda>ip. ip\<lparr>iflags := iflags ip AND NOT I_BUSY\<rparr>))
         (kseq (wakeup (Ch_inode i))
               (release L_icache))) s)"


section \<open>Contents of an inode\<close>

definition bmap :: "nat \<Rightarrow> uint \<Rightarrow> 'a fsst_scheme \<Rightarrow> (uint, 'a fsst_scheme) outcome" where
  "bmap i bn s =
     (if unat bn < NDIRECT then
        (if iaddrs (inodes s ! i) ! unat bn = 0
         then kbind (balloc (idev (inodes s ! i))) (\<lambda>a.
              kseq (upd_inode i (\<lambda>ip. ip\<lparr>iaddrs := (iaddrs ip)[unat bn := a]\<rparr>)) (kret a)) s
         else Done (iaddrs (inodes s ! i) ! unat bn) s)
      else let bn = bn - of_nat NDIRECT in
      if unat bn < NINDIRECT then
        kbind (if iaddrs (inodes s ! i) ! NDIRECT = 0
               then kbind (balloc (idev (inodes s ! i))) (\<lambda>a.
                    kseq (upd_inode i (\<lambda>ip. ip\<lparr>iaddrs := (iaddrs ip)[NDIRECT := a]\<rparr>)) (kret a))
               else kret (iaddrs (inodes s ! i) ! NDIRECT)) (\<lambda>addr.
        kbind (\<lambda>s. bread (idev (inodes s ! i)) addr s) (\<lambda>bp.
        kbind (kget (\<lambda>s. get32 (buf_data s bp) (4 * unat bn))) (\<lambda>a.
        kbind (if a = 0
               then kbind (\<lambda>s. balloc (idev (inodes s ! i)) s) (\<lambda>a.
                    kseq (\<lambda>s. Done () (set_data bp (put32 (4 * unat bn) a (buf_data s bp)) s))
                   (kseq (log_write bp) (kret a)))
               else kret a) (\<lambda>a.
        kseq (brelse bp) (kret a))))) s
      else Panic ''bmap: out of range'')"

definition itrunc_direct :: "nat \<Rightarrow> nat \<Rightarrow> 'a fsst_scheme \<Rightarrow> (unit, 'a fsst_scheme) outcome" where
  "itrunc_direct i k s =
     kwhen (iaddrs (inodes s ! i) ! k \<noteq> 0)
      (kseq (bfree (idev (inodes s ! i)) (iaddrs (inodes s ! i) ! k))
            (upd_inode i (\<lambda>ip. ip\<lparr>iaddrs := (iaddrs ip)[k := 0]\<rparr>))) s"

definition itrunc_indirect :: "nat \<Rightarrow> nat \<Rightarrow> nat \<Rightarrow> 'a fsst_scheme \<Rightarrow> (unit, 'a fsst_scheme) outcome" where
  "itrunc_indirect i bp j s =
     kwhen (get32 (buf_data s bp) (4 * j) \<noteq> 0)
      (bfree (idev (inodes s ! i)) (get32 (buf_data s bp) (4 * j))) s"

definition itrunc :: "nat \<Rightarrow> 'a fsst_scheme \<Rightarrow> (unit, 'a fsst_scheme) outcome" where
  "itrunc i =
     kseq (kforeach (itrunc_direct i) [0..<NDIRECT])
    (kseq (\<lambda>s. kwhen (iaddrs (inodes s ! i) ! NDIRECT \<noteq> 0)
        (kbind (bread (idev (inodes s ! i)) (iaddrs (inodes s ! i) ! NDIRECT)) (\<lambda>bp.
         kseq (kforeach (itrunc_indirect i bp) [0..<NINDIRECT])
        (kseq (brelse bp)
        (kseq (\<lambda>s. bfree (idev (inodes s ! i)) (iaddrs (inodes s ! i) ! NDIRECT) s)
              (upd_inode i (\<lambda>ip. ip\<lparr>iaddrs := (iaddrs ip)[NDIRECT := 0]\<rparr>)))))) s)
    (kseq (upd_inode i (\<lambda>ip. ip\<lparr>isize := 0\<rparr>))
          (iupdate i)))"

definition iput :: "nat \<Rightarrow> 'a fsst_scheme \<Rightarrow> (unit, 'a fsst_scheme) outcome" where
  "iput i =
     kseq (acquire L_icache)
    (kseq (\<lambda>s.
       let ip = inodes s ! i in
       if iref ip = 1 \<and> iflags ip AND I_VALID \<noteq> 0 \<and> inlink ip = 0 then
         if iflags ip AND I_BUSY \<noteq> 0 then Panic ''iput busy''
         else kseq (upd_inode i (\<lambda>ip. ip\<lparr>iflags := iflags ip OR I_BUSY\<rparr>))
             (kseq (release L_icache)
             (kseq (itrunc i)
             (kseq (upd_inode i (\<lambda>ip. ip\<lparr>itype := 0\<rparr>))
             (kseq (iupdate i)
             (kseq (acquire L_icache)
             (kseq (upd_inode i (\<lambda>ip. ip\<lparr>iflags := 0\<rparr>))
                   (wakeup (Ch_inode i)))))))) s
       else Done () s)
    (kseq (upd_inode i (\<lambda>ip. ip\<lparr>iref := iref ip - 1\<rparr>))
          (release L_icache)))"

definition iunlockput :: "nat \<Rightarrow> 'a fsst_scheme \<Rightarrow> (unit, 'a fsst_scheme) outcome" where
  "iunlockput i = kseq (iunlock (Some i)) (iput i)"

definition stati :: "nat \<Rightarrow> 'a fsst_scheme \<Rightarrow> (stat, 'a fsst_scheme) outcome" where
  "stati i = kget (\<lambda>s. let ip = inodes s ! i in
     \<lparr>st_type = itype ip, st_dev = sint (idev ip), st_ino = inum ip, st_nlink = inlink ip, st_size = isize ip\<rparr>)"

text \<open>The device functions for a device inode, where the table has them.\<close>

definition dev_major :: "inode \<Rightarrow> nat option" where
  "dev_major ip = (if sint (imajor ip) < 0 \<or> int NDEV \<le> sint (imajor ip) then None else Some (unat (imajor ip)))"

text \<open>The loop of \<^verbatim>\<open>readi\<close>. At least one byte is copied in a turn, so \<open>n\<close> turns and the last test are enough.\<close>

definition readi_body :: "nat \<Rightarrow> uint \<Rightarrow> uint \<times> uint \<times> uchar list \<Rightarrow> 'a fsst_scheme
    \<Rightarrow> ((uint \<times> uint \<times> uchar list) + uchar list, 'a fsst_scheme) outcome" where
  "readi_body i n = (\<lambda>(tot, off, dst).
     if tot < n then
       kbind (bmap i (off div of_nat BSIZE)) (\<lambda>a.
       kbind (\<lambda>s. bread (idev (inodes s ! i)) a s) (\<lambda>bp.
       let m = min (n - tot) (of_nat BSIZE - off mod of_nat BSIZE) in
       kbind (kget (\<lambda>s. take (unat m) (drop (unat (off mod of_nat BSIZE)) (buf_data s bp)))) (\<lambda>bs.
       kseq (brelse bp) (kret (Inl (tot + m, off + m, dst @ bs))))))
     else kret (Inr dst))"

definition readi :: "'a devtab \<Rightarrow> nat \<Rightarrow> uint \<Rightarrow> uint \<Rightarrow> 'a fsst_scheme \<Rightarrow> (int \<times> uchar list, 'a fsst_scheme) outcome" where
  "readi devsw i off n s =
     (let ip = inodes s ! i in
      if itype ip = T_DEV then
        (case dev_major ip of
           None \<Rightarrow> Done (-1, []) s
         | Some k \<Rightarrow> (case fst (devsw k) of None \<Rightarrow> Done (-1, []) s | Some f \<Rightarrow> f i (sint n) s))
      else if isize ip < off \<or> off + n < off then Done (-1, []) s
      else let n = (if isize ip < off + n then isize ip - off else n) in
        kbind (kloop (Suc (unat n)) (readi_body i n) (0, off, [])) (\<lambda>dst. kret (sint n, dst)) s)"

definition writei_body :: "nat \<Rightarrow> uchar list \<Rightarrow> uint \<Rightarrow> uint \<times> uint \<Rightarrow> 'a fsst_scheme
    \<Rightarrow> ((uint \<times> uint) + uint, 'a fsst_scheme) outcome" where
  "writei_body i src n = (\<lambda>(tot, off).
     if tot < n then
       kbind (bmap i (off div of_nat BSIZE)) (\<lambda>a.
       kbind (\<lambda>s. bread (idev (inodes s ! i)) a s) (\<lambda>bp.
       let m = min (n - tot) (of_nat BSIZE - off mod of_nat BSIZE) in
       kseq (\<lambda>s. Done () (set_data bp (put_bytes (unat (off mod of_nat BSIZE)) (take (unat m) (drop (unat tot) src)) (buf_data s bp)) s))
      (kseq (log_write bp)
      (kseq (brelse bp) (kret (Inl (tot + m, off + m)))))))
     else kret (Inr off))"

definition writei :: "'a devtab \<Rightarrow> nat \<Rightarrow> uchar list \<Rightarrow> uint \<Rightarrow> uint \<Rightarrow> 'a fsst_scheme \<Rightarrow> (int, 'a fsst_scheme) outcome" where
  "writei devsw i src off n s =
     (let ip = inodes s ! i in
      if itype ip = T_DEV then
        (case dev_major ip of
           None \<Rightarrow> Done (-1) s
         | Some k \<Rightarrow> (case snd (devsw k) of None \<Rightarrow> Done (-1) s | Some f \<Rightarrow> f i src (sint n) s))
      else if isize ip < off \<or> off + n < off then Done (-1) s
      else if of_nat (MAXFILE * BSIZE) < off + n then Done (-1) s
      else kbind (kloop (Suc (unat n)) (writei_body i src n) (0, off)) (\<lambda>off.
           kseq (\<lambda>s. kwhen (0 < n \<and> isize (inodes s ! i) < off)
                  (kseq (upd_inode i (\<lambda>ip. ip\<lparr>isize := off\<rparr>)) (iupdate i)) s)
                (kret (sint n))) s)"

section \<open>Directories\<close>

text \<open>\<^verbatim>\<open>strncmp\<close> and \<^verbatim>\<open>strncpy\<close> of \<^verbatim>\<open>string.c\<close> on the bytes of two strings; beyond its end a string reads as zero.\<close>

definition byte0 :: "uchar list \<Rightarrow> uchar" where
  "byte0 p = (case p of [] \<Rightarrow> 0 | c # _ \<Rightarrow> c)"

fun strncmp_list :: "uchar list \<Rightarrow> uchar list \<Rightarrow> nat \<Rightarrow> int" where
  "strncmp_list p q 0 = 0"
| "strncmp_list p q (Suc n) = (if byte0 p \<noteq> 0 \<and> byte0 p = byte0 q then strncmp_list (tl p) (tl q) n
     else int (unat (byte0 p)) - int (unat (byte0 q)))"

definition strncpy_list :: "uchar list \<Rightarrow> nat \<Rightarrow> uchar list" where
  "strncpy_list t n = take n (takeWhile (\<lambda>c. c \<noteq> 0) t @ replicate n 0)"

definition namecmp :: "uchar list \<Rightarrow> uchar list \<Rightarrow> int" where
  "namecmp a b = strncmp_list a b DIRSIZ"

text \<open>A directory entry is 16 bytes: the inode number and the name.\<close>

definition de_inum :: "uchar list \<Rightarrow> ushort" where
  "de_inum de = get16 de 0"

definition de_name :: "uchar list \<Rightarrow> uchar list" where
  "de_name de = drop 2 de"

definition make_de :: "uint \<Rightarrow> uchar list \<Rightarrow> uchar list" where
  "make_de n name = put16 0 (ucast n) [0, 0] @ strncpy_list name DIRSIZ"

definition de_offs :: "uint \<Rightarrow> uint list" where
  "de_offs sz = map (\<lambda>k. of_nat (16 * k)) [0..<(unat sz + 15) div 16]"

definition dirlookup_one :: "'a devtab \<Rightarrow> nat \<Rightarrow> uchar list \<Rightarrow> uint \<Rightarrow> 'a fsst_scheme \<Rightarrow> ((nat \<times> uint) option, 'a fsst_scheme) outcome" where
  "dirlookup_one devsw dp name off =
     kbind (readi devsw dp off 16) (\<lambda>(r, de).
       if r \<noteq> 16 then kpanic ''dirlink read''
       else if de_inum de = 0 then kret None
       else if namecmp name (de_name de) = 0
         then kbind (\<lambda>s. iget (idev (inodes s ! dp)) (ucast (de_inum de)) s) (\<lambda>i. kret (Some (i, off)))
       else kret None)"

definition dirlookup :: "'a devtab \<Rightarrow> nat \<Rightarrow> uchar list \<Rightarrow> 'a fsst_scheme \<Rightarrow> ((nat \<times> uint) option, 'a fsst_scheme) outcome" where
  "dirlookup devsw dp name s =
     (if itype (inodes s ! dp) \<noteq> T_DIR then Panic ''dirlookup not DIR''
      else kfirst (dirlookup_one devsw dp name) (de_offs (isize (inodes s ! dp))) s)"

definition empty_de_one :: "'a devtab \<Rightarrow> nat \<Rightarrow> uint \<Rightarrow> 'a fsst_scheme \<Rightarrow> (uint option, 'a fsst_scheme) outcome" where
  "empty_de_one devsw dp off =
     kbind (readi devsw dp off 16) (\<lambda>(r, de).
       if r \<noteq> 16 then kpanic ''dirlink read''
       else kret (if de_inum de = 0 then Some off else None))"

definition dirlink :: "'a devtab \<Rightarrow> nat \<Rightarrow> uchar list \<Rightarrow> uint \<Rightarrow> 'a fsst_scheme \<Rightarrow> (int, 'a fsst_scheme) outcome" where
  "dirlink devsw dp name n =
     kbind (dirlookup devsw dp name) (\<lambda>r. case r of
       Some (ip, _) \<Rightarrow> kseq (iput ip) (kret (-1))
     | None \<Rightarrow>
         kbind (\<lambda>s. kfirst (empty_de_one devsw dp) (de_offs (isize (inodes s ! dp))) s) (\<lambda>r.
         kbind (kget (\<lambda>s. case r of Some off \<Rightarrow> off | None \<Rightarrow> 16 * ((isize (inodes s ! dp) + 15) div 16))) (\<lambda>off.
         kbind (writei devsw dp (make_de n name) off 16) (\<lambda>r.
           if r \<noteq> 16 then kpanic ''dirlink'' else kret 0))))"

section \<open>Paths\<close>

definition skipelem :: "uchar list \<Rightarrow> (uchar list \<times> uchar list) option" where
  "skipelem path =
     (let p = dropWhile (\<lambda>c. c = SLASH) path in
      if p = [] then None
      else Some (dropWhile (\<lambda>c. c = SLASH) (dropWhile (\<lambda>c. c \<noteq> SLASH) p), take DIRSIZ (takeWhile (\<lambda>c. c \<noteq> SLASH) p)))"

text \<open>The loop of \<^verbatim>\<open>namex\<close>: each turn shortens the path. The result has the last name \<^verbatim>\<open>skipelem\<close> copied.\<close>

definition namex_body :: "'a devtab \<Rightarrow> bool \<Rightarrow> nat \<times> uchar list \<times> uchar list \<Rightarrow> 'a fsst_scheme
    \<Rightarrow> ((nat \<times> uchar list \<times> uchar list) + (nat option \<times> uchar list), 'a fsst_scheme) outcome" where
  "namex_body devsw par = (\<lambda>(ip, path, name). case skipelem path of
     None \<Rightarrow> if par then kseq (iput ip) (kret (Inr (None, name))) else kret (Inr (Some ip, name))
   | Some (path, name) \<Rightarrow>
       kseq (ilock (Some ip))
       (\<lambda>s. if itype (inodes s ! ip) \<noteq> T_DIR then kseq (iunlockput ip) (kret (Inr (None, name))) s
            else if par \<and> path = [] then kseq (iunlock (Some ip)) (kret (Inr (Some ip, name))) s
            else kbind (dirlookup devsw ip name) (\<lambda>r. case r of
                None \<Rightarrow> kseq (iunlockput ip) (kret (Inr (None, name)))
              | Some (nxt, _) \<Rightarrow> kseq (iunlockput ip) (kret (Inl (nxt, path, name)))) s))"

definition namex :: "'a devtab \<Rightarrow> uchar list \<Rightarrow> bool \<Rightarrow> 'a fsst_scheme \<Rightarrow> (nat option \<times> uchar list, 'a fsst_scheme) outcome" where
  "namex devsw path par =
     kbind (if byte0 path = SLASH then iget ROOTDEV ROOTINO
            else with_proc (\<lambda>p s. case cwd (procs s ! p) of None \<Rightarrow> Fault ''cwd'' | Some c \<Rightarrow> idup c s)) (\<lambda>ip.
     kloop (Suc (length path)) (namex_body devsw par) (ip, path, []))"

definition namei :: "'a devtab \<Rightarrow> uchar list \<Rightarrow> 'a fsst_scheme \<Rightarrow> (nat option, 'a fsst_scheme) outcome" where
  "namei devsw path = kbind (namex devsw path False) (\<lambda>(ip, _). kret ip)"

definition nameiparent :: "'a devtab \<Rightarrow> uchar list \<Rightarrow> 'a fsst_scheme \<Rightarrow> (nat option \<times> uchar list, 'a fsst_scheme) outcome" where
  "nameiparent devsw path = namex devsw path True"

end
