(* ===== verification/Path.thy ===== *)
theory Path
  imports Fs
begin

text \<open>
  Path names and directory entries: \<^verbatim>\<open>skipelem\<close> applied again and again splits a path at its slashes, the entry \<^verbatim>\<open>dirlink\<close> writes is the
  one \<^verbatim>\<open>dirlookup\<close> finds, and \<^verbatim>\<open>namecmp\<close> compares names up to \<^verbatim>\<open>DIRSIZ\<close> bytes.
\<close>

section \<open>Splitting a path\<close>

text \<open>The reference: the parts between slashes, without the empty ones.\<close>

fun split_slash :: "uchar list \<Rightarrow> uchar list list" where
  "split_slash [] = [[]]"
| "split_slash (c # cs) = (if c = SLASH then [] # split_slash cs
     else (case split_slash cs of [] \<Rightarrow> [[c]] | x # xs \<Rightarrow> (c # x) # xs))"

definition components :: "uchar list \<Rightarrow> uchar list list" where
  "components p = filter (\<lambda>x. x \<noteq> []) (split_slash p)"

lemma skipelem_shorter:
  assumes "skipelem path = Some (rest, name)"
  shows "length rest < length path"
proof -
  let ?p = "dropWhile (\<lambda>c. c = SLASH) path"
  from assms have ne: "?p \<noteq> []" and r: "rest = dropWhile (\<lambda>c. c = SLASH) (dropWhile (\<lambda>c. c \<noteq> SLASH) ?p)"
    by (auto simp: skipelem_def Let_def split: if_splits)
  have "hd ?p \<noteq> SLASH" using hd_dropWhile [OF ne] by simp
  then have "length (dropWhile (\<lambda>c. c \<noteq> SLASH) ?p) < length ?p"
    using ne by (cases ?p) (auto simp: le_imp_less_Suc length_dropWhile_le)
  moreover have "length rest \<le> length (dropWhile (\<lambda>c. c \<noteq> SLASH) ?p)" unfolding r by (rule length_dropWhile_le)
  moreover have "length ?p \<le> length path" by (rule length_dropWhile_le)
  ultimately show ?thesis by linarith
qed

text \<open>The names \<^verbatim>\<open>namex\<close> looks up, in order.\<close>

function path_elems :: "uchar list \<Rightarrow> uchar list list" where
  "path_elems path = (case skipelem path of None \<Rightarrow> [] | Some (rest, name) \<Rightarrow> name # path_elems rest)"
  by pat_completeness auto

termination path_elems
  by (relation "measure length") (auto dest: skipelem_shorter)

lemma split_slash_nonempty: "split_slash p \<noteq> []"
  by (induction p) (auto split: list.splits)

lemma components_slash: "components (SLASH # p) = components p"
  by (simp add: components_def)

lemma components_dropWhile: "components (dropWhile (\<lambda>c. c = SLASH) p) = components p"
  by (induction p) (auto simp: components_slash)

lemma split_takeWhile:
  "split_slash p = (case dropWhile (\<lambda>c. c \<noteq> SLASH) p of [] \<Rightarrow> [takeWhile (\<lambda>c. c \<noteq> SLASH) p]
     | _ # r \<Rightarrow> takeWhile (\<lambda>c. c \<noteq> SLASH) p # split_slash r)"
proof (induction p)
  case (Cons a p)
  then show ?case by (cases "a = SLASH"; cases "dropWhile (\<lambda>c. c \<noteq> SLASH) p") (simp_all del: dropWhile_eq_Nil_conv)
qed simp

lemma components_head:
  assumes "p \<noteq> []" "hd p \<noteq> SLASH"
  shows "components p = takeWhile (\<lambda>c. c \<noteq> SLASH) p # components (dropWhile (\<lambda>c. c \<noteq> SLASH) p)"
proof -
  have t: "takeWhile (\<lambda>c. c \<noteq> SLASH) p \<noteq> []" using assms by (cases p) auto
  show ?thesis
  proof (cases "dropWhile (\<lambda>c. c \<noteq> SLASH) p")
    case Nil
    then show ?thesis using t by (simp add: components_def split_takeWhile [of p] del: dropWhile_eq_Nil_conv)
  next
    case (Cons c r)
    then have "c = SLASH" using hd_dropWhile [of "\<lambda>c. c \<noteq> SLASH" p] by simp
    then show ?thesis using t Cons by (simp add: components_def split_takeWhile [of p])
  qed
qed

section \<open>Directory entries\<close>

text \<open>The part of a byte string that counts as a name.\<close>

definition cname :: "uchar list \<Rightarrow> uchar list" where
  "cname a = takeWhile (\<lambda>c. c \<noteq> 0) (take DIRSIZ a)"

lemma strncmp_list_eq: "strncmp_list p q n = 0 \<longleftrightarrow> takeWhile (\<lambda>c. c \<noteq> 0) (take n p) = takeWhile (\<lambda>c. c \<noteq> 0) (take n q)"
proof (induction n arbitrary: p q)
  case 0
  then show ?case by simp
next
  case (Suc n)
  show ?case
  proof (cases "byte0 p \<noteq> 0 \<and> byte0 p = byte0 q")
    case True
    then obtain c p' q' where "p = c # p'" "q = c # q'" "c \<noteq> 0"
      by (auto simp: byte0_def split: list.splits)
    with Suc show ?thesis by (simp add: byte0_def)
  next
    case False
    moreover have "int (unat (byte0 p)) - int (unat (byte0 q)) = 0 \<longleftrightarrow> byte0 p = byte0 q"
      by (simp only: right_minus_eq of_nat_eq_iff word_unat_eq_iff)
    ultimately show ?thesis by (auto simp: byte0_def split: list.splits)
  qed
qed

lemma takeWhile_append_zero: "takeWhile (\<lambda>c. c \<noteq> (0::uchar)) (take n (takeWhile (\<lambda>c. c \<noteq> 0) t @ replicate m 0)) = takeWhile (\<lambda>c. c \<noteq> 0) (take n t)"
proof (induction t arbitrary: n)
  case Nil
  then show ?case by (cases "min n m") (auto simp: takeWhile_replicate)
next
  case (Cons a t)
  then show ?case by (cases n) (auto simp: takeWhile_replicate take_Cons' split: if_splits)
qed

section \<open>Properties\<close>

text \<open>C29: taking elements off a path with \<^verbatim>\<open>skipelem\<close> until it reports the end yields exactly the parts of the path between
  slashes, without the empty ones, in order and cut to \<^verbatim>\<open>DIRSIZ\<close> bytes. Each step shortens the path.\<close>

theorem skipelem_splits:
  "path_elems path = map (take DIRSIZ) (components path)
     \<and> (\<forall>rest name. skipelem path = Some (rest, name) \<longrightarrow> length rest < length path \<and> name \<noteq> [] \<and> SLASH \<notin> set name)"
proof (intro conjI allI impI)
  show "path_elems path = map (take DIRSIZ) (components path)"
  proof (induction path rule: path_elems.induct)
    case (1 path)
    let ?p = "dropWhile (\<lambda>c. c = SLASH) path"
    show ?case
    proof (cases "?p = []")
      case True
      then have "skipelem path = None" by (simp add: skipelem_def)
      moreover have "components path = []" using components_dropWhile [of path] True by (simp add: components_def)
      ultimately show ?thesis by (subst path_elems.simps) simp
    next
      case False
      let ?r = "dropWhile (\<lambda>c. c \<noteq> SLASH) ?p" and ?n = "takeWhile (\<lambda>c. c \<noteq> SLASH) ?p"
      have sk: "skipelem path = Some (dropWhile (\<lambda>c. c = SLASH) ?r, take DIRSIZ ?n)"
        using False by (simp add: skipelem_def Let_def)
      have "hd ?p \<noteq> SLASH" using hd_dropWhile [OF False] by simp
      then have "components path = ?n # components ?r"
        using components_head [OF False] components_dropWhile [of path] by simp
      then have "components path = ?n # components (dropWhile (\<lambda>c. c = SLASH) ?r)"
        using components_dropWhile [of ?r] by simp
      moreover have "path_elems path = take DIRSIZ ?n # path_elems (dropWhile (\<lambda>c. c = SLASH) ?r)"
        by (subst path_elems.simps) (simp add: sk)
      ultimately show ?thesis using 1 [OF sk refl] by simp
    qed
  qed
next
  fix rest name assume sk: "skipelem path = Some (rest, name)"
  then show "length rest < length path" by (rule skipelem_shorter)
  let ?p = "dropWhile (\<lambda>c. c = SLASH) path"
  from sk have ne: "?p \<noteq> []" and n: "name = take DIRSIZ (takeWhile (\<lambda>c. c \<noteq> SLASH) ?p)"
    by (auto simp: skipelem_def Let_def split: if_splits)
  have "hd ?p \<noteq> SLASH" using hd_dropWhile [OF ne] by simp
  then show "name \<noteq> []" using ne unfolding n by (cases ?p) auto
  show "SLASH \<notin> set name" unfolding n by (auto dest!: in_set_takeD set_takeWhileD)
qed

theorem skipelem_splits_witness:
  "path_elems [47, 47, 97, 47, 98, 98, 47] = [[97], [98, 98]]"
  using skipelem_splits [of "[47, 47, 97, 47, 98, 98, 47]"] by (simp add: components_def)

text \<open>The entry that \<^verbatim>\<open>dirlink\<close> builds for a name has 16 bytes, carries the inode number, and is recognised by the comparison of
  \<^verbatim>\<open>dirlookup\<close> for exactly the names that agree with it in the first \<^verbatim>\<open>DIRSIZ\<close> bytes.\<close>

theorem dirent_roundtrip:
  "length (make_de n name) = 16 \<and> de_inum (make_de n name) = ucast n
     \<and> (namecmp other (de_name (make_de n name)) = 0 \<longleftrightarrow> cname other = cname name)"
proof -
  have l: "length (strncpy_list name 14) = 14" by (simp add: strncpy_list_def)
  have 1: "length (make_de n name) = 16" using l by (simp add: make_de_def)
  have 2: "de_inum (make_de n name) = ucast n"
    using get16_put16 [of 0 "[0, 0]" "ucast n"] by (simp add: make_de_def de_inum_def get16_def nth_append)
  have "de_name (make_de n name) = strncpy_list name 14" by (simp add: make_de_def de_name_def)
  moreover have "takeWhile (\<lambda>c. c \<noteq> 0) (take 14 (strncpy_list name 14)) = cname name"
    unfolding strncpy_list_def cname_def take_take min.idem by (rule takeWhile_append_zero)
  ultimately show ?thesis using 1 2 by (simp add: namecmp_def strncmp_list_eq cname_def)
qed

end
