(* ===== verification/Inode.thy ===== *)
theory Inode
  imports Fs
begin

text \<open>
  Inodes: their representation on the disk, and the inode cache as a map from an inode's identity to the number of references to it.
\<close>

section \<open>The inode on the disk\<close>

lemma get_put_apart:
  "k + 2 \<le> j \<or> j + 2 \<le> k \<Longrightarrow> get16 (put16 j v d) k = get16 d k"
  "k + 2 \<le> j \<or> j + 4 \<le> k \<Longrightarrow> get16 (put32 j w d) k = get16 d k"
  "k + 4 \<le> j \<or> j + 2 \<le> k \<Longrightarrow> get32 (put16 j v d) k = get32 d k"
  unfolding get16_def get32_def put16_def put32_def by auto

lemma get16_fold_apart:
  "(\<And>i. i \<in> set is \<Longrightarrow> k + 2 \<le> f i \<or> f i + 4 \<le> k) \<Longrightarrow> get16 (fold (\<lambda>i. put32 (f i) (g i)) is d) k = get16 d k"
  by (induction "is" arbitrary: d) (auto simp: get_put_apart)

lemma get32_fold:
  assumes "distinct is" "i \<in> set is" "\<And>i j. i \<in> set is \<Longrightarrow> j \<in> set is \<Longrightarrow> i \<noteq> j \<Longrightarrow> f i + 4 \<le> f j \<or> f j + 4 \<le> (f i :: nat)"
    "f i + 3 < length d"
  shows "get32 (fold (\<lambda>i. put32 (f i) (g i)) is d) (f i) = g i"
  using assms
proof (induction "is" arbitrary: d)
  case Nil
  then show ?case by simp
next
  case (Cons a "is")
  show ?case
  proof (cases "a = i")
    case True
    have "get32 (fold (\<lambda>i. put32 (f i) (g i)) is (put32 (f a) (g a) d)) (f i) = get32 (put32 (f a) (g a) d) (f i)"
      by (rule get32_fold_apart) (use Cons.prems True in force)
    then show ?thesis using True Cons.prems by (simp add: get32_put32)
  next
    case False
    then show ?thesis using Cons by simp
  qed
qed

section \<open>The inode cache\<close>

definition icache_ok :: "'a fsst_scheme \<Rightarrow> bool" where
  "icache_ok s \<longleftrightarrow> length (inodes s) = NINODE \<and> (\<forall>i < NINODE. 0 \<le> iref (inodes s ! i))
     \<and> (\<forall>i < NINODE. \<forall>j < NINODE. 0 < iref (inodes s ! i) \<and> 0 < iref (inodes s ! j)
          \<and> idev (inodes s ! i) = idev (inodes s ! j) \<and> inum (inodes s ! i) = inum (inodes s ! j) \<longrightarrow> i = j)"

definition live :: "'a fsst_scheme \<Rightarrow> nat \<Rightarrow> uint \<times> uint \<Rightarrow> bool" where
  "live s i x \<longleftrightarrow> i < NINODE \<and> 0 < iref (inodes s ! i) \<and> (idev (inodes s ! i), inum (inodes s ! i)) = x"

text \<open>The number of references to inode \<open>n\<close> of device \<open>d\<close>.\<close>

definition irefs :: "'a fsst_scheme \<Rightarrow> uint \<times> uint \<Rightarrow> int" where
  "irefs s x = (case find_idx (\<lambda>ip. 0 < iref ip \<and> (idev ip, inum ip) = x) (inodes s) of None \<Rightarrow> 0 | Some i \<Rightarrow> iref (inodes s ! i))"

lemma upd_inode_run [simp, krun]: "upd_inode i f s = Done () (s\<lparr>inodes := (inodes s)[i := f (inodes s ! i)]\<rparr>)"
  by (simp add: upd_inode_def)

lemma icache_unique: "icache_ok s \<Longrightarrow> live s i x \<Longrightarrow> live s j x \<Longrightarrow> i = j"
  unfolding icache_ok_def live_def by auto

lemma irefs_live:
  assumes "icache_ok s" "live s i x"
  shows "irefs s x = iref (inodes s ! i)"
proof (cases "find_idx (\<lambda>ip. 0 < iref ip \<and> (idev ip, inum ip) = x) (inodes s)")
  case None
  have "inodes s ! i \<in> set (inodes s)" using assms by (simp add: icache_ok_def live_def)
  with None assms(2) show ?thesis by (auto simp: find_idx_None_iff live_def)
next
  case (Some j)
  have "live s j x" using find_idx_bound [OF Some] find_idx_holds [OF Some] assms(1) by (simp add: live_def icache_ok_def)
  with icache_unique [OF assms] Some show ?thesis by (auto simp: irefs_def)
qed

lemma irefs_dead:
  assumes "icache_ok s" "\<And>i. \<not> live s i x"
  shows "irefs s x = 0"
proof (cases "find_idx (\<lambda>ip. 0 < iref ip \<and> (idev ip, inum ip) = x) (inodes s)")
  case (Some j)
  have "live s j x" using find_idx_bound [OF Some] find_idx_holds [OF Some] assms(1) by (simp add: live_def icache_ok_def)
  with assms(2) show ?thesis by blast
qed (simp add: irefs_def)

text \<open>The map depends on the live entries only.\<close>

lemma irefs_update:
  assumes ok: "icache_ok s" "icache_ok t" and i: "i < NINODE" and t: "inodes t = (inodes s)[i := ip]"
    and x: "(idev ip, inum ip) = x" and old: "iref (inodes s ! i) = 0 \<and> (\<forall>j. \<not> live s j x) \<or> live s i x"
  shows "irefs t = (irefs s)(x := iref ip)"
proof
  fix y
  have len: "length (inodes s) = 50" using ok(1) by (simp add: icache_ok_def)
  have nth: "inodes t ! k = (if k = i then ip else inodes s ! k)" for k using i len t by simp
  have other: "live t k y = live s k y" if "k \<noteq> i" for k using that by (simp add: live_def nth)
  have neg: "0 \<le> iref ip" using ok(2) i nth [of i] by (auto simp: icache_ok_def)
  show "irefs t y = ((irefs s)(x := iref ip)) y"
  proof (cases "y = x")
    case True
    show ?thesis
    proof (cases "iref ip = 0")
      case True
      have "\<not> live t k x" for k
        using old icache_unique [OF ok(1), of i x k] True other [of k] \<open>y = x\<close> by (cases "k = i") (auto simp: live_def nth)
      then show ?thesis using irefs_dead [OF ok(2)] True \<open>y = x\<close> by simp
    next
      case False
      then have "live t i x" using i x neg by (simp add: live_def nth)
      then show ?thesis using irefs_live [OF ok(2)] \<open>y = x\<close> by (simp add: nth)
    qed
  next
    case False
    have si: "\<not> live s i y" using old False by (auto simp: live_def)
    have ti: "\<not> live t i y" using x False by (simp add: live_def nth)
    show ?thesis
    proof (cases "\<exists>k. live s k y")
      case True
      then obtain k where k: "live s k y" "k \<noteq> i" using si by blast
      then have "live t k y" using other by simp
      then show ?thesis using irefs_live [OF ok(1) k(1)] irefs_live [OF ok(2)] k False by (simp add: nth)
    next
      case no: False
      then have "\<not> live t k y" for k using other [of k] ti by (cases "k = i") auto
      then show ?thesis using irefs_dead [OF ok(1), of y] irefs_dead [OF ok(2), of y] no False by simp
    qed
  qed
qed

lemma icache_ok_update:
  assumes ok: "icache_ok s" and i: "i < NINODE" and t: "inodes t = (inodes s)[i := ip]" and r: "0 \<le> iref ip"
    and u: "\<And>j. j \<noteq> i \<Longrightarrow> 0 < iref ip \<Longrightarrow> \<not> live s j (idev ip, inum ip)"
  shows "icache_ok t"
proof -
  have len: "length (inodes s) = 50" using ok by (simp add: icache_ok_def)
  have nth: "inodes t ! k = (if k = i then ip else inodes s ! k)" for k using i len t by simp
  show ?thesis
    unfolding icache_ok_def nth
  proof (intro conjI allI impI)
    show "length (inodes t) = 50" using len t by simp
    fix k l
    show "0 \<le> iref (if k = i then ip else inodes s ! k)" if "k < 50" using that ok r by (simp add: icache_ok_def)
    show "k = l" if "k < 50" "l < 50" "0 < iref (if k = i then ip else inodes s ! k) \<and> 0 < iref (if l = i then ip else inodes s ! l)
        \<and> idev (if k = i then ip else inodes s ! k) = idev (if l = i then ip else inodes s ! l)
        \<and> inum (if k = i then ip else inodes s ! k) = inum (if l = i then ip else inodes s ! l)"
      using that u [of k] u [of l] ok by (cases "k = i"; cases "l = i") (auto simp: live_def icache_ok_def)
  qed
qed

text \<open>Adding to the count of an entry in use.\<close>

lemma icache_add:
  assumes ok: "icache_ok s" and l: "live s i x" and t: "inodes t = (inodes s)[i := (inodes s ! i)\<lparr>iref := iref (inodes s ! i) + k\<rparr>]"
    and k: "0 \<le> iref (inodes s ! i) + k"
  shows "icache_ok t" "irefs t = (irefs s)(x := irefs s x + k)"
proof -
  have ib: "i < 50" and x: "(idev (inodes s ! i), inum (inodes s ! i)) = x" using l by (simp_all add: live_def)
  show o: "icache_ok t"
  proof (rule icache_ok_update [OF ok _ t])
    fix j
    assume "j \<noteq> i"
    then show "\<not> live s j (idev ((inodes s ! i)\<lparr>iref := iref (inodes s ! i) + k\<rparr>), inum ((inodes s ! i)\<lparr>iref := iref (inodes s ! i) + k\<rparr>))"
      using icache_unique [OF ok l, of j] x by auto
  qed (use ib k in simp_all)
  show "irefs t = (irefs s)(x := irefs s x + k)"
    using irefs_update [OF ok o _ t, of x] ib x l irefs_live [OF ok l] by simp
qed

lemma iget_hit:
  assumes ok: "icache_ok s" and lk: "L_icache \<notin> held s" and l: "live s i (d, n)"
  shows "\<exists>t. iget d n s = Done i t \<and> icache_ok t \<and> live t i (d, n) \<and> irefs t = (irefs s)((d, n) := irefs s (d, n) + 1)"
proof -
  let ?P = "\<lambda>ip. 0 < iref ip \<and> idev ip = d \<and> inum ip = n"
  have len: "length (inodes s) = 50" using ok by (simp add: icache_ok_def)
  have "inodes s ! i \<in> set (inodes s)" using l len by (simp add: live_def)
  then obtain j where j: "find_idx ?P (inodes s) = Some j" using l by (cases "find_idx ?P (inodes s)") (auto simp: find_idx_None_iff live_def)
  have "live s j (d, n)" using find_idx_bound [OF j] find_idx_holds [OF j] len by (simp add: live_def)
  then have ji: "j = i" using icache_unique [OF ok _ l] by simp
  define t where "t = s\<lparr>inodes := (inodes s)[i := (inodes s ! i)\<lparr>iref := iref (inodes s ! i) + 1\<rparr>]\<rparr>"
  have it: "inodes t = (inodes s)[i := (inodes s ! i)\<lparr>iref := iref (inodes s ! i) + 1\<rparr>]" by (simp add: t_def)
  have run: "iget d n s = Done i t" using lk j ji by (cases s) (simp add: iget_def t_def)
  have "live t i (d, n)" using l len by (simp add: live_def it)
  with run icache_add [OF ok l it] l show ?thesis by (simp add: live_def)
qed

lemma iget_miss:
  assumes ok: "icache_ok s" and lk: "L_icache \<notin> held s" and nl: "\<And>i. \<not> live s i (d, n)" and ex: "\<exists>i < NINODE. iref (inodes s ! i) = 0"
  shows "\<exists>i t. iget d n s = Done i t \<and> icache_ok t \<and> live t i (d, n) \<and> irefs t = (irefs s)((d, n) := irefs s (d, n) + 1)"
proof -
  have len: "length (inodes s) = 50" using ok by (simp add: icache_ok_def)
  have nl': "\<not> (0 < iref (inodes s ! j) \<and> idev (inodes s ! j) = d \<and> inum (inodes s ! j) = n)" if "j < 50" for j
    using nl [of j] that by (simp add: live_def)
  have none: "find_idx (\<lambda>ip. 0 < iref ip \<and> idev ip = d \<and> inum ip = n) (inodes s) = None"
    unfolding find_idx_None_iff using nl' len by (metis in_set_conv_nth)
  have "find_idx (\<lambda>ip. iref ip = 0) (inodes s) \<noteq> None" unfolding find_idx_None_iff using ex len by (metis in_set_conv_nth)
  then obtain i where i: "find_idx (\<lambda>ip. iref ip = 0) (inodes s) = Some i" by blast
  have ib: "i < 50" "iref (inodes s ! i) = 0" using find_idx_bound [OF i] find_idx_holds [OF i] len by simp_all
  define ip where "ip = (inodes s ! i)\<lparr>idev := d, inum := n, iref := 1, iflags := 0\<rparr>"
  define t where "t = s\<lparr>inodes := (inodes s)[i := ip]\<rparr>"
  have it: "inodes t = (inodes s)[i := ip]" by (simp add: t_def)
  have run: "iget d n s = Done i t" using lk none i by (cases s) (simp add: iget_def t_def ip_def)
  have o: "icache_ok t" by (rule icache_ok_update [OF ok _ it]) (use nl ib in \<open>simp_all add: ip_def\<close>)
  have "irefs t = (irefs s)((d, n) := iref ip)"
    by (rule irefs_update [OF ok o _ it]) (use ib nl in \<open>simp_all add: ip_def\<close>)
  moreover have "irefs s (d, n) = 0" using irefs_dead [OF ok] nl by blast
  moreover have "live t i (d, n)" using ib len by (simp add: live_def it ip_def)
  ultimately show ?thesis using run o by (intro exI [of _ i] exI [of _ t]) (simp add: ip_def)
qed

lemma idup_counts:
  assumes ok: "icache_ok s" and lk: "L_icache \<notin> held s" and l: "live s i x"
  shows "\<exists>t. idup i s = Done i t \<and> icache_ok t \<and> irefs t = (irefs s)(x := irefs s x + 1)"
proof -
  define t where "t = s\<lparr>inodes := (inodes s)[i := (inodes s ! i)\<lparr>iref := iref (inodes s ! i) + 1\<rparr>]\<rparr>"
  have it: "inodes t = (inodes s)[i := (inodes s ! i)\<lparr>iref := iref (inodes s ! i) + 1\<rparr>]" by (simp add: t_def)
  have "idup i s = Done i t" using lk by (cases s) (simp add: idup_def t_def)
  with icache_add [OF ok l it] l show ?thesis by (simp add: live_def)
qed

lemma iput_counts:
  assumes ok: "icache_ok s" and lk: "L_icache \<notin> held s" and l: "live s i x"
    and nf: "\<not> (iref (inodes s ! i) = 1 \<and> iflags (inodes s ! i) AND I_VALID \<noteq> 0 \<and> inlink (inodes s ! i) = 0)"
  shows "\<exists>t. iput i s = Done () t \<and> icache_ok t \<and> irefs t = (irefs s)(x := irefs s x - 1)"
proof -
  define t where "t = s\<lparr>inodes := (inodes s)[i := (inodes s ! i)\<lparr>iref := iref (inodes s ! i) - 1\<rparr>]\<rparr>"
  have it: "inodes t = (inodes s)[i := (inodes s ! i)\<lparr>iref := iref (inodes s ! i) + - 1\<rparr>]" by (simp add: t_def)
  have "iput i s = Done () t" using lk nf by (cases s) (auto simp: iput_def Let_def t_def)
  with icache_add [OF ok l it] l show ?thesis by (simp add: live_def)
qed

section \<open>Properties\<close>

text \<open>C28: reading an inode back from the block where \<^verbatim>\<open>iupdate\<close> put it gives the same type, device numbers, link count, size and
  addresses, and the other inodes of the block are untouched.\<close>

theorem dinode_roundtrip:
  assumes "length d = BSIZE" "length (iaddrs ip) = NDIRECT + 1"
  shows "get_dinode (dip_off n) (put_dinode (dip_off n) ip d) jp
      = jp\<lparr>itype := itype ip, imajor := imajor ip, iminor := iminor ip, inlink := inlink ip, isize := isize ip, iaddrs := iaddrs ip\<rparr>
     \<and> (dip_off m \<noteq> dip_off n \<longrightarrow> get_dinode (dip_off m) (put_dinode (dip_off n) ip d) jp = get_dinode (dip_off m) d jp)"
proof
  let ?k = "dip_off n"
  have k: "?k + 64 \<le> 512" by (simp add: dip_off_def)
  define e where "e = put32 (?k + 8) (isize ip) (put16 (?k + 6) (inlink ip) (put16 (?k + 4) (iminor ip) (put16 (?k + 2) (imajor ip) (put16 ?k (itype ip) d))))"
  have p: "put_dinode ?k ip d = fold (\<lambda>i. put32 (?k + 12 + 4 * i) (iaddrs ip ! i)) [0..<13] e"
    by (simp add: put_dinode_def put_addrs_def e_def)
  have le: "length e = 512" using assms by (simp add: e_def)
  have f16: "get16 (put_dinode ?k ip d) (?k + j) = get16 e (?k + j)" if "j + 2 \<le> 12" for j
    unfolding p by (rule get16_fold_apart) (use that in simp)
  have f32: "get32 (put_dinode ?k ip d) (?k + 8) = get32 e (?k + 8)"
    unfolding p by (rule get32_fold_apart) simp
  have hd: "get16 e ?k = itype ip" "get16 e (?k + 2) = imajor ip" "get16 e (?k + 4) = iminor ip" "get16 e (?k + 6) = inlink ip"
    "get32 e (?k + 8) = isize ip"
    using k assms(1) by (simp_all add: e_def get_put_apart get16_put16 get32_put32)
  have ad: "get32 (put_dinode ?k ip d) (?k + 12 + 4 * i) = iaddrs ip ! i" if "i < 13" for i
    unfolding p by (rule get32_fold [where f = "\<lambda>i. ?k + 12 + 4 * i"]) (use that k le in auto)
  have "map (\<lambda>i. get32 (put_dinode ?k ip d) (?k + 12 + 4 * i)) [0..<13] = iaddrs ip"
    by (rule nth_equalityI) (use ad assms(2) in simp_all)
  then show "get_dinode ?k (put_dinode ?k ip d) jp
      = jp\<lparr>itype := itype ip, imajor := imajor ip, iminor := iminor ip, inlink := inlink ip, isize := isize ip, iaddrs := iaddrs ip\<rparr>"
    using f16 [of 0] f16 [of 2] f16 [of 4] f16 [of 6] f32 hd by (simp add: get_dinode_def)
  show "dip_off m \<noteq> ?k \<longrightarrow> get_dinode (dip_off m) (put_dinode ?k ip d) jp = get_dinode (dip_off m) d jp"
  proof
    let ?m = "dip_off m"
    assume ne: "?m \<noteq> ?k"
    then have ap: "?m + 64 \<le> ?k \<or> ?k + 64 \<le> ?m" by (auto simp: dip_off_def)
    have g16: "get16 (put_dinode ?k ip d) (?m + j) = get16 d (?m + j)" if "j + 2 \<le> 64" for j
    proof -
      have "get16 (put_dinode ?k ip d) (?m + j) = get16 e (?m + j)"
        unfolding p by (rule get16_fold_apart) (use that ap in auto)
      also have "\<dots> = get16 d (?m + j)" unfolding e_def using that ap by (auto simp: get_put_apart)
      finally show ?thesis .
    qed
    have g32: "get32 (put_dinode ?k ip d) (?m + j) = get32 d (?m + j)" if "j + 4 \<le> 64" for j
    proof -
      have "get32 (put_dinode ?k ip d) (?m + j) = get32 e (?m + j)"
        unfolding p by (rule get32_fold_apart) (use that ap in auto)
      also have "\<dots> = get32 d (?m + j)" unfolding e_def using that ap by (auto simp: get_put_apart get32_put32_apart)
      finally show ?thesis .
    qed
    have "map (\<lambda>i. get32 (put_dinode ?k ip d) (?m + 12 + 4 * i)) [0..<13] = map (\<lambda>i. get32 d (?m + 12 + 4 * i)) [0..<13]"
      using g32 [of "12 + 4 * i" for i] by (auto simp: add.assoc)
    then show "get_dinode ?m (put_dinode ?k ip d) jp = get_dinode ?m d jp"
      using g16 [of 0] g16 [of 2] g16 [of 4] g16 [of 6] g32 [of 8] by (simp add: get_dinode_def)
  qed
qed

definition demo_inode :: inode where
  "demo_inode = \<lparr>idev = 1, inum = 9, iref = 1, iflags = 2, itype = 2, imajor = 0, iminor = 0, inlink = 1, isize = 700,
     iaddrs = [40, 41] @ replicate 11 0\<rparr>"

theorem dinode_roundtrip_witness:
  "get_dinode (dip_off 9) (put_dinode (dip_off 9) demo_inode (replicate 512 0)) (demo_inode\<lparr>isize := 0, iaddrs := []\<rparr>) = demo_inode"
  using dinode_roundtrip [of "replicate 512 0" demo_inode 9 "demo_inode\<lparr>isize := 0, iaddrs := []\<rparr>" 9] by (simp add: demo_inode_def)

text \<open>C27: the inode cache counts references. \<^verbatim>\<open>iget\<close> returns an entry for the inode asked for, the one already in use if there is one, and adds one reference
  to that inode; \<^verbatim>\<open>idup\<close> adds one to the inode of its entry; \<^verbatim>\<open>iput\<close> takes one away, where it does not
  free the inode. References to other inodes do not change, and no inode ever has two entries in use.\<close>

theorem icache_counts_references:
  assumes ok: "icache_ok s" and lk: "L_icache \<notin> held s"
  shows "((\<exists>i. live s i (d, n)) \<or> (\<exists>i < NINODE. iref (inodes s ! i) = 0) \<longrightarrow>
        (\<exists>i t. iget d n s = Done i t \<and> icache_ok t \<and> live t i (d, n) \<and> (\<forall>j. live s j (d, n) \<longrightarrow> j = i)
           \<and> irefs t = (irefs s)((d, n) := irefs s (d, n) + 1)))
     \<and> (\<forall>i x. live s i x \<longrightarrow> (\<exists>t. idup i s = Done i t \<and> icache_ok t \<and> irefs t = (irefs s)(x := irefs s x + 1)))
     \<and> (\<forall>i x. live s i x \<and> \<not> (iref (inodes s ! i) = 1 \<and> iflags (inodes s ! i) AND I_VALID \<noteq> 0 \<and> inlink (inodes s ! i) = 0) \<longrightarrow>
        (\<exists>t. iput i s = Done () t \<and> icache_ok t \<and> irefs t = (irefs s)(x := irefs s x - 1)))"
proof (intro conjI allI impI)
  assume ex: "(\<exists>i. live s i (d, n)) \<or> (\<exists>i < 50. iref (inodes s ! i) = 0)"
  show "\<exists>i t. iget d n s = Done i t \<and> icache_ok t \<and> live t i (d, n) \<and> (\<forall>j. live s j (d, n) \<longrightarrow> j = i)
           \<and> irefs t = (irefs s)((d, n) := irefs s (d, n) + 1)"
  proof (cases "\<exists>i. live s i (d, n)")
    case True
    then obtain i where l: "live s i (d, n)" by blast
    with iget_hit [OF ok lk l] icache_unique [OF ok _ l] show ?thesis by blast
  next
    case False
    with iget_miss [OF ok lk, of d n] ex show ?thesis by blast
  qed
next
  show "\<exists>t. idup i s = Done i t \<and> icache_ok t \<and> irefs t = (irefs s)(x := irefs s x + 1)" if "live s i x" for i x
    by (rule idup_counts [OF ok lk that])
  show "\<exists>t. iput i s = Done () t \<and> icache_ok t \<and> irefs t = (irefs s)(x := irefs s x - 1)"
    if "live s i x \<and> \<not> (iref (inodes s ! i) = 1 \<and> iflags (inodes s ! i) AND I_VALID \<noteq> 0 \<and> inlink (inodes s ! i) = 0)" for i x
    by (rule iput_counts [OF ok lk]) (use that in blast)+
qed

definition boot_fs :: fsst where
  "boot_fs = logst.extend boot_log
     \<lparr>sb = \<lparr>sb_size = 0, sb_nblocks = 0, sb_ninodes = 0, sb_nlog = 0, sb_logstart = 0, sb_inodestart = 0, sb_bmapstart = 0\<rparr>,
       inodes = replicate 3 (demo_inode\<lparr>iref := 0\<rparr>) @ demo_inode # replicate 46 (demo_inode\<lparr>iref := 0\<rparr>)\<rparr>"

lemma boot_fs_sel: "held boot_fs = {}" "inodes boot_fs = replicate 3 (demo_inode\<lparr>iref := 0\<rparr>) @ demo_inode # replicate 46 (demo_inode\<lparr>iref := 0\<rparr>)"
  using boot_log_sel by (simp_all add: boot_fs_def logst.defs)

lemma boot_fs_ok: "icache_ok boot_fs" "live boot_fs 3 (1, 9)" "live boot_fs i x \<Longrightarrow> i = 3"
proof -
  have nth: "iref (inodes boot_fs ! i) = (if i = 3 then 1 else 0)" if "i < 50" for i
    using that by (auto simp: boot_fs_sel nth_append nth_Cons demo_inode_def split: nat.split)
  show "icache_ok boot_fs" "live boot_fs i x \<Longrightarrow> i = 3"
    using nth by (auto simp: icache_ok_def live_def boot_fs_sel(2) split: if_splits)
  show "live boot_fs 3 (1, 9)" using nth [of 3] by (simp add: live_def boot_fs_sel nth_append demo_inode_def)
qed

theorem icache_counts_references_witness:
  "(\<exists>t. iget 1 9 boot_fs = Done 3 t \<and> irefs t (1, 9) = irefs boot_fs (1, 9) + 1)
     \<and> (\<exists>t. iput 3 boot_fs = Done () t \<and> irefs t (1, 9) = irefs boot_fs (1, 9) - 1)"
proof
  have lk: "L_icache \<notin> held boot_fs" by (simp add: boot_fs_sel)
  note claim = icache_counts_references [OF boot_fs_ok(1) lk, of 1 9]
  obtain i t where it: "iget 1 9 boot_fs = Done i t" "\<forall>j. live boot_fs j (1, 9) \<longrightarrow> j = i" "irefs t = (irefs boot_fs)((1, 9) := irefs boot_fs (1, 9) + 1)"
    using claim [THEN conjunct1] boot_fs_ok(2) by blast
  then have "i = 3" using boot_fs_ok(2) by blast
  with it show "\<exists>t. iget 1 9 boot_fs = Done 3 t \<and> irefs t (1, 9) = irefs boot_fs (1, 9) + 1" by auto
  have "inlink (inodes boot_fs ! 3) \<noteq> 0" by (simp add: boot_fs_sel nth_append demo_inode_def)
  then obtain u where "iput 3 boot_fs = Done () u" "irefs u = (irefs boot_fs)((1, 9) := irefs boot_fs (1, 9) - 1)"
    using claim [THEN conjunct2, THEN conjunct2] boot_fs_ok(2) by blast
  then show "\<exists>t. iput 3 boot_fs = Done () t \<and> irefs t (1, 9) = irefs boot_fs (1, 9) - 1" by auto
qed

end
