(* ===== verification/Pipe.thy ===== *)
theory Pipe
  imports Fs
begin

text \<open>
  Pipes (\<^verbatim>\<open>pipe.c\<close>; \<^verbatim>\<open>pipealloc\<close> is in the theory File, with the file table it fills). A pipe lives in a page of
  the allocator; the page at an address holds the pipe the map \<open>pipes\<close> gives for it, until it is freed. The bytes a
  writer passes and a reader gets are lists. A writer or reader that sleeps is the outcome \<open>Block\<close>; what it does when
  it runs again is \<open>pipewrite_resume\<close>, with the bytes it has not written yet, and \<open>piperead_resume\<close>. The properties show
  that a pipe is a first-in first-out queue of bytes whose counters may wrap around, for every interleaving of writers and readers.
\<close>

section \<open>State\<close>

abbreviation (input) PIPESIZE :: uint where "PIPESIZE \<equiv> 512"

record pipe =
  pdata :: "uchar list"   \<comment> \<open>\<^verbatim>\<open>data\<close>\<close>
  nread :: uint
  nwrite :: uint
  readopen :: int
  writeopen :: int

record pipest = fsst +
  pipes :: "uint \<Rightarrow> pipe option"

definition upd_pipe :: "uint \<Rightarrow> (pipe \<Rightarrow> pipe) \<Rightarrow> 'a pipest_scheme \<Rightarrow> (unit, 'a pipest_scheme) outcome" where
  "upd_pipe a f s = (case pipes s a of None \<Rightarrow> Fault ''pipe'' | Some p \<Rightarrow> Done () (s\<lparr>pipes := (pipes s)(a := Some (f p))\<rparr>))"

definition get_pipe :: "uint \<Rightarrow> 'a pipest_scheme \<Rightarrow> (pipe, 'a pipest_scheme) outcome" where
  "get_pipe a s = (case pipes s a of None \<Rightarrow> Fault ''pipe'' | Some p \<Rightarrow> Done p s)"

section \<open>Closing\<close>

definition pipeclose :: "uint \<Rightarrow> bool \<Rightarrow> 'a pipest_scheme \<Rightarrow> (unit, 'a pipest_scheme) outcome" where
  "pipeclose a writable =
     kseq (acquire (L_pipe a))
    (kseq (if writable then kseq (upd_pipe a (\<lambda>p. p\<lparr>writeopen := 0\<rparr>)) (wakeup (Ch_nread a))
           else kseq (upd_pipe a (\<lambda>p. p\<lparr>readopen := 0\<rparr>)) (wakeup (Ch_nwrite a)))
    (kbind (get_pipe a) (\<lambda>p.
       if readopen p = 0 \<and> writeopen p = 0
       then kseq (release (L_pipe a)) (kseq (kmod (\<lambda>s. s\<lparr>pipes := (pipes s)(a := None)\<rparr>)) (kfree a))
       else release (L_pipe a))))"

section \<open>Writing\<close>

definition proc_killed :: "'a ptable_scheme \<Rightarrow> (bool, 'a ptable_scheme) outcome" where
  "proc_killed = with_proc (\<lambda>i. kget (\<lambda>s. killed (procs s ! i) \<noteq> 0))"

definition put_byte :: "uchar \<Rightarrow> pipe \<Rightarrow> pipe" where
  "put_byte c p = p\<lparr>pdata := (pdata p)[unat (nwrite p mod PIPESIZE) := c], nwrite := nwrite p + 1\<rparr>"

text \<open>The loop of \<^verbatim>\<open>pipewrite\<close> over the bytes still to be written, and what follows it.\<close>

fun pipewrite_bytes :: "uint \<Rightarrow> int \<Rightarrow> uchar list \<Rightarrow> 'a pipest_scheme \<Rightarrow> (int, 'a pipest_scheme) outcome" where
  "pipewrite_bytes a n [] = kseq (wakeup (Ch_nread a)) (kseq (release (L_pipe a)) (kret n))"
| "pipewrite_bytes a n (c # cs) =
     kbind (get_pipe a) (\<lambda>p.
     if nwrite p = nread p + PIPESIZE then
       kbind (if readopen p = 0 then kret True else proc_killed) (\<lambda>stop.
       if stop then kseq (release (L_pipe a)) (kret (-1))
       else kseq (wakeup (Ch_nread a)) (sleep (Ch_nwrite a) (Some (L_pipe a))))
     else kseq (upd_pipe a (put_byte c)) (pipewrite_bytes a n cs))"

definition pipewrite :: "uint \<Rightarrow> uchar list \<Rightarrow> int \<Rightarrow> 'a pipest_scheme \<Rightarrow> (int, 'a pipest_scheme) outcome" where
  "pipewrite a src n = kseq (acquire (L_pipe a)) (pipewrite_bytes a n (take (nat n) src))"

definition pipewrite_resume :: "uint \<Rightarrow> int \<Rightarrow> uchar list \<Rightarrow> 'a pipest_scheme \<Rightarrow> (int, 'a pipest_scheme) outcome" where
  "pipewrite_resume a n rest = kseq (sleep_resume (L_pipe a)) (pipewrite_bytes a n rest)"

section \<open>Reading\<close>

fun piperead_bytes :: "uint \<Rightarrow> nat \<Rightarrow> 'a pipest_scheme \<Rightarrow> (uchar list, 'a pipest_scheme) outcome" where
  "piperead_bytes a 0 = kret []"
| "piperead_bytes a (Suc k) =
     kbind (get_pipe a) (\<lambda>p.
     if nread p = nwrite p then kret []
     else kseq (upd_pipe a (\<lambda>p. p\<lparr>nread := nread p + 1\<rparr>))
         (kbind (piperead_bytes a k) (\<lambda>bs. kret (pdata p ! unat (nread p mod PIPESIZE) # bs))))"

text \<open>\<^verbatim>\<open>piperead\<close> from the test of its waiting loop on. The result is the return value and the bytes copied.\<close>

definition piperead_loop :: "uint \<Rightarrow> int \<Rightarrow> 'a pipest_scheme \<Rightarrow> (int \<times> uchar list, 'a pipest_scheme) outcome" where
  "piperead_loop a n =
     kbind (get_pipe a) (\<lambda>p.
     if nread p = nwrite p \<and> writeopen p \<noteq> 0 then
       kbind proc_killed (\<lambda>k.
       if k then kseq (release (L_pipe a)) (kret (-1, []))
       else sleep (Ch_nread a) (Some (L_pipe a)))
     else kbind (piperead_bytes a (nat n)) (\<lambda>bs.
          kseq (wakeup (Ch_nwrite a)) (kseq (release (L_pipe a)) (kret (int (length bs), bs)))))"

definition piperead :: "uint \<Rightarrow> int \<Rightarrow> 'a pipest_scheme \<Rightarrow> (int \<times> uchar list, 'a pipest_scheme) outcome" where
  "piperead a n = kseq (acquire (L_pipe a)) (piperead_loop a n)"

definition piperead_resume :: "uint \<Rightarrow> int \<Rightarrow> 'a pipest_scheme \<Rightarrow> (int \<times> uchar list, 'a pipest_scheme) outcome" where
  "piperead_resume a n = kseq (sleep_resume (L_pipe a)) (piperead_loop a n)"

section \<open>The queue of a pipe\<close>

definition pipe_ok :: "pipe \<Rightarrow> bool" where
  "pipe_ok p \<longleftrightarrow> length (pdata p) = 512 \<and> unat (nwrite p - nread p) \<le> 512"

definition queue :: "pipe \<Rightarrow> uchar list" where
  "queue p = map (\<lambda>k. pdata p ! ((unat (nread p) + k) mod 512)) [0..<unat (nwrite p - nread p)]"

lemma unat_mod_512: "unat ((x::uint) mod 512) = unat x mod 512"
  by (simp add: unat_mod)

lemma nwrite_eq: "unat (nwrite p) mod 512 = (unat (nread p) + unat (nwrite p - nread p)) mod 512"
proof -
  have "unat (nread p + (nwrite p - nread p)) = (unat (nread p) + unat (nwrite p - nread p)) mod 2 ^ 32"
    unfolding unat_word_ariths by simp
  then show ?thesis by (simp add: mod_mod_cancel)
qed

lemma mod_add_differs:
  assumes "k < d" "d < n"
  shows "(r + k) mod n \<noteq> (r + d) mod (n::nat)"
proof
  assume "(r + k) mod n = (r + d) mod n"
  then have "n dvd (r + d) - (r + k)" using assms(1) mod_eq_dvd_iff_nat [of "r + k" "r + d" n] by simp
  then show False using assms nat_dvd_not_less [of "d - k" n] by simp
qed

lemma put_byte_queue:
  assumes ok: "pipe_ok p" and room: "nwrite p \<noteq> nread p + 512"
  shows "pipe_ok (put_byte c p)" "queue (put_byte c p) = queue p @ [c]"
proof -
  let ?d = "nwrite p - nread p"
  have "?d \<noteq> 512" using room by (metis add.commute diff_add_cancel)
  then have d: "unat ?d < 512" using ok  by (simp add: pipe_ok_def word_unat_eq_iff)
  have e: "nwrite p + 1 - nread p = ?d + 1" by simp
  have d1: "unat (nwrite p + 1 - nread p) = unat ?d + 1" unfolding e using d by (simp add: unat_word_ariths)
  show "pipe_ok (put_byte c p)" using ok d d1 by (simp add: pipe_ok_def put_byte_def)
  have i: "unat (nwrite p mod 512) = (unat (nread p) + unat ?d) mod 512" by (simp add: unat_mod_512 nwrite_eq)
  have other: "(pdata p)[(unat (nread p) + unat ?d) mod 512 := c] ! ((unat (nread p) + k) mod 512) = pdata p ! ((unat (nread p) + k) mod 512)"
    if "k < unat ?d" for k
  proof -
    have "(unat (nread p) + k) mod 512 \<noteq> (unat (nread p) + unat ?d) mod 512"
      by (rule mod_add_differs [OF that d])
    then show ?thesis by simp
  qed
  show "queue (put_byte c p) = queue p @ [c]" using ok other by (simp add: queue_def put_byte_def d1 i pipe_ok_def)
qed

lemma take_byte_queue:
  assumes ok: "pipe_ok p" and ne: "nread p \<noteq> nwrite p"
  shows "pipe_ok (p\<lparr>nread := nread p + 1\<rparr>)"
    "queue p = pdata p ! unat (nread p mod 512) # queue (p\<lparr>nread := nread p + 1\<rparr>)"
proof -
  let ?d = "nwrite p - nread p"
  have e: "nwrite p - (nread p + 1) = ?d - 1" by simp
  have nz: "?d \<noteq> 0" using ne by simp
  have d1: "unat ?d = Suc (unat (?d - 1))" using nz by (simp add: unat_minus_one unat_gt_0)
  show "pipe_ok (p\<lparr>nread := nread p + 1\<rparr>)" using ok d1 by (simp add: pipe_ok_def e)
  have r: "(unat (nread p + 1) + k) mod 512 = (unat (nread p) + Suc k) mod 512" for k
  proof -
    have "unat (nread p + 1) = (unat (nread p) + 1) mod 2 ^ 32" unfolding unat_word_ariths by simp
    then have "unat (nread p + 1) mod 512 = (unat (nread p) + 1) mod 512" by (simp add: mod_mod_cancel)
    then show ?thesis by (metis add.assoc add.commute mod_add_left_eq plus_1_eq_Suc)
  qed
  have "queue p = map (\<lambda>k. pdata p ! ((unat (nread p) + k) mod 512)) (0 # map Suc [0..<unat (?d - 1)])"
    unfolding queue_def d1 by (simp add: upt_conv_Cons map_Suc_upt del: upt_Suc)
  then show "queue p = pdata p ! unat (nread p mod 512) # queue (p\<lparr>nread := nread p + 1\<rparr>)"
    by (simp add: queue_def e r unat_mod_512 comp_def)
qed

lemma queue_length: "pipe_ok p \<Longrightarrow> length (queue p) = unat (nwrite p - nread p)" "pipe_ok p \<Longrightarrow> length (queue p) \<le> 512"
  by (simp_all add: queue_def pipe_ok_def)

section \<open>What the operations do to the queue\<close>

lemma sync_keeps_pipes:
  "keeps pipes (acquire l)" "keeps pipes (release l)" "keeps pipes (wakeup c)" "keeps pipes (sleep c lk)"
  "keeps pipes (sleep_resume l)" "keeps pipes proc_killed" "keeps pipes (get_pipe a)"
proof -
  show l: "keeps pipes (acquire l)" "keeps pipes (release l)" for l
    by (auto simp: keeps_def acquire_def release_def)
  have u: "keeps pipes (upd_thread i j f)" for i j f by (simp add: keeps_def)
  show "keeps pipes (wakeup c)" unfolding wakeup_def wakeup1_def by (intro keeps_intros l) simp
  have sc: "keeps pipes (sched c)" by (auto simp: keeps_def sched_def with_proc_def split: option.splits)
  show "keeps pipes (sleep c lk)"
    unfolding keeps_def sleep_def
    by (auto split: option.splits intro!: keepsD(3) [OF keeps_seq [OF keeps_when [OF keeps_seq [OF l]] keeps_seq [OF u keeps_seq [OF u sc]]]] l)
  have "keeps pipes (with_thread (\<lambda>i j. upd_thread i j f))" for f
    by (auto simp: keeps_def with_thread_def split: option.splits)
  then show "keeps pipes (sleep_resume l)" unfolding sleep_resume_def by (intro keeps_intros l)
  show "keeps pipes proc_killed" by (auto simp: keeps_def proc_killed_def with_proc_def split: option.splits)
  show "keeps pipes (get_pipe a)" by (auto simp: keeps_def get_pipe_def split: option.splits)
qed

lemma upd_pipe_run [simp, krun]: "pipes s a = Some p \<Longrightarrow> upd_pipe a f s = Done () (s\<lparr>pipes := (pipes s)(a := Some (f p))\<rparr>)"
  "pipes s a = Some p \<Longrightarrow> get_pipe a s = Done p s"
  by (simp_all add: upd_pipe_def get_pipe_def)

text \<open>The loop of \<^verbatim>\<open>pipewrite\<close> puts a prefix of its bytes behind the queue, all of them when it returns a count.\<close>

lemma pipewrite_bytes_queue:
  assumes "pipes s a = Some p" "pipe_ok p" "out_state (pipewrite_bytes a n cs s) = Some t"
  shows "\<exists>q k. pipes t a = Some q \<and> pipe_ok q \<and> k \<le> length cs \<and> queue q = queue p @ take k cs
     \<and> q = p\<lparr>pdata := pdata q, nwrite := nwrite p + of_nat k\<rparr>
     \<and> (\<forall>r. pipewrite_bytes a n cs s = Done r t \<and> r \<noteq> -1 \<longrightarrow> r = n \<and> k = length cs)"
  using assms
proof (induction cs arbitrary: s p)
  case Nil
  have "keeps pipes (pipewrite_bytes a n [] :: 'a pipest_scheme \<Rightarrow> _)" by (simp add: keeps_intros sync_keeps_pipes)
  then have "pipes t = pipes s" using Nil.prems(3) by (rule keepsD(3))
  moreover have "r = n" if "pipewrite_bytes a n [] s = Done r t" for r
    using that by (auto elim!: kseq_DoneE)
  ultimately show ?case using Nil.prems by (intro exI [of _ p] exI [of _ 0]) simp
next
  case (Cons c cs)
  show ?case
  proof (cases "nwrite p = nread p + 512")
    case True
    let ?m = "kbind (if readopen p = 0 then kret True else proc_killed) (\<lambda>stop.
       if stop then kseq (release (L_pipe a)) (kret (-1))
       else kseq (wakeup (Ch_nread a)) (sleep (Ch_nwrite a) (Some (L_pipe a)))) :: 'a pipest_scheme \<Rightarrow> (int, 'a pipest_scheme) outcome"
    have run: "pipewrite_bytes a n (c # cs) s = ?m s" using Cons.prems True by simp
    have "keeps pipes ?m" by (intro keeps_bind) (auto intro!: keeps_intros sync_keeps_pipes)
    then have "pipes t = pipes s" by (rule keepsD(3)) (use Cons.prems(3) run in simp)
    moreover have "r = -1" if "?m s = Done r t" for r
      using that by (auto simp: kbind_def kseq_def sleep_not_Done split: outcome.splits if_splits)
    ultimately show ?thesis using Cons.prems run by (intro exI [of _ p] exI [of _ 0]) simp
  next
    case False
    let ?s = "s\<lparr>pipes := (pipes s)(a := Some (put_byte c p))\<rparr>"
    have run: "pipewrite_bytes a n (c # cs) s = pipewrite_bytes a n cs ?s" using Cons.prems False by simp
    obtain q k where q: "pipes t a = Some q" "pipe_ok q" "k \<le> length cs" "queue q = queue (put_byte c p) @ take k cs"
        "q = (put_byte c p)\<lparr>pdata := pdata q, nwrite := nwrite (put_byte c p) + of_nat k\<rparr>"
        "\<forall>r. pipewrite_bytes a n cs ?s = Done r t \<and> r \<noteq> -1 \<longrightarrow> r = n \<and> k = length cs"
      using Cons.IH [of ?s "put_byte c p"] Cons.prems run put_byte_queue [OF Cons.prems(2) False] by auto
    have "q = p\<lparr>pdata := pdata q, nwrite := nwrite p + of_nat (Suc k)\<rparr>"
      by (subst q(5)) (simp add: put_byte_def add.assoc add.commute)
    then show ?thesis unfolding run using q put_byte_queue(2) [OF Cons.prems(2) False, of c]
      by (intro exI [of _ q] exI [of _ "Suc k"]) (auto simp del: pipewrite_bytes.simps)
  qed
qed

text \<open>The copying loop of \<^verbatim>\<open>piperead\<close> takes the first \<open>k\<close> bytes off the queue.\<close>

lemma piperead_bytes_queue:
  assumes "pipes s a = Some p" "pipe_ok p"
  shows "\<exists>q t. piperead_bytes a k s = Done (take k (queue p)) t \<and> t = s\<lparr>pipes := (pipes s)(a := Some q)\<rparr> \<and> pipe_ok q
     \<and> queue q = drop k (queue p) \<and> q = p\<lparr>nread := nread q\<rparr>"
  using assms
proof (induction k arbitrary: s p)
  case 0
  then show ?case by (intro exI [of _ p] exI [of _ s]) (simp add: fun_upd_idem)
next
  case (Suc k)
  show ?case
  proof (cases "nread p = nwrite p")
    case True
    then have "queue p = []" by (simp add: queue_def)
    then show ?thesis using Suc.prems True by (intro exI [of _ p] exI [of _ s]) (simp add: fun_upd_idem)
  next
    case False
    define p' where "p' = p\<lparr>nread := nread p + 1\<rparr>"
    define s' where "s' = s\<lparr>pipes := (pipes s)(a := Some p')\<rparr>"
    have step: "piperead_bytes a (Suc k) s = kbind (piperead_bytes a k) (\<lambda>bs. kret (pdata p ! unat (nread p mod 512) # bs)) s'"
      using Suc.prems False by (simp add: s'_def p'_def)
    have "pipes s' a = Some p'" by (simp add: s'_def)
    moreover have "pipe_ok p'" unfolding p'_def by (rule take_byte_queue(1) [OF Suc.prems(2) False])
    ultimately obtain q t where q: "piperead_bytes a k s' = Done (take k (queue p')) t" "t = s'\<lparr>pipes := (pipes s')(a := Some q)\<rparr>"
        "pipe_ok q" "queue q = drop k (queue p')" "q = p'\<lparr>nread := nread q\<rparr>"
      using Suc.IH by blast
    have "q = p\<lparr>nread := nread q\<rparr>" by (subst q(5)) (simp add: p'_def)
    moreover have "t = s\<lparr>pipes := (pipes s)(a := Some q)\<rparr>" by (simp add: q(2) s'_def)
    moreover have qp: "queue p = pdata p ! unat (nread p mod 512) # queue p'" unfolding p'_def by (rule take_byte_queue(2) [OF Suc.prems(2) False])
    moreover have "piperead_bytes a (Suc k) s = Done (take (Suc k) (queue p)) t" unfolding step using q(1) qp by simp
    moreover have "queue q = drop (Suc k) (queue p)" using q(4) qp by simp
    ultimately show ?thesis using q(3) by blast
  qed
qed

lemma pipewrite_queue:
  assumes "pipes s a = Some p" "pipe_ok p" "out_state (pipewrite a src n s) = Some t"
  shows "\<exists>q k. pipes t a = Some q \<and> pipe_ok q \<and> k \<le> length (take (nat n) src) \<and> queue q = queue p @ take k (take (nat n) src)
     \<and> q = p\<lparr>pdata := pdata q, nwrite := nwrite p + of_nat k\<rparr>
     \<and> (\<forall>r. pipewrite a src n s = Done r t \<and> r \<noteq> -1 \<longrightarrow> r = n \<and> k = length (take (nat n) src))"
proof (cases "L_pipe a \<in> held s")
  case True
  then show ?thesis using assms(3) by (simp add: pipewrite_def acquire_def)
next
  case False
  let ?s = "s\<lparr>held := insert (L_pipe a) (held s)\<rparr>"
  have run: "pipewrite a src n s = pipewrite_bytes a n (take (nat n) src) ?s" using False by (simp add: pipewrite_def acquire_def)
  show ?thesis unfolding run by (rule pipewrite_bytes_queue) (use assms run in simp_all)
qed

lemma pipewrite_resume_queue:
  assumes "pipes s a = Some p" "pipe_ok p" "out_state (pipewrite_resume a n rest s) = Some t"
  shows "\<exists>q k. pipes t a = Some q \<and> pipe_ok q \<and> k \<le> length rest \<and> queue q = queue p @ take k rest
     \<and> q = p\<lparr>pdata := pdata q, nwrite := nwrite p + of_nat k\<rparr>
     \<and> (\<forall>r. pipewrite_resume a n rest s = Done r t \<and> r \<noteq> -1 \<longrightarrow> r = n \<and> k = length rest)"
proof (cases "sleep_resume (L_pipe a) s")
  case (Done x u)
  have "pipes u = pipes s" using sync_keeps_pipes(5) Done by (rule keepsD(1))
  moreover have run: "pipewrite_resume a n rest s = pipewrite_bytes a n rest u" using Done by (simp add: pipewrite_resume_def)
  ultimately show ?thesis using pipewrite_bytes_queue [of u a p n rest t] assms unfolding run by auto
next
  case (Block c u)
  have "pipes u = pipes s" using sync_keeps_pipes(5) Block by (rule keepsD(2))
  moreover have "t = u" "\<forall>r. pipewrite_resume a n rest s \<noteq> Done r t" using assms(3) Block by (simp_all add: pipewrite_resume_def)
  ultimately show ?thesis using assms(1,2) by (intro exI [of _ p] exI [of _ 0]) simp
qed (use assms(3) in \<open>simp_all add: pipewrite_resume_def\<close>)

lemma piperead_loop_queue:
  assumes "pipes s a = Some p" "pipe_ok p" "out_state (piperead_loop a n s) = Some t"
  shows "\<exists>q. pipes t a = Some q \<and> pipe_ok q \<and> (q = p \<and> (\<forall>x. piperead_loop a n s = Done x t \<longrightarrow> x = (-1, []))
     \<or> queue p = take (nat n) (queue p) @ queue q \<and> (\<forall>x. piperead_loop a n s = Done x t \<longrightarrow>
          x = (int (length (take (nat n) (queue p))), take (nat n) (queue p))) \<and> (\<forall>c. piperead_loop a n s \<noteq> Block c t))"
proof (cases "nread p = nwrite p \<and> writeopen p \<noteq> 0")
  case True
  let ?m = "kbind proc_killed (\<lambda>k. if k then kseq (release (L_pipe a)) (kret (-1, []))
       else sleep (Ch_nread a) (Some (L_pipe a))) :: 'a pipest_scheme \<Rightarrow> (int \<times> uchar list, 'a pipest_scheme) outcome"
  have run: "piperead_loop a n s = ?m s" using assms(1) True by (simp add: piperead_loop_def)
  have "keeps pipes ?m" by (intro keeps_bind) (auto intro!: keeps_intros sync_keeps_pipes)
  then have "pipes t = pipes s" by (rule keepsD(3)) (use assms(3) run in simp)
  moreover have "x = (-1, [])" if "?m s = Done x t" for x
    using that by (auto simp: kbind_def kseq_def sleep_not_Done split: outcome.splits if_splits)
  ultimately show ?thesis using assms run by auto
next
  case False
  obtain q u where u: "piperead_bytes a (nat n) s = Done (take (nat n) (queue p)) u" "u = s\<lparr>pipes := (pipes s)(a := Some q)\<rparr>"
      "pipe_ok q" "queue q = drop (nat n) (queue p)"
    using piperead_bytes_queue [OF assms(1,2)] by blast
  let ?bs = "take (nat n) (queue p)"
  let ?m = "kseq (wakeup (Ch_nwrite a)) (kseq (release (L_pipe a)) (kret (int (length ?bs), ?bs)))
     :: 'a pipest_scheme \<Rightarrow> (int \<times> uchar list, 'a pipest_scheme) outcome"
  have run: "piperead_loop a n s = ?m u" using assms(1) False u(1) by (auto simp: piperead_loop_def)
  have "keeps pipes ?m" by (intro keeps_intros sync_keeps_pipes)
  then have "pipes t = pipes u" by (rule keepsD(3)) (use assms(3) run in simp)
  moreover have "x = (int (length ?bs), ?bs)" if "?m u = Done x t" for x
    using that by (auto elim!: kseq_DoneE)
  moreover have "?m u \<noteq> Block c t" for c
    by (auto simp: wakeup_def wakeup1_def kseq_def kbind_def acquire_def release_def)
  moreover have "queue p = ?bs @ queue q" using u(4) by simp
  ultimately show ?thesis unfolding run using u by auto
qed

lemma piperead_queue:
  assumes "pipes s a = Some p" "pipe_ok p" "out_state (piperead a n s) = Some t"
  shows "\<exists>q. pipes t a = Some q \<and> pipe_ok q \<and> (q = p \<and> (\<forall>x. piperead a n s = Done x t \<longrightarrow> x = (-1, []))
     \<or> queue p = take (nat n) (queue p) @ queue q \<and> (\<forall>x. piperead a n s = Done x t \<longrightarrow>
          x = (int (length (take (nat n) (queue p))), take (nat n) (queue p))) \<and> (\<forall>c. piperead a n s \<noteq> Block c t))"
proof (cases "L_pipe a \<in> held s")
  case True
  then show ?thesis using assms(3) by (simp add: piperead_def acquire_def)
next
  case False
  let ?s = "s\<lparr>held := insert (L_pipe a) (held s)\<rparr>"
  have run: "piperead a n s = piperead_loop a n ?s" using False by (simp add: piperead_def acquire_def)
  show ?thesis unfolding run by (rule piperead_loop_queue) (use assms run in simp_all)
qed

lemma piperead_resume_queue:
  assumes "pipes s a = Some p" "pipe_ok p" "out_state (piperead_resume a n s) = Some t"
  shows "\<exists>q. pipes t a = Some q \<and> pipe_ok q \<and> (q = p \<and> (\<forall>x. piperead_resume a n s = Done x t \<longrightarrow> x = (-1, []))
     \<or> queue p = take (nat n) (queue p) @ queue q \<and> (\<forall>x. piperead_resume a n s = Done x t \<longrightarrow>
          x = (int (length (take (nat n) (queue p))), take (nat n) (queue p))) \<and> (\<forall>c. piperead_resume a n s \<noteq> Block c t))"
proof (cases "sleep_resume (L_pipe a) s")
  case (Done x u)
  have "pipes u = pipes s" using sync_keeps_pipes(5) Done by (rule keepsD(1))
  moreover have run: "piperead_resume a n s = piperead_loop a n u" using Done by (simp add: piperead_resume_def)
  ultimately show ?thesis unfolding run by (intro piperead_loop_queue) (use assms run in simp_all)
next
  case (Block c u)
  have "pipes u = pipes s" using sync_keeps_pipes(5) Block by (rule keepsD(2))
  moreover have "t = u" "\<forall>x. piperead_resume a n s \<noteq> Done x t" using assms(3) Block by (simp_all add: piperead_resume_def)
  ultimately show ?thesis using assms(1,2) by simp
qed (use assms(3) in \<open>simp_all add: piperead_resume_def\<close>)

lemma rest_of_split: "xs = take k xs @ ys \<Longrightarrow> ys = drop k xs"
  by (metis append_take_drop_id same_append_eq)

section \<open>Properties\<close>

text \<open>
  A history of the pipe at \<open>a\<close>: the bytes stored so far by writers and the bytes handed to readers so far. A step is a call or a
  resumption by some thread \<open>\<tau>\<close>, up to its return or its next sleep, or anything else that leaves this pipe alone. The number of bytes a
  writer stored is read off the counter \<^verbatim>\<open>nwrite\<close>. The threads asleep in a call are recorded: \<open>W \<tau> = Some (src, n, k)\<close> when \<open>\<tau>\<close> called
  \<^verbatim>\<open>pipewrite\<close> with the bytes \<open>src\<close> and the count \<open>n\<close> and has stored \<open>k\<close> of them, \<open>R \<tau> = Some n\<close> when it called \<^verbatim>\<open>piperead\<close> with the
  count \<open>n\<close>. Only a thread that is not asleep makes a new call, and only a sleeping one resumes, in the call it made.
\<close>

definition stored :: "uint \<Rightarrow> 'a pipest_scheme \<Rightarrow> 'a pipest_scheme \<Rightarrow> nat" where
  "stored a s t = unat (nwrite (the (pipes t a)) - nwrite (the (pipes s a)))"

type_synonym writers = "nat \<times> nat \<rightharpoonup> uchar list \<times> int \<times> nat"
type_synonym readers = "nat \<times> nat \<rightharpoonup> int"

inductive pipe_run :: "uint \<Rightarrow> 'a pipest_scheme \<Rightarrow> uchar list \<Rightarrow> uchar list \<Rightarrow> writers \<Rightarrow> readers \<Rightarrow> bool" for a where
  pipe_start: "pipes s a = Some p \<Longrightarrow> length (pdata p) = 512 \<Longrightarrow> nread p = nwrite p \<Longrightarrow> pipe_run a s [] [] Map.empty Map.empty"
| pipe_write: "pipe_run a s sent got W R \<Longrightarrow> W \<tau> = None \<Longrightarrow> R \<tau> = None \<Longrightarrow> pipewrite a src n (as_thread \<tau> {} s) = Done r t
    \<Longrightarrow> pipe_run a t (sent @ take (stored a s t) (take (nat n) src)) got W R"
| pipe_write_sleeps: "pipe_run a s sent got W R \<Longrightarrow> W \<tau> = None \<Longrightarrow> R \<tau> = None \<Longrightarrow> pipewrite a src n (as_thread \<tau> {} s) = Block c t
    \<Longrightarrow> pipe_run a t (sent @ take (stored a s t) (take (nat n) src)) got (W(\<tau> \<mapsto> (src, n, stored a s t))) R"
| pipe_write_resume: "pipe_run a s sent got W R \<Longrightarrow> W \<tau> = Some (src, n, k)
    \<Longrightarrow> pipewrite_resume a n (drop k (take (nat n) src)) (as_thread \<tau> {L_ptable} s) = Done r t
    \<Longrightarrow> pipe_run a t (sent @ take (stored a s t) (drop k (take (nat n) src))) got (W(\<tau> := None)) R"
| pipe_write_resume_sleeps: "pipe_run a s sent got W R \<Longrightarrow> W \<tau> = Some (src, n, k)
    \<Longrightarrow> pipewrite_resume a n (drop k (take (nat n) src)) (as_thread \<tau> {L_ptable} s) = Block c t
    \<Longrightarrow> pipe_run a t (sent @ take (stored a s t) (drop k (take (nat n) src))) got (W(\<tau> \<mapsto> (src, n, k + stored a s t))) R"
| pipe_read: "pipe_run a s sent got W R \<Longrightarrow> W \<tau> = None \<Longrightarrow> R \<tau> = None \<Longrightarrow> piperead a n (as_thread \<tau> {} s) = Done (r, bs) t
    \<Longrightarrow> pipe_run a t sent (got @ bs) W R"
| pipe_read_sleeps: "pipe_run a s sent got W R \<Longrightarrow> W \<tau> = None \<Longrightarrow> R \<tau> = None \<Longrightarrow> piperead a n (as_thread \<tau> {} s) = Block c t
    \<Longrightarrow> pipe_run a t sent got W (R(\<tau> \<mapsto> n))"
| pipe_read_resume: "pipe_run a s sent got W R \<Longrightarrow> R \<tau> = Some n \<Longrightarrow> piperead_resume a n (as_thread \<tau> {L_ptable} s) = Done (r, bs) t
    \<Longrightarrow> pipe_run a t sent (got @ bs) W (R(\<tau> := None))"
| pipe_read_resume_sleeps: "pipe_run a s sent got W R \<Longrightarrow> R \<tau> = Some n \<Longrightarrow> piperead_resume a n (as_thread \<tau> {L_ptable} s) = Block c t
    \<Longrightarrow> pipe_run a t sent got W R"
| pipe_other: "pipe_run a s sent got W R \<Longrightarrow> pipes t a = pipes s a \<Longrightarrow> pipe_run a t sent got W R"

lemma as_thread_pipes [simp]: "pipes (as_thread \<tau> L s) = pipes s"
  by (simp add: as_thread_def)

lemma stored_count:
  assumes "pipes s a = Some p" "pipes t a = Some q" "pipe_ok p" "pipe_ok q" "q = p\<lparr>pdata := pdata q, nwrite := nwrite p + of_nat k\<rparr>"
    "queue q = queue p @ take k xs" "k \<le> length xs"
  shows "stored a s t = k"
proof -
  have "k \<le> 512" using queue_length(2) [OF assms(4)] assms(6,7) by simp
  moreover have "nwrite q - nwrite p = of_nat k" by (subst assms(5)) simp
  ultimately show ?thesis using assms(1,2) by (simp add: stored_def unat_of_nat32)
qed

text \<open>A step of a writer puts the bytes it stored behind the queue.\<close>

lemma write_step:
  assumes "\<exists>p. pipes s a = Some p \<and> pipe_ok p \<and> sent = got @ queue p"
    and "out_state (pipewrite a src n (as_thread \<tau> {} s)) = Some t \<and> xs = take (nat n) src
       \<or> out_state (pipewrite_resume a n xs (as_thread \<tau> {L_ptable} s)) = Some t"
  shows "\<exists>q. pipes t a = Some q \<and> pipe_ok q \<and> sent @ take (stored a s t) xs = got @ queue q"
proof -
  obtain p where p: "pipes s a = Some p" "pipe_ok p" "sent = got @ queue p" using assms(1) by blast
  obtain q k where q: "pipes t a = Some q" "pipe_ok q" "k \<le> length xs" "queue q = queue p @ take k xs"
      "q = p\<lparr>pdata := pdata q, nwrite := nwrite p + of_nat k\<rparr>"
    using pipewrite_queue [of "as_thread \<tau> {} s" a p src n t] pipewrite_resume_queue [of "as_thread \<tau> {L_ptable} s" a p n xs t]
      assms(2) p(1,2) by auto
  have "stored a s t = k" by (rule stored_count [OF p(1) q(1) p(2) q(2) q(5) q(4) q(3)])
  then show ?thesis using p q by simp
qed

lemma pipe_run_queue: "pipe_run a s sent got W R \<Longrightarrow> \<exists>p. pipes s a = Some p \<and> pipe_ok p \<and> sent = got @ queue p"
proof (induction rule: pipe_run.induct)
  case (pipe_start s p)
  then show ?case by (intro exI [of _ p]) (simp add: pipe_ok_def queue_def)
next
  case (pipe_write s sent got W R \<tau> src n r t)
  show ?case by (rule write_step [where src = src and n = n and \<tau> = \<tau>, OF pipe_write.IH]) (use pipe_write.hyps in simp)
next
  case (pipe_write_sleeps s sent got W R \<tau> src n c t)
  show ?case by (rule write_step [where src = src and n = n and \<tau> = \<tau>, OF pipe_write_sleeps.IH]) (use pipe_write_sleeps.hyps in simp)
next
  case (pipe_write_resume s sent got W R \<tau> src n k r t)
  show ?case by (rule write_step [where src = src and n = n and \<tau> = \<tau>, OF pipe_write_resume.IH]) (use pipe_write_resume.hyps in simp)
next
  case (pipe_write_resume_sleeps s sent got W R \<tau> src n k c t)
  show ?case by (rule write_step [where src = src and n = n and \<tau> = \<tau>, OF pipe_write_resume_sleeps.IH]) (use pipe_write_resume_sleeps.hyps in simp)
next
  case (pipe_read s sent got W R \<tau> n r bs t)
  then obtain p where p: "pipes s a = Some p" "pipe_ok p" "sent = got @ queue p" by blast
  then show ?case using piperead_queue [of "as_thread \<tau> {} s" a p n t] pipe_read.hyps(4) by auto
next
  case (pipe_read_sleeps s sent got W R \<tau> n c t)
  then obtain p where p: "pipes s a = Some p" "pipe_ok p" "sent = got @ queue p" by blast
  then show ?case using piperead_queue [of "as_thread \<tau> {} s" a p n t] pipe_read_sleeps.hyps(4) by auto
next
  case (pipe_read_resume s sent got W R \<tau> n r bs t)
  then obtain p where p: "pipes s a = Some p" "pipe_ok p" "sent = got @ queue p" by blast
  then show ?case using piperead_resume_queue [of "as_thread \<tau> {L_ptable} s" a p n t] pipe_read_resume.hyps(3) by auto
next
  case (pipe_read_resume_sleeps s sent got W R \<tau> n c t)
  then obtain p where p: "pipes s a = Some p" "pipe_ok p" "sent = got @ queue p" by blast
  then show ?case using piperead_resume_queue [of "as_thread \<tau> {L_ptable} s" a p n t] pipe_read_resume_sleeps.hyps(3) by auto
next
  case (pipe_other s sent got W R t)
  then show ?case by auto
qed

text \<open>C10: a pipe is a first-in first-out queue. In every interleaving of writers and readers, sleeping and resuming included, and wherever the two counters
  wrap around, the bytes stored by writers are the bytes handed to readers followed by the at most 512 bytes in the pipe. A call of
  \<^verbatim>\<open>pipewrite\<close> that does not fail has stored all its bytes and returns their number, and so has a call that slept after its first \<open>k\<close> bytes when it
  is resumed and returns: it stores exactly the remaining ones. A call of \<^verbatim>\<open>piperead\<close> that does not fail, resumed or not, returns the longest prefix of
  the pipe's bytes of at most \<open>n\<close>.\<close>

theorem pipe_fifo:
  assumes "pipe_run a s sent got W R"
  shows "\<exists>p. pipes s a = Some p \<and> sent = got @ queue p \<and> length (queue p) \<le> 512
     \<and> (\<forall>src n \<tau> r t. pipewrite a src n (as_thread \<tau> {} s) = Done r t \<and> r \<noteq> -1 \<longrightarrow>
          r = n \<and> queue (the (pipes t a)) = queue p @ take (nat n) src)
     \<and> (\<forall>src n k \<tau> r t. W \<tau> = Some (src, n, k)
          \<and> pipewrite_resume a n (drop k (take (nat n) src)) (as_thread \<tau> {L_ptable} s) = Done r t \<and> r \<noteq> -1 \<longrightarrow>
          r = n \<and> queue (the (pipes t a)) = queue p @ drop k (take (nat n) src))
     \<and> (\<forall>n \<tau> r bs t. piperead a n (as_thread \<tau> {} s) = Done (r, bs) t \<and> r \<noteq> -1 \<longrightarrow>
          r = int (length bs) \<and> bs = take (nat n) (queue p) \<and> queue (the (pipes t a)) = drop (nat n) (queue p))
     \<and> (\<forall>n \<tau> r bs t. R \<tau> = Some n \<and> piperead_resume a n (as_thread \<tau> {L_ptable} s) = Done (r, bs) t \<and> r \<noteq> -1 \<longrightarrow>
          r = int (length bs) \<and> bs = take (nat n) (queue p) \<and> queue (the (pipes t a)) = drop (nat n) (queue p))"
proof -
  obtain p where p: "pipes s a = Some p" "pipe_ok p" "sent = got @ queue p" using pipe_run_queue [OF assms] by blast
  have w: "r = n \<and> queue (the (pipes t a)) = queue p @ take (nat n) src"
    if "pipewrite a src n (as_thread \<tau> {} s) = Done r t" "r \<noteq> -1" for src n \<tau> r t
    using pipewrite_queue [of "as_thread \<tau> {} s" a p src n t] that p by (auto simp: min_def)
  have wr: "r = n \<and> queue (the (pipes t a)) = queue p @ rest"
    if "pipewrite_resume a n rest (as_thread \<tau> {L_ptable} s) = Done r t" "r \<noteq> -1" for rest n \<tau> r t
    using pipewrite_resume_queue [of "as_thread \<tau> {L_ptable} s" a p n rest t] that p by auto
  have r: "r = int (length bs) \<and> bs = take (nat n) (queue p) \<and> queue (the (pipes t a)) = drop (nat n) (queue p)"
    if d: "piperead a n (as_thread \<tau> {} s) = Done (r, bs) t" "r \<noteq> -1" for n \<tau> r bs t
    using piperead_queue [of "as_thread \<tau> {} s" a p n t] d p by (auto intro: rest_of_split)
  have rr: "r = int (length bs) \<and> bs = take (nat n) (queue p) \<and> queue (the (pipes t a)) = drop (nat n) (queue p)"
    if d: "piperead_resume a n (as_thread \<tau> {L_ptable} s) = Done (r, bs) t" "r \<noteq> -1" for n \<tau> r bs t
    using piperead_resume_queue [of "as_thread \<tau> {L_ptable} s" a p n t] d p by (auto intro: rest_of_split)
  show ?thesis
    by (rule exI [of _ p], intro conjI; (intro allI impI)?; (elim conjE)?)
      (use p queue_length(2) [OF p(2)] in \<open>simp_all add: w wr r rr\<close>)
qed

text \<open>An empty pipe whose counters are about to wrap around.\<close>

definition demo_pipe :: pipe where
  "demo_pipe = \<lparr>pdata = replicate 512 0, nread = 0xFFFFFFFE, nwrite = 0xFFFFFFFE, readopen = 1, writeopen = 1\<rparr>"

definition boot_pipe :: pipest where
  "boot_pipe = logst.extend boot_log
     \<lparr>sb = \<lparr>sb_size = 0, sb_nblocks = 0, sb_ninodes = 0, sb_nlog = 0, sb_logstart = 0, sb_inodestart = 0, sb_bmapstart = 0\<rparr>,
       inodes = [], pipes = (\<lambda>a. None)(4096 := Some demo_pipe)\<rparr>"

lemma boot_pipe_start: "pipe_run 4096 boot_pipe [] [] Map.empty Map.empty"
  by (rule pipe_start [of _ _ demo_pipe]) (simp_all add: boot_pipe_def logst.defs demo_pipe_def)

theorem pipe_fifo_witness:
  "\<exists>(s :: pipest) p. pipe_run 4096 s [1, 2, 3] [1] Map.empty Map.empty \<and> pipes s 4096 = Some p \<and> queue p = [2, 3]"
proof -
  let ?s = "as_thread (0, 0) {} boot_pipe"
  have p0: "pipes ?s 4096 = Some demo_pipe" by (simp add: boot_pipe_def logst.defs)
  obtain t where t: "pipewrite 4096 [1, 2, 3] 3 ?s = Done 3 t" "pipes t 4096 = Some (put_byte 3 (put_byte 2 (put_byte 1 demo_pipe)))"
    using p0 by (simp add: pipewrite_def acquire_def release_def wakeup_run demo_pipe_def put_byte_def)
  have "stored 4096 boot_pipe t = 3" using t p0 by (simp add: stored_def demo_pipe_def put_byte_def)
  with pipe_write [OF boot_pipe_start _ _ t(1)] have rt: "pipe_run 4096 t [1, 2, 3] [] Map.empty Map.empty" by simp
  obtain u where u: "piperead 4096 1 (as_thread (1, 0) {} t) = Done (1, [1]) u"
    using t(2) by (simp add: piperead_def piperead_loop_def acquire_def release_def wakeup_run demo_pipe_def put_byte_def)
  have ru: "pipe_run 4096 u [1, 2, 3] [1] Map.empty Map.empty" using pipe_read [OF rt _ _ u] by simp
  obtain p where p: "pipes u 4096 = Some p" "[1, 2, 3] = [1] @ queue p" using pipe_fifo [OF ru] by (elim exE conjE)
  then have "queue p = [2, 3]" by simp
  with ru p show ?thesis by blast
qed

end
