(* ===== verification/File.thy ===== *)
theory File
  imports Pipe
begin

text \<open>
  The file table (\<^verbatim>\<open>file.c\<close>, \<^verbatim>\<open>file.h\<close>) and \<^verbatim>\<open>pipealloc\<close> of \<^verbatim>\<open>pipe.c\<close>. A pointer to a file is its index in the
  table. A large write is split into transactions the log has room for, as the
  code does. The theories \<open>Process\<close>, \<open>Sysfile\<close> and \<open>Console\<close> build on these operations.
\<close>

section \<open>State\<close>

abbreviation (input) NFILE :: nat where "NFILE \<equiv> 100"

datatype ftype = FD_NONE | FD_PIPE | FD_INODE

record file_t =
  fkind :: ftype             \<comment> \<open>\<^verbatim>\<open>type\<close>\<close>
  fref :: int
  readable :: bool
  writable :: bool
  fpipe :: uint
  fip :: "nat option"
  foff :: uint

record filest = pipest +
  ftable :: "file_t list"

type_synonym 'a fdevtab = "nat \<Rightarrow> (nat \<Rightarrow> int \<Rightarrow> 'a filest_scheme \<Rightarrow> (int \<times> uchar list, 'a filest_scheme) outcome) option
  \<times> (nat \<Rightarrow> uchar list \<Rightarrow> int \<Rightarrow> 'a filest_scheme \<Rightarrow> (int, 'a filest_scheme) outcome) option"

definition upd_file :: "nat \<Rightarrow> (file_t \<Rightarrow> file_t) \<Rightarrow> 'a filest_scheme \<Rightarrow> (unit, 'a filest_scheme) outcome" where
  "upd_file f g = kmod (\<lambda>s. s\<lparr>ftable := (ftable s)[f := g (ftable s ! f)]\<rparr>)"

section \<open>Operations\<close>

definition fileinit :: "'a filest_scheme \<Rightarrow> (unit, 'a filest_scheme) outcome" where
  "fileinit = initlock L_ftable"

definition filealloc :: "'a filest_scheme \<Rightarrow> (nat option, 'a filest_scheme) outcome" where
  "filealloc =
     kseq (acquire L_ftable)
     (kbind (kget (\<lambda>s. find_idx (\<lambda>f. fref f = 0) (ftable s))) (\<lambda>r. case r of
       Some f \<Rightarrow> kseq (upd_file f (\<lambda>x. x\<lparr>fref := 1\<rparr>)) (kseq (release L_ftable) (kret (Some f)))
     | None \<Rightarrow> kseq (release L_ftable) (kret None)))"

definition filedup :: "nat \<Rightarrow> 'a filest_scheme \<Rightarrow> (nat, 'a filest_scheme) outcome" where
  "filedup f =
     kseq (acquire L_ftable)
     (\<lambda>s. if fref (ftable s ! f) < 1 then Panic ''filedup''
          else kseq (upd_file f (\<lambda>x. x\<lparr>fref := fref x + 1\<rparr>)) (kseq (release L_ftable) (kret f)) s)"

definition fileclose :: "nat \<Rightarrow> 'a filest_scheme \<Rightarrow> (unit, 'a filest_scheme) outcome" where
  "fileclose f =
     kseq (acquire L_ftable)
     (\<lambda>s. if fref (ftable s ! f) < 1 then Panic ''fileclose''
          else kseq (upd_file f (\<lambda>x. x\<lparr>fref := fref x - 1\<rparr>))
         (\<lambda>s. if 0 < fref (ftable s ! f) then release L_ftable s
              else let ff = ftable s ! f in
                kseq (upd_file f (\<lambda>x. x\<lparr>fref := 0, fkind := FD_NONE\<rparr>))
               (kseq (release L_ftable)
               (if fkind ff = FD_PIPE then pipeclose (fpipe ff) (writable ff)
                else if fkind ff = FD_INODE
                then (case fip ff of None \<Rightarrow> kfault ''fileclose'' | Some ip \<Rightarrow> kseq begin_op (kseq (iput ip) end_op))
                else kret ())) s) s)"

definition filestat :: "nat \<Rightarrow> 'a filest_scheme \<Rightarrow> (stat option, 'a filest_scheme) outcome" where
  "filestat f s =
     (let x = ftable s ! f in
      if fkind x = FD_INODE then
        kseq (ilock (fip x)) (kbind (stati (the (fip x))) (\<lambda>st. kseq (iunlock (fip x)) (kret (Some st)))) s
      else Done None s)"

definition fileread :: "'a fdevtab \<Rightarrow> nat \<Rightarrow> int \<Rightarrow> 'a filest_scheme \<Rightarrow> (int \<times> uchar list, 'a filest_scheme) outcome" where
  "fileread devsw f n s =
     (let x = ftable s ! f in
      if \<not> readable x then Done (-1, []) s
      else if fkind x = FD_PIPE then piperead (fpipe x) n s
      else if fkind x = FD_INODE then
        kseq (ilock (fip x))
       (kbind (readi devsw (the (fip x)) (foff x) (of_int n)) (\<lambda>(r, bs).
        kseq (kwhen (0 < r) (upd_file f (\<lambda>x. x\<lparr>foff := foff x + of_int r\<rparr>)))
       (kseq (iunlock (fip x)) (kret (r, bs))))) s
      else Panic ''fileread'')"

text \<open>The limit on what one transaction writes, and the loop of \<^verbatim>\<open>filewrite\<close>; a turn that goes on writes at least one byte.\<close>

definition max_chunk :: int where
  "max_chunk = ((int LOGSIZE - 1 - 1 - 2) div 2) * 512"

definition filewrite_body :: "'a fdevtab \<Rightarrow> nat \<Rightarrow> uchar list \<Rightarrow> int \<Rightarrow> int \<Rightarrow> 'a filest_scheme \<Rightarrow> (int + int, 'a filest_scheme) outcome" where
  "filewrite_body devsw f src n i =
     (if i < n then
        let n1 = (if max_chunk < n - i then max_chunk else n - i) in
        kseq begin_op
       (kseq (\<lambda>s. ilock (fip (ftable s ! f)) s)
       (kbind (\<lambda>s. writei devsw (the (fip (ftable s ! f))) (drop (nat i) src) (foff (ftable s ! f)) (of_int n1) s) (\<lambda>r.
        kseq (kwhen (0 < r) (upd_file f (\<lambda>x. x\<lparr>foff := foff x + of_int r\<rparr>)))
       (kseq (\<lambda>s. iunlock (fip (ftable s ! f)) s)
       (kseq end_op
       (if r < 0 then kret (Inr i)
        else if r \<noteq> n1 then kpanic ''short filewrite''
        else kret (Inl (i + r))))))))
      else kret (Inr i))"

definition filewrite :: "'a fdevtab \<Rightarrow> nat \<Rightarrow> uchar list \<Rightarrow> int \<Rightarrow> 'a filest_scheme \<Rightarrow> (int, 'a filest_scheme) outcome" where
  "filewrite devsw f src n s =
     (let x = ftable s ! f in
      if \<not> writable x then Done (-1) s
      else if fkind x = FD_PIPE then pipewrite (fpipe x) src n s
      else if fkind x = FD_INODE then
        kbind (kloop (Suc (nat n)) (filewrite_body devsw f src n) 0) (\<lambda>i. kret (if i = n then n else -1)) s
      else Panic ''filewrite'')"

section \<open>Allocating a pipe\<close>

text \<open>The pipe's bytes are those the page held: the data follow the 52 bytes of the lock. The two results are the read end and the write end.\<close>

definition fresh_pipe :: "mem \<Rightarrow> uint \<Rightarrow> pipe" where
  "fresh_pipe m p = \<lparr>pdata = map (\<lambda>k. m (p + 52 + of_nat k)) [0..<512], nread = 0, nwrite = 0, readopen = 1, writeopen = 1\<rparr>"

definition pipealloc :: "'a filest_scheme \<Rightarrow> ((nat \<times> nat) option, 'a filest_scheme) outcome" where
  "pipealloc =
     kbind filealloc (\<lambda>a. case a of None \<Rightarrow> kret None | Some f0 \<Rightarrow>
     kbind filealloc (\<lambda>b. case b of None \<Rightarrow> kseq (fileclose f0) (kret None) | Some f1 \<Rightarrow>
     kbind kalloc (\<lambda>p.
       if p = 0 then kseq (fileclose f0) (kseq (fileclose f1) (kret None))
       else kseq (kmod (\<lambda>s. s\<lparr>pipes := (pipes s)(p := Some (fresh_pipe (ram s) p))\<rparr>))
           (kseq (initlock (L_pipe p))
           (kseq (upd_file f0 (\<lambda>x. x\<lparr>fkind := FD_PIPE, readable := True, writable := False, fpipe := p\<rparr>))
           (kseq (upd_file f1 (\<lambda>x. x\<lparr>fkind := FD_PIPE, readable := False, writable := True, fpipe := p\<rparr>))
                 (kret (Some (f0, f1)))))))))"

section \<open>Lemmas\<close>

lemma upd_file_run [simp, krun]: "upd_file f g s = Done () (s\<lparr>ftable := (ftable s)[f := g (ftable s ! f)]\<rparr>)"
  by (simp add: upd_file_def)

text \<open>A state with an empty file table, no process and no cached inode.\<close>

definition free_file :: file_t where
  "free_file = \<lparr>fkind = FD_NONE, fref = 0, readable = False, writable = False, fpipe = 0, fip = None, foff = 0\<rparr>"

definition boot_file :: filest where
  "boot_file = logst.extend boot_log
     \<lparr>sb = \<lparr>sb_size = 0, sb_nblocks = 0, sb_ninodes = 0, sb_nlog = 0, sb_logstart = 0, sb_inodestart = 0, sb_bmapstart = 0\<rparr>, inodes = [],
      pipes = (\<lambda>a. None), ftable = replicate NFILE free_file\<rparr>"

lemma boot_file_sel: "ftable boot_file = replicate 100 free_file" "held boot_file = {}" "procs boot_file = replicate 64 boot_proc"
  "initproc boot_file = None" "pipes boot_file = (\<lambda>a. None)"
  using boot_log_sel mx_boot_sel
  by (simp_all add: boot_file_def logst.defs boot_log_def bcache.defs boot_bcache_def mxtab.defs mx_boot_def ptable.defs boot_ptable_def vm.defs)

end
