(* ===== verification/Process.thy ===== *)
theory Process
  imports File Kthread
begin

text \<open>
  The life of a process (\<^verbatim>\<open>proc.c\<close>, and \<^verbatim>\<open>kthread_exit\<close> of \<^verbatim>\<open>kthread.c\<close>): the first process, \<^verbatim>\<open>fork\<close> and \<^verbatim>\<open>cow_fork\<close>, \<^verbatim>\<open>exit\<close>, \<^verbatim>\<open>wait\<close>
  and \<^verbatim>\<open>cow_wait\<close>. The two versions of fork and of wait differ in one call, which is a parameter of the common definition.
\<close>

section \<open>The first process\<close>

definition store16 :: "mem \<Rightarrow> uint \<Rightarrow> ushort \<Rightarrow> mem" where
  "store16 m a w = m(a := ucast w, a + 1 := ucast (drop_bit 8 w))"

definition store_half :: "uint \<Rightarrow> ushort \<Rightarrow> 'a kmem_scheme \<Rightarrow> (unit, 'a kmem_scheme) outcome" where
  "store_half a w = kmod (\<lambda>s. s\<lparr>ram := store16 (ram s) a w\<rparr>)"

definition user_sel :: "uint \<Rightarrow> ushort" where
  "user_sel seg = ucast (push_bit 3 seg OR DPL_USER)"

definition init_tf :: "uint \<Rightarrow> 'a kmem_scheme \<Rightarrow> (unit, 'a kmem_scheme) outcome" where
  "init_tf f =
     kseq (kmod (\<lambda>s. s\<lparr>ram := memset (ram s) f 0 TF_SIZE\<rparr>))
    (kseq (store_half (f + 60) (user_sel SEG_UCODE))
    (kseq (store_half (f + 44) (user_sel SEG_UDATA))
    (kseq (store_half (f + 40) (user_sel SEG_UDATA))
    (kseq (store_half (f + 72) (user_sel SEG_UDATA))
    (kseq (store_word (f + 64) FL_IF)
    (kseq (store_word (f + TF_ESP) PGSIZE)
          (store_word (f + TF_EIP) 0)))))))"

text \<open>\<open>code\<close> and \<open>code_sz\<close> are the linker's symbols \<^verbatim>\<open>_binary_initcode_start\<close> and \<^verbatim>\<open>_binary_initcode_size\<close>.\<close>

definition userinit :: "'a fdevtab \<Rightarrow> uint \<Rightarrow> uint \<Rightarrow> 'a filest_scheme \<Rightarrow> (unit, 'a filest_scheme) outcome" where
  "userinit devsw code code_sz =
     kbind allocproc (\<lambda>r. case r of None \<Rightarrow> kfault ''userinit'' | Some (p, t) \<Rightarrow>
       kseq (kmod (\<lambda>s. s\<lparr>initproc := Some p\<rparr>))
      (kbind setupkvm (\<lambda>d.
       kseq (upd_proc p (\<lambda>q. q\<lparr>pgdir := d\<rparr>))
      (if d = 0 then kpanic ''userinit: out of memory?''
       else kseq (inituvm d code code_sz)
           (kseq (upd_proc p (\<lambda>q. q\<lparr>psz := PGSIZE\<rparr>))
           (kseq (\<lambda>s. init_tf (tf (thread_at s p t)) s)
           (kseq (upd_proc p (\<lambda>q. q\<lparr>pname := ''initcode''\<rparr>))
           (kbind (namei devsw [SLASH]) (\<lambda>c.
            kseq (upd_proc p (\<lambda>q. q\<lparr>cwd := c\<rparr>))
           (kseq (upd_proc p (\<lambda>q. q\<lparr>pstate := RUNNABLE\<rparr>))
                 (upd_thread p t (\<lambda>u. u\<lparr>tstate := RUNNABLE\<rparr>)))))))))))) "

section \<open>Fork\<close>

definition fork_file :: "nat \<Rightarrow> nat \<Rightarrow> nat \<Rightarrow> 'a filest_scheme \<Rightarrow> (unit, 'a filest_scheme) outcome" where
  "fork_file p np fd s = (case ofile (procs s ! p) ! fd of None \<Rightarrow> Done () s
     | Some f \<Rightarrow> kbind (filedup f) (\<lambda>g. upd_proc np (\<lambda>q. q\<lparr>ofile := (ofile q)[fd := Some g]\<rparr>)) s)"

definition fork_with :: "(uint \<Rightarrow> uint \<Rightarrow> 'a filest_scheme \<Rightarrow> (uint, 'a filest_scheme) outcome) \<Rightarrow> 'a filest_scheme \<Rightarrow> (int, 'a filest_scheme) outcome" where
  "fork_with copy =
     kbind allocproc (\<lambda>r. case r of None \<Rightarrow> kret (-1) | Some (np, nt) \<Rightarrow>
     with_proc (\<lambda>p.
     kbind (\<lambda>s. copy (pgdir (procs s ! p)) (psz (procs s ! p)) s) (\<lambda>d.
     kseq (upd_proc np (\<lambda>q. q\<lparr>pgdir := d\<rparr>))
    (if d = 0 then
       kseq (\<lambda>s. kfree (kstack (thread_at s np nt)) s)
      (kseq (upd_thread np nt (\<lambda>t. t\<lparr>kstack := 0\<rparr>))
      (kseq (upd_thread np nt (\<lambda>t. t\<lparr>tstate := UNUSED\<rparr>))
      (kseq (upd_proc np (\<lambda>q. q\<lparr>pstate := UNUSED\<rparr>)) (kret (-1)))))
     else
       kseq (\<lambda>s. upd_proc np (\<lambda>q. q\<lparr>psz := psz (procs s ! p)\<rparr>) s)
      (kseq (upd_proc np (\<lambda>q. q\<lparr>parent := Some p\<rparr>))
      (kseq (with_thread (\<lambda>ti tj s. copy_tf (tf (thread_at s np nt)) (tf (thread_at s ti tj)) s))
      (kseq (\<lambda>s. store_word (tf (thread_at s np nt) + TF_EAX) 0 s)
      (kseq (kforeach (fork_file p np) [0..<NOFILE])
      (kbind (\<lambda>s. case cwd (procs s ! p) of None \<Rightarrow> Fault ''cwd'' | Some c \<Rightarrow> idup c s) (\<lambda>c.
       kseq (upd_proc np (\<lambda>q. q\<lparr>cwd := Some c\<rparr>))
      (kseq (\<lambda>s. upd_proc np (\<lambda>q. q\<lparr>pname := take 15 (pname (procs s ! p))\<rparr>) s)
      (kbind (kget (\<lambda>s. pid (procs s ! np))) (\<lambda>n.
       kseq (acquire L_ptable)
      (kseq (upd_proc np (\<lambda>q. q\<lparr>pstate := RUNNABLE\<rparr>))
      (kseq (upd_thread np nt (\<lambda>t. t\<lparr>tstate := RUNNABLE\<rparr>))
      (kseq (release L_ptable) (kret n)))))))))))))))))"

definition fork :: "'a filest_scheme \<Rightarrow> (int, 'a filest_scheme) outcome" where
  "fork = fork_with copyuvm"

definition cow_fork :: "'a filest_scheme \<Rightarrow> (int, 'a filest_scheme) outcome" where
  "cow_fork = fork_with cow_shareuvm"

text \<open>The first thing a new thread does; the argument and the result are its static variable \<^verbatim>\<open>first\<close>.\<close>

definition forkret :: "int \<Rightarrow> 'a fsst_scheme \<Rightarrow> (int, 'a fsst_scheme) outcome" where
  "forkret first =
     kseq (release L_ptable)
    (if first \<noteq> 0 then kseq (iinit ROOTDEV) (kseq (initlog 1) (kret 0)) else kret first)"

section \<open>Exit\<close>

definition close_fd :: "nat \<Rightarrow> nat \<Rightarrow> 'a filest_scheme \<Rightarrow> (unit, 'a filest_scheme) outcome" where
  "close_fd p fd s = (case ofile (procs s ! p) ! fd of None \<Rightarrow> Done () s
     | Some f \<Rightarrow> kseq (fileclose f) (upd_proc p (\<lambda>q. q\<lparr>ofile := (ofile q)[fd := None]\<rparr>)) s)"

text \<open>\<^verbatim>\<open>wakeup1\<close> on a process pointer that may be null: \<open>None\<close> is the null channel.\<close>

definition wakeup_proc :: "nat option \<Rightarrow> 'a ptable_scheme \<Rightarrow> (unit, 'a ptable_scheme) outcome" where
  "wakeup_proc q = (case q of Some i \<Rightarrow> wakeup1 (Ch_proc i)
     | None \<Rightarrow> kmod (\<lambda>s. s\<lparr>procs := map (\<lambda>p. p\<lparr>pthreads :=
         map (\<lambda>t. if tstate t = SLEEPING \<and> tchan t = None then t\<lparr>tstate := RUNNABLE\<rparr> else t) (pthreads p)\<rparr>) (procs s)\<rparr>))"

definition abandon :: "nat \<Rightarrow> nat \<Rightarrow> 'a ptable_scheme \<Rightarrow> (unit, 'a ptable_scheme) outcome" where
  "abandon p c s =
     kwhen (parent (procs s ! c) = Some p)
      (kseq (\<lambda>s. upd_proc c (\<lambda>q. q\<lparr>parent := initproc s\<rparr>) s)
            (\<lambda>s. kwhen (pstate (procs s ! c) = ZOMBIE) (wakeup_proc (initproc s)) s)) s"

text \<open>The end of \<^verbatim>\<open>exit\<close>, from the acquisition of the process table on.\<close>

definition exit_finish :: "nat \<Rightarrow> 'a ptable_scheme \<Rightarrow> (unit, 'a ptable_scheme) outcome" where
  "exit_finish p =
     kseq (acquire L_ptable)
    (kseq (\<lambda>s. wakeup_proc (parent (procs s ! p)) s)
    (kseq (kforeach (abandon p) [0..<NPROC])
    (kseq (upd_proc p (\<lambda>q. q\<lparr>pthreads := map (\<lambda>t. if tstate t \<noteq> UNUSED then t\<lparr>tstate := ZOMBIE, tchan := None\<rparr> else t) (pthreads q)\<rparr>))
    (kseq (upd_proc p (\<lambda>q. q\<lparr>pstate := ZOMBIE\<rparr>))
    (kseq (sched Ch_cpu :: _ \<Rightarrow> (unit, _) outcome) (kpanic ''zombie exit''))))))"

definition exit :: "'a filest_scheme \<Rightarrow> (unit, 'a filest_scheme) outcome" where
  "exit = with_proc (\<lambda>p s.
     if initproc s = Some p then Panic ''init exiting''
     else kseq (kforeach (close_fd p) [0..<NOFILE])
         (kseq begin_op
         (kseq (\<lambda>s. case cwd (procs s ! p) of None \<Rightarrow> Fault ''cwd'' | Some c \<Rightarrow> iput c s)
         (kseq end_op
         (kseq (upd_proc p (\<lambda>q. q\<lparr>cwd := None\<rparr>))
               (exit_finish p))))) s)"

definition live_threads :: "proc \<Rightarrow> nat" where
  "live_threads q = length (filter (\<lambda>t. tstate t \<noteq> UNUSED \<and> tstate t \<noteq> ZOMBIE) (pthreads q))"

definition kthread_exit :: "'a filest_scheme \<Rightarrow> (unit, 'a filest_scheme) outcome" where
  "kthread_exit = with_thread (\<lambda>i j.
     kseq acqptable
    (kseq (upd_thread i j (\<lambda>t. t\<lparr>tstate := ZOMBIE\<rparr>))
    (kbind (\<lambda>s. case tproc (thread_at s i j) of None \<Rightarrow> Fault ''tproc'' | Some p \<Rightarrow> Done (live_threads (procs s ! p)) s) (\<lambda>n.
     kseq (wakeup2 (Ch_thread i j))
    (kseq (kwhen (n = 0) (kseq relptable exit))
    (kseq (sched Ch_cpu :: _ \<Rightarrow> (unit, _) outcome) (kpanic ''zombie thread exit'')))))))"

section \<open>Wait\<close>

definition free_thread :: "nat \<Rightarrow> nat \<Rightarrow> 'a ptable_scheme \<Rightarrow> (unit, 'a ptable_scheme) outcome" where
  "free_thread c j s =
     (if tstate (thread_at s c j) = UNUSED then Done () s
      else if tstate (thread_at s c j) = ZOMBIE
      then kseq (kfree (kstack (thread_at s c j))) (upd_thread c j (\<lambda>t. t\<lparr>kstack := 0\<rparr>)) s
      else Panic ''wait: thread is still alive while process is dead'')"

definition free_proc :: "(uint \<Rightarrow> 'a ptable_scheme \<Rightarrow> (unit, 'a ptable_scheme) outcome) \<Rightarrow> nat \<Rightarrow> 'a ptable_scheme \<Rightarrow> (int, 'a ptable_scheme) outcome" where
  "free_proc free c =
     kbind (kget (\<lambda>s. pid (procs s ! c))) (\<lambda>n.
     kseq (kforeach (free_thread c) [0..<NTHREAD])
    (kseq (\<lambda>s. free (pgdir (procs s ! c)) s)
    (kseq (upd_proc c (\<lambda>q. q\<lparr>pstate := UNUSED, pid := 0, parent := None, pname := [], killed := 0\<rparr>))
    (kseq (release L_ptable) (kret n)))))"

text \<open>One round of the endless loop; the process table is locked.\<close>

definition wait_loop :: "(uint \<Rightarrow> 'a ptable_scheme \<Rightarrow> (unit, 'a ptable_scheme) outcome) \<Rightarrow> nat \<Rightarrow> 'a ptable_scheme \<Rightarrow> (int, 'a ptable_scheme) outcome" where
  "wait_loop free p s =
     (case find_idx (\<lambda>q. parent q = Some p \<and> pstate q = ZOMBIE) (procs s) of
        Some c \<Rightarrow> free_proc free c s
      | None \<Rightarrow>
          if (\<forall>q \<in> set (procs s). parent q \<noteq> Some p) \<or> killed (procs s ! p) \<noteq> 0 then kseq (release L_ptable) (kret (-1)) s
          else sleep (Ch_proc p) (Some L_ptable) s)"

definition wait_with :: "(uint \<Rightarrow> 'a ptable_scheme \<Rightarrow> (unit, 'a ptable_scheme) outcome) \<Rightarrow> 'a ptable_scheme \<Rightarrow> (int, 'a ptable_scheme) outcome" where
  "wait_with free = with_proc (\<lambda>p. kseq (acquire L_ptable) (wait_loop free p))"


definition wait :: "'a ptable_scheme \<Rightarrow> (int, 'a ptable_scheme) outcome" where
  "wait = wait_with freevm"

definition cow_wait :: "'a ptable_scheme \<Rightarrow> (int, 'a ptable_scheme) outcome" where
  "cow_wait = wait_with cow_freevm"

section \<open>Lemmas\<close>


























section \<open>Properties\<close>




end
