(* ===== verification/Args.thy ===== *)
theory Args
  imports Process
begin

text \<open>
  How the kernel reads the arguments of a system call (\<^verbatim>\<open>fetchint\<close> to \<^verbatim>\<open>argstr\<close> of \<^verbatim>\<open>syscall.c\<close>). The arguments are on the user
  stack, so every access goes through the page tables of the process, as the processor does it in kernel mode: an address that is not mapped, or
  that is written and not writable, raises a page fault, and a page fault in the kernel ends in \<^verbatim>\<open>panic("trap")\<close> (see theory \<open>Trap\<close>).
\<close>

section \<open>User memory as the kernel sees it\<close>

text \<open>The kernel address of a user byte. \<^verbatim>\<open>CR0_WP\<close> is set (\<^verbatim>\<open>entry.S\<close>), so the write bits bind the kernel too.\<close>

definition user_at :: "bool \<Rightarrow> uint \<Rightarrow> 'a vm_scheme \<Rightarrow> uint option" where
  "user_at w va s =
     (let d = p2v (cr3 s); pde = pde_at (ram s) d (PDX va); e = pte_at (ram s) d va in
      if pde AND PTE_P = 0 \<or> e AND PTE_P = 0 \<or> (w \<and> (pde AND PTE_W = 0 \<or> e AND PTE_W = 0)) then None
      else Some (p2v (PTE_ADDR e) + (va - PGROUNDDOWN va)))"

definition user_byte :: "uint \<Rightarrow> 'a vm_scheme \<Rightarrow> (uchar, 'a vm_scheme) outcome" where
  "user_byte va s = (case user_at False va s of None \<Rightarrow> Panic ''trap'' | Some a \<Rightarrow> Done (ram s a) s)"

fun user_bytes :: "nat \<Rightarrow> uint \<Rightarrow> 'a vm_scheme \<Rightarrow> (uchar list, 'a vm_scheme) outcome" where
  "user_bytes 0 va = kret []"
| "user_bytes (Suc n) va = kbind (user_byte va) (\<lambda>c. kbind (user_bytes n (va + 1)) (\<lambda>cs. kret (c # cs)))"

definition user_put :: "uint \<Rightarrow> uchar \<Rightarrow> 'a vm_scheme \<Rightarrow> (unit, 'a vm_scheme) outcome" where
  "user_put va c s = (case user_at True va s of None \<Rightarrow> Panic ''trap'' | Some a \<Rightarrow> Done () (s\<lparr>ram := (ram s)(a := c)\<rparr>))"

fun user_store :: "uint \<Rightarrow> uchar list \<Rightarrow> 'a vm_scheme \<Rightarrow> (unit, 'a vm_scheme) outcome" where
  "user_store va [] = kret ()"
| "user_store va (c # cs) = kseq (user_put va c) (user_store (va + 1) cs)"

section \<open>Fetching arguments\<close>

text \<open>The result \<open>None\<close> is the return value -1; \<open>Some\<close> carries what the C function stores through its pointer argument.\<close>

definition fetchint :: "uint \<Rightarrow> 'a ptable_scheme \<Rightarrow> (uint option, 'a ptable_scheme) outcome" where
  "fetchint addr = with_proc (\<lambda>p s.
     let sz = psz (procs s ! p) in
     if sz \<le> addr \<or> sz < addr + 4 then Done None s
     else kbind (user_bytes 4 addr) (\<lambda>bs. kret (Some (get32 bs 0))) s)"

text \<open>The scan of \<^verbatim>\<open>fetchstr\<close> for the terminator. The result has the address and the bytes before the terminator, whose number is the return value.\<close>

definition fetchstr_body :: "uint \<Rightarrow> uint \<times> uchar list \<Rightarrow> 'a ptable_scheme \<Rightarrow> ((uint \<times> uchar list) + uchar list option, 'a ptable_scheme) outcome" where
  "fetchstr_body ep = (\<lambda>(q, bs).
     if \<not> q < ep then kret (Inr None)
     else kbind (user_byte q) (\<lambda>c. kret (if c = 0 then Inr (Some bs) else Inl (q + 1, bs @ [c]))))"

definition fetchstr :: "uint \<Rightarrow> 'a ptable_scheme \<Rightarrow> ((uint \<times> uchar list) option, 'a ptable_scheme) outcome" where
  "fetchstr addr = with_proc (\<lambda>p s.
     let ep = psz (procs s ! p) in
     if ep \<le> addr then Done None s
     else kbind (kloop (Suc (unat (ep - addr))) (fetchstr_body ep) (addr, [])) (\<lambda>r. kret (map_option (Pair addr) r)) s)"

definition argint :: "nat \<Rightarrow> 'a ptable_scheme \<Rightarrow> (uint option, 'a ptable_scheme) outcome" where
  "argint n = with_thread (\<lambda>i j s. fetchint (load32 (ram s) (tf (thread_at s i j) + 68) + 4 + 4 * of_nat n) s)"

definition argptr :: "nat \<Rightarrow> int \<Rightarrow> 'a ptable_scheme \<Rightarrow> (uint option, 'a ptable_scheme) outcome" where
  "argptr n size_b =
     kbind (argint n) (\<lambda>r. case r of None \<Rightarrow> kret None
     | Some i \<Rightarrow> with_proc (\<lambda>p s. let sz = psz (procs s ! p) in
         if sz \<le> i \<or> sz < i + of_int size_b then Done None s else Done (Some i) s))"

definition argstr :: "nat \<Rightarrow> 'a ptable_scheme \<Rightarrow> ((uint \<times> uchar list) option, 'a ptable_scheme) outcome" where
  "argstr n = kbind (argint n) (\<lambda>r. case r of None \<Rightarrow> kret None | Some addr \<Rightarrow> fetchstr addr)"

section \<open>Lemmas\<close>

lemma user_byte_state: "user_byte va s = Done c t \<Longrightarrow> t = s"
  by (auto simp: user_byte_def split: option.splits)

lemma user_bytes_state: "user_bytes n va s = Done bs t \<Longrightarrow> t = s \<and> length bs = n"
proof (induction n arbitrary: va bs t)
  case (Suc n)
  then show ?case by (auto elim!: kbind_DoneE dest!: user_byte_state simp: kret_def)
qed (simp add: kret_def)

lemma with_proc_Done: "with_proc f s = Done x t \<Longrightarrow> \<exists>p. curproc s = Some p \<and> f p s = Done x t"
  by (auto simp: with_proc_def split: option.splits)

lemma with_thread_Done: "with_thread f s = Done x t \<Longrightarrow> \<exists>i j. curthread s = Some (i, j) \<and> f i j s = Done x t"
  by (auto simp: with_thread_def split: option.splits)

lemma fetchint_state: "fetchint a s = Done r t \<Longrightarrow> t = s"
  by (auto simp: fetchint_def Let_def kret_def dest!: with_proc_Done elim!: kbind_DoneE dest!: user_bytes_state split: if_splits)

lemma argint_state: "argint n s = Done r t \<Longrightarrow> t = s"
  by (auto simp: argint_def dest!: with_thread_Done fetchint_state)

text \<open>What the processor reads at a user address, as a total function: the bytes of the mapped pages.\<close>

definition user_mapped :: "uint \<Rightarrow> nat \<Rightarrow> 'a vm_scheme \<Rightarrow> bool" where
  "user_mapped va n s \<longleftrightarrow> (\<forall>k < n. user_at False (va + of_nat k) s \<noteq> None)"

definition user_view :: "'a vm_scheme \<Rightarrow> uint \<Rightarrow> uchar" where
  "user_view s va = (case user_at False va s of None \<Rightarrow> 0 | Some a \<Rightarrow> ram s a)"

lemma user_byte_run: "user_at False va s \<noteq> None \<Longrightarrow> user_byte va s = Done (user_view s va) s"
  by (auto simp: user_byte_def user_view_def)

lemma user_mapped_Suc: "user_mapped va (Suc n) s \<longleftrightarrow> user_at False va s \<noteq> None \<and> user_mapped (va + 1) n s"
  unfolding user_mapped_def by (auto simp: less_Suc_eq_0_disj algebra_simps)

lemma user_bytes_run: "user_mapped va n s \<Longrightarrow> user_bytes n va s = Done (map (\<lambda>k. user_view s (va + of_nat k)) [0..<n]) s"
proof (induction n arbitrary: va)
  case (Suc n)
  have "[0..<Suc n] = 0 # map Suc [0..<n]" by (simp add: upt_conv_Cons map_Suc_upt)
  then show ?case using Suc by (simp add: user_mapped_Suc user_byte_run kbind_def kret_def comp_def algebra_simps)
qed (simp add: kret_def)

text \<open>The scan returns the bytes up to the first zero, or fails at the end of the process's memory.\<close>

lemma fetchstr_loop:
  assumes "q + of_nat n = ep" "unat q + n = unat ep" "user_mapped q n s"
  shows "kloop (Suc n) (fetchstr_body ep) (q, bs) s =
    (let v = map (\<lambda>k. user_view s (q + of_nat k)) [0..<n] in
     Done (if 0 \<in> set v then Some (bs @ takeWhile (\<lambda>c. c \<noteq> 0) v) else None) s)"
  using assms
proof (induction n arbitrary: q bs)
  case 0
  then show ?case by (simp add: fetchstr_body_def kbind_def kret_def)
next
  case (Suc n)
  have lt: "q < ep" using Suc.prems(2) by (simp add: word_less_nat_alt)
  have m: "user_at False q s \<noteq> None" "user_mapped (q + 1) n s" using Suc.prems(3) by (simp_all add: user_mapped_Suc)
  have q1: "unat (q + 1) + n = unat ep"
    using Suc.prems(2) unat_u32 [of ep] by (simp add: unat_word_ariths(1))
  have split: "[0..<Suc n] = 0 # map Suc [0..<n]" by (simp add: upt_conv_Cons map_Suc_upt)
  have IH: "kloop (Suc n) (fetchstr_body ep) (q + 1, bs @ [user_view s q]) s =
    (let v = map (\<lambda>k. user_view s (q + 1 + of_nat k)) [0..<n] in
     Done (if 0 \<in> set v then Some ((bs @ [user_view s q]) @ takeWhile (\<lambda>c. c \<noteq> 0) v) else None) s)"
    by (rule Suc.IH) (use Suc.prems(1) q1 m in \<open>simp_all add: algebra_simps\<close>)
  have tail: "map (\<lambda>k. user_view s (q + of_nat k)) [0..<Suc n] = user_view s q # map (\<lambda>k. user_view s (q + 1 + of_nat k)) [0..<n]"
    unfolding split by (simp add: comp_def algebra_simps)
  have body: "fetchstr_body ep (q, bs) s = Done (if user_view s q = 0 then Inr (Some bs) else Inl (q + 1, bs @ [user_view s q])) s"
    using lt by (simp add: fetchstr_body_def user_byte_run [OF m(1)] kbind_def kret_def)
  show ?case unfolding tail kloop.simps(2) [of "Suc n"]
    using body IH by (simp add: kbind_def kret_def Let_def)
qed

text \<open>A word of the user's memory.\<close>

lemma get32_view: "get32 (map (\<lambda>k. f (a + of_nat k)) [0..<4]) 0 = load32 f a"
  by (simp add: get32_def load32_def upt_rec numeral_eq_Suc)

lemma fetchint_run:
  assumes "curproc s = Some p" "a < psz (procs s ! p)" "a + 4 \<le> psz (procs s ! p)" "user_mapped a 4 s"
  shows "fetchint a s = Done (Some (load32 (user_view s) a)) s"
  using assms by (simp add: fetchint_def with_proc_def Let_def not_le not_less kbind_def kret_def user_bytes_run get32_view)

lemma fetchstr_run:
  assumes "curproc s = Some p" "a < psz (procs s ! p)" "user_mapped a (unat (psz (procs s ! p) - a)) s"
  shows "fetchstr a s =
    (let v = map (\<lambda>k. user_view s (a + of_nat k)) [0..<unat (psz (procs s ! p) - a)] in
     Done (if 0 \<in> set v then Some (a, takeWhile (\<lambda>c. c \<noteq> 0) v) else None) s)"
proof -
  let ?n = "unat (psz (procs s ! p) - a)"
  have "unat a + ?n = unat (psz (procs s ! p))" using assms(2) unat_sub [of a "psz (procs s ! p)"] by (simp add: word_less_nat_alt word_le_nat_alt)
  from fetchstr_loop [OF _ this assms(3), of "[]"] assms(1,2) show ?thesis
    by (simp add: fetchstr_def with_proc_def Let_def not_le [symmetric] kbind_def kret_def)
qed

section \<open>Properties\<close>

text \<open>C19: the pointer check of the system calls. When \<^verbatim>\<open>argptr\<close> accepts a buffer of a size that is not negative, for a process below the
  kernel's part of the address space, the whole buffer lies inside the process's memory: no sum in the check wraps around.\<close>

theorem argptr_in_bounds:
  assumes "argptr n size_b s = Done (Some a) t" "0 \<le> size_b" "size_b < 2 ^ 31" "curproc s = Some p" "psz (procs s ! p) \<le> KERNBASE"
  shows "t = s \<and> unat a + nat size_b \<le> unat (psz (procs s ! p)) \<and> a < psz (procs s ! p)"
proof -
  obtain u where u: "argint n s = Done (Some a) u" "u = t" "a < psz (procs u ! p)" "a + of_int size_b \<le> psz (procs u ! p)"
    using assms(1,4) argint_state [of n s]
    by (fastforce simp: argptr_def kret_def Let_def not_le not_less dest!: with_proc_Done elim!: kbind_DoneE split: option.splits if_splits)
  have ts: "t = s" using argint_state u by blast
  have sz: "unat (psz (procs s ! p)) \<le> 2147483648" using assms(5) by (simp add: word_le_nat_alt)
  have size_n: "of_int size_b = (of_nat (nat size_b) :: uint)" using assms(2) by simp
  have "unat a < 2147483648" using u(3) sz ts u(2) by (simp add: word_less_nat_alt)
  moreover have "unat (of_int size_b :: uint) = nat size_b"
    using assms(2,3) unfolding size_n by (simp only: unat_of_nat) simp
  ultimately have "unat (a + of_int size_b) = unat a + nat size_b"
    using assms(2,3) by (simp add: unat_word_ariths(1))
  then show ?thesis using u ts by (simp add: word_le_nat_alt)
qed

text \<open>A process of one page, mapped to the frame at \<^verbatim>\<open>0x300000\<close>, that calls the kernel with its stack pointer at \<^verbatim>\<open>0x100\<close> and the arguments
  3, \<^verbatim>\<open>0x200\<close> and 16; at \<^verbatim>\<open>0x200\<close> is the string \<^verbatim>\<open>hi\<close>.\<close>

definition arg_ram :: mem where
  "arg_ram = store32 (store32 (store32 (store32 (store32 (store32 (store32 (\<lambda>_. 0)
     0x80200000 0x201007) 0x80201000 0x300007) 0x80400044 0x100) 0x80300104 3) 0x80300108 0x200) 0x8030010C 16) 0x80300200 0x6968"

definition arg_state :: ptable where
  "arg_state = boot_ptable\<lparr>ram := arg_ram, cr3 := 0x200000, curproc := Some 0, curthread := Some (0, 0),
     procs := (procs boot_ptable)[0 := boot_proc\<lparr>psz := PGSIZE, pgdir := 0x80200000,
       pthreads := (pthreads boot_proc)[0 := boot_thread\<lparr>tf := 0x80400000\<rparr>]\<rparr>]\<rparr>"

lemma arg_state_sel:
  "ram arg_state = arg_ram" "cr3 arg_state = 0x200000" "curproc arg_state = Some 0" "curthread arg_state = Some (0, 0)"
  "psz (procs arg_state ! 0) = PGSIZE" "tf (thread_at arg_state 0 0) = 0x80400000"
  by (simp_all add: arg_state_def boot_ptable_def vm.defs thread_at_def boot_proc_def)

lemma arg_words:
  "load32 arg_ram 0x80200000 = 0x201007" "load32 arg_ram 0x80201000 = 0x300007" "load32 arg_ram 0x80400044 = 0x100"
  unfolding arg_ram_def by (simp_all add: load32_store32_apart)

lemma arg_user_at:
  assumes "unat va < 4096"
  shows "user_at w va arg_state = Some (0x80300000 + va)"
proof -
  have "PDX va = 0" "PTX va = 0" "PGROUNDDOWN va = 0"
    using assms by (simp_all add: unat_eq_0 [symmetric] unat_PDX unat_PTX unat_PGROUNDDOWN)
  then show ?thesis
    by (simp add: user_at_def arg_state_sel p2v_def pde_at_def pte_at_def has_table_def table_of_def pte_addr_def arg_words PTE_ADDR_def Let_def)
qed

lemma arg_view: "unat va < 4096 \<Longrightarrow> user_view arg_state va = arg_ram (0x80300000 + va)"
  by (simp add: user_view_def arg_user_at arg_state_sel)

lemma arg_mapped: "unat va + n \<le> 4096 \<Longrightarrow> user_mapped va n arg_state"
  unfolding user_mapped_def by (auto simp: unat_word_ariths unat_of_nat arg_user_at)

lemma arg_argint: "argint 0 arg_state = Done (Some 3) arg_state" "argint (Suc 0) arg_state = Done (Some 0x200) arg_state"
  "argint 2 arg_state = Done (Some 16) arg_state"
proof -
  have v: "load32 (user_view arg_state) va = load32 arg_ram (0x80300000 + va)" if "unat va \<le> 4092" for va
  proof -
    have "unat (va + 1) < 4096" "unat (va + 2) < 4096" "unat (va + 3) < 4096" "unat va < 4096"
      using that by (simp_all add: unat_word_ariths)
    then show ?thesis by (simp add: load32_def arg_view add.assoc)
  qed
  have f: "fetchint va arg_state = Done (Some (load32 arg_ram (0x80300000 + va))) arg_state" if "unat va \<le> 4092" for va
  proof -
    have "va < 0x1000" "va + 4 \<le> 0x1000" using that by (simp_all add: word_less_nat_alt word_le_nat_alt unat_word_ariths)
    then show ?thesis using fetchint_run [of arg_state 0 va] arg_mapped [of va 4] v [OF that] that by (simp add: arg_state_sel)
  qed
  have w: "load32 arg_ram 0x80300104 = 3" "load32 arg_ram 0x80300108 = 0x200" "load32 arg_ram 0x8030010C = 16"
    unfolding arg_ram_def by (simp_all add: load32_store32_apart)
  show "argint 0 arg_state = Done (Some 3) arg_state" "argint (Suc 0) arg_state = Done (Some 0x200) arg_state"
    "argint 2 arg_state = Done (Some 16) arg_state"
    by (simp_all add: argint_def with_thread_def arg_state_sel arg_words f w)
qed

theorem argptr_in_bounds_witness: "argptr 1 16 arg_state = Done (Some 0x200) arg_state \<and> unat (0x200 :: uint) + 16 \<le> 4096"
proof -
  have a: "argptr 1 16 arg_state = Done (Some 0x200) arg_state"
    by (simp add: argptr_def kbind_def arg_argint with_proc_def arg_state_sel Let_def)
  from argptr_in_bounds [OF a _ _ arg_state_sel(3)] show ?thesis using a by (simp add: arg_state_sel)
qed

end
