(* ===== verification/Sysfile.thy ===== *)
theory Sysfile
  imports Args
begin

text \<open>
  The file-system calls (\<^verbatim>\<open>sysfile.c\<close>). Each call reads its arguments with the routines of theory \<open>Args\<close>. A buffer to be written is read from
  the user's memory when the call starts, and bytes read are stored there when the call ends. The result is the C return value.
\<close>

section \<open>Descriptors\<close>

abbreviation (input) O_WRONLY :: uint where "O_WRONLY \<equiv> 1"
abbreviation (input) O_RDWR :: uint where "O_RDWR \<equiv> 2"
abbreviation (input) O_CREATE :: uint where "O_CREATE \<equiv> 0x200"

definition argfd :: "nat \<Rightarrow> 'a filest_scheme \<Rightarrow> ((nat \<times> nat) option, 'a filest_scheme) outcome" where
  "argfd n =
     kbind (argint n) (\<lambda>r. case r of None \<Rightarrow> kret None
     | Some fd \<Rightarrow> with_proc (\<lambda>p s.
         if sint fd < 0 \<or> int NOFILE \<le> sint fd then Done None s
         else case ofile (procs s ! p) ! unat fd of None \<Rightarrow> Done None s | Some f \<Rightarrow> Done (Some (unat fd, f)) s))"

definition fdalloc :: "nat \<Rightarrow> 'a filest_scheme \<Rightarrow> (nat option, 'a filest_scheme) outcome" where
  "fdalloc f = with_proc (\<lambda>p s. case find_idx (\<lambda>x. x = None) (ofile (procs s ! p)) of
       None \<Rightarrow> Done None s
     | Some fd \<Rightarrow> kseq (upd_proc p (\<lambda>q. q\<lparr>ofile := (ofile q)[fd := Some f]\<rparr>)) (kret (Some fd)) s)"

definition sys_dup :: "'a filest_scheme \<Rightarrow> (int, 'a filest_scheme) outcome" where
  "sys_dup =
     kbind (argfd 0) (\<lambda>a. case a of None \<Rightarrow> kret (-1) | Some (_, f) \<Rightarrow>
     kbind (fdalloc f) (\<lambda>b. case b of None \<Rightarrow> kret (-1) | Some fd \<Rightarrow>
     kseq (filedup f) (kret (int fd))))"

text \<open>The three arguments of \<^verbatim>\<open>read\<close> and \<^verbatim>\<open>write\<close>, checked from left to right as \<^verbatim>\<open>||\<close> does.\<close>

definition rw_args :: "'a filest_scheme \<Rightarrow> ((nat \<times> uint \<times> int) option, 'a filest_scheme) outcome" where
  "rw_args =
     kbind (argfd 0) (\<lambda>a. case a of None \<Rightarrow> kret None | Some (_, f) \<Rightarrow>
     kbind (argint 2) (\<lambda>b. case b of None \<Rightarrow> kret None | Some n \<Rightarrow>
     kbind (argptr 1 (sint n)) (\<lambda>c. case c of None \<Rightarrow> kret None | Some p \<Rightarrow> kret (Some (f, p, sint n)))))"

definition sys_read :: "'a fdevtab \<Rightarrow> 'a filest_scheme \<Rightarrow> (int, 'a filest_scheme) outcome" where
  "sys_read devsw =
     kbind rw_args (\<lambda>a. case a of None \<Rightarrow> kret (-1) | Some (f, p, n) \<Rightarrow>
     kbind (fileread devsw f n) (\<lambda>(r, bs). kseq (user_store p bs) (kret r)))"

definition sys_write :: "'a fdevtab \<Rightarrow> 'a filest_scheme \<Rightarrow> (int, 'a filest_scheme) outcome" where
  "sys_write devsw =
     kbind rw_args (\<lambda>a. case a of None \<Rightarrow> kret (-1) | Some (f, p, n) \<Rightarrow>
     kbind (user_bytes (nat n) p) (\<lambda>src. filewrite devsw f src n))"

definition sys_close :: "'a filest_scheme \<Rightarrow> (int, 'a filest_scheme) outcome" where
  "sys_close =
     kbind (argfd 0) (\<lambda>a. case a of None \<Rightarrow> kret (-1) | Some (fd, f) \<Rightarrow>
     kseq (with_proc (\<lambda>p. upd_proc p (\<lambda>q. q\<lparr>ofile := (ofile q)[fd := None]\<rparr>)))
    (kseq (fileclose f) (kret 0)))"

text \<open>The fields of \<^verbatim>\<open>struct stat\<close>, at the offsets the compiler gives them.\<close>

definition store_stat :: "uint \<Rightarrow> stat \<Rightarrow> 'a vm_scheme \<Rightarrow> (unit, 'a vm_scheme) outcome" where
  "store_stat a st =
     kseq (user_store (a + 4) (put32 0 (of_int (st_dev st)) (replicate 4 0)))
    (kseq (user_store (a + 8) (put32 0 (st_ino st) (replicate 4 0)))
    (kseq (user_store a (put16 0 (st_type st) (replicate 2 0)))
    (kseq (user_store (a + 12) (put16 0 (st_nlink st) (replicate 2 0)))
          (user_store (a + 16) (put32 0 (st_size st) (replicate 4 0))))))"

definition sys_fstat :: "'a filest_scheme \<Rightarrow> (int, 'a filest_scheme) outcome" where
  "sys_fstat =
     kbind (argfd 0) (\<lambda>a. case a of None \<Rightarrow> kret (-1) | Some (_, f) \<Rightarrow>
     kbind (argptr 1 20) (\<lambda>b. case b of None \<Rightarrow> kret (-1) | Some st \<Rightarrow>
     kbind (filestat f) (\<lambda>r. case r of None \<Rightarrow> kret (-1) | Some x \<Rightarrow> kseq (store_stat st x) (kret 0))))"

section \<open>Links\<close>

text \<open>The label \<^verbatim>\<open>bad\<close> of \<^verbatim>\<open>sys_link\<close>.\<close>

definition link_bad :: "nat \<Rightarrow> 'a filest_scheme \<Rightarrow> (int, 'a filest_scheme) outcome" where
  "link_bad ip =
     kseq (ilock (Some ip))
    (kseq (upd_inode ip (\<lambda>x. x\<lparr>inlink := inlink x - 1\<rparr>))
    (kseq (iupdate ip)
    (kseq (iunlockput ip)
    (kseq end_op (kret (-1))))))"

definition sys_link :: "'a fdevtab \<Rightarrow> 'a filest_scheme \<Rightarrow> (int, 'a filest_scheme) outcome" where
  "sys_link devsw =
     kbind (argstr 0) (\<lambda>a. case a of None \<Rightarrow> kret (-1) | Some (_, old) \<Rightarrow>
     kbind (argstr 1) (\<lambda>b. case b of None \<Rightarrow> kret (-1) | Some (_, new) \<Rightarrow>
     kseq begin_op
    (kbind (namei devsw old) (\<lambda>r. case r of None \<Rightarrow> kseq end_op (kret (-1)) | Some ip \<Rightarrow>
     kseq (ilock (Some ip))
     (\<lambda>s. if itype (inodes s ! ip) = T_DIR then kseq (iunlockput ip) (kseq end_op (kret (-1))) s
      else
        kseq (upd_inode ip (\<lambda>x. x\<lparr>inlink := inlink x + 1\<rparr>))
       (kseq (iupdate ip)
       (kseq (iunlock (Some ip))
       (kbind (nameiparent devsw new) (\<lambda>(d, name). case d of None \<Rightarrow> link_bad ip | Some dp \<Rightarrow>
        kseq (ilock (Some dp))
       (kbind (\<lambda>s. if idev (inodes s ! dp) \<noteq> idev (inodes s ! ip) then Done (-1) s
                   else dirlink devsw dp name (inum (inodes s ! ip)) s) (\<lambda>x.
        if x < 0 then kseq (iunlockput dp) (link_bad ip)
        else kseq (iunlockput dp) (kseq (iput ip) (kseq end_op (kret 0))))))))) s)))))"

definition isdirempty_one :: "'a fdevtab \<Rightarrow> nat \<Rightarrow> uint \<Rightarrow> 'a filest_scheme \<Rightarrow> (unit option, 'a filest_scheme) outcome" where
  "isdirempty_one devsw dp off =
     kbind (readi devsw dp off 16) (\<lambda>(r, de).
       if r \<noteq> 16 then kpanic ''isdirempty: readi''
       else kret (if de_inum de \<noteq> 0 then Some () else None))"

definition isdirempty :: "'a fdevtab \<Rightarrow> nat \<Rightarrow> 'a filest_scheme \<Rightarrow> (bool, 'a filest_scheme) outcome" where
  "isdirempty devsw dp s =
     kbind (kfirst (isdirempty_one devsw dp) (drop 2 (de_offs (isize (inodes s ! dp))))) (\<lambda>r. kret (r = None)) s"

definition unlink_bad :: "nat \<Rightarrow> 'a filest_scheme \<Rightarrow> (int, 'a filest_scheme) outcome" where
  "unlink_bad dp = kseq (iunlockput dp) (kseq end_op (kret (-1)))"

text \<open>\<^verbatim>\<open>sys_unlink\<close> once both inodes are locked and the entry may go.\<close>

definition unlink_entry :: "'a fdevtab \<Rightarrow> nat \<Rightarrow> nat \<Rightarrow> uint \<Rightarrow> 'a filest_scheme \<Rightarrow> (int, 'a filest_scheme) outcome" where
  "unlink_entry devsw dp ip off =
     kbind (writei devsw dp (replicate 16 0) off 16) (\<lambda>r.
     if r \<noteq> 16 then kpanic ''unlink: writei''
     else kseq (\<lambda>s. kwhen (itype (inodes s ! ip) = T_DIR)
                  (kseq (upd_inode dp (\<lambda>x. x\<lparr>inlink := inlink x - 1\<rparr>)) (iupdate dp)) s)
         (kseq (iunlockput dp)
         (kseq (upd_inode ip (\<lambda>x. x\<lparr>inlink := inlink x - 1\<rparr>))
         (kseq (iupdate ip)
         (kseq (iunlockput ip)
         (kseq end_op (kret 0)))))))"

definition sys_unlink :: "'a fdevtab \<Rightarrow> 'a filest_scheme \<Rightarrow> (int, 'a filest_scheme) outcome" where
  "sys_unlink devsw =
     kbind (argstr 0) (\<lambda>a. case a of None \<Rightarrow> kret (-1) | Some (_, path) \<Rightarrow>
     kseq begin_op
    (kbind (nameiparent devsw path) (\<lambda>(d, name). case d of None \<Rightarrow> kseq end_op (kret (-1)) | Some dp \<Rightarrow>
     kseq (ilock (Some dp))
     (if namecmp name [46] = 0 \<or> namecmp name [46, 46] = 0 then unlink_bad dp
      else kbind (dirlookup devsw dp name) (\<lambda>r. case r of None \<Rightarrow> unlink_bad dp | Some (ip, off) \<Rightarrow>
        kseq (ilock (Some ip))
        (\<lambda>s. if sint (inlink (inodes s ! ip)) < 1 then Panic ''unlink: nlink < 1''
         else kbind (if itype (inodes s ! ip) = T_DIR then isdirempty devsw ip else kret True) (\<lambda>e.
           if \<not> e then kseq (iunlockput ip) (unlink_bad dp)
           else unlink_entry devsw dp ip off) s))))))"

section \<open>Creating and opening\<close>

text \<open>The inode \<^verbatim>\<open>create\<close> returns is locked.\<close>

definition create_dots :: "'a fdevtab \<Rightarrow> nat \<Rightarrow> nat \<Rightarrow> 'a filest_scheme \<Rightarrow> (unit, 'a filest_scheme) outcome" where
  "create_dots devsw dp ip =
     kseq (upd_inode dp (\<lambda>x. x\<lparr>inlink := inlink x + 1\<rparr>))
    (kseq (iupdate dp)
    (kbind (\<lambda>s. dirlink devsw ip [46] (inum (inodes s ! ip)) s) (\<lambda>r.
     if r < 0 then kpanic ''create dots''
     else kbind (\<lambda>s. dirlink devsw ip [46, 46] (inum (inodes s ! dp)) s) (\<lambda>r.
       if r < 0 then kpanic ''create dots'' else kret ()))))"

definition create_new :: "'a fdevtab \<Rightarrow> nat \<Rightarrow> uchar list \<Rightarrow> ushort \<Rightarrow> ushort \<Rightarrow> ushort \<Rightarrow> 'a filest_scheme \<Rightarrow> (nat option, 'a filest_scheme) outcome" where
  "create_new devsw dp name ty major minor =
     kbind (\<lambda>s. ialloc (idev (inodes s ! dp)) ty s) (\<lambda>ip.
     kseq (ilock (Some ip))
    (kseq (upd_inode ip (\<lambda>x. x\<lparr>imajor := major, iminor := minor, inlink := 1\<rparr>))
    (kseq (iupdate ip)
    (kseq (kwhen (ty = T_DIR) (create_dots devsw dp ip))
    (kbind (\<lambda>s. dirlink devsw dp name (inum (inodes s ! ip)) s) (\<lambda>r.
     if r < 0 then kpanic ''create: dirlink''
     else kseq (iunlockput dp) (kret (Some ip))))))))"

definition create :: "'a fdevtab \<Rightarrow> uchar list \<Rightarrow> ushort \<Rightarrow> ushort \<Rightarrow> ushort \<Rightarrow> 'a filest_scheme \<Rightarrow> (nat option, 'a filest_scheme) outcome" where
  "create devsw path ty major minor =
     kbind (nameiparent devsw path) (\<lambda>(d, name). case d of None \<Rightarrow> kret None | Some dp \<Rightarrow>
     kseq (ilock (Some dp))
    (kbind (dirlookup devsw dp name) (\<lambda>r. case r of
       Some (ip, _) \<Rightarrow>
         kseq (iunlockput dp)
        (kseq (ilock (Some ip))
         (\<lambda>s. if ty = T_FILE \<and> itype (inodes s ! ip) = T_FILE then Done (Some ip) s
              else kseq (iunlockput ip) (kret None) s))
     | None \<Rightarrow> create_new devsw dp name ty major minor)))"

text \<open>The first half of \<^verbatim>\<open>sys_open\<close>: the locked inode, or \<open>None\<close> after \<^verbatim>\<open>end_op\<close>.\<close>

definition open_inode :: "'a fdevtab \<Rightarrow> uchar list \<Rightarrow> uint \<Rightarrow> 'a filest_scheme \<Rightarrow> (nat option, 'a filest_scheme) outcome" where
  "open_inode devsw path omode =
     (if omode AND O_CREATE \<noteq> 0 then
        kbind (create devsw path T_FILE 0 0) (\<lambda>r. case r of None \<Rightarrow> kseq end_op (kret None) | Some ip \<Rightarrow> kret (Some ip))
      else
        kbind (namei devsw path) (\<lambda>r. case r of None \<Rightarrow> kseq end_op (kret None) | Some ip \<Rightarrow>
        kseq (ilock (Some ip))
        (\<lambda>s. if itype (inodes s ! ip) = T_DIR \<and> omode \<noteq> 0 then kseq (iunlockput ip) (kseq end_op (kret None)) s
             else Done (Some ip) s)))"

definition open_failed :: "nat \<Rightarrow> 'a filest_scheme \<Rightarrow> (int, 'a filest_scheme) outcome" where
  "open_failed ip = kseq (iunlockput ip) (kseq end_op (kret (-1)))"

definition sys_open :: "'a fdevtab \<Rightarrow> 'a filest_scheme \<Rightarrow> (int, 'a filest_scheme) outcome" where
  "sys_open devsw =
     kbind (argstr 0) (\<lambda>a. case a of None \<Rightarrow> kret (-1) | Some (_, path) \<Rightarrow>
     kbind (argint 1) (\<lambda>b. case b of None \<Rightarrow> kret (-1) | Some omode \<Rightarrow>
     kseq begin_op
    (kbind (open_inode devsw path omode) (\<lambda>r. case r of None \<Rightarrow> kret (-1) | Some ip \<Rightarrow>
     kbind filealloc (\<lambda>x. case x of None \<Rightarrow> open_failed ip | Some f \<Rightarrow>
     kbind (fdalloc f) (\<lambda>y. case y of None \<Rightarrow> kseq (fileclose f) (open_failed ip) | Some fd \<Rightarrow>
     kseq (iunlock (Some ip))
    (kseq end_op
    (kseq (upd_file f (\<lambda>q. q\<lparr>fkind := FD_INODE, fip := Some ip, foff := 0, readable := omode AND O_WRONLY = 0,
            writable := omode AND O_WRONLY \<noteq> 0 \<or> omode AND O_RDWR \<noteq> 0\<rparr>))
          (kret (int fd))))))))))"

definition sys_mkdir :: "'a fdevtab \<Rightarrow> 'a filest_scheme \<Rightarrow> (int, 'a filest_scheme) outcome" where
  "sys_mkdir devsw =
     kseq begin_op
    (kbind (argstr 0) (\<lambda>a. case a of None \<Rightarrow> kseq end_op (kret (-1)) | Some (_, path) \<Rightarrow>
     kbind (create devsw path T_DIR 0 0) (\<lambda>r. case r of None \<Rightarrow> kseq end_op (kret (-1)) | Some ip \<Rightarrow>
     kseq (iunlockput ip) (kseq end_op (kret 0)))))"

definition sys_mknod :: "'a fdevtab \<Rightarrow> 'a filest_scheme \<Rightarrow> (int, 'a filest_scheme) outcome" where
  "sys_mknod devsw =
     kseq begin_op
    (kbind (argstr 0) (\<lambda>a. case a of None \<Rightarrow> kseq end_op (kret (-1)) | Some (_, path) \<Rightarrow>
     kbind (argint 1) (\<lambda>b. case b of None \<Rightarrow> kseq end_op (kret (-1)) | Some major \<Rightarrow>
     kbind (argint 2) (\<lambda>c. case c of None \<Rightarrow> kseq end_op (kret (-1)) | Some minor \<Rightarrow>
     kbind (create devsw path T_DEV (ucast major) (ucast minor)) (\<lambda>r. case r of None \<Rightarrow> kseq end_op (kret (-1)) | Some ip \<Rightarrow>
     kseq (iunlockput ip) (kseq end_op (kret 0)))))))"

definition sys_chdir :: "'a fdevtab \<Rightarrow> 'a filest_scheme \<Rightarrow> (int, 'a filest_scheme) outcome" where
  "sys_chdir devsw =
     kseq begin_op
    (kbind (argstr 0) (\<lambda>a. case a of None \<Rightarrow> kseq end_op (kret (-1)) | Some (_, path) \<Rightarrow>
     kbind (namei devsw path) (\<lambda>r. case r of None \<Rightarrow> kseq end_op (kret (-1)) | Some ip \<Rightarrow>
     kseq (ilock (Some ip))
     (\<lambda>s. if itype (inodes s ! ip) \<noteq> T_DIR then kseq (iunlockput ip) (kseq end_op (kret (-1))) s
          else kseq (iunlock (Some ip))
              (kseq (with_proc (\<lambda>p s. case cwd (procs s ! p) of None \<Rightarrow> Fault ''cwd'' | Some c \<Rightarrow> iput c s))
              (kseq end_op
              (kseq (with_proc (\<lambda>p. upd_proc p (\<lambda>q. q\<lparr>cwd := Some ip\<rparr>))) (kret 0)))) s))))"

definition sys_pipe :: "'a filest_scheme \<Rightarrow> (int, 'a filest_scheme) outcome" where
  "sys_pipe =
     kbind (argptr 0 8) (\<lambda>a. case a of None \<Rightarrow> kret (-1) | Some fd \<Rightarrow>
     kbind pipealloc (\<lambda>r. case r of None \<Rightarrow> kret (-1) | Some (rf, wrf) \<Rightarrow>
     kbind (fdalloc rf) (\<lambda>b. case b of
       None \<Rightarrow> kseq (fileclose rf) (kseq (fileclose wrf) (kret (-1)))
     | Some fd0 \<Rightarrow> kbind (fdalloc wrf) (\<lambda>c. case c of
         None \<Rightarrow> kseq (with_proc (\<lambda>p. upd_proc p (\<lambda>q. q\<lparr>ofile := (ofile q)[fd0 := None]\<rparr>)))
                (kseq (fileclose rf) (kseq (fileclose wrf) (kret (-1))))
       | Some fd1 \<Rightarrow> kseq (user_store fd (put32 0 (of_nat fd0) (replicate 4 0)))
                    (kseq (user_store (fd + 4) (put32 0 (of_nat fd1) (replicate 4 0))) (kret 0))))))"

end
