(* ===== verification/Exec.thy ===== *)
theory Exec
  imports Args
begin

text \<open>
  Loading a program (\<^verbatim>\<open>exec.c\<close>, \<^verbatim>\<open>elf.h\<close>, \<^verbatim>\<open>loaduvm\<close> of \<^verbatim>\<open>vm.c\<close>): the ELF headers are decoded from the bytes of the file, the segments
  go to fresh pages, and the arguments are laid out on a fresh stack. The properties are about the layout of the stack and about the wait for
  the other threads that precedes loading.
\<close>

section \<open>ELF headers\<close>

abbreviation (input) ELF_MAGIC :: uint where "ELF_MAGIC \<equiv> 0x464C457F"
abbreviation (input) ELF_PROG_LOAD :: uint where "ELF_PROG_LOAD \<equiv> 1"

record elfhdr =
  e_magic :: uint
  e_entry :: uint
  e_phoff :: uint
  e_phnum :: ushort

record proghdr =
  ph_type :: uint
  ph_off :: uint
  ph_vaddr :: uint
  ph_filesz :: uint
  ph_memsz :: uint

definition elf_of :: "uchar list \<Rightarrow> elfhdr" where
  "elf_of d = \<lparr>e_magic = get32 d 0, e_entry = get32 d 24, e_phoff = get32 d 28, e_phnum = get16 d 44\<rparr>"

definition ph_of :: "uchar list \<Rightarrow> proghdr" where
  "ph_of d = \<lparr>ph_type = get32 d 0, ph_off = get32 d 4, ph_vaddr = get32 d 8, ph_filesz = get32 d 16, ph_memsz = get32 d 20\<rparr>"

section \<open>Waiting for the other threads\<close>

text \<open>One thread of the loop of \<^verbatim>\<open>wait_before_exec\<close>; the result is \<^verbatim>\<open>threadsAlive\<close>.\<close>

definition rush_thread :: "nat \<Rightarrow> nat \<Rightarrow> nat \<Rightarrow> bool \<Rightarrow> 'a ptable_scheme \<Rightarrow> (bool, 'a ptable_scheme) outcome" where
  "rush_thread p t ot alive s =
     (let st = tstate (thread_at s p ot) in
      if ot = t \<or> st = UNUSED then Done alive s
      else if st = ZOMBIE then
        kseq (kfree (kstack (thread_at s p ot)))
       (kseq (upd_thread p ot (\<lambda>x. x\<lparr>kstack := 0\<rparr>))
       (kseq (upd_thread p ot (\<lambda>x. x\<lparr>tstate := UNUSED\<rparr>)) (kret alive))) s
      else if st = SLEEPING then kseq (upd_thread p ot (\<lambda>x. x\<lparr>tstate := RUNNABLE\<rparr>)) (kret True) s
      else Done True s)"

fun rush_threads :: "nat \<Rightarrow> nat \<Rightarrow> nat list \<Rightarrow> bool \<Rightarrow> 'a ptable_scheme \<Rightarrow> (bool, 'a ptable_scheme) outcome" where
  "rush_threads p t [] alive = kret alive"
| "rush_threads p t (ot # ots) alive = kbind (rush_thread p t ot alive) (rush_threads p t ots)"

text \<open>The body of \<^verbatim>\<open>while(1)\<close>; \<^verbatim>\<open>threadsAlive\<close> is not set back to 0 before the next turn.\<close>

definition wait_exec_loop :: "nat \<Rightarrow> nat \<Rightarrow> bool \<Rightarrow> 'a ptable_scheme \<Rightarrow> (unit, 'a ptable_scheme) outcome" where
  "wait_exec_loop p t alive =
     kbind (rush_threads p t [0..<NTHREAD] alive) (\<lambda>a.
       if \<not> a then kseq (upd_proc p (\<lambda>q. q\<lparr>executed := 0\<rparr>)) (release (L_proc p))
       else sleep (Ch_proc p) (Some (L_proc p)))"

definition wait_before_exec :: "nat \<Rightarrow> nat \<Rightarrow> 'a ptable_scheme \<Rightarrow> (unit, 'a ptable_scheme) outcome" where
  "wait_before_exec p t =
     kseq (acquire (L_proc p))
    (kseq (upd_proc p (\<lambda>q. q\<lparr>executed := 1\<rparr>))
          (wait_exec_loop p t False))"

definition wait_before_exec_resume :: "nat \<Rightarrow> nat \<Rightarrow> 'a ptable_scheme \<Rightarrow> (unit, 'a ptable_scheme) outcome" where
  "wait_before_exec_resume p t = kseq (sleep_resume (L_proc p)) (wait_exec_loop p t True)"

section \<open>Segments\<close>

definition loaduvm_body :: "'a fdevtab \<Rightarrow> uint \<Rightarrow> uint \<Rightarrow> nat \<Rightarrow> uint \<Rightarrow> uint \<Rightarrow> uint \<Rightarrow> 'a filest_scheme \<Rightarrow> (uint + int, 'a filest_scheme) outcome" where
  "loaduvm_body devsw d addr ip offset sz i =
     (if \<not> i < sz then kret (Inr 0)
      else kbind (walkpgdir d (addr + i) False) (\<lambda>r. case r of
        None \<Rightarrow> kpanic ''loaduvm: address should exist''
      | Some pte \<Rightarrow> kbind (kget (\<lambda>s. PTE_ADDR (load32 (ram s) pte))) (\<lambda>pa.
          let n = (if sz - i < PGSIZE then sz - i else PGSIZE) in
          kbind (readi devsw ip (offset + i) n) (\<lambda>(x, bs).
          kseq (kmod (\<lambda>s. s\<lparr>ram := put_mem (ram s) (p2v pa) bs\<rparr>))
               (kret (if of_int x \<noteq> n then Inr (-1) else Inl (i + PGSIZE)))))))"

text \<open>The loop runs once per page of the segment; \<open>sz\<close> is below \<^verbatim>\<open>KERNBASE\<close> where \<^verbatim>\<open>allocuvm\<close> has succeeded.\<close>

definition loaduvm :: "'a fdevtab \<Rightarrow> uint \<Rightarrow> uint \<Rightarrow> nat \<Rightarrow> uint \<Rightarrow> uint \<Rightarrow> 'a filest_scheme \<Rightarrow> (int, 'a filest_scheme) outcome" where
  "loaduvm devsw d addr ip offset sz =
     (if addr mod PGSIZE \<noteq> 0 then kpanic ''loaduvm: addr must be page aligned''
      else kloop (unat sz div 4096 + 2) (loaduvm_body devsw d addr ip offset sz) 0)"

text \<open>The loop over the program headers: \<open>None\<close> is \<^verbatim>\<open>goto bad\<close>.\<close>

fun load_segments :: "'a fdevtab \<Rightarrow> uint \<Rightarrow> nat \<Rightarrow> nat \<Rightarrow> uint \<Rightarrow> uint \<Rightarrow> 'a filest_scheme \<Rightarrow> (uint option, 'a filest_scheme) outcome" where
  "load_segments devsw d ip 0 off sz = kret (Some sz)"
| "load_segments devsw d ip (Suc k) off sz =
     kbind (readi devsw ip off 32) (\<lambda>(r, bs).
     if r \<noteq> 32 then kret None
     else let ph = ph_of bs in
       if ph_type ph \<noteq> ELF_PROG_LOAD then load_segments devsw d ip k (off + 32) sz
       else if ph_memsz ph < ph_filesz ph then kret None
       else kbind (allocuvm d sz (ph_vaddr ph + ph_memsz ph)) (\<lambda>sz'.
         if sz' = 0 then kret None
         else kbind (loaduvm devsw d (ph_vaddr ph) ip (ph_off ph) (ph_filesz ph)) (\<lambda>x.
           if x < 0 then kret None else load_segments devsw d ip k (off + 32) sz')))"

section \<open>The user stack\<close>

definition le32 :: "uint \<Rightarrow> uchar list" where
  "le32 w = put32 0 w (replicate 4 0)"

text \<open>\<^verbatim>\<open>(sp - (strlen(a) + 1)) & ~3\<close>.\<close>

definition arg_sp :: "uint \<Rightarrow> uchar list \<Rightarrow> uint" where
  "arg_sp sp a = (sp - (of_nat (length a) + 1)) AND NOT 3"

text \<open>The loop that pushes the argument strings. The result has \<^verbatim>\<open>sp\<close> and the addresses of the strings pushed so far.\<close>

fun push_args :: "uint \<Rightarrow> uchar list list \<Rightarrow> uint \<Rightarrow> uint list \<Rightarrow> 'a kmem_scheme \<Rightarrow> ((uint \<times> uint list) option, 'a kmem_scheme) outcome" where
  "push_args d [] sp as = kret (Some (sp, as))"
| "push_args d (a # rest) sp as =
     (if MAXARG \<le> length as then kret None
      else kbind (copyout d (arg_sp sp a) (a @ [0])) (\<lambda>r.
        if r < 0 then kret None else push_args d rest (arg_sp sp a) (as @ [arg_sp sp a])))"

text \<open>\<^verbatim>\<open>ustack\<close>: return address, \<^verbatim>\<open>argc\<close>, \<^verbatim>\<open>argv\<close>, the pointers and a null pointer, as bytes.\<close>

definition ustack :: "uint \<Rightarrow> uint list \<Rightarrow> uchar list" where
  "ustack sp as = concat (map le32 ([0xFFFFFFFF, of_nat (length as), sp - (of_nat (length as) + 1) * 4] @ as @ [0]))"

section \<open>exec\<close>

text \<open>The label \<^verbatim>\<open>bad\<close>, with the values of \<^verbatim>\<open>pgdir\<close> and \<^verbatim>\<open>ip\<close> at the jump.\<close>

definition exec_bad :: "uint \<Rightarrow> nat option \<Rightarrow> 'a filest_scheme \<Rightarrow> (int, 'a filest_scheme) outcome" where
  "exec_bad d ip =
     kseq (kwhen (d \<noteq> 0) (freevm d))
    (kseq (case ip of None \<Rightarrow> kret () | Some i \<Rightarrow> kseq (iunlockput i) end_op)
          (kret (-1)))"

definition last_elem :: "uchar list \<Rightarrow> uchar list" where
  "last_elem path = rev (takeWhile (\<lambda>c. c \<noteq> SLASH) (rev path))"

text \<open>From \<^verbatim>\<open>Commit to the user image\<close> on.\<close>

definition exec_commit :: "uchar list \<Rightarrow> uint \<Rightarrow> uint \<Rightarrow> uint \<Rightarrow> uint \<Rightarrow> 'a filest_scheme \<Rightarrow> (int, 'a filest_scheme) outcome" where
  "exec_commit path pgdir_n sz entry sp =
     with_proc (\<lambda>p. kseq (upd_proc p (\<lambda>q. q\<lparr>pname := take 15 (map (\<lambda>c. char_of (unat c)) (last_elem path))\<rparr>))
    (kbind (kget (\<lambda>s. pgdir (procs s ! p))) (\<lambda>oldpgdir.
     kseq (upd_proc p (\<lambda>q. q\<lparr>pgdir := pgdir_n, psz := sz\<rparr>))
    (kseq (with_thread (\<lambda>i j s. store_word (tf (thread_at s i j) + TF_EIP) entry s))
    (kseq (with_thread (\<lambda>i j s. store_word (tf (thread_at s i j) + TF_ESP) sp s))
    (kseq (switchuvm p)
    (kseq (freevm oldpgdir) (kret 0))))))))"

text \<open>From the allocation of the stack on: the inode has been released.\<close>

definition exec_stack :: "uchar list \<Rightarrow> uchar list list \<Rightarrow> uint \<Rightarrow> uint \<Rightarrow> uint \<Rightarrow> 'a filest_scheme \<Rightarrow> (int, 'a filest_scheme) outcome" where
  "exec_stack path argv pgdir_n entry sz0 =
     (let sz1 = PGROUNDUP sz0 in
      kbind (allocuvm pgdir_n sz1 (sz1 + 2 * PGSIZE)) (\<lambda>sz.
      if sz = 0 then exec_bad pgdir_n None
      else kseq (clearpteu pgdir_n (sz - 2 * PGSIZE))
          (kbind (push_args pgdir_n argv sz []) (\<lambda>r. case r of
             None \<Rightarrow> exec_bad pgdir_n None
           | Some (sp, as) \<Rightarrow>
               let sp' = sp - (3 + of_nat (length as) + 1) * 4 in
               kbind (copyout pgdir_n sp' (ustack sp as)) (\<lambda>x.
               if x < 0 then exec_bad pgdir_n None
               else exec_commit path pgdir_n sz entry sp')))))"

text \<open>
  \<open>stk\<close> is what the uninitialised local variable \<^verbatim>\<open>elf\<close> holds: a read that returns -1 passes the test of its length, because
  \<^verbatim>\<open>sizeof\<close> makes the comparison unsigned, and the header is then the old contents of the stack.
\<close>

definition exec :: "'a fdevtab \<Rightarrow> uchar list \<Rightarrow> uchar list \<Rightarrow> uchar list list \<Rightarrow> 'a filest_scheme \<Rightarrow> (int, 'a filest_scheme) outcome" where
  "exec devsw stk path argv =
     kseq (with_thread wait_before_exec)
    (kseq begin_op
    (kbind (namei devsw path) (\<lambda>r. case r of None \<Rightarrow> kseq end_op (kret (-1)) | Some ip \<Rightarrow>
     kseq (ilock (Some ip))
    (kbind (readi devsw ip 0 52) (\<lambda>(n, bs).
     if (of_int n :: uint) < 52 then exec_bad 0 (Some ip)
     else let elf = elf_of (bs @ drop (length bs) stk) in
     if e_magic elf \<noteq> ELF_MAGIC then exec_bad 0 (Some ip)
     else kbind setupkvm (\<lambda>d.
       if d = 0 then exec_bad 0 (Some ip)
       else kbind (load_segments devsw d ip (unat (e_phnum elf)) (e_phoff elf) 0) (\<lambda>x. case x of
         None \<Rightarrow> exec_bad d (Some ip)
       | Some sz \<Rightarrow> kseq (iunlockput ip) (kseq end_op (exec_stack path argv d (e_entry elf) sz))))))))) "

text \<open>The argument vector of \<^verbatim>\<open>sys_exec\<close>: the loop that fetches the pointers and the strings.\<close>

definition exec_args_body :: "uint \<Rightarrow> nat \<times> uchar list list \<Rightarrow> 'a ptable_scheme
    \<Rightarrow> ((nat \<times> uchar list list) + uchar list list option, 'a ptable_scheme) outcome" where
  "exec_args_body uargv = (\<lambda>(i, args).
     if MAXARG \<le> i then kret (Inr None)
     else kbind (fetchint (uargv + 4 * of_nat i)) (\<lambda>r. case r of
       None \<Rightarrow> kret (Inr None)
     | Some uarg \<Rightarrow> if uarg = 0 then kret (Inr (Some args))
         else kbind (fetchstr uarg) (\<lambda>x. case x of
           None \<Rightarrow> kret (Inr None) | Some (_, a) \<Rightarrow> kret (Inl (i + 1, args @ [a])))))"

definition sys_exec :: "'a fdevtab \<Rightarrow> uchar list \<Rightarrow> 'a filest_scheme \<Rightarrow> (int, 'a filest_scheme) outcome" where
  "sys_exec devsw stk =
     kbind (argstr 0) (\<lambda>a. case a of None \<Rightarrow> kret (-1) | Some (_, path) \<Rightarrow>
     kbind (argint 1) (\<lambda>b. case b of None \<Rightarrow> kret (-1) | Some uargv \<Rightarrow>
     kbind (kloop (MAXARG + 1) (exec_args_body uargv) (0, [])) (\<lambda>r. case r of
       None \<Rightarrow> kret (-1)
     | Some argv \<Rightarrow> exec devsw stk path argv)))"

section \<open>Lemmas: copying out to one page\<close>

text \<open>A user page of a directory: its frame is not one of the directory's own pages.\<close>

definition user_page :: "uint \<Rightarrow> mem \<Rightarrow> uint \<Rightarrow> uint \<Rightarrow> uint \<Rightarrow> bool" where
  "user_page e m d b pa \<longleftrightarrow> pgdir_ok e m d \<and> page_aligned b \<and> has_table m d (PDX b)
     \<and> pte_at m d b AND PTE_P \<noteq> 0 \<and> pte_at m d b AND PTE_U \<noteq> 0 \<and> pa = p2v (PTE_ADDR (pte_at m d b)) \<and> pa \<noteq> 0 \<and> pa \<notin> pt_pages m d"

text \<open>What a program with this directory reads.\<close>

definition dir_view :: "uint \<Rightarrow> mem \<Rightarrow> uint \<Rightarrow> uchar" where
  "dir_view d m va = m (p2v (PTE_ADDR (pte_at m d va)) + (va - PGROUNDDOWN va))"

lemma put_mem_at: "unat (x - a) < length bs \<Longrightarrow> put_mem m a bs x = bs ! unat (x - a)"
  "\<not> unat (x - a) < length bs \<Longrightarrow> put_mem m a bs x = m x"
  by (simp_all add: put_mem_def)

lemma unat_of_nat_small: "k < 4294967296 \<Longrightarrow> unat (of_nat k :: uint) = k"
  by (simp add: unat_of_nat)

lemma page_add_nat:
  assumes "page_aligned b" "k < 4096"
  shows "PGROUNDDOWN (b + of_nat k) = b" "b + of_nat k - PGROUNDDOWN (b + of_nat k) = of_nat k"
  using page_of_add [OF assms(1), of "of_nat k"] assms(2) by (simp_all add: unat_of_nat_small)

lemma put_mem_page:
  assumes "k < 4096" "p + length bs \<le> 4096"
  shows "put_mem m (pa + of_nat p) bs (pa + of_nat k) = (if p \<le> k \<and> k < p + length bs then bs ! (k - p) else m (pa + of_nat k))"
proof (cases "p \<le> k")
  case True
  then have "pa + of_nat k - (pa + of_nat p) = (of_nat (k - p) :: uint)" by (simp add: of_nat_diff)
  then have "unat (pa + of_nat k - (pa + of_nat p)) = k - p" using assms(1) by (simp add: unat_of_nat_small)
  then show ?thesis using True by (auto simp: put_mem_def)
next
  case False
  let ?x = "pa + of_nat k - (pa + of_nat p)"
  have "?x + of_nat (p - k) = 0" using False by (simp add: of_nat_diff)
  then have "(unat ?x + (p - k)) mod 4294967296 = 0"
    using unat_word_ariths(1) [of ?x "of_nat (p - k)"] assms by (simp add: unat_of_nat_small)
  moreover have "(unat ?x + (p - k)) mod 4294967296 = unat ?x + (p - k)" if "unat ?x < length bs"
    using that False assms by (intro mod_less) simp
  ultimately have "\<not> unat ?x < length bs" using False by fastforce
  then show ?thesis using False by (simp add: put_mem_def)
qed

lemma put_mem_outside:
  assumes "page_aligned pa" "p + length bs \<le> 4096" "PGROUNDDOWN x \<noteq> pa"
  shows "put_mem m (pa + of_nat p) bs x = m x"
proof (rule put_mem_at(2))
  show "\<not> unat (x - (pa + of_nat p)) < length bs"
  proof
    assume l: "unat (x - (pa + of_nat p)) < length bs"
    then have "unat (x - pa) = p + unat (x - (pa + of_nat p))"
      using assms(2) unat_word_ariths(1) [of "x - (pa + of_nat p)" "of_nat p"] by (simp add: unat_of_nat_small)
    then have "unat (x - pa) < 4096" using l assms(2) by simp
    then show False using page_offset [OF assms(1)] assms(3) by blast
  qed
qed

lemma user_page_put:
  assumes "user_page e m d b pa" "p + length bs \<le> 4096" "m' = put_mem m (pa + of_nat p) bs"
  shows "user_page e m' d b pa" "pte_at m' d = pte_at m d" "pt_pages m' d = pt_pages m d"
proof -
  have u: "pgdir_ok e m d" "page_aligned pa" "pa \<notin> pt_pages m d"
    using assms(1) by (auto simp: user_page_def)
  have same: "m' x = m x" if "PGROUNDDOWN x \<in> pt_pages m d" for x
    unfolding assms(3) by (rule put_mem_outside [OF u(2) assms(2)]) (use that u(3) in auto)
  note F = pt_frame [OF u(1) same]
  show "pte_at m' d = pte_at m d" using F(1) by blast
  show "pt_pages m' d = pt_pages m d" using F by blast
  show "user_page e m' d b pa" using assms(1) F PDX_less by (auto simp: user_page_def has_table_def)
qed

text \<open>\<^verbatim>\<open>copyout\<close> of bytes that stay inside one user page.\<close>

lemma copyout_page:
  assumes u: "user_page e (ram s) d b pa" and l: "p + length bs \<le> 4096" and ne: "bs \<noteq> []"
  shows "copyout d (b + of_nat p) bs s = Done 0 (s\<lparr>ram := put_mem (ram s) (pa + of_nat p) bs\<rparr>)"
proof -
  have p: "p < 4096" using l ne by (cases bs) auto
  have b: "page_aligned b" using u by (simp add: user_page_def)
  note pg = page_add_nat [OF b p]
  have nz: "pa \<noteq> 0" using u by (auto simp: user_page_def)
  have ka: "uva2ka d b s = Done pa s"
    using u by (auto simp: uva2ka_def walk_run user_page_def pte_at_def kbind_def)
  have n0: "unat (PGSIZE - (of_nat p :: uint)) = 4096 - p"
    using p unat_sub [of "of_nat p" "PGSIZE :: uint"] by (simp add: word_le_nat_alt unat_of_nat_small)
  have "copyout_body d (b + of_nat p, bs) s
      = Done (Inl (b + PGSIZE, [])) (s\<lparr>ram := put_mem (ram s) (pa + of_nat p) bs\<rparr>)"
    using ne l n0 ka pg nz by (auto simp: copyout_body_def Let_def)
  moreover have "copyout_body d (b + PGSIZE, []) t = Done (Inr 0) t" for t :: "'a kmem_scheme" by (simp add: copyout_body_def)
  ultimately show ?thesis by (simp add: copyout_def numeral_3_eq_3)
qed

section \<open>Lemmas: the layout of the stack\<close>

lemma unat_clear2: "unat ((a :: uint) AND NOT 3) = unat a div 4 * 4"
proof -
  have "(3 :: uint) = mask 2" by (simp add: mask_eq_exp_minus_1)
  moreover have "a AND NOT (mask 2) = push_bit 2 (drop_bit 2 a)" by (rule bit_word_eqI) (auto simp: bit_simps not_less le_iff_add)
  moreover have "unat (push_bit 2 (drop_bit 2 a)) = unat a div 4 * 4"
    using unat_u32 [of a] by (simp add: push_bit_eq_mult drop_bit_eq_div unat_word_ariths unat_div)
  ultimately show ?thesis by simp
qed

text \<open>Offsets in the stack page: where a string goes, and the space the strings need.\<close>

definition off_arg :: "nat \<Rightarrow> uchar list \<Rightarrow> nat" where
  "off_arg p a = (p - (length a + 1)) div 4 * 4"

fun need :: "uchar list list \<Rightarrow> nat" where
  "need [] = 0"
| "need (a # rest) = (length a + 4) div 4 * 4 + need rest"

lemma round_down:
  assumes "l + 1 \<le> 4 * q"
  shows "(4 * q - (l + 1)) div 4 * 4 = 4 * q - (l + 4) div 4 * (4 :: nat)"
proof -
  define u v where "u = l div 4" and "v = l mod 4"
  have l: "l = 4 * u + v" "v < 4" by (simp_all add: u_def v_def)
  then have "u + 1 \<le> q" using assms by simp
  then have "4 * q - (l + 1) = 4 * (q - (u + 1)) + (3 - v)" using l by simp
  then have "(4 * q - (l + 1)) div 4 = q - (u + 1)" by simp
  moreover have "(l + 4) div 4 = u + 1" using l by simp
  ultimately show ?thesis by simp
qed

lemma off_arg_bounds:
  assumes "need (a # rest) \<le> p" "p mod 4 = 0"
  shows "length a + 1 \<le> p" "off_arg p a + length a + 1 \<le> p" "need rest \<le> off_arg p a" "off_arg p a mod 4 = 0"
    "off_arg p a = p - (length a + 4) div 4 * 4"
proof -
  obtain q where q: "p = 4 * q" using assms(2) by (auto simp: mod_eq_0_iff_dvd)
  show "length a + 1 \<le> p" using assms(1) by simp
  show "off_arg p a + length a + 1 \<le> p" "off_arg p a mod 4 = 0"
    using \<open>length a + 1 \<le> p\<close> div_times_less_eq_dividend [of "p - (length a + 1)" 4] by (simp_all add: off_arg_def)
  show e: "off_arg p a = p - (length a + 4) div 4 * 4"
    unfolding off_arg_def q by (rule round_down) (use \<open>length a + 1 \<le> p\<close> q in simp)
  then show "need rest \<le> off_arg p a" using assms(1) by simp
qed

lemma unat_page_add: "page_aligned b \<Longrightarrow> k < 4096 \<Longrightarrow> unat (b + of_nat k) = unat b + k"
  using page_aligned_max [of b] by (simp add: unat_word_ariths unat_of_nat_small)

lemma arg_sp_off:
  assumes b: "page_aligned b" and l: "length a + 1 \<le> p" "p \<le> 4096"
  shows "arg_sp (b + of_nat p) a = b + of_nat (off_arg p a)"
proof -
  define k where "k = p - (length a + 1)"
  have e: "b + of_nat p - (of_nat (length a) + 1) = b + of_nat k" using l by (simp add: of_nat_diff k_def)
  have lt: "k < 4096" "off_arg p a < 4096" using l by (simp_all add: k_def off_arg_def)
  obtain q where q: "unat b = 4 * q" using b by (auto simp: page_aligned_unat intro: dvd_trans [of 4 4096])
  have "(unat b + k) div 4 * 4 = unat b + k div 4 * 4" unfolding q by simp
  then have "unat (arg_sp (b + of_nat p) a) = unat b + off_arg p a"
    unfolding arg_sp_def e unat_clear2 unat_page_add [OF b lt(1)] by (simp add: off_arg_def k_def)
  then show ?thesis unfolding word_unat_eq_iff unat_page_add [OF b lt(2)] .
qed

text \<open>The strings pushed lie between the new and the old stack pointer, and nothing at or above the old one changes.\<close>

definition string_at :: "(nat \<Rightarrow> uchar) \<Rightarrow> nat \<Rightarrow> uchar list \<Rightarrow> bool" where
  "string_at v p a \<longleftrightarrow> p + length a < 4096 \<and> (\<forall>k < length a. v (p + k) = a ! k) \<and> v (p + length a) = 0"

lemma string_at_cong: "string_at v p a \<Longrightarrow> (\<And>k. p \<le> k \<Longrightarrow> k < 4096 \<Longrightarrow> w k = v k) \<Longrightarrow> string_at w p a"
  by (simp add: string_at_def)

lemma push_args_run:
  assumes "user_page e (ram s) d b pa" "need args \<le> p" "p mod 4 = 0" "p \<le> 4096" "length as + length args \<le> 32"
  shows "\<exists>ps t. push_args d args (b + of_nat p) as s = Done (Some (b + of_nat (p - need args), as @ map (\<lambda>q. b + of_nat q) ps)) t
    \<and> t = s\<lparr>ram := ram t\<rparr> \<and> user_page e (ram t) d b pa \<and> pte_at (ram t) d = pte_at (ram s) d
    \<and> (\<forall>k. p \<le> k \<and> k < 4096 \<longrightarrow> ram t (pa + of_nat k) = ram s (pa + of_nat k))
    \<and> list_all2 (\<lambda>q a. p - need args \<le> q \<and> string_at (\<lambda>k. ram t (pa + of_nat k)) q a) ps args"
  using assms
proof (induction args arbitrary: s p as)
  case Nil
  then show ?case by (intro exI [of _ "[]"] exI [of _ s]) simp
next
  case (Cons a rest)
  note B = off_arg_bounds [OF Cons.prems(2,3)]
  let ?o = "off_arg p a" and ?m = "put_mem (ram s) (pa + of_nat (off_arg p a)) (a @ [0])"
  have b: "page_aligned b" using Cons.prems(1) by (simp add: user_page_def)
  have fit: "?o + length (a @ [0]) \<le> 4096" using B(2) Cons.prems(4) by simp
  have sp: "arg_sp (b + of_nat p) a = b + of_nat ?o" by (rule arg_sp_off [OF b B(1) Cons.prems(4)])
  have run: "push_args d (a # rest) (b + of_nat p) as s = push_args d rest (b + of_nat ?o) (as @ [b + of_nat ?o]) (s\<lparr>ram := ?m\<rparr>)"
    using copyout_page [OF Cons.prems(1) fit] Cons.prems(5) by (simp add: sp)
  note U = user_page_put [OF Cons.prems(1) fit refl]
  have len: "length (as @ [b + of_nat ?o]) + length rest \<le> 32" using Cons.prems(5) by simp
  have "user_page e (ram (s\<lparr>ram := ?m\<rparr>)) d b pa" using U(1) by simp
  from Cons.IH [OF this B(3,4) _ len] B(2) Cons.prems(4) obtain ps t where
    t: "push_args d rest (b + of_nat ?o) (as @ [b + of_nat ?o]) (s\<lparr>ram := ?m\<rparr>)
        = Done (Some (b + of_nat (?o - need rest), (as @ [b + of_nat ?o]) @ map (\<lambda>q. b + of_nat q) ps)) t"
      "t = s\<lparr>ram := ram t\<rparr>" "user_page e (ram t) d b pa" "pte_at (ram t) d = pte_at (ram (s\<lparr>ram := ?m\<rparr>)) d"
      "\<forall>k. ?o \<le> k \<and> k < 4096 \<longrightarrow> ram t (pa + of_nat k) = ?m (pa + of_nat k)"
      "list_all2 (\<lambda>q a. ?o - need rest \<le> q \<and> string_at (\<lambda>k. ram t (pa + of_nat k)) q a) ps rest"
    by auto
  have lo: "?o - need rest = p - need (a # rest)" using B(5) by simp
  have here: "string_at (\<lambda>k. ram t (pa + of_nat k)) ?o a"
  proof -
    have "ram t (pa + of_nat (?o + k)) = (a @ [0]) ! k" if "k \<le> length a" for k
      using t(5) [rule_format, of "?o + k"] put_mem_page [of "?o + k" ?o "a @ [0]" "ram s" pa] fit that by (simp del: of_nat_add)
    then show ?thesis unfolding string_at_def using fit by (simp add: nth_append del: of_nat_add)
  qed
  have above: "ram t (pa + of_nat k) = ram s (pa + of_nat k)" if "p \<le> k" "k < 4096" for k
    using t(5) that B(2) fit by (simp add: put_mem_page)
  show ?case
    by (rule exI [of _ "?o # ps"], rule exI [of _ t]) (use t U(2) here above lo run in simp)
qed

lemma dir_view_page:
  assumes "user_page e m d b pa" "k < 4096"
  shows "dir_view d m (b + of_nat k) = m (pa + of_nat k)"
proof -
  have b: "page_aligned b" "pa = p2v (PTE_ADDR (pte_at m d b))" using assms(1) by (auto simp: user_page_def)
  note pg = page_add_nat [OF b(1) assms(2)]
  have "pte_at m d (b + of_nat k) = pte_at m d b" by (rule pte_at_page) (use pg page_add_nat [OF b(1), of 0] in simp)
  then show ?thesis using pg b(2) by (simp add: dir_view_def)
qed

lemma length_le32 [simp]: "length (le32 w) = 4"
  by (simp add: le32_def put32_def)

lemma concat_le32: "i < length ws \<Longrightarrow> j < 4 \<Longrightarrow> concat (map le32 ws) ! (4 * i + j) = le32 (ws ! i) ! j"
proof (induction ws arbitrary: i)
  case (Cons w ws)
  then show ?case by (cases i) (auto simp: nth_append)
qed simp

lemma length_concat_le32 [simp]: "length (concat (map le32 ws)) = 4 * length ws"
  by (induction ws) simp_all

lemma load32_words:
  assumes "\<And>k. k < 4 * length ws \<Longrightarrow> v (a + of_nat k) = concat (map le32 ws) ! k" "i < length ws"
  shows "load32 v (a + 4 * of_nat i) = ws ! i"
proof -
  have byte: "v (a + 4 * of_nat i + of_nat j) = le32 (ws ! i) ! j" if "j < 4" for j
    using assms(1) [of "4 * i + j"] concat_le32 [OF assms(2) that] assms(2) that by (simp add: algebra_simps)
  have "load32 v (a + 4 * of_nat i) = get32 (le32 (ws ! i)) 0"
    using byte [of 0] byte [of 1] byte [of 2] byte [of 3] by (simp add: load32_def get32_def numeral_eq_Suc)
  then show ?thesis by (simp add: le32_def get32_put32)
qed

lemma length_ustack [simp]: "length (ustack sp as) = 4 * (length as + 4)"
  by (simp add: ustack_def del: concat_append map_append)

text \<open>The program's view of the words of \<^verbatim>\<open>ustack\<close> once they are copied out.\<close>

lemma ustack_view:
  assumes u: "user_page e m d b pa" and l: "p + 4 * (length as + 4) \<le> 4096" and i: "i < length as + 4"
    and m': "m' = put_mem m (pa + of_nat p) (ustack sp as)"
  shows "load32 (dir_view d m') (b + of_nat p + 4 * of_nat i)
    = ([0xFFFFFFFF, of_nat (length as), sp - (of_nat (length as) + 1) * 4] @ as @ [0]) ! i"
proof (rule load32_words)
  have fit: "p + length (ustack sp as) \<le> 4096" using l by simp
  note U = user_page_put(1) [OF u fit m']
  fix k assume k: "k < 4 * length ([0xFFFFFFFF, of_nat (length as), sp - (of_nat (length as) + 1) * 4] @ as @ [0])"
  have "dir_view d m' (b + of_nat (p + k)) = m' (pa + of_nat (p + k))" by (rule dir_view_page [OF U]) (use k l in simp)
  also have "\<dots> = ustack sp as ! k" unfolding m' using put_mem_page [OF _ fit, of "p + k"] k l by (simp del: of_nat_add)
  finally show "dir_view d m' (b + of_nat p + of_nat k)
    = concat (map le32 ([0xFFFFFFFF, of_nat (length as), sp - (of_nat (length as) + 1) * 4] @ as @ [0])) ! k"
    by (simp add: ustack_def algebra_simps)
qed (use i in simp)

text \<open>A string already on the stack is not changed by what is copied out below it.\<close>

lemma string_view:
  assumes u: "user_page e m d b pa" and st: "string_at (\<lambda>k. m (pa + of_nat k)) q a" and l: "p + length bs \<le> q"
  shows "map (\<lambda>k. dir_view d (put_mem m (pa + of_nat p) bs) (b + of_nat q + of_nat k)) [0..<length a + 1] = a @ [0]"
proof -
  have fit: "p + length bs \<le> 4096" using st l by (simp add: string_at_def)
  note U = user_page_put(1) [OF u fit refl]
  have "dir_view d (put_mem m (pa + of_nat p) bs) (b + of_nat (q + k)) = (a @ [0]) ! k" if "k \<le> length a" for k
  proof -
    have k: "q + k < 4096" "\<not> q + k < p + length bs" using st that l by (auto simp: string_at_def)
    have "dir_view d (put_mem m (pa + of_nat p) bs) (b + of_nat (q + k)) = m (pa + of_nat (q + k))"
      using dir_view_page [OF U k(1)] put_mem_page [OF k(1) fit] k(2) by (simp del: of_nat_add)
    then show ?thesis using st that by (auto simp: string_at_def nth_append simp del: of_nat_add)
  qed
  then show ?thesis by (intro nth_equalityI) (simp_all add: algebra_simps del: upt_Suc)
qed

lemma need_mod4: "need args mod 4 = 0"
  by (induction args) (simp_all add: mod_add_eq [symmetric])

section \<open>Lemmas: waiting\<close>

lemma rush_thread_alive: "rush_thread p t ot True s = Done a v \<Longrightarrow> a"
  by (cases "tstate (thread_at s p ot)") (auto simp: rush_thread_def Let_def kret_def elim!: kseq_DoneE split: if_splits)

lemma rush_threads_alive: "rush_threads p t ots True s = Done a v \<Longrightarrow> a"
proof (induction ots arbitrary: s)
  case (Cons ot ots)
  then obtain b w where w: "rush_thread p t ot True s = Done b w" "rush_threads p t ots b w = Done a v" by (auto elim: kbind_DoneE)
  then show ?case using rush_thread_alive [OF w(1)] Cons.IH by simp
qed simp

section \<open>Properties\<close>

text \<open>C18: the stack \<^verbatim>\<open>exec\<close> gives to a new program. When the arguments fit into the stack page, pushing them succeeds, and what the program then reads
  through its page table at its stack pointer is the argument count, a pointer to the array of argument pointers behind it, and for each
  argument a pointer to a copy of the string with its terminator; the array ends with a null pointer and everything is aligned.\<close>

theorem exec_stack_layout:
  assumes "user_page e (ram s) d b pa" "length argv \<le> 32" "need argv + 4 * (length argv + 4) \<le> 4096"
  shows "\<exists>sp as t u. push_args d argv (b + PGSIZE) [] s = Done (Some (sp, as)) t
    \<and> (let sp' = sp - (3 + of_nat (length as) + 1) * 4; v = dir_view d (ram u) in
       copyout d sp' (ustack sp as) t = Done 0 u \<and> sp' mod 4 = 0
       \<and> load32 v (sp' + 4) = of_nat (length argv) \<and> load32 v (sp' + 8) = sp' + 12
       \<and> (\<forall>i < length argv. map (\<lambda>k. v (load32 v (sp' + 12 + 4 * of_nat i) + of_nat k)) [0..<length (argv ! i) + 1] = argv ! i @ [0])
       \<and> load32 v (sp' + 12 + 4 * of_nat (length argv)) = 0)"
proof -
  obtain ps t where t: "push_args d argv (b + of_nat 4096) [] s = Done (Some (b + of_nat (4096 - need argv), [] @ map (\<lambda>q. b + of_nat q) ps)) t"
      "user_page e (ram t) d b pa"
      "list_all2 (\<lambda>q a. 4096 - need argv \<le> q \<and> string_at (\<lambda>k. ram t (pa + of_nat k)) q a) ps argv"
    using push_args_run [OF assms(1), of argv 4096 "[]"] assms(2,3) by auto
  define as sp p where "as = map (\<lambda>q. b + of_nat q :: uint) ps" and "sp = b + of_nat (4096 - need argv)"
    and "p = 4096 - need argv - 4 * (length argv + 4)"
  have len: "length ps = length argv" "length as = length argv" using list_all2_lengthD [OF t(3)] by (simp_all add: as_def)
  have q: "4096 - need argv = p + 4 * (length argv + 4)" using assms(3) by (simp add: p_def)
  have fit: "p + length (ustack sp as) \<le> 4096" "p + 4 * (length as + 4) \<le> 4096" using q len by simp_all
  have sp': "sp - (3 + of_nat (length as) + 1) * 4 = b + of_nat p" unfolding sp_def q using len by (simp add: algebra_simps)
  define u where "u = t\<lparr>ram := put_mem (ram t) (pa + of_nat p) (ustack sp as)\<rparr>"
  have co: "copyout d (b + of_nat p) (ustack sp as) t = Done 0 u"
    using copyout_page [OF t(2) fit(1)] by (simp add: u_def ustack_def le32_def put32_def)
  have W: "load32 (dir_view d (ram u)) (b + of_nat p + 4 * of_nat i)
      = ([0xFFFFFFFF, of_nat (length as), sp - (of_nat (length as) + 1) * 4] @ as @ [0]) ! i" if "i < length as + 4" for i
    using ustack_view [OF t(2) fit(2) that] by (simp add: u_def)
  have ap: "load32 (dir_view d (ram u)) (b + of_nat p + 12 + 4 * of_nat i) = (if i < length as then as ! i else 0)" if "i \<le> length as" for i
    using W [of "i + 3"] that by (simp add: algebra_simps nth_append numeral_3_eq_3)
  have strings: "map (\<lambda>k. dir_view d (ram u) (as ! i + of_nat k)) [0..<length (argv ! i) + 1] = argv ! i @ [0]" if "i < length argv" for i
  proof -
    have "4096 - need argv \<le> ps ! i" "string_at (\<lambda>k. ram t (pa + of_nat k)) (ps ! i) (argv ! i)"
      using t(3) that by (simp_all add: list_all2_conv_all_nth)
    from string_view [OF t(2) this(2), of p "ustack sp as"] this(1) show ?thesis using that len q by (simp add: u_def as_def)
  qed
  have al: "(b + of_nat p) mod 4 = 0"
  proof -
    have b: "page_aligned b" "p < 4096" using assms(1,3) by (simp_all add: user_page_def p_def)
    obtain k where "unat b = 4 * k" using b(1) by (auto simp: page_aligned_unat intro: dvd_trans [of 4 4096])
    moreover have "p mod 4 = 0" using need_mod4 [of argv] q by presburger
    ultimately show ?thesis using unat_page_add [OF b] by (simp add: word_unat_eq_iff unat_mod)
  qed
  have w: "load32 (dir_view d (ram u)) (b + of_nat p + 4) = of_nat (length argv)"
    "load32 (dir_view d (ram u)) (b + of_nat p + 8) = b + of_nat p + 12"
    using W [of 1] W [of 2] sp' len by (simp_all add: algebra_simps)
  have st: "\<forall>i < length argv. map (\<lambda>k. dir_view d (ram u) (load32 (dir_view d (ram u)) (b + of_nat p + 12 + 4 * of_nat i) + of_nat k))
      [0..<length (argv ! i) + 1] = argv ! i @ [0]" using ap strings len by simp
  have push: "push_args d argv (b + PGSIZE) [] s = Done (Some (sp, as)) t" using t(1) by (simp add: sp_def as_def)
  show ?thesis unfolding Let_def
    by (rule exI [of _ sp], rule exI [of _ as], rule exI [of _ t], rule exI [of _ u], unfold sp')
       (intro conjI push co al w st, use ap [of "length argv"] len in simp)
qed

text \<open>The arguments \<^verbatim>\<open>ls\<close> and \<^verbatim>\<open>-\<close> on the page at address 0 of \<^const>\<open>cow_state\<close>.\<close>

theorem exec_stack_layout_witness:
  "\<exists>sp as t u. push_args 0x80200000 [[108, 115], [45]] 0x1000 [] cow_state = Done (Some (sp, as)) t
    \<and> (let sp' = sp - (3 + of_nat (length as) + 1) * 4; v = dir_view 0x80200000 (ram u) in
       copyout 0x80200000 sp' (ustack sp as) t = Done 0 u \<and> load32 v (sp' + 4) = 2
       \<and> map (\<lambda>k. v (load32 v (sp' + 12) + of_nat k)) [0..<3] = [108, 115, 0])"
proof -
  let ?A = "[[108, 115], [45]] :: uchar list list"
  have "page_aligned 0" by (simp add: page_aligned_def)
  then have u: "user_page 0x80110000 (ram cow_state) 0x80200000 0 0x80300000"
    using cow_ram_view by (simp add: user_page_def cow_state_def PGROUNDDOWN_def PTE_ADDR_def p2v_def)
  have f: "length ?A \<le> 32" "need ?A + 4 * (length ?A + 4) \<le> 4096" by simp_all
  obtain sp as t v where r: "push_args 0x80200000 ?A (0 + PGSIZE) [] cow_state = Done (Some (sp, as)) t"
    "let sp' = sp - (3 + of_nat (length as) + 1) * 4; w = dir_view 0x80200000 (ram v) in
       copyout 0x80200000 sp' (ustack sp as) t = Done 0 v \<and> sp' mod 4 = 0
       \<and> load32 w (sp' + 4) = of_nat (length ?A) \<and> load32 w (sp' + 8) = sp' + 12
       \<and> (\<forall>i < length ?A. map (\<lambda>k. w (load32 w (sp' + 12 + 4 * of_nat i) + of_nat k)) [0..<length (?A ! i) + 1]
           = ?A ! i @ [0])
       \<and> load32 w (sp' + 12 + 4 * of_nat (length ?A)) = 0"
    using exec_stack_layout [OF u f] by blast
  define sp' where "sp' = sp - (3 + of_nat (length as) + 1) * 4"
  note R = r(2) [unfolded Let_def, folded sp'_def]
  have "copyout 0x80200000 sp' (ustack sp as) t = Done 0 v" "load32 (dir_view 0x80200000 (ram v)) (sp' + 4) = 2" using R by simp_all
  moreover have "map (\<lambda>k. dir_view 0x80200000 (ram v) (load32 (dir_view 0x80200000 (ram v)) (sp' + 12) + of_nat k)) [0..<3] = [108, 115, 0]"
    using R [THEN conjunct2, THEN conjunct2, THEN conjunct2, THEN conjunct2, THEN conjunct1, rule_format, of 0] by (simp add: numeral_3_eq_3)
  moreover have "push_args 0x80200000 ?A 0x1000 [] cow_state = Done (Some (sp, as)) t" using r(1) by (simp only: add_0)
  ultimately show ?thesis unfolding Let_def
    by - (rule exI [of _ sp], rule exI [of _ as], rule exI [of _ t], rule exI [of _ v], fold sp'_def, intro conjI)
qed

text \<open>C20: \<^verbatim>\<open>wait_before_exec\<close> does not reset \<^verbatim>\<open>threadsAlive\<close>: once it has slept because another thread was alive, no state of the threads,
  not even the end of all of them, lets it return, so \<^verbatim>\<open>exec\<close> in such a process never comes to load the program.\<close>

theorem wait_before_exec_stuck: "wait_before_exec_resume p t s \<noteq> Done x u"
proof
  assume "wait_before_exec_resume p t s = Done x u"
  then obtain v where "wait_exec_loop p t True v = Done x u" unfolding wait_before_exec_resume_def by (auto elim: kseq_DoneE)
  then obtain a w where r: "rush_threads p t [0..<NTHREAD] True v = Done a w"
      "(if \<not> a then kseq (upd_proc p (\<lambda>q. q\<lparr>executed := 0\<rparr>)) (release (L_proc p)) else sleep (Ch_proc p) (Some (L_proc p))) w = Done x u"
    unfolding wait_exec_loop_def by (auto elim: kbind_DoneE)
  have a using rush_threads_alive [OF r(1)] .
  then show False using r(2) sleep_not_Done [of "Ch_proc p" "Some (L_proc p)" w x u] by simp
qed

end
