(* ===== verification/Digits.thy ===== *)
theory Digits
  imports Prelude
begin

text \<open>
  Printing numbers: the loop shared by the two functions \<^verbatim>\<open>printint\<close>, of the console (\<^verbatim>\<open>console.c\<close>) and of the user library (\<^verbatim>\<open>printf.c\<close>),
  which fill a buffer of 16 bytes from the last digit on. The lemmas give the value of the digits and bound their number.
\<close>

text \<open>The \<^verbatim>\<open>do\<close> loop; a base below 2 would not end and does not occur.\<close>

function revdigits :: "nat \<Rightarrow> nat \<Rightarrow> nat list" where
  "revdigits b x = (if b < 2 then [] else x mod b # (if x div b = 0 then [] else revdigits b (x div b)))"
  by pat_completeness auto
termination
  by (relation "measure snd") (auto simp: div_greater_zero_iff not_less intro!: div_less_dividend)

declare revdigits.simps [simp del]

text \<open>The buffer of \<^verbatim>\<open>printint\<close>, in the order in which it is filled: digits, then a minus sign.\<close>

definition intbuf :: "(nat \<Rightarrow> uchar) \<Rightarrow> uint \<Rightarrow> nat \<Rightarrow> bool \<Rightarrow> uchar list" where
  "intbuf digit xx b neg =
     (if neg \<and> sint xx < 0 then map digit (revdigits b (unat (- xx))) @ [45] else map digit (revdigits b (unat xx)))"

definition digit_lower :: "nat \<Rightarrow> uchar" where
  "digit_lower d = (if d < 10 then of_nat (48 + d) else of_nat (87 + d))"

definition digit_upper :: "nat \<Rightarrow> uchar" where
  "digit_upper d = (if d < 10 then of_nat (48 + d) else of_nat (55 + d))"

section \<open>Lemmas\<close>

fun digits_value :: "nat \<Rightarrow> nat list \<Rightarrow> nat" where
  "digits_value b [] = 0"
| "digits_value b (d # ds) = d + b * digits_value b ds"

lemma revdigits_value: "2 \<le> b \<Longrightarrow> digits_value b (revdigits b x) = x"
proof (induction x rule: less_induct)
  case (less x)
  show ?case
  proof (cases "x div b = 0")
    case True
    then show ?thesis using less.prems revdigits.simps [of b x] by (simp add: mod_if div_eq_0_iff)
  next
    case False
    then have "x div b < x" using less.prems by (intro div_less_dividend) (auto intro: gr0I)
    then show ?thesis using less.IH [of "x div b"] less.prems False by (simp add: revdigits.simps [of b x])
  qed
qed

lemma revdigits_digit: "2 \<le> b \<Longrightarrow> d \<in> set (revdigits b x) \<Longrightarrow> d < b"
proof (induction b x rule: revdigits.induct)
  case (1 b x)
  from 1(3) have "d = x mod b \<or> (x div b \<noteq> 0 \<and> d \<in> set (revdigits b (x div b)))"
    using 1(2) revdigits.simps [of b x] by (auto split: if_splits)
  then show ?case using 1(1,2) by auto
qed

lemma revdigits_length: "2 \<le> b \<Longrightarrow> x < b ^ n \<Longrightarrow> 0 < n \<Longrightarrow> length (revdigits b x) \<le> n"
proof (induction n arbitrary: x)
  case (Suc n)
  show ?case
  proof (cases "x div b = 0")
    case True
    then show ?thesis using Suc.prems by (simp add: revdigits.simps [of b x])
  next
    case False
    then have x: "x div b < b ^ n" using Suc.prems by (simp add: less_mult_imp_div_less mult.commute)
    then have "0 < n" using False by (cases n) auto
    then show ?thesis using Suc.IH [OF Suc.prems(1) x] Suc.prems(1) False by (simp add: revdigits.simps [of b x])
  qed
qed simp

lemma revdigits_nonempty: "2 \<le> b \<Longrightarrow> revdigits b x \<noteq> []"
  by (simp add: revdigits.simps [of b x])

text \<open>The buffer holds every number: at most ten digits and a sign.\<close>

lemma intbuf_length:
  assumes "10 \<le> b"
  shows "length (intbuf digit xx b neg) \<le> 11"
proof -
  have "(4294967296 :: nat) \<le> 10 ^ 10" by simp
  also have "(10 :: nat) ^ 10 \<le> b ^ 10" using assms by (rule power_mono) simp
  finally have "unat y < b ^ 10" for y :: uint using unat_u32 [of y] by simp
  then have "length (revdigits b (unat y)) \<le> 10" for y :: uint using revdigits_length [of b "unat y" 10] assms by simp
  from this [of xx] this [of "- xx"] show ?thesis by (simp add: intbuf_def)
qed

end
