(* ===== verification/Console.thy ===== *)
theory Console
  imports Process Digits
begin

text \<open>
  The console (\<^verbatim>\<open>console.c\<close>): formatted output to the screen and the serial port, the line discipline that turns key strokes into lines, and the
  reading of lines. The serial port is seen through the bytes written to its I/O port; the screen is the video memory with the cursor position of the display
  controller. The listing of the processes (\<^verbatim>\<open>procdump\<close>, \<^verbatim>\<open>print_memory_usage\<close> of \<^verbatim>\<open>proc.c\<close>) is here because it prints.
\<close>

section \<open>State\<close>

abbreviation (input) BACKSPACE :: int where "BACKSPACE \<equiv> 0x100"
abbreviation (input) COM1 :: nat where "COM1 \<equiv> 0x3F8"
abbreviation (input) INPUT_BUF :: uint where "INPUT_BUF \<equiv> 128"
abbreviation (input) CTRL_D :: uchar where "CTRL_D \<equiv> 4"
abbreviation (input) CTRL_H :: int where "CTRL_H \<equiv> 8"
abbreviation (input) CTRL_P :: int where "CTRL_P \<equiv> 16"
abbreviation (input) CTRL_U :: int where "CTRL_U \<equiv> 21"
abbreviation (input) NEWLINE :: uchar where "NEWLINE \<equiv> 10"

record consst = filest +
  ticks :: uint               \<comment> \<open>of \<^verbatim>\<open>trap.c\<close>\<close>
  cons_locking :: int
  panicked :: int
  crt :: "nat \<Rightarrow> ushort"
  crtpos :: int
  uart :: int                 \<comment> \<open>of \<^verbatim>\<open>uart.c\<close>\<close>
  io :: "(nat \<times> uchar) list"  \<comment> \<open>the bytes written to I/O ports, in order\<close>
  in_buf :: "uchar list"      \<comment> \<open>\<^verbatim>\<open>input.buf\<close>\<close>
  in_r :: uint
  in_w :: uint
  in_e :: uint

section \<open>Output\<close>

text \<open>The position after the character, and the video memory.\<close>

definition cga_advance :: "int \<Rightarrow> int \<Rightarrow> (nat \<Rightarrow> ushort) \<Rightarrow> int \<times> (nat \<Rightarrow> ushort)" where
  "cga_advance c pos m =
     (if c = 10 then (pos + (80 - pos mod 80), m)
      else if c = BACKSPACE then ((if pos > 0 then pos - 1 else pos), m)
      else (pos + 1, m(nat pos := (of_int c AND 0xFF) OR 0x0700)))"

definition cga_scroll :: "int \<Rightarrow> (nat \<Rightarrow> ushort) \<Rightarrow> int \<times> (nat \<Rightarrow> ushort)" where
  "cga_scroll pos m =
     (if pos div 80 \<ge> 24 then
        let m1 = (\<lambda>k. if k < 23 * 80 then m (k + 80) else m k); p = pos - 80 in
        (p, \<lambda>k. if nat p \<le> k \<and> k < 24 * 80 then 0 else m1 k)
      else (pos, m))"

definition cgaputc :: "int \<Rightarrow> 'a consst_scheme \<Rightarrow> (unit, 'a consst_scheme) outcome" where
  "cgaputc c s =
     (let (pos, m) = cga_advance c (crtpos s) (crt s) in
      if pos < 0 \<or> pos > 25 * 80 then Panic ''pos under/overflow''
      else let (pos', m') = cga_scroll pos m in
        Done () (s\<lparr>crtpos := pos', crt := m'(nat pos' := 0x20 OR 0x0700)\<rparr>))"

definition outb :: "nat \<Rightarrow> uchar \<Rightarrow> 'a consst_scheme \<Rightarrow> (unit, 'a consst_scheme) outcome" where
  "outb port v = kmod (\<lambda>s. s\<lparr>io := io s @ [(port, v)]\<rparr>)"

text \<open>The wait until the port is ready to send has no effect on the state.\<close>

definition uartputc :: "int \<Rightarrow> 'a consst_scheme \<Rightarrow> (unit, 'a consst_scheme) outcome" where
  "uartputc c s = (if uart s = 0 then Done () s else outb COM1 (of_int c) s)"

text \<open>When another CPU has panicked the CPU stops here.\<close>

definition consputc :: "int \<Rightarrow> 'a consst_scheme \<Rightarrow> (unit, 'a consst_scheme) outcome" where
  "consputc c s =
     (if panicked s \<noteq> 0 then Panic ''frozen''
      else kseq (if c = BACKSPACE then kseq (uartputc 8) (kseq (uartputc 32) (uartputc 8)) else uartputc c)
                (cgaputc c) s)"

definition consputs :: "uchar list \<Rightarrow> 'a consst_scheme \<Rightarrow> (unit, 'a consst_scheme) outcome" where
  "consputs bs = kforeach (\<lambda>c. consputc (int (unat c))) bs"

definition printint :: "uint \<Rightarrow> nat \<Rightarrow> bool \<Rightarrow> 'a consst_scheme \<Rightarrow> (unit, 'a consst_scheme) outcome" where
  "printint xx base neg = consputs (rev (intbuf digit_lower xx base neg))"

text \<open>The arguments behind the format; a string argument is its bytes, \<open>None\<close> is the null pointer. A missing argument is a fault.\<close>

datatype carg = Num uint | Str "uchar list option"

definition null_text :: "uchar list" where
  "null_text = [40, 110, 117, 108, 108, 41]"

definition print_arg :: "uchar \<Rightarrow> carg list \<Rightarrow> 'a consst_scheme \<Rightarrow> (carg list, 'a consst_scheme) outcome" where
  "print_arg c args =
     (if c = 100 then (case args of Num x # r \<Rightarrow> kseq (printint x 10 True) (kret r) | _ \<Rightarrow> kfault ''cprintf'')
      else if c = 120 \<or> c = 112 then (case args of Num x # r \<Rightarrow> kseq (printint x 16 False) (kret r) | _ \<Rightarrow> kfault ''cprintf'')
      else if c = 115 then (case args of Str b # r \<Rightarrow> kseq (consputs (case b of None \<Rightarrow> null_text | Some bs \<Rightarrow> bs)) (kret r) | _ \<Rightarrow> kfault ''cprintf'')
      else if c = 37 then kseq (consputc 37) (kret args)
      else kseq (consputc 37) (kseq (consputc (int (unat c))) (kret args)))"

fun cprintf_loop :: "uchar list \<Rightarrow> carg list \<Rightarrow> 'a consst_scheme \<Rightarrow> (unit, 'a consst_scheme) outcome" where
  "cprintf_loop [] args = kret ()"
| "cprintf_loop [c] args = (if c \<noteq> 37 then consputc (int (unat c)) else kret ())"
| "cprintf_loop (c # d # fmt) args =
     (if c \<noteq> 37 then kseq (consputc (int (unat c))) (cprintf_loop (d # fmt) args)
      else kbind (print_arg d args) (cprintf_loop fmt))"

definition cprintf :: "uchar list \<Rightarrow> carg list \<Rightarrow> 'a consst_scheme \<Rightarrow> (unit, 'a consst_scheme) outcome" where
  "cprintf fmt args =
     kbind (kget cons_locking) (\<lambda>locking.
     kseq (kwhen (locking \<noteq> 0) (acquire L_cons))
    (kseq (cprintf_loop fmt args)
          (kwhen (locking \<noteq> 0) (release L_cons))))"

section \<open>The line discipline\<close>

definition in_at :: "'a consst_scheme \<Rightarrow> uint \<Rightarrow> uchar" where
  "in_at s i = in_buf s ! unat (i mod INPUT_BUF)"

definition set_e :: "uint \<Rightarrow> 'a consst_scheme \<Rightarrow> 'a consst_scheme" where
  "set_e e s = s\<lparr>in_e := e\<rparr>"

text \<open>The loop of \<^verbatim>\<open>^U\<close>: it goes back at most over what lies between \<^verbatim>\<open>w\<close> and \<^verbatim>\<open>e\<close>.\<close>

fun kill_line :: "nat \<Rightarrow> 'a consst_scheme \<Rightarrow> (unit, 'a consst_scheme) outcome" where
  "kill_line 0 s = Fault ''kill_line''"
| "kill_line (Suc n) s =
     (if in_e s \<noteq> in_w s \<and> in_at s (in_e s - 1) \<noteq> NEWLINE
      then kseq (kmod (set_e (in_e s - 1))) (kseq (consputc BACKSPACE) (kill_line n)) s
      else Done () s)"

definition cons_store :: "uchar \<Rightarrow> 'a consst_scheme \<Rightarrow> 'a consst_scheme" where
  "cons_store c s = s\<lparr>in_buf := (in_buf s)[unat (in_e s mod INPUT_BUF) := c], in_e := in_e s + 1\<rparr>"

text \<open>One turn of the loop of \<^verbatim>\<open>consoleintr\<close>; the result says whether \<^verbatim>\<open>^P\<close> was seen.\<close>

definition cons_char :: "int \<Rightarrow> 'a consst_scheme \<Rightarrow> (bool, 'a consst_scheme) outcome" where
  "cons_char c s =
     (if c = CTRL_P then Done True s
      else if c = CTRL_U then kseq (kill_line (Suc (unat (in_e s - in_w s)))) (kret False) s
      else if c = CTRL_H \<or> c = 127 then
        kseq (kwhen (in_e s \<noteq> in_w s) (kseq (kmod (set_e (in_e s - 1))) (consputc BACKSPACE))) (kret False) s
      else if c \<noteq> 0 \<and> in_e s - in_r s < INPUT_BUF then
        let c' = (if c = 13 then 10 else c) in
        kseq (kmod (cons_store (of_int c')))
       (kseq (consputc c')
       (kseq (\<lambda>s. kwhen (c' = 10 \<or> c' = int (unat CTRL_D) \<or> in_e s = in_r s + INPUT_BUF)
                (kseq (kmod (\<lambda>s. s\<lparr>in_w := in_e s\<rparr>)) (wakeup Ch_input)) s)
             (kret False))) s
      else Done False s)"

fun cons_chars :: "int list \<Rightarrow> bool \<Rightarrow> 'a consst_scheme \<Rightarrow> (bool, 'a consst_scheme) outcome" where
  "cons_chars [] dump = kret dump"
| "cons_chars (c # cs) dump = kbind (cons_char c) (\<lambda>d. cons_chars cs (dump \<or> d))"

section \<open>Reading and writing\<close>

text \<open>The loop of \<^verbatim>\<open>consoleread\<close>; \<open>got\<close> are the bytes stored so far, \<open>n\<close> the number still wanted.\<close>

fun consoleread_loop :: "nat \<Rightarrow> nat \<Rightarrow> uchar list \<Rightarrow> 'a consst_scheme \<Rightarrow> (int \<times> uchar list, 'a consst_scheme) outcome" where
  "consoleread_loop ip 0 got =
     kseq (release L_cons) (kseq (ilock (Some ip)) (kret (int (length got), got)))"
| "consoleread_loop ip (Suc n) got =
     (\<lambda>s. if in_r s = in_w s then
        kbind proc_killed (\<lambda>k.
        if k then kseq (release L_cons) (kseq (ilock (Some ip)) (kret (-1, [])))
        else sleep Ch_input (Some L_cons)) s
      else let c = in_at s (in_r s) in
        if c = CTRL_D then
          kseq (kwhen (got = []) (kmod (\<lambda>s. s\<lparr>in_r := in_r s + 1\<rparr>))) (consoleread_loop ip 0 got) s
        else kseq (kmod (\<lambda>s. s\<lparr>in_r := in_r s + 1\<rparr>))
            (if c = NEWLINE then consoleread_loop ip 0 (got @ [c]) else consoleread_loop ip n (got @ [c])) s)"

definition consoleread :: "nat \<Rightarrow> int \<Rightarrow> 'a consst_scheme \<Rightarrow> (int \<times> uchar list, 'a consst_scheme) outcome" where
  "consoleread ip n = kseq (iunlock (Some ip)) (kseq (acquire L_cons)
     (if n \<le> 0 then kseq (release L_cons) (kseq (ilock (Some ip)) (kret (0, []))) else consoleread_loop ip (nat n) []))"

definition consoleread_resume :: "nat \<Rightarrow> nat \<Rightarrow> uchar list \<Rightarrow> 'a consst_scheme \<Rightarrow> (int \<times> uchar list, 'a consst_scheme) outcome" where
  "consoleread_resume ip n got = kseq (sleep_resume L_cons) (consoleread_loop ip n got)"

definition consolewrite :: "nat \<Rightarrow> uchar list \<Rightarrow> int \<Rightarrow> 'a consst_scheme \<Rightarrow> (int, 'a consst_scheme) outcome" where
  "consolewrite ip buf n =
     kseq (iunlock (Some ip))
    (kseq (acquire L_cons)
    (kseq (consputs (take (nat n) buf))
    (kseq (release L_cons)
    (kseq (ilock (Some ip)) (kret n)))))"

text \<open>The device table after \<^verbatim>\<open>consoleinit\<close>: only \<^verbatim>\<open>CONSOLE\<close> (1) has functions.\<close>

definition console_devsw :: "nat \<Rightarrow> (nat \<Rightarrow> int \<Rightarrow> 'a consst_scheme \<Rightarrow> (int \<times> uchar list, 'a consst_scheme) outcome) option
    \<times> (nat \<Rightarrow> uchar list \<Rightarrow> int \<Rightarrow> 'a consst_scheme \<Rightarrow> (int, 'a consst_scheme) outcome) option" where
  "console_devsw k = (if k = 1 then (Some consoleread, Some consolewrite) else (None, None))"

section \<open>Listing the processes\<close>

definition bytes :: "string \<Rightarrow> uchar list" where
  "bytes m = map of_char m"

definition nl :: "uchar list" where
  "nl = [NEWLINE]"

definition print_page :: "uint \<Rightarrow> nat \<Rightarrow> nat \<Rightarrow> 'a consst_scheme \<Rightarrow> (unit, 'a consst_scheme) outcome" where
  "print_page pgtab d t =
     kbind (kget (\<lambda>s. load32 (ram s) (pgtab + 4 * of_nat t))) (\<lambda>e.
       kwhen (e AND PTE_U \<noteq> 0 \<and> e AND PTE_P \<noteq> 0)
         (kbind (page_refs (unat (drop_bit 12 e))) (\<lambda>refs.
          cprintf (bytes ''%p -> %p , [w: %s] , [refs: %d]'' @ nl)
            [Num (push_bit 10 (of_nat d) + of_nat t), Num (drop_bit 12 e),
             Str (Some (bytes (if e AND PTE_W \<noteq> 0 \<and> e AND PTE_SH = 0 then ''y'' else ''n''))), Num (of_int refs)])))"

definition print_memory_usage :: "uint \<Rightarrow> 'a consst_scheme \<Rightarrow> (unit, 'a consst_scheme) outcome" where
  "print_memory_usage dir = kforeach (\<lambda>d.
     kbind (kget (\<lambda>s. load32 (ram s) (dir + 4 * of_nat d))) (\<lambda>pde.
       kwhen (pde AND PTE_U \<noteq> 0 \<and> pde AND PTE_P \<noteq> 0) (kforeach (print_page (p2v (PTE_ADDR pde)) d) [0..<1024]))) [0..<1024]"

fun state_name :: "procstate \<Rightarrow> string" where
  "state_name UNUSED = ''unused''"
| "state_name EMBRYO = ''embryo''"
| "state_name SLEEPING = ''sleep ''"
| "state_name RUNNABLE = ''runble''"
| "state_name RUNNING = ''run   ''"
| "state_name ZOMBIE = ''zombie''"

text \<open>The call stacks of the sleeping threads; \<^verbatim>\<open>ebp\<close> is the fourth word of the saved context.\<close>

definition print_stacks :: "nat \<Rightarrow> 'a consst_scheme \<Rightarrow> (unit, 'a consst_scheme) outcome" where
  "print_stacks p = kforeach (\<lambda>t s.
     kwhen (tstate (thread_at s p t) = SLEEPING)
       (kforeach (\<lambda>x. cprintf (bytes '' %p'') [Num x])
          (takeWhile (\<lambda>x. x \<noteq> 0) (getcallerpcs (load32 (ram s)) (load32 (ram s) (context_a (thread_at s p t) + 12) + 8)))) s) [0..<NTHREAD]"

text \<open>
  The loop over the threads. The inner loop uses the same variable \<^verbatim>\<open>t\<close>, which is past the last thread when it ends, so only the first
  thread in use is printed. A thread's name is never set and prints as the empty string.
\<close>

definition procdump_threads :: "nat \<Rightarrow> 'a consst_scheme \<Rightarrow> (unit, 'a consst_scheme) outcome" where
  "procdump_threads p s =
     (case find_idx (\<lambda>t. tstate t \<noteq> UNUSED) (pthreads (procs s ! p)) of
        None \<Rightarrow> Done () s
      | Some t \<Rightarrow>
          kseq (cprintf (bytes ''thread: %d %s %s'')
                  [Num (of_int (tid (thread_at s p t))), Str (Some (bytes (state_name (tstate (thread_at s p t))))), Str (Some [])])
         (kseq (print_stacks p) (cprintf nl [])) s)"

definition procdump :: "'a consst_scheme \<Rightarrow> (unit, 'a consst_scheme) outcome" where
  "procdump =
     kseq (cprintf (bytes '' - - - - - - - - procdump start - - - - - - - - '' @ nl) [])
    (kseq (kforeach (\<lambda>p s. kwhen (pstate (procs s ! p) \<noteq> UNUSED)
             (kseq (cprintf (bytes ''proc: %d %s %s'' @ nl)
                      [Num (of_int (pid (procs s ! p))), Str (Some (bytes (state_name (pstate (procs s ! p))))), Str (Some (bytes (pname (procs s ! p))))])
             (kseq (print_memory_usage (pgdir (procs s ! p))) (procdump_threads p))) s) [0..<NPROC])
          (cprintf (bytes '' - - - - - - - -  procdump end  - - - - - - - - '' @ nl) []))"

text \<open>\<open>cs\<close> are the characters \<^verbatim>\<open>getc\<close> returns before it returns a negative number.\<close>

definition consoleintr :: "int list \<Rightarrow> 'a consst_scheme \<Rightarrow> (unit, 'a consst_scheme) outcome" where
  "consoleintr cs =
     kseq (acquire L_cons)
    (kbind (cons_chars cs False) (\<lambda>dump.
     kseq (release L_cons) (kwhen dump procdump)))"

end
