(* ===== verification/Devices.thy ===== *)
theory Devices
  imports Console
begin

text \<open>
  The interrupt controllers, the timer, the serial port, the clock and the parts of the console that set them up (\<^verbatim>\<open>picirq.c\<close>, \<^verbatim>\<open>ioapic.c\<close>,
  \<^verbatim>\<open>lapic.c\<close>, \<^verbatim>\<open>timer.c\<close>, \<^verbatim>\<open>uart.c\<close>, \<^verbatim>\<open>consoleinit\<close>). A device is seen through the writes to its registers, in order; what a register
  returns when it is read is an argument. Waiting for a device has no effect on the state.
\<close>

section \<open>State\<close>

abbreviation (input) T_IRQ0 :: nat where "T_IRQ0 \<equiv> 32"
abbreviation (input) IRQ_TIMER :: nat where "IRQ_TIMER \<equiv> 0"
abbreviation (input) IRQ_KBD :: nat where "IRQ_KBD \<equiv> 1"
abbreviation (input) IRQ_COM1 :: nat where "IRQ_COM1 \<equiv> 4"
abbreviation (input) IRQ_IDE :: nat where "IRQ_IDE \<equiv> 14"
abbreviation (input) IRQ_ERROR :: nat where "IRQ_ERROR \<equiv> 19"
abbreviation (input) IRQ_SPURIOUS :: nat where "IRQ_SPURIOUS \<equiv> 31"

record devst = consst +
  irqmask :: ushort
  mmio :: "(uint \<times> uint) list"   \<comment> \<open>words written to device memory, in order\<close>
  ioapic_a :: uint                 \<comment> \<open>the pointers \<^verbatim>\<open>ioapic\<close> and \<^verbatim>\<open>lapic\<close>; 0 when not set\<close>
  lapic_a :: uint
  ismp :: int                      \<comment> \<open>of \<^verbatim>\<open>mp.c\<close>\<close>
  ncpu :: int
  ioapicid :: uchar
  bcpu :: nat
  cpu_ids :: "uchar list"          \<comment> \<open>\<^verbatim>\<open>cpus[i].id\<close>\<close>
  kbd_shift :: uint                \<comment> \<open>the static variable of \<^verbatim>\<open>kbdgetc\<close>\<close>
  idt :: "gatedesc list"

definition store_mmio :: "uint \<Rightarrow> uint \<Rightarrow> 'a devst_scheme \<Rightarrow> (unit, 'a devst_scheme) outcome" where
  "store_mmio a v = kmod (\<lambda>s. s\<lparr>mmio := mmio s @ [(a, v)]\<rparr>)"

section \<open>The 8259A interrupt controllers\<close>

abbreviation (input) IO_PIC1 :: nat where "IO_PIC1 \<equiv> 0x20"
abbreviation (input) IO_PIC2 :: nat where "IO_PIC2 \<equiv> 0xA0"

definition picsetmask :: "ushort \<Rightarrow> 'a devst_scheme \<Rightarrow> (unit, 'a devst_scheme) outcome" where
  "picsetmask m =
     kseq (kmod (\<lambda>s. s\<lparr>irqmask := m\<rparr>))
    (kseq (outb (IO_PIC1 + 1) (ucast m))
          (outb (IO_PIC2 + 1) (ucast (drop_bit 8 m))))"

definition picenable :: "nat \<Rightarrow> 'a devst_scheme \<Rightarrow> (unit, 'a devst_scheme) outcome" where
  "picenable irq = kbind (kget irqmask) (\<lambda>m. picsetmask (m AND NOT (push_bit irq 1)))"

definition picinit :: "'a devst_scheme \<Rightarrow> (unit, 'a devst_scheme) outcome" where
  "picinit =
     kseq (kforeach (\<lambda>(port, v). outb port v)
       [(IO_PIC1 + 1, 0xFF), (IO_PIC2 + 1, 0xFF),
        (IO_PIC1, 0x11), (IO_PIC1 + 1, 32), (IO_PIC1 + 1, 4), (IO_PIC1 + 1, 0x3),
        (IO_PIC2, 0x11), (IO_PIC2 + 1, 40), (IO_PIC2 + 1, 2), (IO_PIC2 + 1, 0x3),
        (IO_PIC1, 0x68), (IO_PIC1, 0x0a), (IO_PIC2, 0x68), (IO_PIC2, 0x0a)])
    (kbind (kget irqmask) (\<lambda>m. kwhen (m \<noteq> 0xFFFF) (picsetmask m)))"

section \<open>The I/O APIC\<close>

abbreviation (input) IOAPIC :: uint where "IOAPIC \<equiv> 0xFEC00000"
abbreviation (input) REG_TABLE :: nat where "REG_TABLE \<equiv> 0x10"
abbreviation (input) INT_DISABLED :: uint where "INT_DISABLED \<equiv> 0x00010000"

text \<open>\<open>rd r\<close> is what the data register returns when register \<open>r\<close> is selected.\<close>

definition ioapicread :: "(nat \<Rightarrow> uint) \<Rightarrow> nat \<Rightarrow> 'a devst_scheme \<Rightarrow> (uint, 'a devst_scheme) outcome" where
  "ioapicread rd reg = kseq (\<lambda>s. store_mmio (ioapic_a s) (of_nat reg) s) (kret (rd reg))"

definition ioapicwrite :: "nat \<Rightarrow> uint \<Rightarrow> 'a devst_scheme \<Rightarrow> (unit, 'a devst_scheme) outcome" where
  "ioapicwrite reg data = kseq (\<lambda>s. store_mmio (ioapic_a s) (of_nat reg) s) (\<lambda>s. store_mmio (ioapic_a s + 16) data s)"

definition ioapicinit :: "(nat \<Rightarrow> uint) \<Rightarrow> 'a devst_scheme \<Rightarrow> (unit, 'a devst_scheme) outcome" where
  "ioapicinit rd =
     kbind (kget ismp) (\<lambda>mp. kwhen (mp \<noteq> 0)
       (kseq (kmod (\<lambda>s. s\<lparr>ioapic_a := IOAPIC\<rparr>))
       (kbind (ioapicread rd 1) (\<lambda>ver.
        kbind (ioapicread rd 0) (\<lambda>idr.
        kseq (\<lambda>s. kwhen (unat (drop_bit 24 idr) \<noteq> unat (ioapicid s))
               (cprintf (bytes ''ioapicinit: id isn't equal to ioapicid; not a MP'' @ nl) []) s)
       (kforeach (\<lambda>i. kseq (ioapicwrite (REG_TABLE + 2 * i) (INT_DISABLED OR of_nat (T_IRQ0 + i)))
                           (ioapicwrite (REG_TABLE + 2 * i + 1) 0))
         [0..<unat (drop_bit 16 ver AND 0xFF) + 1]))))))"

definition ioapicenable :: "nat \<Rightarrow> uint \<Rightarrow> 'a devst_scheme \<Rightarrow> (unit, 'a devst_scheme) outcome" where
  "ioapicenable irq cpunum =
     kbind (kget ismp) (\<lambda>mp. kwhen (mp \<noteq> 0)
       (kseq (ioapicwrite (REG_TABLE + 2 * irq) (of_nat (T_IRQ0 + irq)))
             (ioapicwrite (REG_TABLE + 2 * irq + 1) (push_bit 24 cpunum))))"

section \<open>The local APIC\<close>

text \<open>Register numbers are indices of words; \<open>rd\<close> is what a register returns.\<close>

abbreviation (input) EOI :: nat where "EOI \<equiv> 0x2C"
abbreviation (input) ICRLO :: nat where "ICRLO \<equiv> 0xC0"
abbreviation (input) ICRHI :: nat where "ICRHI \<equiv> 0xC4"

definition lapicw :: "nat \<Rightarrow> uint \<Rightarrow> 'a devst_scheme \<Rightarrow> (unit, 'a devst_scheme) outcome" where
  "lapicw index value s = store_mmio (lapic_a s + 4 * of_nat index) value s"

definition lapicinit :: "(nat \<Rightarrow> uint) \<Rightarrow> 'a devst_scheme \<Rightarrow> (unit, 'a devst_scheme) outcome" where
  "lapicinit rd =
     kbind (kget lapic_a) (\<lambda>l. kwhen (l \<noteq> 0)
       (kseq (kforeach (\<lambda>(r, v). lapicw r v)
          [(0x3C, 0x100 OR of_nat (T_IRQ0 + IRQ_SPURIOUS)), (0xF8, 0xB), (0xC8, 0x20000 OR of_nat (T_IRQ0 + IRQ_TIMER)), (0xE0, 10000000),
           (0xD4, 0x10000), (0xD8, 0x10000)])
       (kseq (kwhen (4 \<le> drop_bit 16 (rd 0x0C) AND 0xFF) (lapicw 0xD0 0x10000))
             (kforeach (\<lambda>(r, v). lapicw r v)
          [(0xDC, of_nat (T_IRQ0 + IRQ_ERROR)), (0xA0, 0), (0xA0, 0), (EOI, 0), (ICRHI, 0), (ICRLO, 0x80000 OR 0x500 OR 0x8000), (0x20, 0)]))))"

text \<open>The warning when interrupts are enabled is not part of the model: the kernel calls \<^verbatim>\<open>cpunum\<close> with interrupts off.\<close>

definition cpunum :: "(nat \<Rightarrow> uint) \<Rightarrow> 'a devst_scheme \<Rightarrow> (nat, 'a devst_scheme) outcome" where
  "cpunum rd s = Done (if lapic_a s \<noteq> 0 then unat (drop_bit 24 (rd 0x08)) else 0) s"

definition lapiceoi :: "'a devst_scheme \<Rightarrow> (unit, 'a devst_scheme) outcome" where
  "lapiceoi s = kwhen (lapic_a s \<noteq> 0) (lapicw EOI 0) s"

definition lapicstartap :: "uchar \<Rightarrow> uint \<Rightarrow> 'a devst_scheme \<Rightarrow> (unit, 'a devst_scheme) outcome" where
  "lapicstartap apicid addr =
     kseq (outb 0x70 0xF)
    (kseq (outb 0x71 0x0A)
    (kseq (store_half (p2v 0x467) 0)
    (kseq (store_half (p2v 0x467 + 2) (ucast (drop_bit 4 addr)))
    (kseq (lapicw ICRHI (push_bit 24 (ucast apicid)))
    (kseq (lapicw ICRLO (0x500 OR 0x8000 OR 0x4000))
    (kseq (lapicw ICRLO (0x500 OR 0x8000))
          (kforeach (\<lambda>_. kseq (lapicw ICRHI (push_bit 24 (ucast apicid))) (lapicw ICRLO (0x600 OR drop_bit 12 addr))) [0, 1 :: nat])))))))"

section \<open>Timer and serial port\<close>

abbreviation (input) IO_TIMER1 :: nat where "IO_TIMER1 \<equiv> 0x40"

definition TIMER_DIV :: "nat \<Rightarrow> nat" where
  "TIMER_DIV x = (1193182 + x div 2) div x"

definition timerinit :: "'a devst_scheme \<Rightarrow> (unit, 'a devst_scheme) outcome" where
  "timerinit =
     kseq (outb (IO_TIMER1 + 3) (0x00 OR 0x04 OR 0x30))
    (kseq (outb IO_TIMER1 (of_nat (TIMER_DIV 100 mod 256)))
    (kseq (outb IO_TIMER1 (of_nat (TIMER_DIV 100 div 256)))
          (picenable IRQ_TIMER)))"

text \<open>\<open>status\<close> is what the status register of the serial port returns.\<close>

definition uartinit :: "uchar \<Rightarrow> 'a devst_scheme \<Rightarrow> (unit, 'a devst_scheme) outcome" where
  "uartinit status =
     kseq (kforeach (\<lambda>(port, v). outb port v)
       [(COM1 + 2, 0), (COM1 + 3, 0x80), (COM1 + 0, 12), (COM1 + 1, 0), (COM1 + 3, 0x03), (COM1 + 4, 0), (COM1 + 1, 0x01)])
    (kwhen (status \<noteq> 0xFF)
       (kseq (kmod (\<lambda>s. s\<lparr>uart := 1\<rparr>))
       (kseq (picenable IRQ_COM1)
       (kseq (ioapicenable IRQ_COM1 0)
             (kforeach (\<lambda>c. uartputc (int (unat c))) (bytes ''xv6...'' @ nl))))))"

text \<open>\<open>rx\<close> are the bytes that have arrived.\<close>

definition uartintr :: "uchar list \<Rightarrow> 'a devst_scheme \<Rightarrow> (unit, 'a devst_scheme) outcome" where
  "uartintr rx s = consoleintr (if uart s = 0 then [] else map (\<lambda>c. int (unat c)) rx) s"

definition consoleinit :: "'a devst_scheme \<Rightarrow> (unit, 'a devst_scheme) outcome" where
  "consoleinit =
     kseq (initlock L_cons)
    (kseq (kmod (\<lambda>s. s\<lparr>cons_locking := 1\<rparr>))
    (kseq (picenable IRQ_KBD) (ioapicenable IRQ_KBD 0)))"

section \<open>The clock\<close>

record rtcdate =
  second :: uint
  minute :: uint
  hour :: uint
  day :: uint
  month :: uint
  year :: uint

definition cmos_read :: "(uint \<Rightarrow> uint) \<Rightarrow> uint \<Rightarrow> 'a devst_scheme \<Rightarrow> (uint, 'a devst_scheme) outcome" where
  "cmos_read rd reg = kseq (outb 0x70 (ucast reg)) (kret (rd reg))"

definition fill_rtcdate :: "(uint \<Rightarrow> uint) \<Rightarrow> 'a devst_scheme \<Rightarrow> (rtcdate, 'a devst_scheme) outcome" where
  "fill_rtcdate rd =
     kbind (cmos_read rd 0) (\<lambda>a. kbind (cmos_read rd 2) (\<lambda>b. kbind (cmos_read rd 4) (\<lambda>c.
     kbind (cmos_read rd 7) (\<lambda>d. kbind (cmos_read rd 8) (\<lambda>e. kbind (cmos_read rd 9) (\<lambda>f.
       kret \<lparr>second = a, minute = b, hour = c, day = d, month = e, year = f\<rparr>))))))"

text \<open>The loop reads the clock until it is stable; each turn sees the clock three times, and \<open>rs\<close> are the turns.\<close>

fun cmos_stable :: "((uint \<Rightarrow> uint) \<times> (uint \<Rightarrow> uint) \<times> (uint \<Rightarrow> uint)) list \<Rightarrow> 'a devst_scheme \<Rightarrow> (rtcdate, 'a devst_scheme) outcome" where
  "cmos_stable [] = kfault ''cmostime''"
| "cmos_stable ((r1, ra, r2) # rs) =
     kbind (fill_rtcdate r1) (\<lambda>t1.
     kbind (cmos_read ra 0x0a) (\<lambda>a.
     if a AND 0x80 \<noteq> 0 then cmos_stable rs
     else kbind (fill_rtcdate r2) (\<lambda>t2. if t1 = t2 then kret t1 else cmos_stable rs)))"

definition conv :: "uint \<Rightarrow> uint" where
  "conv x = drop_bit 4 x * 10 + (x AND 0xf)"

definition cmostime :: "(uint \<Rightarrow> uint) \<Rightarrow> ((uint \<Rightarrow> uint) \<times> (uint \<Rightarrow> uint) \<times> (uint \<Rightarrow> uint)) list
    \<Rightarrow> 'a devst_scheme \<Rightarrow> (rtcdate, 'a devst_scheme) outcome" where
  "cmostime rb rs =
     kbind (cmos_read rb 0x0b) (\<lambda>sb.
     kbind (cmos_stable rs) (\<lambda>t.
     let t1 = (if sb AND 4 = 0 then \<lparr>second = conv (second t), minute = conv (minute t), hour = conv (hour t),
                 day = conv (day t), month = conv (month t), year = conv (year t)\<rparr> else t) in
     kret (t1\<lparr>year := year t1 + 2000\<rparr>)))"

section \<open>Lemmas\<close>

text \<open>Enabling interrupts clears exactly their bits of the mask, and the two controllers get the two halves of it.\<close>

lemma picenable_run:
  "picenable irq s = Done () (s\<lparr>irqmask := irqmask s AND NOT (push_bit irq 1),
     io := io s @ [(0x21, ucast (irqmask s AND NOT (push_bit irq 1))), (0xA1, ucast (drop_bit 8 (irqmask s AND NOT (push_bit irq 1))))]\<rparr>)"
  by (simp add: picenable_def picsetmask_def outb_def)

lemma picenable_mask:
  assumes "picenable irq s = Done () t" "irq < 16" "k < 16"
  shows "bit (irqmask t) k \<longleftrightarrow> k \<noteq> irq \<and> bit (irqmask s) k"
  using assms by (auto simp: picenable_run bit_and_iff bit_not_iff bit_exp_iff)

text \<open>A clock in binary-coded decimal is converted to the number its two digits show.\<close>

lemma conv_digits:
  assumes "unat x < 256"
  shows "unat (conv x) = 10 * (unat x div 16) + unat x mod 16"
proof -
  have d: "unat (drop_bit 4 x) = unat x div 16" by (simp add: drop_bit_eq_div unat_div)
  have "(0xf :: uint) = mask 4" by (simp add: mask_eq_exp_minus_1)
  then have "x AND 0xf = take_bit 4 x" by (simp add: take_bit_eq_mask)
  then have m: "unat (x AND 0xf) = unat x mod 16" by (simp add: take_bit_eq_mod unat_mod)
  have "unat x div 16 < 16" using assms by auto
  then show ?thesis using d m by (simp add: conv_def unat_word_ariths)
qed

end
