(* ===== verification/Lines.thy ===== *)
theory Lines
  imports Console
begin

text \<open>
  The console's line discipline as a refinement (\<^verbatim>\<open>consoleintr\<close>, \<^verbatim>\<open>consoleread\<close> of \<^verbatim>\<open>console.c\<close>): the ring buffer with its three indices is a queue of
  finished input and a line being edited, and the characters act on these two lists. Along the way the screen cursor is shown to stay on the screen.
\<close>

section \<open>The abstract console\<close>

text \<open>What a character does to the finished input and the line being edited.\<close>

fun line_char :: "int \<Rightarrow> uchar list \<times> uchar list \<Rightarrow> uchar list \<times> uchar list" where
  "line_char c (q, l) =
     (if c = CTRL_P then (q, l)
      else if c = CTRL_U then (q, [])
      else if c = CTRL_H \<or> c = 127 then (q, butlast l)
      else if c \<noteq> 0 \<and> length q + length l < 128 then
        let c' = (if c = 13 then 10 else c); l' = l @ [of_int c'] in
        if c' = 10 \<or> c' = 4 \<or> length q + length l' = 128 then (q @ l', []) else (q, l')
      else (q, l))"

definition window :: "uchar list \<Rightarrow> uint \<Rightarrow> nat \<Rightarrow> uchar list" where
  "window b i n = map (\<lambda>k. b ! ((unat i + k) mod 128)) [0..<n]"

definition cooked :: "'a consst_scheme \<Rightarrow> uchar list" where
  "cooked s = window (in_buf s) (in_r s) (unat (in_w s - in_r s))"

definition editing :: "'a consst_scheme \<Rightarrow> uchar list" where
  "editing s = window (in_buf s) (in_w s) (unat (in_e s - in_w s))"

text \<open>The cursor is on one of the 24 lines of the screen that output uses.\<close>

definition screen_ok :: "'a consst_scheme \<Rightarrow> bool" where
  "screen_ok s \<longleftrightarrow> panicked s = 0 \<and> 0 \<le> crtpos s \<and> crtpos s < 24 * 80"

definition cons_ok :: "'a consst_scheme \<Rightarrow> bool" where
  "cons_ok s \<longleftrightarrow> length (in_buf s) = 128 \<and> unat (in_w s - in_r s) + unat (in_e s - in_w s) \<le> 128 \<and> NEWLINE \<notin> set (editing s)
     \<and> screen_ok s \<and> L_ptable \<notin> held s"

section \<open>Lemmas: output\<close>

lemma cgaputc_run:
  assumes "screen_ok s"
  shows "\<exists>t. cgaputc c s = Done () t \<and> screen_ok t \<and> t = s\<lparr>crtpos := crtpos t, crt := crt t\<rparr>"
proof -
  obtain pos m where a: "cga_advance c (crtpos s) (crt s) = (pos, m)" by force
  have p: "0 \<le> crtpos s" "crtpos s < 1920" using assms by (simp_all add: screen_ok_def)
  have "0 \<le> pos \<and> pos \<le> 1920"
  proof (cases "c = 10")
    case True
    have "crtpos s + (80 - crtpos s mod 80) = 80 * (crtpos s div 80 + 1)" by (simp add: algebra_simps minus_mod_eq_mult_div [symmetric])
    moreover have "crtpos s div 80 < 24" "0 \<le> crtpos s div 80" using p by (simp_all add: pos_imp_zdiv_nonneg_iff)
    ultimately show ?thesis using a True by (simp add: cga_advance_def)
  next
    case False
    then show ?thesis using a p by (auto simp: cga_advance_def split: if_splits)
  qed
  moreover obtain pos' m' where b: "cga_scroll pos m = (pos', m')" by force
  moreover have "0 \<le> pos' \<and> pos' < 1920"
    using calculation by (auto simp: cga_scroll_def Let_def split: if_splits)
  ultimately show ?thesis using a b assms
    by (intro exI [of _ "s\<lparr>crtpos := pos', crt := m'(nat pos' := 0x20 OR 0x0700)\<rparr>"]) (simp add: cgaputc_def screen_ok_def)
qed

lemma consputc_run:
  assumes "screen_ok s"
  shows "\<exists>t. consputc c s = Done () t \<and> screen_ok t \<and> t = s\<lparr>io := io t, crtpos := crtpos t, crt := crt t\<rparr>"
proof -
  define u where "u = s\<lparr>io := io s @ (if uart s = 0 then [] else map (Pair COM1) (if c = BACKSPACE then [8, 32, 8] else [of_int c]))\<rparr>"
  have "consputc c s = cgaputc c u" using assms by (simp add: consputc_def screen_ok_def uartputc_def outb_def kseq_run u_def)
  moreover have "screen_ok u" using assms by (simp add: screen_ok_def u_def)
  ultimately obtain t where t: "consputc c s = Done () t" "screen_ok t" "t = u\<lparr>crtpos := crtpos t, crt := crt t\<rparr>"
    using cgaputc_run [of u c] by auto
  have "t = s\<lparr>io := io t, crtpos := crtpos t, crt := crt t\<rparr>" 
  proof -
    have "io t = io u" by (subst t(3)) simp
    then show ?thesis by (subst t(3)) (simp add: u_def)
  qed
  then show ?thesis using t by blast
qed

section \<open>Lemmas: the ring\<close>

lemma unat_mod_128: "unat ((x :: uint) mod 128) = unat x mod 128"
  by (simp add: unat_mod)

lemma unat_add_mod_128: "unat (i + j :: uint) mod 128 = (unat i + unat j) mod 128"
proof -
  have "unat (i + j) = (unat i + unat j) mod 2 ^ 32" unfolding unat_word_ariths by simp
  then show ?thesis by (simp add: mod_mod_cancel)
qed

lemma length_window [simp]: "length (window b i n) = n"
  by (simp add: window_def)

lemma window_append:
  assumes "n < 4294967296"
  shows "window b i (n + m) = window b i n @ window b (i + of_nat n) m"
proof (rule nth_equalityI)
  fix k assume k: "k < length (window b i (n + m))"
  have "unat (i + of_nat n) mod 128 = (unat i + n) mod 128" using unat_add_mod_128 [of i "of_nat n"] assms by (simp add: unat_of_nat)
  then have "(unat (i + of_nat n) + (k - n)) mod 128 = (unat i + n + (k - n)) mod 128" by (rule mod_add_cong) (rule refl)
  then show "window b i (n + m) ! k = (window b i n @ window b (i + of_nat n) m) ! k"
    using k by (auto simp: window_def nth_append)
qed simp

lemma window_butlast: "window b i (n - 1) = butlast (window b i n)"
  by (cases n) (simp_all add: window_def)

text \<open>A byte stored behind a window of less than the whole ring.\<close>

lemma window_store:
  assumes "length b = 128" "n < 128"
  shows "window (b[(unat i + n) mod 128 := c]) i n = window b i n" "window (b[(unat i + n) mod 128 := c]) i (n + 1) = window b i n @ [c]"
proof -
  have "b[(unat i + n) mod 128 := c] ! ((unat i + k) mod 128) = b ! ((unat i + k) mod 128)" if "k < n" for k
    using mod_add_differs [OF that assms(2), of "unat i"] by simp
  then show "window (b[(unat i + n) mod 128 := c]) i n = window b i n" by (simp add: window_def)
  then show "window (b[(unat i + n) mod 128 := c]) i (n + 1) = window b i n @ [c]" using assms(1) by (simp add: window_def)
qed

section \<open>Lemmas: one character\<close>

text \<open>What the input side of the console looks like does not depend on the output side.\<close>

lemma input_same:
  assumes "t = s\<lparr>io := a, crtpos := p, crt := m\<rparr>"
  shows "cooked t = cooked s" "editing t = editing s"
    "in_r t = in_r s" "in_w t = in_w s" "in_e t = in_e s" "in_buf t = in_buf s" "held t = held s"
  unfolding assms by (auto simp: cooked_def editing_def cons_ok_def screen_ok_def)

lemma echo:
  assumes "cons_ok s"
  shows "\<exists>t. consputc c s = Done () t \<and> cons_ok t \<and> cooked t = cooked s \<and> editing t = editing s
    \<and> in_r t = in_r s \<and> in_w t = in_w s \<and> in_e t = in_e s \<and> in_buf t = in_buf s \<and> held t = held s"
proof -
  obtain t where t: "consputc c s = Done () t" "screen_ok t" "t = s\<lparr>io := io t, crtpos := crtpos t, crt := crt t\<rparr>"
    using consputc_run [of s c] assms by (auto simp: cons_ok_def)
  note i = input_same [OF t(3)]
  have "cons_ok t" using assms t(2) i(2-7) by (simp add: cons_ok_def)
  then show ?thesis using t(1) i by blast
qed

lemma diff_minus_one:
  assumes "e \<noteq> (w :: uint)"
  shows "unat (e - 1 - w) = unat (e - w) - 1" "0 < unat (e - w)"
proof -
  have "e - w \<noteq> 0" using assms by simp
  then show "0 < unat (e - w)" by (simp add: unat_gt_0)
  have "e - 1 - w = e - w - 1" by simp
  then show "unat (e - 1 - w) = unat (e - w) - 1" using unat_minus_one [OF \<open>e - w \<noteq> 0\<close>] by (simp only:)
qed

lemma back_one:
  assumes "cons_ok s" "in_e s \<noteq> in_w s"
  shows "cons_ok (set_e (in_e s - 1) s)" "cooked (set_e (in_e s - 1) s) = cooked s" "editing (set_e (in_e s - 1) s) = butlast (editing s)"
proof -
  note d = diff_minus_one [OF assms(2)]
  show "cooked (set_e (in_e s - 1) s) = cooked s" by (simp add: cooked_def set_e_def)
  show e: "editing (set_e (in_e s - 1) s) = butlast (editing s)" using d window_butlast by (simp add: editing_def set_e_def)
  then have "NEWLINE \<notin> set (editing (set_e (in_e s - 1) s))" using assms(1) by (auto simp: cons_ok_def dest: in_set_butlastD)
  then show "cons_ok (set_e (in_e s - 1) s)" using assms(1) d by (auto simp: cons_ok_def set_e_def screen_ok_def)
qed

lemma kill_line_run:
  assumes "cons_ok s" "unat (in_e s - in_w s) = n"
  shows "\<exists>t. kill_line (Suc n) s = Done () t \<and> cons_ok t \<and> cooked t = cooked s \<and> editing t = []"
  using assms
proof (induction n arbitrary: s)
  case 0
  then have "in_e s = in_w s" by (simp add: unat_eq_0)
  then show ?case using 0 by (simp add: editing_def window_def)
next
  case (Suc n)
  have ne: "in_e s \<noteq> in_w s" using Suc.prems(2) by auto
  note d = diff_minus_one [OF ne]
  have "in_at s (in_e s - 1) = last (editing s)"
  proof -
    have "of_nat (unat (in_e s - in_w s)) = (of_nat (Suc n) :: uint)" using Suc.prems(2) by simp
    then have "in_e s - in_w s = 1 + of_nat n" by simp
    then have "in_e s - 1 = in_w s + of_nat n" by (simp add: diff_eq_eq algebra_simps)
    then have "unat (in_e s - 1) mod 128 = (unat (in_w s) + n) mod 128"
      using unat_add_mod_128 [of "in_w s" "of_nat n"] unat_u32 [of "in_e s - in_w s"] Suc.prems(2) by (simp add: unat_of_nat)
    then show ?thesis using Suc.prems(2) by (simp add: in_at_def unat_mod_128 editing_def window_def last_map)
  qed
  moreover have "editing s \<noteq> []" using Suc.prems(2) by (simp add: editing_def window_def)
  ultimately have go: "in_at s (in_e s - 1) \<noteq> NEWLINE" using Suc.prems(1) by (metis cons_ok_def last_in_set)
  note b = back_one [OF Suc.prems(1) ne]
  obtain u where u: "consputc BACKSPACE (set_e (in_e s - 1) s) = Done () u" "cons_ok u" "cooked u = cooked s"
      "in_w u = in_w s" "in_e u = in_e s - 1"
    using echo [OF b(1), of BACKSPACE] b(2) by (auto simp: set_e_def)
  have "unat (in_e u - in_w u) = n" using u d Suc.prems(2) by simp
  from Suc.IH [OF u(2) this] u show ?case using ne go by simp
qed

text \<open>The whole ring from \<^verbatim>\<open>r\<close> to \<^verbatim>\<open>e\<close>.\<close>

lemma ring_whole:
  assumes "cons_ok s"
  shows "unat (in_e s - in_r s) = length (cooked s) + length (editing s)"
    "window (in_buf s) (in_r s) (unat (in_e s - in_r s)) = cooked s @ editing s"
proof -
  have e: "in_e s - in_r s = (in_w s - in_r s) + (in_e s - in_w s)" by simp
  have le: "unat (in_w s - in_r s) + unat (in_e s - in_w s) \<le> 128" using assms by (simp add: cons_ok_def)
  have d: "unat (in_e s - in_r s) = unat (in_w s - in_r s) + unat (in_e s - in_w s)"
    unfolding e unat_word_ariths using le by simp
  then show "unat (in_e s - in_r s) = length (cooked s) + length (editing s)" by (simp add: cooked_def editing_def)
  have "in_r s + of_nat (unat (in_w s - in_r s)) = in_w s" by simp
  then show "window (in_buf s) (in_r s) (unat (in_e s - in_r s)) = cooked s @ editing s"
    unfolding d using window_append [OF unat_u32, of "in_buf s" "in_r s" "in_w s - in_r s"] by (simp add: cooked_def editing_def)
qed

lemma ring_store:
  assumes ok: "cons_ok s" and room: "in_e s - in_r s < INPUT_BUF" and t_def: "t = cons_store c s"
  shows "cooked t = cooked s" "editing t = editing s @ [c]" "length (in_buf t) = 128"
    "window (in_buf t) (in_r t) (unat (in_e t - in_r t)) = cooked s @ editing s @ [c]"
    "unat (in_e t - in_r t) = length (cooked s) + length (editing s) + 1" "length (cooked s) + length (editing s) < 128"
proof -
  note R = ring_whole [OF ok]
  let ?a = "unat (in_w s - in_r s)" and ?d = "unat (in_e s - in_w s)"
  have l: "length (in_buf s) = 128" "length (cooked s) = ?a" "length (editing s) = ?d" using ok by (simp_all add: cons_ok_def cooked_def editing_def)
  have n: "?a + ?d < 128" using room R(1) l by (simp add: word_less_nat_alt)
  then show "length (cooked s) + length (editing s) < 128" using l by simp
  have ie: "unat (in_e s mod 128) = (unat (in_r s) + (?a + ?d)) mod 128" "unat (in_e s mod 128) = (unat (in_w s) + ?d) mod 128"
    using unat_add_mod_128 [of "in_r s" "in_e s - in_r s"] unat_add_mod_128 [of "in_w s" "in_e s - in_w s"] R(1) l by (simp_all add: unat_mod_128)
  have e1: "in_e s + 1 - in_r s = (in_e s - in_r s) + 1" "in_e s + 1 - in_w s = (in_e s - in_w s) + 1" by simp_all
  have u1: "unat (in_e s + 1 - in_r s) = ?a + ?d + 1" "unat (in_e s + 1 - in_w s) = ?d + 1"
    unfolding e1 using R(1) l n by (simp_all add: unat_word_ariths)
  show "unat (in_e t - in_r t) = length (cooked s) + length (editing s) + 1" using u1(1) l by (simp add: t_def cons_store_def)
  show "length (in_buf t) = 128" using l by (simp add: t_def cons_store_def)
  have w: "window (in_buf s) (in_r s) (?a + ?d) = cooked s @ editing s" using R l by simp
  show "window (in_buf t) (in_r t) (unat (in_e t - in_r t)) = cooked s @ editing s @ [c]"
    using window_store(2) [OF l(1) n, of "in_r s" c] u1(1) ie(1) w by (simp add: t_def cons_store_def)
  show "editing t = editing s @ [c]"
    using window_store(2) [OF l(1), of ?d "in_w s" c] u1(2) ie(2) n by (simp add: t_def cons_store_def editing_def)
  have "window (in_buf t) (in_r s) ?a @ window (in_buf t) (in_r s + of_nat ?a) ?d = cooked s @ editing s"
    using window_store(1) [OF l(1) n, of "in_r s" c] window_append [OF unat_u32, of "in_buf t" "in_r s" "in_w s - in_r s" ?d] ie(1) w
    by (simp add: t_def cons_store_def)
  then show "cooked t = cooked s" using l by (simp add: cooked_def t_def cons_store_def)
qed

text \<open>Finishing the line.\<close>

lemma commit_line:
  assumes "length (in_buf s) = 128" "unat (in_e s - in_r s) \<le> 128" "screen_ok s" "L_ptable \<notin> held s"
  shows "\<exists>t. kseq (kmod (\<lambda>s. s\<lparr>in_w := in_e s\<rparr>)) (wakeup Ch_input) s = Done () t \<and> cons_ok t
    \<and> cooked t = window (in_buf s) (in_r s) (unat (in_e s - in_r s)) \<and> editing t = []"
  using assms wakeup_run [of "s\<lparr>in_w := in_e s\<rparr>" Ch_input]
  by (simp add: cons_ok_def cooked_def editing_def screen_ok_def window_def)

text \<open>A character that is stored.\<close>

lemma store_char:
  assumes ok: "cons_ok s" and room: "in_e s - in_r s < INPUT_BUF" and c: "0 \<le> c \<and> c < 256" and c': "c' = (if c = 13 then 10 else c)"
  shows "\<exists>t. kseq (kmod (cons_store (of_int c'))) (kseq (consputc c')
       (kseq (\<lambda>s. kwhen (c' = 10 \<or> c' = 4 \<or> in_e s = in_r s + INPUT_BUF) (kseq (kmod (\<lambda>s. s\<lparr>in_w := in_e s\<rparr>)) (wakeup Ch_input)) s) (kret False))) s
      = Done False t \<and> cons_ok t
    \<and> (cooked t, editing t) = (if c' = 10 \<or> c' = 4 \<or> Suc (length (cooked s) + length (editing s)) = 128
        then (cooked s @ editing s @ [of_int c'], []) else (cooked s, editing s @ [of_int c']))"
proof -
  note S = ring_store [OF ok room, where c = "of_int c'", OF refl]
  let ?s1 = "cons_store (of_int c') s"
  have h: "screen_ok ?s1" "held ?s1 = held s" "L_ptable \<notin> held s" using ok by (simp_all add: cons_ok_def cons_store_def screen_ok_def)
  obtain u where u: "consputc c' ?s1 = Done () u" "screen_ok u" "u = ?s1\<lparr>io := io u, crtpos := crtpos u, crt := crt u\<rparr>"
    using consputc_run [OF h(1)] by blast
  note i = input_same [OF u(3)]
  have full: "in_e u = in_r u + INPUT_BUF \<longleftrightarrow> Suc (length (cooked s) + length (editing s)) = 128"
  proof -
    have "in_e u = in_r u + INPUT_BUF \<longleftrightarrow> in_e ?s1 - in_r ?s1 = INPUT_BUF" using i by (auto simp: diff_eq_eq add.commute)
    then show ?thesis using S(5) by (simp add: word_unat_eq_iff)
  qed
  show ?thesis
  proof (cases "c' = 10 \<or> c' = 4 \<or> Suc (length (cooked s) + length (editing s)) = 128")
    case True
    obtain t where "kseq (kmod (\<lambda>s. s\<lparr>in_w := in_e s\<rparr>)) (wakeup Ch_input) u = Done () t" "cons_ok t"
        "cooked t = window (in_buf u) (in_r u) (unat (in_e u - in_r u))" "editing t = []"
      using commit_line [of u] S(3,5,6) i u(2) h by auto
    then show ?thesis using True u(1) full S(4) i by simp
  next
    case False
    have "(of_int c' :: uchar) \<noteq> NEWLINE"
      using False c c' by (simp add: word_uint_eq_iff uint_word_of_int split: if_splits)
    moreover have "unat (in_w u - in_r u) + unat (in_e u - in_w u) \<le> 128"
      using S(1,2,6) i by (metis Suc_eq_plus1 add_Suc_right cooked_def editing_def length_append_singleton length_window less_eq_Suc_le)
    ultimately have "cons_ok u" using ok S(2,3) i u(2) h by (simp add: cons_ok_def)
    then show ?thesis using False u(1) full S(1,2) i by simp
  qed
qed

lemma cons_char_step:
  assumes ok: "cons_ok s" and c: "0 \<le> c" "c < 256"
  shows "\<exists>t. cons_char c s = Done (c = CTRL_P) t \<and> cons_ok t \<and> (cooked t, editing t) = line_char c (cooked s, editing s)"
proof -
  consider (list) "c = 16" | (killed_line) "c = 21" | (erase) "c = 8 \<or> c = 127" | (other) "c \<notin> {16, 21, 8, 127}" by blast
  then show ?thesis
  proof cases
    case list
    then show ?thesis using ok by (simp add: cons_char_def)
  next
    case killed_line
    then show ?thesis using kill_line_run [OF ok refl] by (auto simp: cons_char_def simp del: kill_line.simps)
  next
    case erase
    show ?thesis
    proof (cases "in_e s = in_w s")
      case True
      then show ?thesis using erase ok by (auto simp: cons_char_def editing_def window_def)
    next
      case False
      note b = back_one [OF ok False]
      from echo [OF b(1), of BACKSPACE] b erase False show ?thesis by (auto simp: cons_char_def)
    qed
  next
    case other
    define c' where "c' = (if c = 13 then 10 else c)"
    have room: "in_e s - in_r s < INPUT_BUF \<longleftrightarrow> length (cooked s) + length (editing s) < 128"
      using ring_whole(1) [OF ok] by (simp add: word_less_nat_alt)
    show ?thesis
    proof (cases "c \<noteq> 0 \<and> in_e s - in_r s < INPUT_BUF")
      case False
      then show ?thesis using other ok room by (auto simp: cons_char_def)
    next
      case True
      then show ?thesis using other store_char [OF ok _ _ c'_def] c room by (simp add: cons_char_def c'_def [symmetric] Let_def)
    qed
  qed
qed

lemma cons_chars_run:
  assumes "cons_ok s" "\<forall>c \<in> set cs. 0 \<le> c \<and> c < 256"
  shows "\<exists>t. cons_chars cs d s = Done (d \<or> CTRL_P \<in> set cs) t \<and> cons_ok t \<and> (cooked t, editing t) = fold line_char cs (cooked s, editing s)"
  using assms
proof (induction cs arbitrary: s d)
  case (Cons c cs)
  obtain u where u: "cons_char c s = Done (c = CTRL_P) u" "cons_ok u" "(cooked u, editing u) = line_char c (cooked s, editing s)"
    using cons_char_step [OF Cons.prems(1), of c] Cons.prems(2) by auto
  from Cons.IH [OF u(2), of "d \<or> c = CTRL_P"] Cons.prems(2) obtain t where
    "cons_chars cs (d \<or> c = CTRL_P) u = Done ((d \<or> c = CTRL_P) \<or> CTRL_P \<in> set cs) t" "cons_ok t"
    "(cooked t, editing t) = fold line_char cs (cooked u, editing u)" by auto
  then show ?case using u by (auto simp del: line_char.simps)
qed simp

section \<open>Lemmas: reading a line\<close>

lemma take_one:
  assumes ok: "cons_ok s" and q: "cooked s = c # q"
  shows "in_r s \<noteq> in_w s" "in_at s (in_r s) = c" "cons_ok (s\<lparr>in_r := in_r s + 1\<rparr>)" "cooked (s\<lparr>in_r := in_r s + 1\<rparr>) = q"
    "editing (s\<lparr>in_r := in_r s + 1\<rparr>) = editing s"
proof -
  show ne: "in_r s \<noteq> in_w s" using q by (auto simp: cooked_def window_def)
  have z: "in_w s - in_r s \<noteq> 0" using ne by simp
  have e: "in_w s - (in_r s + 1) = in_w s - in_r s - 1" by simp
  have d: "unat (in_w s - in_r s) = Suc (unat (in_w s - (in_r s + 1)))" unfolding e using unat_minus_one [OF z] z by (simp add: unat_gt_0)
  have "cooked s = window (in_buf s) (in_r s) 1 @ window (in_buf s) (in_r s + of_nat 1) (unat (in_w s - (in_r s + 1)))"
    using window_append [of 1 "in_buf s" "in_r s" "unat (in_w s - (in_r s + 1))"] d by (simp add: cooked_def)
  then show "in_at s (in_r s) = c" "cooked (s\<lparr>in_r := in_r s + 1\<rparr>) = q"
    using q by (simp_all add: window_def in_at_def unat_mod_128 cooked_def)
  show ed: "editing (s\<lparr>in_r := in_r s + 1\<rparr>) = editing s" by (simp add: editing_def)
  show "cons_ok (s\<lparr>in_r := in_r s + 1\<rparr>)" using ok d ed by (simp add: cons_ok_def screen_ok_def)
qed

lemma consoleread_line:
  assumes "cons_ok s" "cooked s = l @ NEWLINE # rest" "length l < n" "NEWLINE \<notin> set l" "CTRL_D \<notin> set l"
  shows "\<exists>t. consoleread_loop ip n got s = consoleread_loop ip 0 (got @ l @ [NEWLINE]) t \<and> cons_ok t \<and> cooked t = rest \<and> editing t = editing s"
  using assms
proof (induction l arbitrary: s n got)
  case Nil
  then obtain m where n: "n = Suc m" by (cases n) auto
  note T = take_one [OF Nil.prems(1), of NEWLINE rest]
  have q: "cooked s = NEWLINE # rest" using Nil.prems(2) by simp
  show ?case unfolding n using T [OF q] by (intro exI [of _ "s\<lparr>in_r := in_r s + 1\<rparr>"]) (simp add: Let_def)
next
  case (Cons c l)
  then obtain m where n: "n = Suc m" "length l < m" by (cases n) auto
  have q: "cooked s = c # l @ NEWLINE # rest" using Cons.prems(2) by simp
  note T = take_one [OF Cons.prems(1) q]
  have "consoleread_loop ip n got s = consoleread_loop ip m (got @ [c]) (s\<lparr>in_r := in_r s + 1\<rparr>)"
    unfolding n(1) using T(1,2) Cons.prems(4,5) by (simp add: Let_def)
  with Cons.IH [OF T(3,4) n(2), of "got @ [c]"] Cons.prems(4,5) T(5) show ?case by simp
qed

section \<open>Properties\<close>

text \<open>C16: the console's line discipline. The characters that arrive act on the finished input and the line being edited as on two lists: an erase
  character takes the last one off the line, \<^verbatim>\<open>^U\<close> empties the line, every other character is added while there is room, and a newline,
  \<^verbatim>\<open>^D\<close> or a full buffer finishes the line; the indices may wrap around. Echoing never panics. And when the finished input begins with a whole
  line, a read with room for it takes exactly this line off.\<close>

theorem console_line_discipline:
  assumes "cons_ok s" "\<forall>c \<in> set cs. 0 \<le> c \<and> c < 256"
  shows "\<exists>t. cons_chars cs False s = Done (CTRL_P \<in> set cs) t \<and> cons_ok t \<and> (cooked t, editing t) = fold line_char cs (cooked s, editing s)
    \<and> (\<forall>ip n l rest. cooked t = l @ NEWLINE # rest \<and> length l < n \<and> NEWLINE \<notin> set l \<and> CTRL_D \<notin> set l
        \<longrightarrow> (\<exists>u. consoleread_loop ip n [] t = consoleread_loop ip 0 (l @ [NEWLINE]) u \<and> cooked u = rest \<and> editing u = editing t))"
proof -
  obtain t where t: "cons_chars cs False s = Done (CTRL_P \<in> set cs) t" "cons_ok t" "(cooked t, editing t) = fold line_char cs (cooked s, editing s)"
    using cons_chars_run [OF assms, of False] by auto
  then show ?thesis using consoleread_line [OF t(2), of _ _ _ _ "[]"] by (intro exI [of _ t]) fastforce
qed

text \<open>The key strokes \<^verbatim>\<open>l\<close>, \<^verbatim>\<open>x\<close>, erase, \<^verbatim>\<open>s\<close>, return, with indices about to wrap around.\<close>

definition line_state :: consst where
  "line_state = filest.extend boot_file \<lparr>ticks = 0, cons_locking = 1, panicked = 0, crt = (\<lambda>_. 0), crtpos = 0, uart = 1, io = [],
     in_buf = replicate 128 0, in_r = - 2, in_w = - 2, in_e = - 2\<rparr>"

theorem console_line_discipline_witness:
  "\<exists>t. cons_chars [108, 120, 8, 115, 13] False line_state = Done False t \<and> cooked t = [108, 115, 10] \<and> editing t = []
    \<and> (\<exists>u. consoleread_loop 0 10 [] t = consoleread_loop 0 0 [108, 115, 10] u \<and> cooked u = [])"
proof -
  have h: "held line_state = {}" using boot_file_sel(2) by (simp add: line_state_def filest.defs)
  have ok: "cons_ok line_state" "cooked line_state = []" "editing line_state = []"
    using h by (simp_all add: cons_ok_def screen_ok_def cooked_def editing_def window_def line_state_def filest.defs)
  from console_line_discipline [OF ok(1), of "[108, 120, 8, 115, 13]"] obtain t where
    t: "cons_chars [108, 120, 8, 115, 13] False line_state = Done (16 \<in> set [108, 120, 8, 115, 13 :: int]) t"
      "(cooked t, editing t) = fold line_char [108, 120, 8, 115, 13] (cooked line_state, editing line_state)"
      "\<forall>ip n l rest. cooked t = l @ NEWLINE # rest \<and> length l < n \<and> NEWLINE \<notin> set l \<and> CTRL_D \<notin> set l
        \<longrightarrow> (\<exists>u. consoleread_loop ip n [] t = consoleread_loop ip 0 (l @ [NEWLINE]) u \<and> cooked u = rest \<and> editing u = editing t)"
    by auto
  have q: "cooked t = [108, 115, 10]" "editing t = []" using t(2) ok by simp_all
  have "\<exists>u. consoleread_loop 0 10 [] t = consoleread_loop 0 0 ([108, 115] @ [NEWLINE]) u \<and> cooked u = [] \<and> editing u = editing t"
    by (rule t(3) [rule_format]) (simp add: q)
  then show ?thesis using t(1) q by (intro exI [of _ t]) auto
qed

end
