(* ===== verification/Kbd.thy ===== *)
theory Kbd
  imports Devices Lines
begin

text \<open>
  The keyboard (\<^verbatim>\<open>kbd.c\<close>, \<^verbatim>\<open>kbd.h\<close>): scan codes to characters, and, with the line discipline of theory \<open>Lines\<close>, from key strokes to
  the line a program reads.
\<close>

section \<open>The key maps\<close>

abbreviation (input) SHIFT :: uint where "SHIFT \<equiv> 1"
abbreviation (input) CTL :: uint where "CTL \<equiv> 2"
abbreviation (input) ALT :: uint where "ALT \<equiv> 4"
abbreviation (input) CAPSLOCK :: uint where "CAPSLOCK \<equiv> 8"
abbreviation (input) NUMLOCK :: uint where "NUMLOCK \<equiv> 16"
abbreviation (input) SCROLLLOCK :: uint where "SCROLLLOCK \<equiv> 32"
abbreviation (input) E0ESC :: uint where "E0ESC \<equiv> 64"

definition shiftcode :: "uchar \<Rightarrow> uint" where
  "shiftcode d =
     (if d = 0x1D \<or> d = 0x9D then CTL else if d = 0x2A \<or> d = 0x36 then SHIFT else if d = 0x38 \<or> d = 0xB8 then ALT else 0)"

definition togglecode :: "uchar \<Rightarrow> uint" where
  "togglecode d = (if d = 0x3A then CAPSLOCK else if d = 0x45 then NUMLOCK else if d = 0x46 then SCROLLLOCK else 0)"

text \<open>A table given by its first entries and by entries with an index; all others are 0.\<close>

definition key_table :: "uchar list \<Rightarrow> (uchar \<times> uchar) list \<Rightarrow> uchar \<Rightarrow> uchar" where
  "key_table xs ks d = (if unat d < length xs then xs ! unat d else case map_of ks d of Some c \<Rightarrow> c | None \<Rightarrow> 0)"

definition special_keys :: "(uchar \<times> uchar) list" where
  "special_keys = [(0x9C, 10), (0xB5, 47), (0xC8, 0xE2), (0xD0, 0xE3), (0xC9, 0xE6), (0xD1, 0xE7), (0xCB, 0xE4), (0xCD, 0xE5),
     (0x97, 0xE0), (0xCF, 0xE1), (0xD2, 0xE8), (0xD3, 0xE9)]"

definition special_keys_ctl :: "(uchar \<times> uchar) list" where
  "special_keys_ctl = (0x9C, 13) # (0xB5, 239) # drop 2 special_keys"

definition normalmap :: "uchar \<Rightarrow> uchar" where
  "normalmap d = key_table [
      0, 27, 49, 50, 51, 52, 53, 54,
      55, 56, 57, 48, 45, 61, 8, 9,
      113, 119, 101, 114, 116, 121, 117, 105,
      111, 112, 91, 93, 10, 0, 97, 115,
      100, 102, 103, 104, 106, 107, 108, 59,
      39, 96, 0, 92, 122, 120, 99, 118,
      98, 110, 109, 44, 46, 47, 0, 42,
      0, 32, 0, 0, 0, 0, 0, 0,
      0, 0, 0, 0, 0, 0, 0, 55,
      56, 57, 45, 52, 53, 54, 43, 49,
      50, 51, 48, 46, 0, 0, 0, 0]
      special_keys d"

definition shiftmap :: "uchar \<Rightarrow> uchar" where
  "shiftmap d = key_table [
      0, 27, 33, 64, 35, 36, 37, 94,
      38, 42, 40, 41, 95, 43, 8, 9,
      81, 87, 69, 82, 84, 89, 85, 73,
      79, 80, 123, 125, 10, 0, 65, 83,
      68, 70, 71, 72, 74, 75, 76, 58,
      34, 126, 0, 124, 90, 88, 67, 86,
      66, 78, 77, 60, 62, 63, 0, 42,
      0, 32, 0, 0, 0, 0, 0, 0,
      0, 0, 0, 0, 0, 0, 0, 55,
      56, 57, 45, 52, 53, 54, 43, 49,
      50, 51, 48, 46, 0, 0, 0, 0]
      special_keys d"

definition ctlmap :: "uchar \<Rightarrow> uchar" where
  "ctlmap d = key_table [
      0, 0, 0, 0, 0, 0, 0, 0,
      0, 0, 0, 0, 0, 0, 0, 0,
      17, 23, 5, 18, 20, 25, 21, 9,
      15, 16, 0, 0, 13, 0, 1, 19,
      4, 6, 7, 8, 10, 11, 12, 0,
      0, 0, 0, 28, 26, 24, 3, 22,
      2, 14, 13, 0, 0, 239, 0, 0]
      special_keys_ctl d"

definition charcode :: "uint \<Rightarrow> uchar \<Rightarrow> uchar" where
  "charcode i = (if i = 0 then normalmap else if i = 1 then shiftmap else ctlmap)"

section \<open>From scan codes to characters\<close>

text \<open>A byte from the data port, with the state of the modifiers; the result is the character, 0 for none.\<close>

definition caps :: "uint \<Rightarrow> uint" where
  "caps c = (if 97 \<le> c \<and> c \<le> 122 then c + (65 - 97) else if 65 \<le> c \<and> c \<le> 90 then c + (97 - 65) else c)"

definition kbdgetc :: "uchar \<Rightarrow> uint \<Rightarrow> uint \<times> int" where
  "kbdgetc data shift =
     (if data = 0xE0 then (shift OR E0ESC, 0)
      else if data AND 0x80 \<noteq> 0 then
        let d = (if shift AND E0ESC \<noteq> 0 then data else data AND 0x7F) in (shift AND NOT (shiftcode d OR E0ESC), 0)
      else
        let (d, sh) = (if shift AND E0ESC \<noteq> 0 then (data OR 0x80, shift AND NOT E0ESC) else (data, shift));
            sh = (sh OR shiftcode d) XOR togglecode d;
            c = ucast (charcode (sh AND (CTL OR SHIFT)) d)
        in (sh, sint (if sh AND CAPSLOCK \<noteq> 0 then caps c else c)))"

fun kbd_chars :: "uchar list \<Rightarrow> uint \<Rightarrow> uint \<times> int list" where
  "kbd_chars [] shift = (shift, [])"
| "kbd_chars (d # ds) shift = (let (sh, c) = kbdgetc d shift; (sh', cs) = kbd_chars ds sh in (sh', c # cs))"

text \<open>\<open>codes\<close> are the bytes the keyboard controller has; \<^verbatim>\<open>kbdgetc\<close> returns -1 when there is none left.\<close>

definition kbdintr :: "uchar list \<Rightarrow> 'a devst_scheme \<Rightarrow> (unit, 'a devst_scheme) outcome" where
  "kbdintr codes =
     kbind (kget (\<lambda>s. kbd_chars codes (kbd_shift s))) (\<lambda>(sh, cs).
     kseq (kmod (\<lambda>s. s\<lparr>kbd_shift := sh\<rparr>)) (consoleintr cs))"

section \<open>Typing\<close>

text \<open>The keys to press and release for a character: the key alone, or between the two codes of the shift key.\<close>

definition keys :: "uchar list" where
  "keys = map of_nat [0..<84]"

definition strokes :: "uchar \<Rightarrow> uchar list" where
  "strokes c = (case find (\<lambda>d. normalmap d = c) keys of
       Some d \<Rightarrow> [d, d OR 0x80]
     | None \<Rightarrow> (case find (\<lambda>d. shiftmap d = c) keys of Some d \<Rightarrow> [0x2A, d, d OR 0x80, 0xAA] | None \<Rightarrow> []))"

definition printable :: "uchar list" where
  "printable = map of_nat ([32..<127] @ [10])"

definition typed_ok :: "uchar \<Rightarrow> bool" where
  "typed_ok c = (case kbd_chars (strokes c) 0 of (sh, cs) \<Rightarrow> sh = 0 \<and> filter (\<lambda>x. x \<noteq> 0) cs = [int (unat c)] \<and> list_all (\<lambda>x. 0 \<le> x \<and> x < 256) cs)"

lemma all_typed_ok: "list_all typed_ok printable"
  by code_simp

section \<open>Lemmas\<close>

lemma kbd_chars_append:
  "kbd_chars (xs @ ys) sh = (let (sh', cs) = kbd_chars xs sh; (sh'', ds) = kbd_chars ys sh' in (sh'', cs @ ds))"
  by (induction xs arbitrary: sh) (auto simp: Let_def split: prod.splits)

lemma typed_text:
  assumes "\<forall>c \<in> set msg. c \<in> set printable"
  shows "\<exists>cs. kbd_chars (concat (map strokes msg)) 0 = (0, cs) \<and> filter (\<lambda>x. x \<noteq> 0) cs = map (\<lambda>c. int (unat c)) msg
    \<and> (\<forall>x \<in> set cs. 0 \<le> x \<and> x < 256)"
  using assms
proof (induction msg)
  case (Cons c msg)
  have "typed_ok c" using all_typed_ok Cons.prems by (simp add: list_all_iff)
  then obtain ds where "kbd_chars (strokes c) 0 = (0, ds)" "filter (\<lambda>x. x \<noteq> 0) ds = [int (unat c)]" "\<forall>x \<in> set ds. 0 \<le> x \<and> x < 256"
    by (auto simp: typed_ok_def list_all_iff split: prod.splits)
  moreover obtain cs where "kbd_chars (concat (map strokes msg)) 0 = (0, cs)" "filter (\<lambda>x. x \<noteq> 0) cs = map (\<lambda>c. int (unat c)) msg"
    "\<forall>x \<in> set cs. 0 \<le> x \<and> x < 256" using Cons by auto
  ultimately show ?case by (auto simp: kbd_chars_append)
qed simp

lemma printable_range: "c \<in> set printable \<Longrightarrow> c = 10 \<or> 32 \<le> unat c \<and> unat c < 127"
  by (auto simp: printable_def unat_of_nat)

lemma line_char_zeros: "fold line_char cs x = fold line_char (filter (\<lambda>c. c \<noteq> 0) cs) x"
  by (induction cs arbitrary: x) (auto simp: Let_def)

lemma line_char_text:
  assumes "\<forall>c \<in> set msg. 32 \<le> unat c \<and> unat c < 127" "length l + length msg < 128"
  shows "fold line_char (map (\<lambda>c. int (unat c)) msg) ([], l) = ([], l @ msg)"
  using assms
proof (induction msg arbitrary: l)
  case (Cons c msg)
  then have c: "32 \<le> unat c" "unat c < 127" by auto
  have "32 \<le> int (unat c)" "int (unat c) < 127" using c by linarith+
  then have "32 \<le> uint c" "uint c < 127" unfolding uint_nat .
  then have "line_char (int (unat c)) ([], l) = ([], l @ [c])" using Cons.prems(2) by (simp add: Let_def)
  then show ?case using Cons by simp
qed simp

text \<open>Locks do not matter for what the input looks like.\<close>

lemma input_held: "cooked (s\<lparr>held := h\<rparr>) = cooked s" "editing (s\<lparr>held := h\<rparr>) = editing s"
  "cooked (s\<lparr>kbd_shift := x\<rparr>) = cooked s" "editing (s\<lparr>kbd_shift := x\<rparr>) = editing s"
  by (simp_all add: cooked_def editing_def)

text \<open>The line discipline leaves the locks and the modifiers of the keyboard alone.\<close>

abbreviation (input) kbd_frame :: "'a devst_scheme \<Rightarrow> lockid set \<times> uint" where "kbd_frame s \<equiv> (held s, kbd_shift s)"

lemma consputc_keeps: "keeps kbd_frame (consputc c :: 'a devst_scheme \<Rightarrow> _)"
proof -
  have "keeps kbd_frame (cgaputc c)" by (auto simp: keeps_def cgaputc_def Let_def split: prod.splits)
  moreover have "keeps kbd_frame (uartputc d)" for d by (simp add: keeps_def uartputc_def outb_def)
  ultimately have k: "keeps kbd_frame (kseq (if c = BACKSPACE then kseq (uartputc 8) (kseq (uartputc 32) (uartputc 8)) else uartputc c) (cgaputc c))"
    by (auto intro!: keeps_seq)
  show ?thesis unfolding keeps_def
  proof (intro allI impI)
    fix s t :: "'a devst_scheme" assume o: "out_state (consputc c s) = Some t"
    then have "panicked s = 0" by (cases "panicked s = 0") (simp_all add: consputc_def)
    with o show "kbd_frame t = kbd_frame s" using k unfolding keeps_def consputc_def by (simp only: simp_thms if_False) blast
  qed
qed

lemma wakeup_keeps: "keeps kbd_frame (wakeup ch :: 'a devst_scheme \<Rightarrow> _)"
  unfolding keeps_def
proof (intro allI impI)
  fix s t :: "'a devst_scheme" assume o: "out_state (wakeup ch s) = Some t"
  then have "L_ptable \<notin> held s" by (auto simp: wakeup_def acquire_def)
  from wakeup_run [OF this, of ch] o show "kbd_frame t = kbd_frame s" by auto
qed

lemma kill_line_keeps: "keeps kbd_frame (kill_line n :: 'a devst_scheme \<Rightarrow> _)"
proof (induction n)
  case (Suc n)
  have "keeps kbd_frame (kseq (kmod (set_e e)) (kseq (consputc BACKSPACE) (kill_line n :: 'a devst_scheme \<Rightarrow> _)))" for e
    by (intro keeps_seq keeps_basic(5) consputc_keeps Suc) (simp add: set_e_def)
  then show ?case by (simp add: keeps_def)
qed (simp add: keeps_def)

lemma keeps_local: "(\<And>s. \<exists>m'. keeps f m' \<and> m s = m' s) \<Longrightarrow> keeps f m"
  unfolding keeps_def by metis

lemma cons_char_keeps: "keeps kbd_frame (cons_char c :: 'a devst_scheme \<Rightarrow> _)"
proof -
  have k1: "keeps kbd_frame (kseq (kill_line n) (kret False) :: 'a devst_scheme \<Rightarrow> _)" for n by (intro keeps_seq keeps_basic kill_line_keeps)
  have k2: "keeps kbd_frame (kseq (kwhen b (kseq (kmod (set_e e)) (consputc BACKSPACE))) (kret False) :: 'a devst_scheme \<Rightarrow> _)" for b e
    by (intro keeps_seq keeps_basic keeps_when consputc_keeps) (simp add: set_e_def)
  have c: "keeps kbd_frame (kseq (kmod (\<lambda>s. s\<lparr>in_w := in_e s\<rparr>)) (wakeup Ch_input) :: 'a devst_scheme \<Rightarrow> _)" by (intro keeps_seq keeps_basic(5) wakeup_keeps) simp
  have "keeps kbd_frame (\<lambda>s :: 'a devst_scheme. kwhen (b s) (kseq (kmod (\<lambda>s. s\<lparr>in_w := in_e s\<rparr>)) (wakeup Ch_input)) s)" for b
    using c by (simp add: keeps_def kwhen_def)
  then have k3: "keeps kbd_frame (kseq (kmod (cons_store x)) (kseq (consputc y)
     (kseq (\<lambda>s :: 'a devst_scheme. kwhen (b s) (kseq (kmod (\<lambda>s. s\<lparr>in_w := in_e s\<rparr>)) (wakeup Ch_input)) s) (kret False))))" for b x y
    by (intro keeps_seq keeps_basic consputc_keeps) (simp_all add: cons_store_def)
  have k4: "keeps kbd_frame (kret b :: 'a devst_scheme \<Rightarrow> _)" for b :: bool by (rule keeps_basic)
  show ?thesis
  proof (rule keeps_local)
    fix s :: "'a devst_scheme"
    consider "c = CTRL_P" | "c \<noteq> CTRL_P" "c = CTRL_U" | "c \<notin> {CTRL_P, CTRL_U}" "c = CTRL_H \<or> c = 127"
      | "c \<notin> {CTRL_P, CTRL_U, CTRL_H, 127}" "c \<noteq> 0 \<and> in_e s - in_r s < INPUT_BUF"
      | "c \<notin> {CTRL_P, CTRL_U, CTRL_H, 127}" "\<not> (c \<noteq> 0 \<and> in_e s - in_r s < INPUT_BUF)" by blast
    then show "\<exists>m'. keeps kbd_frame m' \<and> cons_char c s = m' s"
    proof cases
      case 1
      then have "cons_char c s = kret True s" by (simp add: cons_char_def)
      with k4 show ?thesis by blast
    next
      case 2
      then have "cons_char c s = kseq (kill_line (Suc (unat (in_e s - in_w s)))) (kret False) s" by (simp add: cons_char_def del: kill_line.simps)
      with k1 show ?thesis by blast
    next
      case 3
      then have "cons_char c s = kseq (kwhen (in_e s \<noteq> in_w s) (kseq (kmod (set_e (in_e s - 1))) (consputc BACKSPACE))) (kret False) s"
        by (auto simp: cons_char_def)
      with k2 show ?thesis by blast
    next
      case 4
      show ?thesis by (rule exI, rule conjI, rule k3, use 4 in \<open>simp add: cons_char_def Let_def\<close>)
    next
      case 5
      then have "cons_char c s = kret False s" by (auto simp: cons_char_def)
      with k4 show ?thesis by blast
    qed
  qed
qed

lemma cons_chars_keeps: "keeps kbd_frame (cons_chars cs d)"
  by (induction cs arbitrary: d) (auto intro!: keeps_bind keeps_basic cons_char_keeps)

lemma kbdintr_run:
  assumes ok: "cons_ok s" and lk: "L_cons \<notin> held s" and k: "kbd_chars codes (kbd_shift s) = (sh, cs)" and cs: "\<forall>c \<in> set cs. 0 \<le> c \<and> c < 256" "CTRL_P \<notin> set cs"
  shows "\<exists>t. kbdintr codes s = Done () t \<and> cons_ok t \<and> (cooked t, editing t) = fold line_char cs (cooked s, editing s) \<and> kbd_shift t = sh"
proof -
  define s1 where "s1 = s\<lparr>kbd_shift := sh, held := insert L_cons (held s)\<rparr>"
  have "cons_ok s1" using ok by (simp add: cons_ok_def screen_ok_def s1_def editing_def)
  then obtain u where u: "cons_chars cs False s1 = Done False u" "cons_ok u" "(cooked u, editing u) = fold line_char cs (cooked s1, editing s1)"
    using cons_chars_run [of s1 cs False] cs by auto
  have h: "held u = insert L_cons (held s)" "kbd_shift u = sh" using keepsD(1) [OF cons_chars_keeps u(1)] by (simp_all add: s1_def)
  define t where "t = u\<lparr>held := held u - {L_cons}\<rparr>"
  have "kbdintr codes s = Done () t"
    using k u(1) lk h by (simp add: kbdintr_def consoleintr_def acquire_def release_def s1_def t_def)
  moreover have "cons_ok t" using u(2) by (simp add: cons_ok_def screen_ok_def t_def editing_def)
  ultimately show ?thesis using u(3) h by (intro exI [of _ t]) (simp add: t_def s1_def input_held)
qed

section \<open>Properties\<close>

text \<open>C17: from the keys to the reader. When the input is empty and no modifier is down, pressing and releasing the keys for a line of at most 126 printable
  characters and the return key hands exactly this line to the console: the keyboard interrupt returns with no modifier down, and a read with room for the line
  gets it whole and leaves nothing behind.\<close>

theorem keyboard_to_reader:
  assumes ok: "cons_ok s" and free: "L_cons \<notin> held s" and sh: "kbd_shift s = 0" and empty: "cooked s = []" "editing s = []"
    and msg: "\<forall>c \<in> set msg. c \<in> set printable \<and> c \<noteq> NEWLINE" "length msg < 127"
  shows "\<exists>t. kbdintr (concat (map strokes (msg @ [NEWLINE]))) s = Done () t \<and> kbd_shift t = 0 \<and> cooked t = msg @ [NEWLINE] \<and> editing t = []
    \<and> (\<forall>ip n. length msg < n \<longrightarrow> (\<exists>u. consoleread_loop ip n [] t = consoleread_loop ip 0 (msg @ [NEWLINE]) u \<and> cooked u = [] \<and> editing u = []))"
proof -
  have nl: "NEWLINE \<in> set printable" by (simp add: printable_def)
  have rng: "\<forall>c \<in> set msg. 32 \<le> unat c \<and> unat c < 127" using msg(1) printable_range by blast
  obtain cs where cs: "kbd_chars (concat (map strokes (msg @ [NEWLINE]))) 0 = (0, cs)"
      "filter (\<lambda>x. x \<noteq> 0) cs = map (\<lambda>c. int (unat c)) (msg @ [NEWLINE])" "\<forall>x \<in> set cs. 0 \<le> x \<and> x < 256"
    using typed_text [of "msg @ [NEWLINE]"] msg(1) nl by auto
  have "CTRL_P \<notin> set cs"
  proof
    assume "CTRL_P \<in> set cs"
    then have "CTRL_P \<in> set (map (\<lambda>c. int (unat c)) (msg @ [NEWLINE]))" unfolding cs(2) [symmetric] by simp
    then obtain c where c: "c \<in> set msg" "int (unat c) = 16" by auto
    from bspec [OF rng c(1)] c(2) show False by linarith
  qed
  from kbdintr_run [OF ok free _ cs(3) this, of _ 0] cs(1) sh obtain t where
    t: "kbdintr (concat (map strokes (msg @ [NEWLINE]))) s = Done () t" "cons_ok t" "(cooked t, editing t) = fold line_char cs (cooked s, editing s)" "kbd_shift t = 0"
    by auto
  have "fold line_char cs (cooked s, editing s) = line_char 10 ([], msg)"
    unfolding line_char_zeros [of cs] cs(2) empty using line_char_text [OF rng, of "[]"] msg(2) by simp
  then have q: "cooked t = msg @ NEWLINE # []" "editing t = []" using t(3) msg(2) by (simp_all add: Let_def)
  have "CTRL_D \<notin> set msg" using bspec [OF rng, of CTRL_D] by auto
  with consoleread_line [OF t(2) q(1), of _ _ "[]"] q msg(1)
  have "\<forall>ip n. length msg < n \<longrightarrow> (\<exists>u. consoleread_loop ip n [] t = consoleread_loop ip 0 (msg @ [NEWLINE]) u \<and> cooked u = [] \<and> editing u = [])"
    by fastforce
  then show ?thesis using t(1,4) q by auto
qed

text \<open>The keys for \<^verbatim>\<open>ls A\<close> and return.\<close>

definition kbd_state :: devst where
  "kbd_state = consst.extend line_state \<lparr>irqmask = 0, mmio = [], ioapic_a = 0, lapic_a = 0, ismp = 0, ncpu = 1, ioapicid = 0, bcpu = 0, cpu_ids = [], kbd_shift = 0, idt = []\<rparr>"

theorem keyboard_to_reader_witness:
  "\<exists>t. kbdintr (concat (map strokes [108, 115, 32, 65, 10])) kbd_state = Done () t \<and> cooked t = [108, 115, 32, 65, 10]
    \<and> (\<exists>u. consoleread_loop 0 10 [] t = consoleread_loop 0 0 [108, 115, 32, 65, 10] u \<and> cooked u = [])"
proof -
  have h: "held line_state = {}" using boot_file_sel(2) by (simp add: line_state_def filest.defs)
  have ok: "cons_ok kbd_state" "cooked kbd_state = []" "editing kbd_state = []" "L_cons \<notin> held kbd_state" "kbd_shift kbd_state = 0"
    using h by (simp_all add: cons_ok_def screen_ok_def cooked_def editing_def window_def kbd_state_def line_state_def consst.defs filest.defs)
  have "\<forall>c \<in> set [108, 115, 32, 65]. c \<in> set printable \<and> c \<noteq> NEWLINE" by code_simp
  from keyboard_to_reader [OF ok(1,4,5,2,3) this] obtain t where
    t: "kbdintr (concat (map strokes ([108, 115, 32, 65] @ [NEWLINE]))) kbd_state = Done () t" "cooked t = [108, 115, 32, 65] @ [NEWLINE]"
      "\<forall>ip n. length [108, 115, 32, 65 :: uchar] < n
        \<longrightarrow> (\<exists>u. consoleread_loop ip n [] t = consoleread_loop ip 0 ([108, 115, 32, 65] @ [NEWLINE]) u \<and> cooked u = [] \<and> editing u = [])" by auto
  have "\<exists>u. consoleread_loop 0 10 [] t = consoleread_loop 0 0 ([108, 115, 32, 65] @ [NEWLINE]) u \<and> cooked u = [] \<and> editing u = []"
    by (rule t(3) [rule_format]) simp
  then show ?thesis using t(1,2) by auto
qed

end
