(* ===== verification/Umalloc.thy ===== *)
theory Umalloc
  imports Memory
begin

text \<open>
  The memory allocator of user programs (\<^verbatim>\<open>umalloc.c\<close>). A program's memory is its bytes and the break; a header is the two words at an
  address, the next block of the circular free list and the size in units of a header. The blocks of the list and the blocks handed out never overlap, and the
  loops over the list end.
\<close>

section \<open>State and operations\<close>

record ualloc =
  umem :: mem
  freep :: uint
  brk :: uint           \<comment> \<open>the end of the program's memory, \<^verbatim>\<open>proc->sz\<close>\<close>

definition hptr :: "mem \<Rightarrow> uint \<Rightarrow> uint" where
  "hptr m p = load32 m p"

definition hsize :: "mem \<Rightarrow> uint \<Rightarrow> uint" where
  "hsize m p = load32 m (p + 4)"

definition set_hptr :: "uint \<Rightarrow> uint \<Rightarrow> mem \<Rightarrow> mem" where
  "set_hptr p v m = store32 m p v"

definition set_hsize :: "uint \<Rightarrow> uint \<Rightarrow> mem \<Rightarrow> mem" where
  "set_hsize p v m = store32 m (p + 4) v"

text \<open>What \<^verbatim>\<open>sbrk\<close> does to a program (\<^verbatim>\<open>sys_sbrk\<close>, \<^verbatim>\<open>growproc\<close>, and the pages \<^verbatim>\<open>allocuvm\<close> clears). Whether the kernel has the memory is the argument \<open>room\<close>.
  Shrinking a program to nothing is reported as a failure and leaves its size as it was.\<close>

definition user_sbrk :: "(uint \<Rightarrow> uint \<Rightarrow> bool) \<Rightarrow> uint \<Rightarrow> ualloc \<Rightarrow> uint \<times> ualloc" where
  "user_sbrk room n s =
     (let sz = brk s; nsz = sz + n in
      if 0 < sint n then
        if KERNBASE \<le> nsz then (- 1, s)
        else if nsz < sz then (sz, s)
        else if room sz nsz then
          (sz, s\<lparr>brk := nsz, umem := (\<lambda>a. if PGROUNDUP sz \<le> a \<and> PGROUNDDOWN a < nsz then 0 else umem s a)\<rparr>)
        else (- 1, s)
      else if sint n < 0 then
        if sz \<le> nsz then (sz, s) else if nsz = 0 then (- 1, s) else (sz, s\<lparr>brk := nsz\<rparr>)
      else (sz, s))"

text \<open>The search of \<^verbatim>\<open>free\<close> for the place of a block; \<open>None\<close> is a search that never ends.\<close>

partial_function (option) free_place :: "mem \<Rightarrow> uint \<Rightarrow> uint \<Rightarrow> uint option" where
  "free_place m bp p =
     (if bp > p \<and> bp < hptr m p then Some p
      else if p \<ge> hptr m p \<and> (bp > p \<or> bp < hptr m p) then Some p
      else free_place m bp (hptr m p))"

definition join_next :: "uint \<Rightarrow> uint \<Rightarrow> mem \<Rightarrow> mem" where
  "join_next bp p m =
     (let q = hptr m p in
      if bp + 8 * hsize m bp = q then
        let m1 = set_hsize bp (hsize m bp + hsize m q) m in set_hptr bp (hptr m1 (hptr m1 p)) m1
      else set_hptr bp q m)"

definition join_prev :: "uint \<Rightarrow> uint \<Rightarrow> mem \<Rightarrow> mem" where
  "join_prev bp p m =
     (if p + 8 * hsize m p = bp then
        let m1 = set_hsize p (hsize m p + hsize m bp) m in set_hptr p (hptr m1 bp) m1
      else set_hptr p bp m)"

definition ufree :: "uint \<Rightarrow> ualloc \<Rightarrow> ualloc option" where
  "ufree ap s =
     (let bp = ap - 8 in
      case free_place (umem s) bp (freep s) of None \<Rightarrow> None
      | Some p \<Rightarrow> Some (s\<lparr>umem := join_prev bp p (join_next bp p (umem s)), freep := p\<rparr>))"

definition morecore :: "(uint \<Rightarrow> ualloc \<Rightarrow> uint \<times> ualloc) \<Rightarrow> uint \<Rightarrow> ualloc \<Rightarrow> (uint \<times> ualloc) option" where
  "morecore sbrk nu s =
     (let nu = (if nu < 4096 then 4096 else nu); (p, t) = sbrk (nu * 8) s in
      if p = - 1 then Some (0, t)
      else case ufree (p + 8) (t\<lparr>umem := set_hsize p nu (umem t)\<rparr>) of None \<Rightarrow> None
        | Some u \<Rightarrow> Some (freep u, u))"

text \<open>A block that is large enough is taken out of the list, or its tail is cut off.\<close>

definition take_block :: "uint \<Rightarrow> uint \<Rightarrow> uint \<Rightarrow> ualloc \<Rightarrow> uint \<times> ualloc" where
  "take_block nunits prevp p s =
     (if hsize (umem s) p = nunits then
        (p + 8, s\<lparr>umem := set_hptr prevp (hptr (umem s) p) (umem s), freep := prevp\<rparr>)
      else
        let m1 = set_hsize p (hsize (umem s) p - nunits) (umem s); q = p + 8 * hsize m1 p in
        (q + 8, s\<lparr>umem := set_hsize q nunits m1, freep := prevp\<rparr>))"

partial_function (option) malloc_loop ::
    "(uint \<Rightarrow> ualloc \<Rightarrow> uint \<times> ualloc) \<Rightarrow> uint \<Rightarrow> uint \<Rightarrow> uint \<Rightarrow> ualloc \<Rightarrow> (uint \<times> ualloc) option" where
  "malloc_loop sbrk nunits prevp p s =
     (if hsize (umem s) p \<ge> nunits then Some (take_block nunits prevp p s)
      else if p = freep s then
        Option.bind (morecore sbrk nunits s) (\<lambda>(q, t).
          if q = 0 then Some (0, t) else malloc_loop sbrk nunits q (hptr (umem t) q) t)
      else malloc_loop sbrk nunits p (hptr (umem s) p) s)"

definition units :: "uint \<Rightarrow> uint" where
  "units nbytes = (nbytes + 8 - 1) div 8 + 1"

text \<open>\<open>base\<close> is the address of the static header.\<close>

definition malloc :: "(uint \<Rightarrow> ualloc \<Rightarrow> uint \<times> ualloc) \<Rightarrow> uint \<Rightarrow> uint \<Rightarrow> ualloc \<Rightarrow> (uint \<times> ualloc) option" where
  "malloc sbrk base nbytes s =
     (let s = (if freep s = 0 then s\<lparr>umem := set_hsize base 0 (set_hptr base base (umem s)), freep := base\<rparr> else s) in
      malloc_loop sbrk (units nbytes) (freep s) (hptr (umem s) (freep s)) s)"

section \<open>The free list\<close>

text \<open>Headers at addresses that are numbers.\<close>

definition nxt :: "mem \<Rightarrow> nat \<Rightarrow> nat" where
  "nxt m a = unat (hptr m (of_nat a))"

definition siz :: "mem \<Rightarrow> nat \<Rightarrow> nat" where
  "siz m a = unat (hsize m (of_nat a))"

text \<open>A list of blocks, each an address and a size, linked in this order; the last one points to \<open>e\<close>.\<close>

fun start :: "(nat \<times> nat) list \<Rightarrow> nat \<Rightarrow> nat" where
  "start [] e = e"
| "start (x # _) e = fst x"

fun chain :: "mem \<Rightarrow> (nat \<times> nat) list \<Rightarrow> nat \<Rightarrow> bool" where
  "chain m [] e \<longleftrightarrow> True"
| "chain m (x # xs) e \<longleftrightarrow> nxt m (fst x) = start xs e \<and> siz m (fst x) = snd x \<and> chain m xs e"

definition before :: "nat \<times> nat \<Rightarrow> nat \<times> nat \<Rightarrow> bool" where
  "before x y \<longleftrightarrow> fst x + 8 * snd x \<le> fst y"

definition clear_of :: "nat \<times> nat \<Rightarrow> nat \<times> nat \<Rightarrow> bool" where
  "clear_of x y \<longleftrightarrow> before x y \<or> before y x"

text \<open>The bounds of a block in the heap, which starts at \<open>lo\<close>.\<close>

definition in_heap :: "nat \<Rightarrow> ualloc \<Rightarrow> nat \<times> nat \<Rightarrow> bool" where
  "in_heap lo s x \<longleftrightarrow> 0 < snd x \<and> lo \<le> fst x \<and> fst x + 8 * snd x \<le> unat (brk s)"

text \<open>\<open>b\<close> is the static header, \<open>F\<close> the free blocks in the order of their addresses, \<open>A\<close> the blocks handed out.\<close>

definition spatial :: "nat \<Rightarrow> ualloc \<Rightarrow> (nat \<times> nat) list \<Rightarrow> (nat \<times> nat) set \<Rightarrow> bool" where
  "spatial lo s F A \<longleftrightarrow> sorted_wrt before F \<and> (\<forall>x \<in> set F \<union> A. in_heap lo s x)
     \<and> (\<forall>x \<in> A. \<forall>y \<in> A. x \<noteq> y \<longrightarrow> clear_of x y) \<and> (\<forall>x \<in> A. \<forall>y \<in> set F. clear_of x y)"

definition heap_ok :: "nat \<Rightarrow> nat \<Rightarrow> ualloc \<Rightarrow> (nat \<times> nat) list \<Rightarrow> (nat \<times> nat) set \<Rightarrow> bool" where
  "heap_ok b lo s F A \<longleftrightarrow> chain (umem s) ((b, 0) # F) b \<and> unat (freep s) \<in> fst ` set ((b, 0) # F)
     \<and> 0 < b \<and> b + 8 \<le> lo \<and> lo \<le> unat (brk s) \<and> unat (brk s) \<le> 2147483648
     \<and> spatial lo s F A \<and> (\<forall>x \<in> A. siz (umem s) (fst x) = snd x)"

section \<open>Lemmas: headers\<close>

lemma unat_uminus:
  assumes "(x :: uint) \<noteq> 0"
  shows "unat (- x) = 4294967296 - unat x"
proof -
  have "unat (- x + x) = (unat (- x) + unat x) mod 4294967296" unfolding unat_word_ariths by simp
  then have "(unat (- x) + unat x) mod 4294967296 = 0" by simp
  moreover have p: "0 < unat x" using assms by (simp add: unat_gt_0)
  ultimately have "4294967296 \<le> unat (- x) + unat x" by (metis mod_less not_le add_is_0 less_numeral_extra(3))
  then have "unat (- x) + unat x - 4294967296 = 0"
    using \<open>(unat (- x) + unat x) mod 4294967296 = 0\<close> unat_u32 [of x] unat_u32 [of "- x"] by (simp add: le_mod_geq)
  then show ?thesis using \<open>4294967296 \<le> unat (- x) + unat x\<close> by simp
qed

lemma load32_store32_far:
  assumes "4 \<le> unat (x - y :: uint)" "4 \<le> unat (y - x)"
  shows "load32 (store32 m x v) y = load32 m y"
proof -
  have "store32 m x v (y + i) = m (y + i)" if i: "unat i < 4" for i
  proof (rule store32_other)
    have ne: "y - x \<noteq> 0" using assms by auto
    have "unat (x - y) = 4294967296 - unat (y - x)" using unat_uminus [OF ne] by simp
    then have "unat (y - x) + unat i < 4294967296" using assms i by simp
    then have "unat (y - x + i) = unat (y - x) + unat i" by (simp add: unat_word_ariths)
    then show "4 \<le> unat (y + i - x)" using assms(2) by (simp add: algebra_simps)
  qed
  from this [of 0] this [of 1] this [of 2] this [of 3] show ?thesis by (intro load32_cong) simp_all
qed

lemma unat_nat_diff:
  assumes "a < 4294967296" "c < 4294967296"
  shows "unat (of_nat a - of_nat c :: uint) = (if c \<le> a then a - c else 4294967296 + a - c)"
proof (cases "c \<le> a")
  case True
  then have e: "of_nat a - of_nat c = (of_nat (a - c) :: uint)" by simp
  show ?thesis unfolding e using True assms by (simp add: unat_of_nat del: of_nat_diff)
next
  case False
  have e: "of_nat a - of_nat c = - (of_nat (c - a) :: uint)" using False by simp
  have "(of_nat (c - a) :: uint) \<noteq> 0" using False assms by (simp add: word_unat_eq_iff unat_of_nat del: of_nat_diff)
  then show ?thesis unfolding e using False assms by (simp add: unat_uminus unat_of_nat del: of_nat_diff)
qed

lemma nat_less [simp]:
  assumes "a < 4294967296" "c < 4294967296"
  shows "(of_nat a :: uint) < of_nat c \<longleftrightarrow> a < c" "(of_nat a :: uint) \<le> of_nat c \<longleftrightarrow> a \<le> c" "(of_nat a :: uint) = of_nat c \<longleftrightarrow> a = c"
  using assms by (simp_all add: word_less_nat_alt word_le_nat_alt word_unat_eq_iff unat_of_nat)

lemma hptr_nxt: "hptr m (of_nat a) = of_nat (nxt m a)" and hsize_siz: "hsize m (of_nat a) = of_nat (siz m a)"
  by (simp_all add: nxt_def siz_def)

text \<open>Two headers that do not overlap.\<close>

definition far :: "nat \<Rightarrow> nat \<Rightarrow> bool" where
  "far a c \<longleftrightarrow> a + 8 \<le> c \<or> c + 8 \<le> a"

lemma header_far:
  assumes "far a c" "a + 8 \<le> 4294967296" "c + 8 \<le> 4294967296" "i \<in> {0, 4 :: nat}" "j \<in> {0, 4 :: nat}"
  shows "load32 (store32 m (of_nat a + of_nat i) v) (of_nat c + of_nat j) = load32 m (of_nat c + of_nat j)"
proof -
  have e: "of_nat a + of_nat i = (of_nat (a + i) :: uint)" "of_nat c + of_nat j = (of_nat (c + j) :: uint)" by simp_all
  have l: "a + i < 4294967296" "c + j < 4294967296" using assms by auto
  show ?thesis unfolding e
    by (rule load32_store32_far) (use assms in \<open>auto simp: unat_nat_diff [OF l] unat_nat_diff [OF l(2,1)] far_def simp del: of_nat_add\<close>)
qed

lemma header_writes_far:
  assumes "far a c" "a + 8 \<le> 4294967296" "c + 8 \<le> 4294967296"
  shows "nxt (set_hptr (of_nat a) v m) c = nxt m c" "siz (set_hptr (of_nat a) v m) c = siz m c"
    "nxt (set_hsize (of_nat a) v m) c = nxt m c" "siz (set_hsize (of_nat a) v m) c = siz m c"
  using header_far [OF assms, of 0 0 m v] header_far [OF assms, of 0 4 m v] header_far [OF assms, of 4 0 m v] header_far [OF assms, of 4 4 m v]
  by (simp_all add: nxt_def siz_def hptr_def hsize_def set_hptr_def set_hsize_def)

lemma header_writes:
  assumes "v < 4294967296"
  shows "nxt (set_hptr (of_nat a) (of_nat v) m) a = v" "siz (set_hptr (of_nat a) (of_nat v) m) a = siz m a"
    "nxt (set_hsize (of_nat a) (of_nat v) m) a = nxt m a" "siz (set_hsize (of_nat a) (of_nat v) m) a = v"
  using assms load32_store32_far [of "of_nat a" "of_nat a + 4" m "of_nat v"] load32_store32_far [of "of_nat a + 4" "of_nat a" m "of_nat v"]
  by (simp_all add: nxt_def siz_def hptr_def hsize_def set_hptr_def set_hsize_def unat_of_nat)

text \<open>Bytes outside the header keep their values.\<close>

lemma set_header_other:
  assumes "a + 8 \<le> 4294967296" "x < 4294967296" "x < a \<or> a + 8 \<le> x"
  shows "set_hptr (of_nat a) v m (of_nat x) = m (of_nat x)" "set_hsize (of_nat a) v m (of_nat x) = m (of_nat x)"
proof -
  have "4 \<le> unat (of_nat x - of_nat a :: uint)" using assms by (subst unat_nat_diff) auto
  then show "set_hptr (of_nat a) v m (of_nat x) = m (of_nat x)" by (simp add: set_hptr_def store32_other)
  have "4 \<le> unat (of_nat x - of_nat (a + 4) :: uint)" using assms by (subst unat_nat_diff) auto
  then show "set_hsize (of_nat a) v m (of_nat x) = m (of_nat x)" by (simp add: set_hsize_def store32_other)
qed

section \<open>Lemmas: the list\<close>

lemma chain_append: "chain m (xs @ ys) e \<longleftrightarrow> chain m xs (start ys e) \<and> chain m ys e"
proof (induction xs)
  case (Cons x xs)
  have "start (xs @ ys) e = start xs (start ys e)" by (cases xs) simp_all
  then show ?case using Cons by auto
qed simp

lemma start_append: "start (xs @ ys) e = start xs (start ys e)"
  by (cases xs) simp_all

lemma chain_cong:
  assumes "\<And>x. x \<in> set xs \<Longrightarrow> nxt m (fst x) = nxt m' (fst x) \<and> siz m (fst x) = siz m' (fst x)"
  shows "chain m xs e = chain m' xs e"
  using assms by (induction xs) auto

text \<open>From a block before the place, the search reaches the place.\<close>

lemma free_place_forward:
  assumes "chain m (vs @ (pa, pn) # ys) b" "sorted_wrt (\<lambda>x y. fst x < fst y) (vs @ (pa, pn) # ys)"
    "\<forall>x \<in> set (vs @ [(pa, pn)]). b \<le> fst x \<and> fst x < bp" "\<forall>y \<in> set ys. bp < fst y \<and> fst y < 4294967296" "bp < 4294967296"
  shows "free_place m (of_nat bp) (of_nat (start vs pa)) = Some (of_nat pa)"
  using assms(1-3)
proof (induction vs)
  case Nil
  have n: "nxt m pa = start ys b" using Nil by simp
  have "b < 4294967296" "pa < 4294967296" "pa < bp" using Nil(3) assms(5) by auto
  then show ?case using n Nil(3) assms(4,5)
    by (subst free_place.simps) (cases ys; simp add: hptr_nxt)
next
  case (Cons v vs)
  define w where "w = start vs pa"
  have w: "fst v < w" "w < bp" using Cons.prems(2,3) by (cases vs; auto simp: w_def)+
  have n: "nxt m (fst v) = w" using Cons.prems(1) by (simp add: w_def start_append)
  have "free_place m (of_nat bp) (of_nat (fst v)) = free_place m (of_nat bp) (of_nat w)"
    using w assms(5) by (subst free_place.simps) (simp add: hptr_nxt n)
  then show ?case using Cons by (simp add: w_def)
qed

lemma free_place_around:
  assumes "chain m ys b" "sorted_wrt (\<lambda>x y. fst x < fst y) ys" "\<forall>y \<in> set ys. bp < fst y \<and> fst y < 4294967296" "b < bp"
  shows "free_place m (of_nat bp) (of_nat (start ys b)) = free_place m (of_nat bp) (of_nat b)"
  using assms(1-3)
proof (induction ys)
  case (Cons v ys)
  have n: "nxt m (fst v) = start ys b" using Cons.prems(1) by simp
  have "start ys b < 4294967296" using Cons.prems(3) assms(4) by (cases ys) auto
  then have "free_place m (of_nat bp) (of_nat (fst v)) = free_place m (of_nat bp) (of_nat (start ys b))"
    using Cons.prems(2,3) assms(4) by (subst free_place.simps) (cases ys; auto simp: hptr_nxt n)
  then show ?case using Cons by simp
qed simp

lemma free_place_found:
  assumes c: "chain m (xs @ (pa, pn) # ys) b" and s: "sorted_wrt (\<lambda>x y. fst x < fst y) (xs @ (pa, pn) # ys)"
    and l: "\<forall>x \<in> set (xs @ [(pa, pn)]). b \<le> fst x \<and> fst x < bp" and h: "\<forall>y \<in> set ys. bp < fst y \<and> fst y < 4294967296" and bp: "bp < 4294967296"
    and st: "start xs pa = b" and f: "f \<in> fst ` set (xs @ (pa, pn) # ys)"
  shows "free_place m (of_nat bp) (of_nat f) = Some (of_nat pa)"
proof -
  have all: "free_place m (of_nat bp) (of_nat b) = Some (of_nat pa)"
    using free_place_forward [OF c s l h bp] st by simp
  from f consider (p) "f = pa" | (x) x where "x \<in> set xs" "f = fst x" | (y) y where "y \<in> set ys" "f = fst y" by auto
  then show ?thesis
  proof cases
    case p
    have "chain m ([] @ (pa, pn) # ys) b" "sorted_wrt (\<lambda>x y. fst x < fst y) ([] @ (pa, pn) # ys)" using c s by (simp_all add: chain_append sorted_wrt_append)
    from free_place_forward [OF this _ h bp] show ?thesis using l p by simp
  next
    case x
    then obtain us vs where xs: "xs = us @ x # vs" by (meson split_list)
    have "chain m ((x # vs) @ (pa, pn) # ys) b" "sorted_wrt (\<lambda>x y. fst x < fst y) ((x # vs) @ (pa, pn) # ys)"
      using c s by (simp_all add: xs chain_append sorted_wrt_append)
    from free_place_forward [OF this _ h bp] show ?thesis using l x xs by simp
  next
    case y
    then obtain us vs where ys: "ys = us @ y # vs" by (meson split_list)
    have cv: "chain m (y # vs) b" "sorted_wrt (\<lambda>x y. fst x < fst y) (y # vs)" using c s by (simp_all add: ys chain_append sorted_wrt_append)
    have "b < bp" using l by fastforce
    from free_place_around [OF cv _ this] h ys y all show ?thesis by simp
  qed
qed

section \<open>Lemmas: the places of the blocks\<close>

lemma spatial_insert:
  assumes "spatial lo s (us @ ys) A" "x \<in> A" "\<forall>u \<in> set us. before u x" "\<forall>y \<in> set ys. before x y"
  shows "spatial lo s (us @ x # ys) (A - {x})"
  using assms by (auto simp: spatial_def sorted_wrt_append)

lemma spatial_merge:
  assumes "spatial lo s (us @ u # v # ws) A" "fst u + 8 * snd u = fst v"
  shows "spatial lo s (us @ (fst u, snd u + snd v) # ws) A"
proof -
  have "clear_of x (fst u, snd u + snd v)" if "x \<in> A" for x
  proof -
    have "clear_of x u" "clear_of x v" "0 < snd x" using assms(1) that by (auto simp: spatial_def in_heap_def)
    then show ?thesis using assms(2) by (auto simp: clear_of_def before_def)
  qed
  then show ?thesis using assms by (auto simp: spatial_def sorted_wrt_append before_def in_heap_def)
qed

lemma spatial_remove:
  assumes "spatial lo s (us @ x # ys) A"
  shows "spatial lo s (us @ ys) (insert x A)"
  using assms by (auto simp: spatial_def sorted_wrt_append clear_of_def)

text \<open>A block of \<open>A\<close> divides the free blocks into those before and those after it.\<close>

lemma spatial_split:
  assumes "spatial lo s F A" "x \<in> A"
  shows "\<exists>us ys. F = us @ ys \<and> (\<forall>u \<in> set us. before u x) \<and> (\<forall>y \<in> set ys. before x y)"
proof (intro exI conjI)
  show "F = takeWhile (\<lambda>u. before u x) F @ dropWhile (\<lambda>u. before u x) F" by simp
  show "\<forall>u \<in> set (takeWhile (\<lambda>u. before u x) F). before u x" by (auto dest: set_takeWhileD)
  show "\<forall>y \<in> set (dropWhile (\<lambda>u. before u x) F). before x y"
  proof (cases "dropWhile (\<lambda>u. before u x) F")
    case (Cons z zs)
    then have z: "\<not> before z x" by (simp add: dropWhile_eq_Cons_conv)
    have F: "F = takeWhile (\<lambda>u. before u x) F @ z # zs" using Cons by (metis takeWhile_dropWhile_id)
    have "sorted_wrt before (z # zs)" using assms(1) F by (metis spatial_def sorted_wrt_append)
    moreover have "z \<in> set F" by (subst F) simp
    then have "before x z" using assms z by (auto simp: spatial_def clear_of_def)
    ultimately show ?thesis unfolding Cons by (auto simp: before_def)
  next
    case Nil
    then show ?thesis unfolding Nil by simp
  qed
qed

section \<open>Lemmas: \<open>free\<close>\<close>

text \<open>Writing the header at \<open>a\<close> leaves the other headers and all bytes outside it.\<close>

definition only_header :: "nat \<Rightarrow> mem \<Rightarrow> mem \<Rightarrow> bool" where
  "only_header a m m' \<longleftrightarrow> (\<forall>c. far a c \<and> c + 8 \<le> 4294967296 \<longrightarrow> nxt m' c = nxt m c \<and> siz m' c = siz m c)
     \<and> (\<forall>x < 4294967296. x < a \<or> a + 8 \<le> x \<longrightarrow> m' (of_nat x) = m (of_nat x))"

lemma only_header_set:
  assumes "a + 8 \<le> 4294967296"
  shows "only_header a m (set_hptr (of_nat a) v m)" "only_header a m (set_hsize (of_nat a) v m)"
  using assms by (auto simp: only_header_def header_writes_far set_header_other)

lemma only_header_trans: "only_header a m m1 \<Longrightarrow> only_header a m1 m2 \<Longrightarrow> only_header a m m2"
  by (simp add: only_header_def)

lemma join_next_run:
  assumes c: "chain m ((pa, pn) # ys) b" and k: "siz m ba = bn" and f: "far ba pa" "\<forall>y \<in> set ys. far ba (fst y)"
    and l: "ba + 8 * bn < 4294967296" "ba + 8 \<le> 4294967296" "pa + 8 \<le> 4294967296" "b < ba"
    and h: "\<forall>y \<in> set ys. fst y + 8 \<le> 4294967296 \<and> bn + snd y < 4294967296"
  shows "\<exists>m'. join_next (of_nat ba) (of_nat pa) m = m' \<and> only_header ba m m' \<and>
    (if ys \<noteq> [] \<and> ba + 8 * bn = fst (hd ys) then nxt m' ba = start (tl ys) b \<and> siz m' ba = bn + snd (hd ys)
     else nxt m' ba = start ys b \<and> siz m' ba = bn)"
proof -
  have q: "hptr m (of_nat pa) = of_nat (start ys b)" using c by (simp add: hptr_nxt)
  have sl: "start ys b < 4294967296" using h l by (cases ys) auto
  have e: "of_nat ba + 8 * hsize m (of_nat ba) = of_nat (ba + 8 * bn)" by (simp add: hsize_siz k)
  have t: "of_nat ba + 8 * hsize m (of_nat ba) = of_nat (start ys b) \<longleftrightarrow> ba + 8 * bn = start ys b"
    unfolding e by (rule nat_less(3)) (use l sl in auto)
  show ?thesis
  proof (cases "ys \<noteq> [] \<and> ba + 8 * bn = fst (hd ys)")
    case True
    then obtain y zs where ys: "ys = y # zs" by (cases ys) auto
    define m1 where "m1 = set_hsize (of_nat ba) (of_nat (bn + snd y)) m"
    have y: "siz m (fst y) = snd y" "nxt m (fst y) = start zs b" "nxt m pa = fst y" "far ba (fst y)" "fst y + 8 \<le> 4294967296" "bn + snd y < 4294967296"
      using c f h ys by auto
    have o1: "only_header ba m m1" unfolding m1_def by (rule only_header_set) (rule l)
    then have n1: "nxt m1 pa = fst y" "nxt m1 (fst y) = start zs b" using y f l by (auto simp: only_header_def)
    have sz: "start zs b < 4294967296" using h l ys by (cases zs) auto
    have j: "join_next (of_nat ba) (of_nat pa) m = set_hptr (of_nat ba) (of_nat (start zs b)) m1"
      using True t ys n1 by (simp add: join_next_def Let_def q hsize_siz hptr_nxt k y(1,3) m1_def [simplified])
    have "siz m1 ba = bn + snd y" unfolding m1_def by (rule header_writes) (rule y)
    then have "nxt (set_hptr (of_nat ba) (of_nat (start zs b)) m1) ba = start zs b" "siz (set_hptr (of_nat ba) (of_nat (start zs b)) m1) ba = bn + snd y"
      using header_writes(1,2) [OF sz] by simp_all
    then show ?thesis unfolding j using True ys only_header_trans [OF o1 only_header_set(1) [OF l(2)]] by simp
  next
    case False
    then have "ba + 8 * bn \<noteq> start ys b" using l by (cases ys) auto
    then have j: "join_next (of_nat ba) (of_nat pa) m = set_hptr (of_nat ba) (of_nat (start ys b)) m"
      using t by (simp add: join_next_def Let_def q)
    show ?thesis unfolding j using False header_writes(1,2) [OF sl, of ba m] k only_header_set(1) [OF l(2)] by auto
  qed
qed

lemma join_prev_run:
  assumes k: "siz m pa = pn" "nxt m ba = e" "siz m ba = bn" and f: "far pa ba"
    and l: "pa + 8 * pn < 4294967296" "ba + 8 \<le> 4294967296" "pa + 8 \<le> 4294967296" "pn + bn < 4294967296" "e < 4294967296"
  shows "\<exists>m'. join_prev (of_nat ba) (of_nat pa) m = m' \<and> only_header pa m m' \<and>
    (if pa + 8 * pn = ba then nxt m' pa = e \<and> siz m' pa = pn + bn else nxt m' pa = ba \<and> siz m' pa = pn)"
proof -
  have e: "of_nat pa + 8 * hsize m (of_nat pa) = of_nat (pa + 8 * pn)" by (simp add: hsize_siz k)
  have t: "of_nat pa + 8 * hsize m (of_nat pa) = of_nat ba \<longleftrightarrow> pa + 8 * pn = ba"
    unfolding e by (rule nat_less(3)) (use l in auto)
  show ?thesis
  proof (cases "pa + 8 * pn = ba")
    case True
    define m1 where "m1 = set_hsize (of_nat pa) (of_nat (pn + bn)) m"
    have o1: "only_header pa m m1" unfolding m1_def by (rule only_header_set) (rule l)
    then have n1: "nxt m1 ba = e" using f k l by (auto simp: only_header_def)
    have j: "join_prev (of_nat ba) (of_nat pa) m = set_hptr (of_nat pa) (of_nat e) m1"
      using True t n1 by (simp add: join_prev_def Let_def hsize_siz hptr_nxt k m1_def [simplified])
    have "siz m1 pa = pn + bn" unfolding m1_def by (rule header_writes) (rule l)
    then show ?thesis unfolding j using True header_writes(1,2) [OF l(5), of pa m1] only_header_trans [OF o1 only_header_set(1) [OF l(3)]] by simp
  next
    case False
    then have j: "join_prev (of_nat ba) (of_nat pa) m = set_hptr (of_nat pa) (of_nat ba) m" using t by (simp add: join_prev_def)
    show ?thesis unfolding j using False header_writes(1,2) [of ba pa m] l k only_header_set(1) [OF l(3)] by auto
  qed
qed

text \<open>A block put before a list, joined with the first block when they touch.\<close>

definition glue :: "nat \<times> nat \<Rightarrow> (nat \<times> nat) list \<Rightarrow> (nat \<times> nat) list" where
  "glue x ys = (if ys \<noteq> [] \<and> fst x + 8 * snd x = fst (hd ys) then (fst x, snd x + snd (hd ys)) # tl ys else x # ys)"

lemma glue_shape: "\<exists>n zs. glue x ys = (fst x, n) # zs \<and> snd x \<le> n \<and> set zs \<subseteq> set ys"
  by (cases ys; cases x) (auto simp: glue_def)

lemma spatial_glue: "spatial lo s (us @ x # ys) A \<Longrightarrow> spatial lo s (us @ glue x ys) A"
  using spatial_merge [of lo s us x] by (cases ys) (auto simp: glue_def)

lemma chain_only:
  assumes "only_header a m m'" "\<forall>x \<in> set xs. far a (fst x) \<and> fst x + 8 \<le> 4294967296"
  shows "chain m' xs e = chain m xs e"
  by (rule chain_cong) (use assms in \<open>auto simp: only_header_def\<close>)

lemma free_links:
  assumes c: "chain m (xs @ (pa, pn) # ys) b" and k: "siz m ba = bn" and b: "b < ba"
    and l: "\<forall>x \<in> set (xs @ (pa, pn) # (ba, bn) # ys). fst x + 8 \<le> 2147483648 \<and> fst x + 8 * snd x \<le> 2147483648"
    and f: "\<forall>x \<in> set (xs @ (pa, pn) # ys). far ba (fst x)" "\<forall>x \<in> set (xs @ ys). far pa (fst x)"
  shows "\<exists>m1 m2. join_prev (of_nat ba) (of_nat pa) (join_next (of_nat ba) (of_nat pa) m) = m2 \<and> only_header ba m m1 \<and> only_header pa m1 m2
    \<and> chain m2 (xs @ glue (pa, pn) (glue (ba, bn) ys)) b"
proof -
  have c1: "chain m ((pa, pn) # ys) b" "chain m xs pa" using c by (simp_all add: chain_append)
  have lb: "ba + 8 \<le> 2147483648" "ba + 8 * bn \<le> 2147483648" "pa + 8 \<le> 2147483648" "pa + 8 * pn \<le> 2147483648" using l by auto
  have lx: "fst x + 8 \<le> 4294967296" "far ba (fst x)" "far pa (fst x)" if "x \<in> set xs" for x using bspec [OF l, of x] bspec [OF f(1), of x] bspec [OF f(2), of x] that by auto
  have ly: "fst y + 8 \<le> 2147483648" "snd y \<le> 2147483648" "far ba (fst y)" "far pa (fst y)" if "y \<in> set ys" for y using bspec [OF l, of y] bspec [OF f(1), of y] bspec [OF f(2), of y] that by auto
  have fb: "far ba pa" "far pa ba" using f(1) by (auto simp: far_def)
  have hy: "\<forall>y \<in> set ys. fst y + 8 \<le> 4294967296 \<and> bn + snd y < 4294967296" 
  proof
    fix y assume "y \<in> set ys"
    then show "fst y + 8 \<le> 4294967296 \<and> bn + snd y < 4294967296" using ly(1,2) [of y] lb by simp
  qed
  obtain m1 where m1: "join_next (of_nat ba) (of_nat pa) m = m1" "only_header ba m m1"
    "if ys \<noteq> [] \<and> ba + 8 * bn = fst (hd ys) then nxt m1 ba = start (tl ys) b \<and> siz m1 ba = bn + snd (hd ys) else nxt m1 ba = start ys b \<and> siz m1 ba = bn"
    using join_next_run [OF c1(1) k fb(1) _ _ _ _ b hy] ly(3) lb by auto
  have ch: "chain m1 xs pa" "chain m1 ys b"
    using c1 chain_only [OF m1(2), of xs] chain_only [OF m1(2), of ys] lx ly hy by auto
  have sp: "siz m1 pa = pn" using c1(1) m1(2) fb lb by (auto simp: only_header_def)
  obtain n zs where g: "glue (ba, bn) ys = (ba, n) # zs" "set zs \<subseteq> set ys" using glue_shape [of "(ba, bn)" ys] by auto
  have n: "siz m1 ba = n" "nxt m1 ba = start zs b" "chain m1 zs b" using g m1(3) ch(2) by (cases ys; auto simp: glue_def split: if_splits)+
  have zl: "start zs b < 4294967296" using g(2) ly(1) b lb by (cases zs) force+
  have nl: "pn + n < 4294967296" using g(1) ly(2) lb by (cases ys) (force simp: glue_def split: if_splits)+
  obtain m2 where m2: "join_prev (of_nat ba) (of_nat pa) m1 = m2" "only_header pa m1 m2"
    "if pa + 8 * pn = ba then nxt m2 pa = start zs b \<and> siz m2 pa = pn + n else nxt m2 pa = ba \<and> siz m2 pa = pn"
    using join_prev_run [OF sp n(2,1) fb(2)] lb zl nl by auto
  have "\<forall>z \<in> set zs. far pa (fst z) \<and> fst z + 8 \<le> 4294967296" using ly(4) hy g(2) by blast
  then have "chain m2 xs pa" "chain m2 zs b"
    using ch(1) n(3) chain_only [OF m2(2), of xs] chain_only [OF m2(2), of zs] lx by auto
  moreover have "nxt m2 ba = start zs b" "siz m2 ba = n" using n m2(2) fb lb by (auto simp: only_header_def)
  ultimately have "chain m2 (xs @ glue (pa, pn) (glue (ba, bn) ys)) b"
    unfolding g(1) using m2(3) by (auto simp: glue_def chain_append split: if_splits)
  then show ?thesis using m1 m2 by blast
qed

text \<open>The payload of the blocks handed out.\<close>

definition kept :: "(nat \<times> nat) set \<Rightarrow> ualloc \<Rightarrow> ualloc \<Rightarrow> bool" where
  "kept A s t \<longleftrightarrow> (\<forall>(a, n) \<in> A. \<forall>x. a + 8 \<le> x \<and> x < a + 8 * n \<longrightarrow> umem t (of_nat x) = umem s (of_nat x))"

lemma kept_trans: "kept A s t \<Longrightarrow> kept A t u \<Longrightarrow> kept A s u"
  by (fastforce simp: kept_def)

lemma in_heap_cong: "brk t = brk s \<Longrightarrow> in_heap lo t x = in_heap lo s x"
  by (simp add: in_heap_def)

lemma spatial_cong: "brk t = brk s \<Longrightarrow> spatial lo t F A = spatial lo s F A"
  by (simp add: spatial_def in_heap_def)

lemma spatial_heap:
  assumes "spatial lo s F A" "x \<in> set F \<union> A"
  shows "0 < snd x" "lo \<le> fst x" "fst x + 8 * snd x \<le> unat (brk s)"
  using assms by (auto simp: spatial_def in_heap_def)

lemma before_far: "before x y \<Longrightarrow> 0 < snd x \<Longrightarrow> far (fst x) (fst y) \<and> far (fst y) (fst x) \<and> fst x < fst y"
  by (auto simp: before_def far_def)

text \<open>The list with the static header in front, ordered by address.\<close>

lemma list_order:
  assumes "spatial lo s F A" "b + 8 \<le> lo"
  shows "sorted_wrt (\<lambda>x y. fst x + 8 \<le> fst y) ((b, 0) # F)"
proof -
  have "sorted_wrt (\<lambda>x y. fst x + 8 \<le> fst y) F"
  proof (rule sorted_wrt_mono_rel [of F before])
    fix x y assume "x \<in> set F" "before x y"
    then show "fst x + 8 \<le> fst y" using spatial_heap(1) [OF assms(1), of x] by (simp add: before_def)
  qed (use assms(1) in \<open>simp add: spatial_def\<close>)
  moreover have "b + 8 \<le> fst x" if "x \<in> set F" for x using spatial_heap(2) [OF assms(1), of x] that assms(2) by simp
  ultimately show ?thesis by simp
qed

text \<open>The place of a block of \<open>A\<close> in the list: after \<open>(pa, pn)\<close>.\<close>

lemma free_split:
  assumes ok: "heap_ok b lo s F A" and x: "(ba, bn) \<in> A"
  obtains us ys xs pa pn where "F = us @ ys" "(b, 0) # us = xs @ [(pa, pn)]" "\<forall>u \<in> set us. before u (ba, bn)" "\<forall>y \<in> set ys. before (ba, bn) y"
    "\<forall>z \<in> set (xs @ [(pa, pn)]). b \<le> fst z \<and> fst z + 8 \<le> ba \<and> fst z + 8 * snd z \<le> ba" "\<forall>z \<in> set ys. ba + 8 \<le> fst z"
    "\<forall>z \<in> set (xs @ (pa, pn) # (ba, bn) # ys). fst z + 8 \<le> 2147483648 \<and> fst z + 8 * snd z \<le> 2147483648"
proof -
  have sp: "spatial lo s F A" and lo: "0 < b" "b + 8 \<le> lo" "lo \<le> unat (brk s)" "unat (brk s) \<le> 2147483648"
    using ok by (simp_all add: heap_ok_def)
  obtain us ys where F: "F = us @ ys" and us: "\<forall>u \<in> set us. before u (ba, bn)" and ys: "\<forall>y \<in> set ys. before (ba, bn) y"
    using spatial_split [OF sp x] by blast
  obtain xs pa pn where p: "(b, 0) # us = xs @ [(pa, pn)]" by (metis rev_exhaust list.distinct(1) prod.exhaust)
  have ba: "0 < bn" "lo \<le> ba" "ba + 8 * bn \<le> unat (brk s)" using spatial_heap [OF sp, of "(ba, bn)"] x by auto
  have low: "b \<le> fst z \<and> fst z + 8 \<le> ba \<and> fst z + 8 * snd z \<le> ba" if "z \<in> set (xs @ [(pa, pn)])" for z
  proof -
    have "z = (b, 0) \<or> z \<in> set us" using that unfolding p [symmetric] by auto
    then show ?thesis using us lo ba spatial_heap(1,2) [OF sp, of z] F by (auto simp: before_def)
  qed
  have high: "ba + 8 \<le> fst z" if "z \<in> set ys" for z using ys that ba by (auto simp: before_def)
  have "fst z + 8 \<le> 2147483648 \<and> fst z + 8 * snd z \<le> 2147483648" if z: "z \<in> set (xs @ (pa, pn) # (ba, bn) # ys)" for z
  proof -
    consider "z \<in> set (xs @ [(pa, pn)])" | "z = (ba, bn)" | "z \<in> set ys" using z by auto
    then show ?thesis using low [of z] spatial_heap [OF sp, of z] F lo ba by cases auto
  qed
  with that [OF F p us ys] low high show thesis by blast
qed

lemma free_finds:
  assumes ok: "heap_ok b lo s F A" and F: "F = us @ ys" and p: "(b, 0) # us = xs @ [(pa, pn)]"
    and low: "\<forall>z \<in> set (xs @ [(pa, pn)]). b \<le> fst z \<and> fst z + 8 \<le> ba \<and> fst z + 8 * snd z \<le> ba" and high: "\<forall>z \<in> set ys. ba + 8 \<le> fst z"
    and l: "\<forall>z \<in> set (xs @ (pa, pn) # (ba, bn) # ys). fst z + 8 \<le> 2147483648 \<and> fst z + 8 * snd z \<le> 2147483648"
  shows "free_place (umem s) (of_nat ba) (freep s) = Some (of_nat pa)"
proof -
  have L: "(b, 0) # F = xs @ (pa, pn) # ys" using F p by simp
  have sp: "spatial lo s F A" "b + 8 \<le> lo" and c: "chain (umem s) (xs @ (pa, pn) # ys) b"
    and fr: "unat (freep s) \<in> fst ` set (xs @ (pa, pn) # ys)" using ok unfolding heap_ok_def L by simp_all
  have o: "sorted_wrt (\<lambda>x y. fst x < fst y) (xs @ (pa, pn) # ys)"
    using list_order [OF sp] unfolding L by (rule sorted_wrt_mono_rel [rotated]) simp
  have st: "start xs pa = b" using p by (cases xs) auto
  have "\<forall>z \<in> set (xs @ [(pa, pn)]). b \<le> fst z \<and> fst z < ba" using low by auto
  moreover have "\<forall>z \<in> set ys. ba < fst z \<and> fst z < 4294967296"
  proof
    fix z assume "z \<in> set ys"
    then show "ba < fst z \<and> fst z < 4294967296" using bspec [OF high, of z] bspec [OF l, of z] by simp
  qed
  ultimately have "free_place (umem s) (of_nat ba) (of_nat (unat (freep s))) = Some (of_nat pa)"
    using free_place_found [OF c o _ _ _ st fr] l by simp
  then show ?thesis by simp
qed

lemma free_new_list:
  assumes sp: "spatial lo s (us @ ys) A" and x: "(ba, bn) \<in> A" and p: "(b, 0) # us = xs @ [(pa, pn)]" and b: "b < ba"
    and us: "\<forall>u \<in> set us. before u (ba, bn)" and ys: "\<forall>y \<in> set ys. before (ba, bn) y"
  obtains F' where "(b, 0) # F' = xs @ glue (pa, pn) (glue (ba, bn) ys)" "spatial lo s F' (A - {(ba, bn)})"
    "\<exists>y \<in> set F'. bn \<le> snd y" "pa \<in> fst ` set ((b, 0) # F')"
proof -
  have i: "spatial lo s (us @ glue (ba, bn) ys) (A - {(ba, bn)})" by (intro spatial_glue spatial_insert sp x us ys)
  obtain n zs where g: "glue (ba, bn) ys = (ba, n) # zs" "bn \<le> n" using glue_shape [of "(ba, bn)" ys] by auto
  show thesis
  proof (cases xs)
    case Nil
    then have "us = []" "pa = b" "pn = 0" using p by auto
    with i b Nil g show thesis by (intro that [of "glue (ba, bn) ys"]) (auto simp: glue_def)
  next
    case (Cons z zs')
    then have u: "us = zs' @ [(pa, pn)]" "z = (b, 0)" using p by auto
    have "spatial lo s (zs' @ glue (pa, pn) (glue (ba, bn) ys)) (A - {(ba, bn)})" using i unfolding u by (intro spatial_glue) simp
    moreover have "\<exists>y \<in> set (glue (pa, pn) ((ba, n) # zs)). bn \<le> snd y" "pa \<in> fst ` set (glue (pa, pn) ((ba, n) # zs))"
      using g(2) by (auto simp: glue_def)
    ultimately show thesis using Cons u g(1) by (intro that [of "zs' @ glue (pa, pn) (glue (ba, bn) ys)"]) auto
  qed
qed

text \<open>What the write of a header keeps of the blocks handed out.\<close>

lemma header_kept:
  assumes "only_header pa m m'" "spatial lo s F A" "(pa, pn) \<in> set F \<or> pa + 8 \<le> lo \<or> (pa, pn) \<in> A \<and> (a, n) \<noteq> (pa, pn)"
    "unat (brk s) \<le> 2147483648" "(a, n) \<in> A"
  shows "siz m' a = siz m a" "a + 8 \<le> x \<Longrightarrow> x < a + 8 * n \<Longrightarrow> m' (of_nat x) = m (of_nat x)"
proof -
  have h: "0 < n" "lo \<le> a" "a + 8 * n \<le> unat (brk s)" using spatial_heap [OF assms(2), of "(a, n)"] assms(5) by auto
  have g: "pa + 8 \<le> a \<or> a + 8 * n \<le> pa"
  proof (cases "pa + 8 \<le> lo")
    case False
    then have "clear_of (a, n) (pa, pn)" "0 < pn" using assms(2,3,5) spatial_heap(1) [OF assms(2), of "(pa, pn)"] by (auto simp: spatial_def)
    then show ?thesis by (auto simp: clear_of_def before_def)
  qed (use h in simp)
  then have "far pa a" "a + 8 \<le> 4294967296" using h assms(4) by (auto simp: far_def)
  then show "siz m' a = siz m a" using assms(1) by (auto simp: only_header_def)
  assume x: "a + 8 \<le> x" "x < a + 8 * n"
  then have "x < pa \<or> pa + 8 \<le> x" "x < 4294967296" using g h assms(4) by auto
  then show "m' (of_nat x) = m (of_nat x)" using assms(1) by (auto simp: only_header_def)
qed

lemma ufree_ok:
  assumes ok: "heap_ok b lo s F A" and x: "(ba, bn) \<in> A"
  shows "\<exists>t F'. ufree (of_nat (ba + 8)) s = Some t \<and> heap_ok b lo t F' (A - {(ba, bn)}) \<and> kept (A - {(ba, bn)}) s t
    \<and> brk t = brk s \<and> (\<exists>y \<in> set F'. bn \<le> snd y)"
proof -
  obtain us ys xs pa pn where F: "F = us @ ys" and p: "(b, 0) # us = xs @ [(pa, pn)]"
    and us: "\<forall>u \<in> set us. before u (ba, bn)" and ys: "\<forall>y \<in> set ys. before (ba, bn) y"
    and low: "\<forall>z \<in> set (xs @ [(pa, pn)]). b \<le> fst z \<and> fst z + 8 \<le> ba \<and> fst z + 8 * snd z \<le> ba" and high: "\<forall>z \<in> set ys. ba + 8 \<le> fst z"
    and l: "\<forall>z \<in> set (xs @ (pa, pn) # (ba, bn) # ys). fst z + 8 \<le> 2147483648 \<and> fst z + 8 * snd z \<le> 2147483648"
    by (rule free_split [OF ok x])
  have L: "(b, 0) # F = xs @ (pa, pn) # ys" using F p by simp
  have c: "chain (umem s) (xs @ (pa, pn) # ys) b" and sp: "spatial lo s F A" and k: "\<forall>x \<in> A. siz (umem s) (fst x) = snd x"
    and lo: "0 < b" "b + 8 \<le> lo" "lo \<le> unat (brk s)" "unat (brk s) \<le> 2147483648"
    using ok unfolding heap_ok_def L by simp_all
  have o: "sorted_wrt (\<lambda>x y. fst x + 8 \<le> fst y) (xs @ (pa, pn) # ys)" using list_order [OF sp lo(2)] unfolding L .
  have kk: "siz (umem s) ba = bn" using k x by fastforce
  have far_b: "\<forall>z \<in> set (xs @ (pa, pn) # ys). far ba (fst z)" using low high by (fastforce simp: far_def)
  have far_p: "\<forall>z \<in> set (xs @ ys). far pa (fst z)" using o by (fastforce simp: far_def sorted_wrt_append)
  have "b < ba" using low by fastforce
  then obtain m1 m2 where m: "join_prev (of_nat ba) (of_nat pa) (join_next (of_nat ba) (of_nat pa) (umem s)) = m2"
      "only_header ba (umem s) m1" "only_header pa m1 m2" "chain m2 (xs @ glue (pa, pn) (glue (ba, bn) ys)) b"
    using free_links [OF c kk _ l far_b far_p] by blast
  obtain F' where F': "(b, 0) # F' = xs @ glue (pa, pn) (glue (ba, bn) ys)" "spatial lo s F' (A - {(ba, bn)})"
      "\<exists>y \<in> set F'. bn \<le> snd y" "pa \<in> fst ` set ((b, 0) # F')"
    using free_new_list [OF _ x p \<open>b < ba\<close> us ys] sp unfolding F by blast
  define t where "t = s\<lparr>umem := m2, freep := of_nat pa\<rparr>"
  have "free_place (umem s) (of_nat ba) (freep s) = Some (of_nat pa)" by (rule free_finds [OF ok F p low high l])
  then have u: "ufree (of_nat (ba + 8)) s = Some t" using m(1) by (simp add: ufree_def t_def)
  have pl: "(pa, pn) \<in> set F \<or> pa + 8 \<le> lo" using p F lo(2) by (cases xs) auto
  have hk: "siz m2 (fst z) = siz (umem s) (fst z)" "fst z + 8 \<le> i \<Longrightarrow> i < fst z + 8 * snd z \<Longrightarrow> m2 (of_nat i) = umem s (of_nat i)"
    if "z \<in> A - {(ba, bn)}" for z i
    using header_kept [OF m(2) sp _ lo(4), of bn "fst z" "snd z"] header_kept [OF m(3) sp _ lo(4), of pn "fst z" "snd z"] x pl that by auto
  have "siz m2 (fst z) = snd z" if "z \<in> A - {(ba, bn)}" for z using hk(1) [OF that] k that by simp
  moreover have "unat (of_nat pa :: uint) = pa" using l by (simp add: unat_of_nat)
  moreover have "spatial lo t F' (A - {(ba, bn)})" using F'(2) spatial_cong [of t s] by (simp add: t_def)
  ultimately have "heap_ok b lo t F' (A - {(ba, bn)})"
    using F'(4) m(4) lo unfolding heap_ok_def F'(1) by (simp add: t_def)
  moreover have "kept (A - {(ba, bn)}) s t" using hk(2) by (fastforce simp: kept_def t_def)
  ultimately show ?thesis using u F'(3) by (intro exI [of _ t] exI [of _ F']) (simp add: t_def)
qed

section \<open>Lemmas: taking a block\<close>

text \<open>A request for \<open>nu\<close> units has been served with the block at \<open>a\<close>.\<close>

definition served :: "nat \<Rightarrow> nat \<Rightarrow> ualloc \<Rightarrow> (nat \<times> nat) set \<Rightarrow> nat \<Rightarrow> uint \<Rightarrow> ualloc \<Rightarrow> bool" where
  "served b lo s A nu r t \<longleftrightarrow> (\<exists>F' a. r = of_nat (a + 8) \<and> lo \<le> a \<and> heap_ok b lo t F' (insert (a, nu) A)
     \<and> (\<forall>y \<in> A. clear_of (a, nu) y) \<and> kept A s t)"

lemma served_trans: "kept A s s' \<Longrightarrow> served b lo s' A nu r t \<Longrightarrow> served b lo s A nu r t"
  unfolding served_def using kept_trans by blast

lemma spatial_cut:
  assumes "spatial lo s (us @ (a, n) # ys) A" "0 < nu" "nu < n"
  shows "spatial lo s (us @ (a, n - nu) # ys) (insert (a + 8 * (n - nu), nu) A)" "\<forall>y \<in> A. clear_of (a + 8 * (n - nu), nu) y"
proof -
  show c: "\<forall>y \<in> A. clear_of (a + 8 * (n - nu), nu) y"
  proof
    fix y assume "y \<in> A"
    then have "clear_of y (a, n)" using assms(1) by (auto simp: spatial_def)
    then show "clear_of (a + 8 * (n - nu), nu) y" using assms(2,3) by (auto simp: clear_of_def before_def)
  qed
  have "clear_of y (a, n - nu)" if "y \<in> A" for y
  proof -
    have "clear_of y (a, n)" using assms(1) that by (auto simp: spatial_def)
    then show ?thesis using assms(2,3) by (auto simp: clear_of_def before_def)
  qed
  then show "spatial lo s (us @ (a, n - nu) # ys) (insert (a + 8 * (n - nu), nu) A)"
    using assms c by (auto simp: spatial_def sorted_wrt_append before_def in_heap_def clear_of_def)
qed

lemma take_exact:
  assumes ok: "heap_ok b lo s F A" and L: "(b, 0) # F = us @ q # (a, nu) # ys" and nu: "0 < nu"
  shows "case take_block (of_nat nu) (of_nat (fst q)) (of_nat a) s of (r, t) \<Rightarrow> served b lo s A nu r t"
proof -
  have c: "chain (umem s) (us @ q # (a, nu) # ys) b" and sp: "spatial lo s F A" and k: "\<forall>x \<in> A. siz (umem s) (fst x) = snd x"
    and lo: "0 < b" "b + 8 \<le> lo" "lo \<le> unat (brk s)" "unat (brk s) \<le> 2147483648"
    using ok unfolding heap_ok_def L by simp_all
  obtain us' where F: "F = us' @ (a, nu) # ys" "(b, 0) # us' = us @ [q]" using L by (cases us) auto
  have o: "sorted_wrt (\<lambda>x y. fst x + 8 \<le> fst y) (us @ q # (a, nu) # ys)" using list_order [OF sp lo(2)] unfolding L .
  have sp': "spatial lo s (us' @ ys) (insert (a, nu) A)" using spatial_remove sp unfolding F(1) by blast
  have a: "fst q + 8 \<le> a" "a + 8 * nu \<le> unat (brk s)" "lo \<le> a" using o spatial_heap [OF sp, of "(a, nu)"] F by (auto simp: sorted_wrt_append)
  have z: "fst z + 8 \<le> 4294967296" if "z \<in> set (us @ q # ys)" for z
  proof -
    have "z \<in> set ((b, 0) # F)" using that unfolding L by auto
    then show ?thesis using spatial_heap [OF sp, of z] lo by auto
  qed
  define m where "m = set_hptr (of_nat (fst q)) (of_nat (nxt (umem s) a)) (umem s)"
  have oh: "only_header (fst q) (umem s) m" unfolding m_def by (rule only_header_set) (use z in auto)
  have sz: "siz (umem s) a = nu" "nxt (umem s) a = start ys b" "siz (umem s) (fst q) = snd q" using c by (simp_all add: chain_append)
  have sl: "start ys b < 4294967296" using z lo by (cases ys) (force)+
  have "nxt m (fst q) = start ys b" "siz m (fst q) = snd q" using header_writes(1,2) [OF sl, of "fst q" "umem s"] sz unfolding m_def by simp_all
  moreover have "chain m us (fst q)" "chain m ys b"
    using chain_only [OF oh, of us] chain_only [OF oh, of ys] c o z by (auto simp: chain_append far_def sorted_wrt_append)
  ultimately have ch: "chain m ((b, 0) # us' @ ys) b" using F(2) by (metis append_Cons append_assoc append_Nil chain_append chain.simps(2) start.simps(2))
  have qs: "q \<in> set F \<or> fst q + 8 \<le> lo" using F lo by (cases us) auto
  have hk: "siz m (fst z) = siz (umem s) (fst z)" "fst z + 8 \<le> i \<Longrightarrow> i < fst z + 8 * snd z \<Longrightarrow> m (of_nat i) = umem s (of_nat i)"
    if "z \<in> A" for z i using header_kept [OF oh sp _ lo(4), of "snd q" "fst z" "snd z"] qs that by auto
  define t where "t = s\<lparr>umem := m, freep := of_nat (fst q)\<rparr>"
  have "siz m a = nu" using oh a lo sz(1) by (auto simp: only_header_def far_def)
  moreover have "q \<in> set ((b, 0) # us')" unfolding F(2) by simp
  then have "fst q \<in> fst ` set ((b, 0) # us' @ ys)" by auto
  moreover have "fst q < 4294967296" using z [of q] by simp
  ultimately have "heap_ok b lo t (us' @ ys) (insert (a, nu) A)"
    using ch lo sp' spatial_cong [of t s] k hk(1) unfolding heap_ok_def by (simp add: t_def unat_of_nat)
  moreover have "\<forall>y \<in> A. clear_of (a, nu) y" using sp unfolding F(1) by (auto simp: spatial_def clear_of_def)
  moreover have "kept A s t" using hk(2) by (fastforce simp: kept_def t_def)
  moreover have "take_block (of_nat nu) (of_nat (fst q)) (of_nat a) s = (of_nat (a + 8), t)"
    by (simp add: take_block_def hsize_siz sz(1) hptr_nxt t_def m_def)
  ultimately show ?thesis using a(3) unfolding served_def by auto
qed

lemma take_cut:
  assumes ok: "heap_ok b lo s F A" and L: "(b, 0) # F = us @ q # (a, n) # ys" and nu: "0 < nu" "nu < n"
  shows "case take_block (of_nat nu) (of_nat (fst q)) (of_nat a) s of (r, t) \<Rightarrow> served b lo s A nu r t"
proof -
  have c: "chain (umem s) (us @ q # (a, n) # ys) b" and sp: "spatial lo s F A" and k: "\<forall>x \<in> A. siz (umem s) (fst x) = snd x"
    and lo: "0 < b" "b + 8 \<le> lo" "lo \<le> unat (brk s)" "unat (brk s) \<le> 2147483648"
    using ok unfolding heap_ok_def L by simp_all
  obtain us' where F: "F = us' @ (a, n) # ys" "(b, 0) # us' = us @ [q]" using L by (cases us) auto
  have o: "sorted_wrt (\<lambda>x y. fst x + 8 \<le> fst y) (us @ q # (a, n) # ys)" using list_order [OF sp lo(2)] unfolding L .
  define d where "d = a + 8 * (n - nu)"
  have sp': "spatial lo s (us' @ (a, n - nu) # ys) (insert (d, nu) A)" "\<forall>y \<in> A. clear_of (d, nu) y"
    using spatial_cut [OF _ nu] sp unfolding F(1) d_def by blast+
  have a: "a + 8 * n \<le> unat (brk s)" "lo \<le> a" using spatial_heap [OF sp, of "(a, n)"] F by auto
  have d: "a + 8 \<le> d" "d + 8 * nu = a + 8 * n" "d + 8 \<le> 4294967296" using nu a lo by (auto simp: d_def)
  define m1 where "m1 = set_hsize (of_nat a) (of_nat (n - nu)) (umem s)"
  define m2 where "m2 = set_hsize (of_nat d) (of_nat nu) m1"
  have oh: "only_header a (umem s) m1" "only_header d m1 m2" unfolding m1_def m2_def by (rule only_header_set; use d in simp)+
  have w: "n < 4294967296" "nu < 4294967296" "n - nu < 4294967296" using nu a lo by auto
  have s0: "siz (umem s) a = n" "nxt (umem s) a = start ys b" using c by (simp_all add: chain_append)
  have s1: "siz m1 a = n - nu" "nxt m1 a = start ys b" unfolding m1_def using header_writes(3,4) [OF w(3), of a "umem s"] s0 by simp_all
  have s2: "siz m2 a = n - nu" "nxt m2 a = start ys b" using s1 oh(2) d by (auto simp: only_header_def far_def)
  have s3: "siz m2 d = nu" unfolding m2_def by (rule header_writes(4) [OF w(2)])
  have z: "far a (fst z) \<and> far d (fst z) \<and> fst z + 8 \<le> 4294967296" if "z \<in> set (us @ q # ys)" for z
  proof (cases "z \<in> set ys")
    case True
    then have "before (a, n) z" "fst z + 8 * snd z \<le> unat (brk s)" "0 < snd z" using sp spatial_heap [OF sp, of z] F(1) by (auto simp: spatial_def sorted_wrt_append)
    then show ?thesis using d nu lo by (auto simp: far_def before_def)
  next
    case False
    then have "fst z + 8 \<le> a" using that o by (auto simp: sorted_wrt_append)
    then show ?thesis using d a lo by (auto simp: far_def)
  qed
  have "chain m2 (us @ [q]) a" "chain m2 ys b"
    using c chain_only [OF oh(1), of "us @ [q]" a] chain_only [OF oh(2), of "us @ [q]" a] chain_only [OF oh(1), of ys b] chain_only [OF oh(2), of ys b] z
    by (auto simp: chain_append)
  then have "chain m2 ((us @ [q]) @ (a, n - nu) # ys) b" using s2 by (simp add: chain_append)
  then have ch: "chain m2 ((b, 0) # us' @ (a, n - nu) # ys) b" unfolding F(2) [symmetric] by simp
  define t where "t = s\<lparr>umem := m2, freep := of_nat (fst q)\<rparr>"
  have hk: "siz m2 (fst z) = siz (umem s) (fst z)" "fst z + 8 \<le> i \<Longrightarrow> i < fst z + 8 * snd z \<Longrightarrow> m2 (of_nat i) = umem s (of_nat i)"
    if "z \<in> A" for z i
  proof -
    have "z \<noteq> (d, nu)" using sp'(2) that nu by (auto simp: clear_of_def before_def)
    then show "siz m2 (fst z) = siz (umem s) (fst z)" "fst z + 8 \<le> i \<Longrightarrow> i < fst z + 8 * snd z \<Longrightarrow> m2 (of_nat i) = umem s (of_nat i)"
      using header_kept [OF oh(1) sp _ lo(4), of n "fst z" "snd z"] header_kept [OF oh(2) sp'(1) _ lo(4), of nu "fst z" "snd z"] that F(1) by auto
  qed
  have "q \<in> set ((b, 0) # us')" unfolding F(2) by simp
  then have "fst q \<in> fst ` set ((b, 0) # us' @ (a, n - nu) # ys)" by auto
  moreover have "fst q < 4294967296" using z [of q] by simp
  ultimately have "heap_ok b lo t (us' @ (a, n - nu) # ys) (insert (d, nu) A)"
    using ch lo sp'(1) spatial_cong [of t s] k hk(1) s3 unfolding heap_ok_def by (simp add: t_def unat_of_nat)
  moreover have "kept A s t" using hk(2) by (fastforce simp: kept_def t_def)
  moreover have "take_block (of_nat nu) (of_nat (fst q)) (of_nat a) s = (of_nat (d + 8), t)"
  proof -
    have e: "(of_nat n - of_nat nu :: uint) = of_nat (n - nu)" using nu by simp
    have f: "of_nat a + 8 * of_nat (n - nu) = (of_nat d :: uint)" by (simp only: d_def of_nat_add of_nat_mult of_nat_numeral)
    show ?thesis using w nu unfolding take_block_def Let_def hsize_siz s0(1) e m1_def [symmetric] s1(1) f m2_def [symmetric] by (simp add: t_def)
  qed
  moreover have "lo \<le> d" using a d by simp
  ultimately show ?thesis using sp'(2) unfolding served_def by auto
qed

section \<open>Lemmas: the walk of \<open>malloc\<close>\<close>

text \<open>The walk passes blocks that are too small.\<close>

lemma walk_small:
  assumes "chain (umem s) (W1 @ x # W2) e" "\<forall>w \<in> set W1. snd w < nu \<and> fst w < 4294967296" "nu < 4294967296"
    "unat (freep s) \<notin> fst ` set W1"
  shows "malloc_loop sbrk (of_nat nu) (of_nat q) (of_nat (start W1 (fst x))) s
    = malloc_loop sbrk (of_nat nu) (of_nat (last (q # map fst W1))) (of_nat (fst x)) s"
  using assms
proof (induction W1 arbitrary: q)
  case (Cons w W1)
  have n: "siz (umem s) (fst w) = snd w" "nxt (umem s) (fst w) = start W1 (fst x)" using Cons.prems(1) by (simp_all add: start_append)
  have w: "snd w < nu" "fst w < 4294967296" using Cons.prems(2) by simp_all
  have "unat (of_nat (fst w) :: uint) = fst w" using w(2) by (simp add: unat_of_nat)
  then have ne: "of_nat (fst w) \<noteq> freep s" using Cons.prems(4) by auto
  have "malloc_loop sbrk (of_nat nu) (of_nat q) (of_nat (fst w)) s = malloc_loop sbrk (of_nat nu) (of_nat (fst w)) (of_nat (start W1 (fst x))) s"
    using w Cons.prems(3) ne by (subst malloc_loop.simps) (simp add: hsize_siz hptr_nxt n)
  moreover have "malloc_loop sbrk (of_nat nu) (of_nat (fst w)) (of_nat (start W1 (fst x))) s
    = malloc_loop sbrk (of_nat nu) (of_nat (last (fst w # map fst W1))) (of_nat (fst x)) s"
    by (rule Cons.IH) (use Cons.prems in auto)
  ultimately show ?case by simp
qed simp

text \<open>The list in the order of the walk: it starts after the block \<open>freep\<close> points to and ends with this block.\<close>

lemma walk_order:
  assumes "heap_ok b lo s F A"
  obtains us f vs where "(b, 0) # F = us @ f # vs" "unat (freep s) = fst f" "chain (umem s) (vs @ us @ [f]) (start vs b)" "start (vs @ us @ [f]) b = start vs b"
    "start (us @ [f]) b = b"
proof -
  have c: "chain (umem s) ((b, 0) # F) b" "unat (freep s) \<in> fst ` set ((b, 0) # F)" using assms by (simp_all add: heap_ok_def)
  from c(2) obtain f where f: "f \<in> set ((b, 0) # F)" "unat (freep s) = fst f" by (rule imageE) blast
  then obtain us vs where L: "(b, 0) # F = us @ f # vs" by (meson split_list)
  have st: "start (us @ [f]) b = b" using L by (cases us) auto
  have "chain (umem s) us (fst f)" "nxt (umem s) (fst f) = start vs b" "siz (umem s) (fst f) = snd f" "chain (umem s) vs b"
    using c(1) unfolding L by (simp_all add: chain_append)
  moreover have "start us (fst f) = b" using L by (cases us) auto
  ultimately have "chain (umem s) (vs @ us @ [f]) (start vs b)" by (simp add: chain_append start_append)
  moreover have "start (vs @ us @ [f]) b = start vs b" using st by (simp add: start_append)
  ultimately show thesis using that L f(2) st by blast
qed

text \<open>The first block in this order that is large enough, with the block before it in the list.\<close>

lemma first_fit:
  assumes L: "(b, 0 :: nat) # F = us @ f # vs" and y: "y \<in> set F" "nu \<le> snd y" and nu: "0 < nu"
  obtains W1 x W2 us' q ys' where "vs @ us @ [f] = W1 @ x # W2" "\<forall>w \<in> set W1. snd w < nu" "nu \<le> snd x"
    "(b, 0) # F = us' @ q # x # ys'" "fst q = last (fst f # map fst W1)"
proof -
  have "y \<in> set (vs @ us @ [f])" using y(1) arg_cong [OF L, of set] by auto
  then have "\<exists>y \<in> set (vs @ us @ [f]). nu \<le> snd y" using y(2) by blast
  then obtain W1 x W2 where W: "vs @ us @ [f] = W1 @ x # W2" "nu \<le> snd x" "\<forall>w \<in> set W1. snd w < nu"
    using split_list_first_prop [of "vs @ us @ [f]" "\<lambda>y. nu \<le> snd y"] by (metis not_le)
  have "\<exists>us' q ys'. (b, 0) # F = us' @ q # x # ys' \<and> fst q = last (fst f # map fst W1)"
  proof (cases "length W1 < length vs")
    case True
    then obtain vs' where v: "vs = W1 @ x # vs'" using W(1) by (auto simp: append_eq_append_conv2 append_eq_Cons_conv Cons_eq_append_conv)
    then have "(b, 0) # F = (us @ butlast (f # W1)) @ last (f # W1) # x # vs'" using L by simp
    moreover have "fst (last (f # W1)) = last (fst f # map fst W1)" by (metis last_map list.distinct(1) list.simps(9))
    ultimately show ?thesis by blast
  next
    case False
    then have "vs = take (length vs) W1 \<and> us @ [f] = drop (length vs) W1 @ x # W2" 
      using W(1) append_eq_append_conv_if [of vs "us @ [f]" W1 "x # W2"] by (simp only: not_less if_True)
    then obtain W1' where w: "W1 = vs @ W1'" "us @ [f] = W1' @ x # W2" by (metis append_take_drop_id)
    have "W1' \<noteq> []"
    proof
      assume "W1' = []"
      then have "x = (b, 0)" using w(2) L by (cases us) auto
      then show False using W(2) nu by simp
    qed
    then have "(b, 0) # F = butlast W1' @ last W1' # x # W2 @ vs" using L w(2) by (metis append_Cons append_assoc append_butlast_last_id append_Nil)
    moreover have "fst (last W1') = last (fst f # map fst W1)" using \<open>W1' \<noteq> []\<close> w(1) by (simp add: last_map)
    ultimately show ?thesis by blast
  qed
  then show thesis using that W by blast
qed

lemma list_addresses:
  assumes "heap_ok b lo s F A"
  shows "distinct (map fst ((b, 0) # F))" "z \<in> set ((b, 0) # F) \<Longrightarrow> fst z < 4294967296 \<and> snd z < 4294967296"
proof -
  have sp: "spatial lo s F A" "b + 8 \<le> lo" "lo \<le> unat (brk s)" "unat (brk s) \<le> 2147483648" using assms by (simp_all add: heap_ok_def)
  have "sorted_wrt (<) (map fst ((b, 0) # F))"
    unfolding sorted_wrt_map by (rule sorted_wrt_mono_rel [OF _ list_order [OF sp(1,2)]]) simp
  then show "distinct (map fst ((b, 0) # F))" unfolding strict_sorted_iff by (rule conjunct2)
  show "z \<in> set ((b, 0) # F) \<Longrightarrow> fst z < 4294967296 \<and> snd z < 4294967296" using spatial_heap [OF sp(1), of z] sp by auto
qed

lemma loop_fits:
  assumes ok: "heap_ok b lo s F A" and y: "y \<in> set F" "nu \<le> snd y" and nu: "0 < nu" "nu < 4294967296"
  shows "\<exists>r t. malloc_loop sbrk (of_nat nu) (freep s) (hptr (umem s) (freep s)) s = Some (r, t) \<and> served b lo s A nu r t"
proof -
  obtain us f vs where f: "(b, 0) # F = us @ f # vs" "unat (freep s) = fst f" "chain (umem s) (vs @ us @ [f]) (start vs b)" by (rule walk_order [OF ok])
  obtain W1 x W2 us' q ys' where W: "vs @ us @ [f] = W1 @ x # W2" "\<forall>w \<in> set W1. snd w < nu" "nu \<le> snd x"
    "(b, 0) # F = us' @ q # x # ys'" "fst q = last (fst f # map fst W1)" by (rule first_fit [OF f(1) y nu(1)])
  have fe: "freep s = of_nat (fst f)" unfolding f(2) [symmetric] by simp
  have c: "chain (umem s) (W1 @ x # W2) (start vs b)" using f(3) W(1) by simp
  have d: "distinct (map fst (W1 @ x # W2))" using list_addresses(1) [OF ok] unfolding f(1) W(1) [symmetric] by auto
  have "last (W1 @ x # W2) = f" unfolding W(1) [symmetric] by simp
  then have "f \<in> set (x # W2)" by (metis last_appendR last_in_set list.distinct(1))
  then have nf: "unat (freep s) \<notin> fst ` set W1" using d f(2) by auto
  have sub: "set (W1 @ x # W2) \<subseteq> set ((b, 0) # F)" unfolding f(1) W(1) [symmetric] by auto
  have small: "\<forall>w \<in> set W1. snd w < nu \<and> fst w < 4294967296" 
  proof
    fix w assume w: "w \<in> set W1"
    then have "w \<in> set ((b, 0) # F)" using sub by auto
    from list_addresses(2) [OF ok this] W(2) w show "snd w < nu \<and> fst w < 4294967296" by blast
  qed
  have xs: "siz (umem s) (fst x) = snd x" "snd x < 4294967296" using c list_addresses(2) [OF ok, of x] sub by (auto simp: chain_append)
  have h: "hptr (umem s) (freep s) = of_nat (start W1 (fst x))"
  proof -
    have "nxt (umem s) (fst f) = start vs b" using f(3) by (simp add: chain_append)
    also have "start vs b = start (W1 @ x # W2) b" unfolding W(1) [symmetric] using f(1) by (cases vs; cases us) auto
    finally show ?thesis by (simp add: fe hptr_nxt start_append)
  qed
  have "malloc_loop sbrk (of_nat nu) (freep s) (hptr (umem s) (freep s)) s = malloc_loop sbrk (of_nat nu) (of_nat (fst q)) (of_nat (fst x)) s"
    unfolding h W(5) by (subst fe) (rule walk_small [OF c small nu(2) nf])
  also have "\<dots> = Some (take_block (of_nat nu) (of_nat (fst q)) (of_nat (fst x)) s)"
    using W(3) nu(2) xs by (subst malloc_loop.simps) (simp add: hsize_siz)
  finally have e: "malloc_loop sbrk (of_nat nu) (freep s) (hptr (umem s) (freep s)) s = Some (take_block (of_nat nu) (of_nat (fst q)) (of_nat (fst x)) s)" .
  have L: "(b, 0) # F = us' @ q # (fst x, snd x) # ys'" using W(4) by simp
  have "case take_block (of_nat nu) (of_nat (fst q)) (of_nat (fst x)) s of (r, t) \<Rightarrow> served b lo s A nu r t"
  proof (cases "nu = snd x")
    case True
    show ?thesis by (rule take_exact [OF ok L [folded True] nu(1)])
  next
    case False
    with W(3) show ?thesis by (intro take_cut [OF ok L nu(1)]) simp
  qed
  then show ?thesis using e by (auto split: prod.splits)
qed

lemma loop_small:
  assumes ok: "heap_ok b lo s F A" and y: "\<forall>y \<in> set F. snd y < nu" and nu: "0 < nu" "nu < 4294967296"
  shows "malloc_loop sbrk (of_nat nu) (freep s) (hptr (umem s) (freep s)) s =
    Option.bind (morecore sbrk (of_nat nu) s) (\<lambda>(q, t). if q = 0 then Some (0, t) else malloc_loop sbrk (of_nat nu) q (hptr (umem t) q) t)"
proof -
  obtain us f vs where f: "(b, 0) # F = us @ f # vs" "unat (freep s) = fst f" "chain (umem s) (vs @ us @ [f]) (start vs b)" by (rule walk_order [OF ok])
  have fe: "freep s = of_nat (fst f)" unfolding f(2) [symmetric] by simp
  have c: "chain (umem s) ((vs @ us) @ f # []) (start vs b)" using f(3) by simp
  have sub: "set ((vs @ us) @ [f]) = set ((b, 0) # F)" unfolding f(1) by auto
  have all: "snd w < nu \<and> fst w < 4294967296 \<and> snd w < 4294967296" if w: "w \<in> set ((vs @ us) @ [f])" for w
  proof -
    have "w \<in> set ((b, 0) # F)" using w unfolding sub .
    then show ?thesis using y nu list_addresses(2) [OF ok, of w] by auto
  qed
  have nf: "unat (freep s) \<notin> fst ` set (vs @ us)" using list_addresses(1) [OF ok] f(2) unfolding f(1) by auto
  have xs: "siz (umem s) (fst f) = snd f" "nxt (umem s) (fst f) = start vs b" using f(3) by (auto simp: chain_append)
  have st: "start vs b = start (vs @ us) (fst f)" using f(1) by (cases vs; cases us) auto
  have "malloc_loop sbrk (of_nat nu) (freep s) (hptr (umem s) (freep s)) s = malloc_loop sbrk (of_nat nu) (of_nat (fst f)) (of_nat (start (vs @ us) (fst f))) s"
    by (simp add: fe hptr_nxt xs(2) st)
  also have "\<dots> = malloc_loop sbrk (of_nat nu) (of_nat (last (fst f # map fst (vs @ us)))) (of_nat (fst f)) s"
    by (rule walk_small [OF c _ nu(2) nf]) (use all in auto)
  also have "\<dots> = Option.bind (morecore sbrk (of_nat nu) s) (\<lambda>(q, t). if q = 0 then Some (0, t) else malloc_loop sbrk (of_nat nu) q (hptr (umem t) q) t)"
    using all [of f] nu(2) by (subst malloc_loop.simps) (simp add: hsize_siz xs(1) fe)
  finally show ?thesis .
qed

lemma freep_nonzero:
  assumes "heap_ok b lo s F A"
  shows "freep s \<noteq> 0"
proof -
  have h: "unat (freep s) \<in> fst ` set ((b, 0) # F)" "0 < b" "b + 8 \<le> lo" "spatial lo s F A" using assms by (simp_all add: heap_ok_def)
  have "0 < fst z" if "z \<in> set ((b, 0) # F)" for z using that h spatial_heap(2) [OF h(4), of z] by auto
  then have "0 < unat (freep s)" using h(1) by (metis imageE)
  then show ?thesis by auto
qed

section \<open>Lemmas: requests\<close>

text \<open>A program between two calls; before the first one the list is not set up.\<close>

definition ready :: "nat \<Rightarrow> nat \<Rightarrow> ualloc \<Rightarrow> (nat \<times> nat) set \<Rightarrow> bool" where
  "ready b lo s A \<longleftrightarrow> (\<exists>F. heap_ok b lo s F A)
     \<or> freep s = 0 \<and> A = {} \<and> 0 < b \<and> b + 8 \<le> lo \<and> lo \<le> unat (brk s) \<and> unat (brk s) \<le> 2147483648"

lemma units_nat:
  assumes "unat n \<le> 1073741824"
  shows "unat (units n) = (unat n + 7) div 8 + 1"
proof -
  have "unat (n + 8 - 1) = unat n + 7" using assms unat_add_nat [of n 7] by (simp add: algebra_simps)
  then have "unat ((n + 8 - 1) div 8) = (unat n + 7) div 8" by (simp add: unat_div)
  then show ?thesis using assms unat_add_nat [of "(n + 8 - 1) div 8" 1] by (simp add: units_def)
qed

lemma malloc_starts:
  assumes "ready b lo s A"
  shows "\<exists>s' F. malloc sbrk (of_nat b) n s = malloc_loop sbrk (units n) (freep s') (hptr (umem s') (freep s')) s' \<and> heap_ok b lo s' F A \<and> kept A s s'"
proof (cases "freep s = 0")
  case True
  then have r: "A = {}" "0 < b" "b + 8 \<le> lo" "lo \<le> unat (brk s)" "unat (brk s) \<le> 2147483648" using assms freep_nonzero by (auto simp: ready_def)
  define m where "m = set_hsize (of_nat b) 0 (set_hptr (of_nat b) (of_nat b) (umem s))"
  define s' where "s' = s\<lparr>umem := m, freep := of_nat b\<rparr>"
  have b: "b < 4294967296" using r by simp
  have "nxt m b = b" "siz m b = 0"
    using header_writes(1) [OF b, of b "umem s"] header_writes(3,4) [of 0 b "set_hptr (of_nat b) (of_nat b) (umem s)"] by (simp_all add: m_def)
  then have "heap_ok b lo s' [] A" using r b by (simp add: heap_ok_def s'_def spatial_def unat_of_nat)
  moreover have "malloc sbrk (of_nat b) n s = malloc_loop sbrk (units n) (freep s') (hptr (umem s') (freep s')) s'"
    using True by (simp add: malloc_def s'_def m_def)
  ultimately show ?thesis using r(1) by (auto simp: kept_def)
next
  case False
  then obtain F where "heap_ok b lo s F A" using assms by (auto simp: ready_def)
  then show ?thesis using False by (intro exI [of _ s] exI [of _ F]) (simp add: malloc_def kept_def)
qed

section \<open>The break\<close>

lemma unat_of_positive:
  assumes "0 < sint (n :: uint)"
  shows "unat n < 2147483648"
proof -
  have "sint n = uint n \<or> sint n = uint n - 4294967296"
    using signed_take_bit_eq_take_bit_minus [of 31 "uint n"] take_bit_int_eq_self [of "uint n" 32] uint_lt2p [of n] by (simp add: sint_uint)
  then have "sint n = uint n" using assms uint_lt2p [of n] by auto
  then have "uint n < 2147483648" using sint_lt [of n] by simp
  then show ?thesis unfolding uint_nat by linarith
qed

lemma header_same:
  assumes "\<forall>x. a \<le> x \<and> x < a + 8 \<longrightarrow> m' (of_nat x) = m (of_nat x)"
  shows "nxt m' a = nxt m a" "siz m' a = siz m a"
proof -
  have b: "m' (of_nat a + of_nat i) = m (of_nat a + of_nat i)" if "i < 8" for i
    using assms that by (metis add_less_cancel_left le_add1 of_nat_add)
  show "nxt m' a = nxt m a" "siz m' a = siz m a"
    using b [of 0] b [of 1] b [of 2] b [of 3] b [of 4] b [of 5] b [of 6] b [of 7]
    by (simp_all add: nxt_def siz_def hptr_def hsize_def load32_def add.assoc)
qed

lemma sint_positive: "0 < n \<Longrightarrow> n < 2147483648 \<Longrightarrow> 0 < sint (of_nat n :: uint)"
  by (simp add: signed_of_nat signed_take_bit_int_eq_self)

text \<open>What the allocator relies on when it asks for more memory: a request is refused and nothing changes, or the break moves up and the memory below it stays.\<close>

locale break_provider =
  fixes sbrk :: "uint \<Rightarrow> ualloc \<Rightarrow> uint \<times> ualloc"
  assumes sbrk_moves: "0 < sint n \<Longrightarrow> unat (brk s) \<le> 2147483648 \<Longrightarrow> sbrk n s = (r, t) \<Longrightarrow> r \<noteq> - 1 \<Longrightarrow>
      r = brk s \<and> freep t = freep s \<and> unat (brk t) = unat (brk s) + unat n \<and> unat (brk t) \<le> 2147483648
      \<and> (\<forall>x < unat (brk s). umem t (of_nat x) = umem s (of_nat x))"
    and sbrk_refuses: "unat (brk s) \<le> 2147483648 \<Longrightarrow> sbrk n s = (- 1, t) \<Longrightarrow> t = s"
begin

lemma new_block:
  assumes ok: "heap_ok b lo s F A" and r: "sbrk (of_nat (8 * nu)) s = (r, t)" "r \<noteq> - 1" and nu: "0 < nu" "8 * nu < 2147483648"
  defines "a \<equiv> unat (brk s)"
  shows "r = of_nat a" "heap_ok b lo (t\<lparr>umem := set_hsize r (of_nat nu) (umem t)\<rparr>) F (insert (a, nu) A)"
    "kept A s (t\<lparr>umem := set_hsize r (of_nat nu) (umem t)\<rparr>)" "(a, nu) \<notin> A"
proof -
  have c: "chain (umem s) ((b, 0) # F) b" and sp: "spatial lo s F A" and k: "\<forall>x \<in> A. siz (umem s) (fst x) = snd x"
    and lo: "0 < b" "b + 8 \<le> lo" "lo \<le> a" "a \<le> 2147483648" and fr: "unat (freep s) \<in> fst ` set ((b, 0) # F)"
    using ok by (simp_all add: heap_ok_def a_def)
  have t: "r = brk s" "freep t = freep s" "unat (brk t) = a + 8 * nu" "unat (brk t) \<le> 2147483648" "\<forall>x < a. umem t (of_nat x) = umem s (of_nat x)"
    using sbrk_moves [OF sint_positive [of "8 * nu"] _ r] nu lo(4) by (auto simp: a_def unat_of_nat simp del: of_nat_mult)
  show ra: "r = of_nat a" by (simp add: t(1) a_def)
  define m where "m = set_hsize r (of_nat nu) (umem t)"
  have same: "m (of_nat x) = umem s (of_nat x)" if "x < a" for x
    using set_header_other(2) [of a x] that t(5) lo(4) by (simp add: m_def ra)
  have h: "nxt m (fst z) = nxt (umem s) (fst z) \<and> siz m (fst z) = siz (umem s) (fst z)" if "z \<in> set ((b, 0) # F) \<union> A" for z
  proof -
    have "fst z + 8 \<le> a" using that spatial_heap [OF sp, of z] lo by (auto simp: a_def)
    then show ?thesis using header_same [of "fst z" m "umem s"] same by auto
  qed
  have "in_heap lo (t\<lparr>umem := m\<rparr>) z \<and> before z (a, nu)" if "z \<in> set F \<union> A" for z
    using spatial_heap [OF sp that] t(3) by (simp add: in_heap_def before_def a_def)
  moreover have "in_heap lo (t\<lparr>umem := m\<rparr>) (a, nu)" using nu lo t(3) by (simp add: in_heap_def)
  ultimately have "spatial lo (t\<lparr>umem := m\<rparr>) F (insert (a, nu) A)" using sp unfolding spatial_def clear_of_def by auto
  moreover have "chain m ((b, 0) # F) b" using c chain_cong [of "(b, 0) # F" m "umem s" b] h by blast
  moreover have "siz m a = nu" unfolding m_def ra by (rule header_writes(4)) (use nu in simp)
  moreover have "\<forall>x \<in> A. siz m (fst x) = snd x" using h k by simp
  ultimately show "heap_ok b lo (t\<lparr>umem := set_hsize r (of_nat nu) (umem t)\<rparr>) F (insert (a, nu) A)"
    using t lo fr unfolding heap_ok_def m_def [symmetric] by simp
  show "kept A s (t\<lparr>umem := set_hsize r (of_nat nu) (umem t)\<rparr>)"
    using same spatial_heap(3) [OF sp] unfolding m_def [symmetric] by (fastforce simp: kept_def a_def)
  show "(a, nu) \<notin> A" using spatial_heap(1,3) [OF sp, of "(a, nu)"] nu by (auto simp: a_def)
qed

lemma morecore_ok:
  assumes ok: "heap_ok b lo s F A" and nu: "0 < nu" "8 * nu < 2147483648"
  shows "\<exists>r t F'. morecore sbrk (of_nat nu) s = Some (r, t) \<and> heap_ok b lo t F' A \<and> kept A s t
    \<and> (r = 0 \<or> r = freep t \<and> r \<noteq> 0 \<and> (\<exists>y \<in> set F'. nu \<le> snd y))"
proof -
  define k where "k = (if nu < 4096 then 4096 else nu)"
  have k: "nu \<le> k" "0 < k" "8 * k < 2147483648" using nu by (auto simp: k_def)
  have e: "(if (of_nat nu :: uint) < 4096 then 4096 else of_nat nu) = (of_nat k :: uint)"
    using nu by (simp add: k_def word_less_nat_alt unat_of_nat)
  obtain p t where p: "sbrk (of_nat (8 * k)) s = (p, t)" by force
  have p': "sbrk (of_nat k * 8) s = (p, t)" using p by (simp add: mult.commute)
  show ?thesis
  proof (cases "p = - 1")
    case True
    then have "t = s" using p sbrk_refuses ok by (simp add: heap_ok_def)
    then have "morecore sbrk (of_nat nu) s = Some (0, s)" using p' True by (simp add: morecore_def Let_def e)
    then show ?thesis using ok by (auto simp: kept_def)
  next
    case False
    note nb = new_block [OF ok p False k(2,3)]
    define u where "u = t\<lparr>umem := set_hsize p (of_nat k) (umem t)\<rparr>"
    obtain v F' where v: "ufree (of_nat (unat (brk s) + 8)) u = Some v" "heap_ok b lo v F' (insert (unat (brk s), k) A - {(unat (brk s), k)})"
        "kept (insert (unat (brk s), k) A - {(unat (brk s), k)}) u v" "\<exists>y \<in> set F'. k \<le> snd y"
      using ufree_ok [OF nb(2), of "unat (brk s)" k] unfolding u_def [symmetric] by auto
    have "insert (unat (brk s), k) A - {(unat (brk s), k)} = A" using nb(4) by simp
    then have h: "heap_ok b lo v F' A" "kept A u v" using v by simp_all
    have "freep v \<noteq> 0" by (rule freep_nonzero [OF h(1)])
    moreover have "morecore sbrk (of_nat nu) s = Some (freep v, v)"
      using p' False v(1) nb(1) by (simp add: morecore_def Let_def e u_def)
    moreover have "kept A s v" using kept_trans [OF nb(3) h(2) [unfolded u_def]] .
    ultimately show ?thesis using h(1) v(4) k(1) by (intro exI [of _ "freep v"] exI [of _ v] exI [of _ F']) force
  qed
qed

lemma malloc_loop_ok:
  assumes ok: "heap_ok b lo s F A" and nu: "0 < nu" "8 * nu < 2147483648"
  shows "\<exists>r t. malloc_loop sbrk (of_nat nu) (freep s) (hptr (umem s) (freep s)) s = Some (r, t)
    \<and> (r = 0 \<and> (\<exists>F'. heap_ok b lo t F' A) \<and> kept A s t \<or> served b lo s A nu r t)"
proof (cases "\<exists>y \<in> set F. nu \<le> snd y")
  case True
  then show ?thesis using loop_fits [OF ok _ _ nu(1)] nu(2) by fastforce
next
  case False
  obtain r t F' where m: "morecore sbrk (of_nat nu) s = Some (r, t)" "heap_ok b lo t F' A" "kept A s t"
      "r = 0 \<or> r = freep t \<and> r \<noteq> 0 \<and> (\<exists>y \<in> set F'. nu \<le> snd y)" using morecore_ok [OF ok nu] by blast
  have l: "malloc_loop sbrk (of_nat nu) (freep s) (hptr (umem s) (freep s)) s = (if r = 0 then Some (0, t) else malloc_loop sbrk (of_nat nu) r (hptr (umem t) r) t)"
    using loop_small [OF ok _ nu(1)] False nu(2) m(1) by (simp add: not_le)
  show ?thesis
  proof (cases "r = 0")
    case True
    then show ?thesis using l m(2,3) by auto
  next
    case False
    then obtain y where y: "r = freep t" "y \<in> set F'" "nu \<le> snd y" using m(4) by blast
    obtain r' t' where "malloc_loop sbrk (of_nat nu) (freep t) (hptr (umem t) (freep t)) t = Some (r', t')" "served b lo t A nu r' t'"
      using loop_fits [OF m(2) y(2,3) nu(1), of sbrk] nu(2) by auto
    then show ?thesis using l False y(1) served_trans [OF m(3)] by auto
  qed
qed

lemma malloc_ok:
  assumes r: "ready b lo s A" and n: "unat n \<le> 1073741824"
  shows "\<exists>r t. malloc sbrk (of_nat b) n s = Some (r, t) \<and> (r = 0 \<and> ready b lo t A \<and> kept A s t \<or> served b lo s A (unat (units n)) r t)"
proof -
  have u: "0 < unat (units n)" "8 * unat (units n) < 2147483648" using units_nat [OF n] n by auto
  have e: "units n = of_nat (unat (units n))" by simp
  obtain s' F where s': "malloc sbrk (of_nat b) n s = malloc_loop sbrk (units n) (freep s') (hptr (umem s') (freep s')) s'"
      "heap_ok b lo s' F A" "kept A s s'"
    using malloc_starts [OF r, of sbrk n] by blast
  from malloc_loop_ok [OF s'(2) u] obtain r t where
    "malloc_loop sbrk (units n) (freep s') (hptr (umem s') (freep s')) s' = Some (r, t)"
    "r = 0 \<and> (\<exists>F'. heap_ok b lo t F' A) \<and> kept A s' t \<or> served b lo s' A (unat (units n)) r t" unfolding e [symmetric] by blast
  then show ?thesis using s'(1) kept_trans [OF s'(3), of t] served_trans [OF s'(3)] by (auto simp: ready_def)
qed

end

interpretation us: break_provider "user_sbrk room" for room
proof
  fix n s r t
  assume n: "0 < sint n" and b: "unat (brk s) \<le> 2147483648" and r: "user_sbrk room n s = (r, t)" "r \<noteq> - 1"
  have nn: "unat n < 2147483648" by (rule unat_of_positive [OF n])
  have e: "unat (brk s + n) = unat (brk s) + unat n" using nn b by (simp add: unat_word_ariths)
  then have nw: "\<not> brk s + n < brk s" by (simp add: word_less_nat_alt)
  have k: "brk s + n < KERNBASE" using r n by (auto simp: user_sbrk_def Let_def not_le split: if_splits)
  then have kk: "unat (brk s) + unat n < 2147483648" using e by (simp add: word_less_nat_alt)
  have t: "r = brk s" "t = s\<lparr>brk := brk s + n, umem := (\<lambda>a. if PGROUNDUP (brk s) \<le> a \<and> PGROUNDDOWN a < brk s + n then 0 else umem s a)\<rparr>"
    using r n k nw by (auto simp: user_sbrk_def Let_def split: if_splits)
  have "umem t (of_nat x) = umem s (of_nat x)" if "x < unat (brk s)" for x
  proof -
    have "unat (brk s) \<le> unat (PGROUNDUP (brk s))" using unat_PGROUNDUP [of "brk s"] b by simp
    then have "\<not> PGROUNDUP (brk s) \<le> of_nat x" using that unat_u32 [of "brk s"] by (simp add: word_le_nat_alt unat_of_nat)
    then show ?thesis by (simp add: t(2))
  qed
  then show "r = brk s \<and> freep t = freep s \<and> unat (brk t) = unat (brk s) + unat n \<and> unat (brk t) \<le> 2147483648
      \<and> (\<forall>x < unat (brk s). umem t (of_nat x) = umem s (of_nat x))" using t e kk by simp
next
  fix n s t
  assume b: "unat (brk s) \<le> 2147483648" and u: "user_sbrk room n s = (- 1, t)"
  have "brk s \<noteq> - 1" using b unat_uminus [of 1] by auto
  with u show "t = s" by (auto simp: user_sbrk_def Let_def split: if_splits)
qed

section \<open>Properties\<close>

text \<open>C13: the allocator of user programs hands out memory that nothing else uses. A call of \<^verbatim>\<open>malloc\<close> for up to a gigabyte returns: either 0, or a block
  inside the heap that is large enough and overlaps no block handed out before. A call of \<^verbatim>\<open>free\<close> with a block that was handed out returns too. Neither
  changes a byte of the other blocks, whatever the order of the calls, since both leave the program ready for the next call.\<close>

theorem malloc_blocks_apart:
  assumes "ready b lo s A" and "unat n \<le> 1073741824"
  shows "(\<exists>r t. malloc (user_sbrk room) (of_nat b) n s = Some (r, t) \<and> kept A s t
      \<and> (r = 0 \<and> ready b lo t A
       \<or> (\<exists>a k. r = of_nat (a + 8) \<and> lo \<le> a \<and> a + 8 * k \<le> unat (brk t) \<and> unat n \<le> 8 * (k - 1)
           \<and> (\<forall>y \<in> A. clear_of (a, k) y) \<and> ready b lo t (insert (a, k) A))))
    \<and> (\<forall>(a, k) \<in> A. \<exists>t. ufree (of_nat (a + 8)) s = Some t \<and> kept (A - {(a, k)}) s t \<and> ready b lo t (A - {(a, k)}))"
proof
  obtain r t where m: "malloc (user_sbrk room) (of_nat b) n s = Some (r, t)"
      "r = 0 \<and> ready b lo t A \<and> kept A s t \<or> served b lo s A (unat (units n)) r t" using us.malloc_ok [OF assms, of room] by blast
  show "\<exists>r t. malloc (user_sbrk room) (of_nat b) n s = Some (r, t) \<and> kept A s t
      \<and> (r = 0 \<and> ready b lo t A
       \<or> (\<exists>a k. r = of_nat (a + 8) \<and> lo \<le> a \<and> a + 8 * k \<le> unat (brk t) \<and> unat n \<le> 8 * (k - 1)
           \<and> (\<forall>y \<in> A. clear_of (a, k) y) \<and> ready b lo t (insert (a, k) A)))"
  proof (cases "served b lo s A (unat (units n)) r t")
    case True
    then obtain F a where a: "r = of_nat (a + 8)" "lo \<le> a" "heap_ok b lo t F (insert (a, unat (units n)) A)" "\<forall>y \<in> A. clear_of (a, unat (units n)) y" "kept A s t"
      by (auto simp: served_def)
    moreover have "unat n \<le> 8 * (unat (units n) - 1)" using units_nat [OF assms(2)] by simp
    moreover have "a + 8 * unat (units n) \<le> unat (brk t)" using a(3) by (simp add: heap_ok_def spatial_def in_heap_def)
    ultimately show ?thesis using m(1) by (auto simp: ready_def)
  qed (use m in auto)
  have "\<exists>t. ufree (of_nat (a + 8)) s = Some t \<and> kept (A - {(a, k)}) s t \<and> ready b lo t (A - {(a, k)})" if x: "(a, k) \<in> A" for a k
  proof -
    obtain F where "heap_ok b lo s F A" using assms(1) x by (auto simp: ready_def)
    from ufree_ok [OF this x] show ?thesis by (auto simp: ready_def)
  qed
  then show "\<forall>(a, k) \<in> A. \<exists>t. ufree (of_nat (a + 8)) s = Some t \<and> kept (A - {(a, k)}) s t \<and> ready b lo t (A - {(a, k)})" by auto
qed

text \<open>The first call of a program whose memory ends at address 65536.\<close>

definition first_call :: ualloc where
  "first_call = \<lparr>umem = (\<lambda>_. 0), freep = 0, brk = 65536\<rparr>"

theorem malloc_blocks_apart_witness:
  "\<exists>r t. malloc (user_sbrk (\<lambda>_ _. True)) 4096 100 first_call = Some (r, t)
    \<and> (r = 0 \<or> (\<exists>a k. r = of_nat (a + 8) \<and> 65536 \<le> a \<and> 100 \<le> 8 * (k - 1) \<and> ready 4096 65536 t {(a, k)}))"
proof -
  have "ready 4096 65536 first_call {}" by (simp add: ready_def first_call_def)
  from malloc_blocks_apart [OF this, of 100 "\<lambda>_ _. True"] show ?thesis by auto
qed

end
