(* ===== verification/Grep.thy ===== *)
theory Grep
  imports Prelude
begin

text \<open>
  The pattern matcher and the line loop of \<^verbatim>\<open>grep.c\<close>. A C string is the list of its bytes before the terminating zero, so
  \<^verbatim>\<open>re[0] == '\0'\<close> is \<open>re = []\<close>. The properties relate the recursive matcher to the set of strings a pattern stands for, and the
  line loop to the lines of its input.
\<close>

section \<open>The matcher\<close>

abbreviation (input) CARET :: uchar where "CARET \<equiv> 94"
abbreviation (input) DOLLAR :: uchar where "DOLLAR \<equiv> 36"
abbreviation (input) STAR :: uchar where "STAR \<equiv> 42"
abbreviation (input) DOT :: uchar where "DOT \<equiv> 46"
abbreviation (input) NL :: uchar where "NL \<equiv> 10"

text \<open>\<^verbatim>\<open>matchhere\<close> and \<^verbatim>\<open>matchstar\<close> call each other; \<open>matchstar\<close> has its loop as a recursion on the text.\<close>

function matchhere :: "uchar list \<Rightarrow> uchar list \<Rightarrow> bool"
  and matchstar :: "uchar \<Rightarrow> uchar list \<Rightarrow> uchar list \<Rightarrow> bool" where
  "matchhere re text = (case re of
     [] \<Rightarrow> True
   | c # re1 \<Rightarrow>
      if re1 \<noteq> [] \<and> re1 ! 0 = STAR then matchstar c (tl re1) text
      else if c = DOLLAR \<and> re1 = [] then text = []
      else (case text of [] \<Rightarrow> False | t # ts \<Rightarrow> (c = DOT \<or> c = t) \<and> matchhere re1 ts))"
| "matchstar c re text = (matchhere re text \<or>
     (case text of [] \<Rightarrow> False | t # ts \<Rightarrow> (t = c \<or> c = DOT) \<and> matchstar c re ts))"
  by pat_completeness auto
termination
  by (relation "inv_image (less_than <*lex*> less_than)
        (\<lambda>x. case x of Inl (re, text) \<Rightarrow> (2 * length re, length text) | Inr (c, re, text) \<Rightarrow> (2 * length re + 1, length text))")
     (auto simp: neq_Nil_conv)

fun match_from :: "uchar list \<Rightarrow> uchar list \<Rightarrow> bool" where
  "match_from re [] = matchhere re []"
| "match_from re (t # ts) = (matchhere re (t # ts) \<or> match_from re ts)"

definition match :: "uchar list \<Rightarrow> uchar list \<Rightarrow> bool" where
  "match re text = (case re of c # re1 \<Rightarrow> if c = CARET then matchhere re1 text else match_from re text | [] \<Rightarrow> match_from re text)"

section \<open>The line loop\<close>

text \<open>The inner loop of \<^verbatim>\<open>grep\<close> on the text in the buffer from \<^verbatim>\<open>p\<close> on: what it writes, and the text left over. \<^verbatim>\<open>strchr\<close> does not look past a zero byte.\<close>

definition strchr_nl :: "uchar list \<Rightarrow> nat option" where
  "strchr_nl t = find_idx (\<lambda>c. c = NL) (takeWhile (\<lambda>c. c \<noteq> 0) t)"

lemma strchr_nl_bound: "strchr_nl t = Some k \<Longrightarrow> k < length t"
  unfolding strchr_nl_def using find_idx_bound [of _ "takeWhile (\<lambda>c. c \<noteq> 0) t" k] length_takeWhile_le [of "\<lambda>c. c \<noteq> 0" t] by fastforce

function grep_lines :: "uchar list \<Rightarrow> uchar list \<Rightarrow> uchar list \<times> uchar list" where
  "grep_lines pattern p = (case strchr_nl p of
     None \<Rightarrow> ([], p)
   | Some k \<Rightarrow> let (out, rest) = grep_lines pattern (drop (Suc k) p) in
       ((if match pattern (take k p) then take (Suc k) p else []) @ out, rest))"
  by pat_completeness auto
termination
  by (relation "measure (\<lambda>(_, p). length p)") (auto dest: strchr_nl_bound)

text \<open>The outer loop. \<open>input\<close> is what is still to be read, and \<open>ns\<close> says how much each call of \<^verbatim>\<open>read\<close> returns at most, besides the room left in the
  buffer and the end of the input; \<open>pend\<close> are the \<^verbatim>\<open>m\<close> bytes kept in the buffer.\<close>

fun grep_loop :: "uchar list \<Rightarrow> uchar list \<Rightarrow> nat list \<Rightarrow> uchar list \<Rightarrow> uchar list" where
  "grep_loop pattern pend [] input = []"
| "grep_loop pattern pend (n # ns) input =
     (let k = min n (min (1024 - length pend - 1) (length input)) in
      if k = 0 then []
      else let buf = pend @ take k input; (out, rest) = grep_lines pattern buf in
        out @ grep_loop pattern (if strchr_nl buf = None then [] else rest) ns (drop k input))"

definition grep :: "uchar list \<Rightarrow> nat list \<Rightarrow> uchar list \<Rightarrow> uchar list" where
  "grep pattern ns input = grep_loop pattern [] ns input"

declare matchhere.simps [simp del] matchstar.simps [simp del] grep_lines.simps [simp del]

section \<open>What a pattern stands for\<close>

datatype item = One uchar | Many uchar

definition atom :: "uchar \<Rightarrow> uchar set" where
  "atom c = (if c = DOT then UNIV else {c})"

text \<open>The items of a pattern after its \<^verbatim>\<open>^\<close>, and whether a \<^verbatim>\<open>$\<close> ends it.\<close>

function items :: "uchar list \<Rightarrow> item list \<times> bool" where
  "items re = (case re of
     [] \<Rightarrow> ([], False)
   | c # re1 \<Rightarrow>
      if re1 \<noteq> [] \<and> re1 ! 0 = STAR then apfst (Cons (Many c)) (items (tl re1))
      else if c = DOLLAR \<and> re1 = [] then ([], True)
      else apfst (Cons (One c)) (items re1))"
  by pat_completeness auto
termination
  by (relation "measure length") (auto simp: neq_Nil_conv)

declare items.simps [simp del]

fun lang :: "item list \<Rightarrow> uchar list set" where
  "lang [] = {[]}"
| "lang (One c # r) = {x # v |x v. x \<in> atom c \<and> v \<in> lang r}"
| "lang (Many c # r) = {u @ v |u v. set u \<subseteq> atom c \<and> v \<in> lang r}"

text \<open>A text matches at its beginning when it splits into a string of the pattern and a rest, which a final \<^verbatim>\<open>$\<close> forces to be empty.\<close>

definition splits :: "item list \<times> bool \<Rightarrow> uchar list \<Rightarrow> bool" where
  "splits p t \<longleftrightarrow> (\<exists>u w. t = u @ w \<and> u \<in> lang (fst p) \<and> (snd p \<longrightarrow> w = []))"

lemma splits_nil: "splits ([], e) t \<longleftrightarrow> (e \<longrightarrow> t = [])"
  by (auto simp: splits_def)

lemma splits_one: "splits (apfst (Cons (One c)) p) t \<longleftrightarrow> (case t of [] \<Rightarrow> False | x # v \<Rightarrow> x \<in> atom c \<and> splits p v)"
  by (cases t) (auto simp: splits_def Cons_eq_append_conv)

lemma splits_many:
  "splits (apfst (Cons (Many c)) p) t \<longleftrightarrow> splits p t \<or> (case t of [] \<Rightarrow> False | x # v \<Rightarrow> x \<in> atom c \<and> splits (apfst (Cons (Many c)) p) v)"
proof -
  have eq: "splits (apfst (Cons (Many c)) p) t \<longleftrightarrow> (\<exists>s v. t = s @ v \<and> set s \<subseteq> atom c \<and> splits p v)" for t
  proof
    assume "splits (apfst (Cons (Many c)) p) t"
    then obtain u w where u: "t = u @ w" "u \<in> lang (Many c # fst p)" "snd p \<longrightarrow> w = []" unfolding splits_def by auto
    then obtain s v where "u = s @ v" "set s \<subseteq> atom c" "v \<in> lang (fst p)" by auto
    with u show "\<exists>s v. t = s @ v \<and> set s \<subseteq> atom c \<and> splits p v"
      by (intro exI [of _ s] exI [of _ "v @ w"]) (auto simp: splits_def)
  next
    assume "\<exists>s v. t = s @ v \<and> set s \<subseteq> atom c \<and> splits p v"
    then obtain s x where sx: "t = s @ x" "set s \<subseteq> atom c" "splits p x" by blast
    then obtain v w where "x = v @ w" "v \<in> lang (fst p)" "snd p \<longrightarrow> w = []" unfolding splits_def by blast
    with sx have h: "t = s @ v @ w" "set s \<subseteq> atom c" "v \<in> lang (fst p)" "snd p \<longrightarrow> w = []" by simp_all
    then have "s @ v \<in> lang (Many c # fst p)" by auto
    with h show "splits (apfst (Cons (Many c)) p) t"
      unfolding splits_def by (intro exI [of _ "s @ v"] exI [of _ w]) simp
  qed
  show ?thesis
  proof (cases t)
    case Nil
    then show ?thesis by (auto simp: eq)
  next
    case (Cons x v)
    have "(\<exists>s w. x # v = s @ w \<and> set s \<subseteq> atom c \<and> splits p w) \<longleftrightarrow>
        splits p (x # v) \<or> x \<in> atom c \<and> (\<exists>s w. v = s @ w \<and> set s \<subseteq> atom c \<and> splits p w)"
    proof
      assume "\<exists>s w. x # v = s @ w \<and> set s \<subseteq> atom c \<and> splits p w"
      then obtain s w where sw: "x # v = s @ w" "set s \<subseteq> atom c" "splits p w" by blast
      then show "splits p (x # v) \<or> x \<in> atom c \<and> (\<exists>s w. v = s @ w \<and> set s \<subseteq> atom c \<and> splits p w)"
        by (cases s) auto
    next
      assume "splits p (x # v) \<or> x \<in> atom c \<and> (\<exists>s w. v = s @ w \<and> set s \<subseteq> atom c \<and> splits p w)"
      then show "\<exists>s w. x # v = s @ w \<and> set s \<subseteq> atom c \<and> splits p w"
      proof
        assume "splits p (x # v)"
        then show ?thesis by (intro exI [of _ "[]"] exI [of _ "x # v"]) simp
      next
        assume "x \<in> atom c \<and> (\<exists>s w. v = s @ w \<and> set s \<subseteq> atom c \<and> splits p w)"
        then obtain s w where "x \<in> atom c" "v = s @ w" "set s \<subseteq> atom c" "splits p w" by blast
        then show ?thesis by (intro exI [of _ "x # s"] exI [of _ w]) simp
      qed
    qed
    then show ?thesis by (simp add: Cons eq)
  qed
qed

lemma atom_iff: "x \<in> atom c \<longleftrightarrow> c = DOT \<or> c = x"
  by (auto simp: atom_def)

lemma matchhere_splits:
  "matchhere re t \<longleftrightarrow> splits (items re) t"
  "matchstar c re t \<longleftrightarrow> splits (apfst (Cons (Many c)) (items re)) t"
proof (induction re t and c re t rule: matchhere_matchstar.induct)
  case (1 re t)
  show ?case
  proof (cases re)
    case Nil
    then show ?thesis by (simp add: matchhere.simps items.simps splits_nil)
  next
    case (Cons c re1)
    consider (many) "re1 \<noteq> [] \<and> re1 ! 0 = STAR" | (dollar) "\<not> (re1 \<noteq> [] \<and> re1 ! 0 = STAR)" "c = DOLLAR \<and> re1 = []"
      | (one) "\<not> (re1 \<noteq> [] \<and> re1 ! 0 = STAR)" "\<not> (c = DOLLAR \<and> re1 = [])" by blast
    then show ?thesis
    proof cases
      case many
      then show ?thesis using 1(1) [OF Cons many] Cons by (simp add: matchhere.simps [of "c # re1"] items.simps [of "c # re1"])
    next
      case dollar
      then have "re = [DOLLAR]" using Cons by simp
      then show ?thesis by (simp add: matchhere.simps [of "[DOLLAR]"] items.simps [of "[DOLLAR]"] splits_nil)
    next
      case one
      have i: "items re = apfst (Cons (One c)) (items re1)" using one Cons by (auto simp: items.simps [of "c # re1"])
      have m: "matchhere re t = (case t of [] \<Rightarrow> False | x # ts \<Rightarrow> (c = DOT \<or> c = x) \<and> matchhere re1 ts)"
        using one Cons by (auto simp: matchhere.simps [of "c # re1"])
      show ?thesis using 1(2) [OF Cons one] by (auto simp: i m splits_one atom_iff split: list.split)
    qed
  qed
next
  case (2 c re t)
  have "matchstar c re t = (matchhere re t \<or> (case t of [] \<Rightarrow> False | x # ts \<Rightarrow> (x = c \<or> c = DOT) \<and> matchstar c re ts))"
    by (rule matchstar.simps)
  also have "\<dots> \<longleftrightarrow> splits (items re) t \<or> (case t of [] \<Rightarrow> False | x # v \<Rightarrow> x \<in> atom c \<and> splits (apfst (Cons (Many c)) (items re)) v)"
    using 2 by (auto simp: atom_iff split: list.splits)
  finally show ?case using splits_many [of c "items re" t] by simp
qed

lemma match_from_splits: "match_from re text \<longleftrightarrow> (\<exists>u v. text = u @ v \<and> splits (items re) v)"
proof (induction "text")
  case Nil
  then show ?case by (simp add: matchhere_splits)
next
  case (Cons t ts)
  have "(\<exists>u v. t # ts = u @ v \<and> splits (items re) v) \<longleftrightarrow> splits (items re) (t # ts) \<or> (\<exists>u v. ts = u @ v \<and> splits (items re) v)"
  proof
    assume "\<exists>u v. t # ts = u @ v \<and> splits (items re) v"
    then obtain u v where "t # ts = u @ v" "splits (items re) v" by blast
    then show "splits (items re) (t # ts) \<or> (\<exists>u v. ts = u @ v \<and> splits (items re) v)" by (cases u) auto
  qed (metis append_Cons append_Nil)
  with Cons show ?case by (simp add: matchhere_splits)
qed

section \<open>The lines of a text\<close>

text \<open>The complete lines of a text, each with its newline.\<close>

fun lines_of :: "uchar list \<Rightarrow> uchar list \<Rightarrow> uchar list list" where
  "lines_of acc [] = []"
| "lines_of acc (c # t) = (if c = NL then (acc @ [c]) # lines_of [] t else lines_of (acc @ [c]) t)"

text \<open>What follows the last newline.\<close>

fun rest_of :: "uchar list \<Rightarrow> uchar list \<Rightarrow> uchar list" where
  "rest_of acc [] = acc"
| "rest_of acc (c # t) = (if c = NL then rest_of [] t else rest_of (acc @ [c]) t)"

lemma lines_of_acc: "NL \<notin> set acc \<Longrightarrow> lines_of [] (acc @ t) = lines_of acc t" "NL \<notin> set acc \<Longrightarrow> rest_of [] (acc @ t) = rest_of acc t"
proof -
  have "lines_of b (acc @ t) = lines_of (b @ acc) t" "rest_of b (acc @ t) = rest_of (b @ acc) t" if "NL \<notin> set acc" for b
    using that by (induction acc arbitrary: b) auto
  from this [of "[]"] show "NL \<notin> set acc \<Longrightarrow> lines_of [] (acc @ t) = lines_of acc t" "NL \<notin> set acc \<Longrightarrow> rest_of [] (acc @ t) = rest_of acc t"
    by simp_all
qed

lemma rest_of_no_nl: "NL \<notin> set acc \<Longrightarrow> NL \<notin> set (rest_of acc t)"
  by (induction t arbitrary: acc) auto

lemma rest_of_subset: "set (rest_of acc t) \<subseteq> set acc \<union> set t" "length (rest_of acc t) \<le> length acc + length t"
proof -
  have "set (rest_of acc t) \<subseteq> set acc \<union> set t \<and> length (rest_of acc t) \<le> length acc + length t"
  proof (induction t arbitrary: acc)
    case (Cons c t)
    from Cons [of "[]"] Cons [of "acc @ [c]"] show ?case by auto
  qed simp
  then show "set (rest_of acc t) \<subseteq> set acc \<union> set t" "length (rest_of acc t) \<le> length acc + length t" by simp_all
qed

lemma rest_of_shorter: "NL \<in> set t \<Longrightarrow> length (rest_of acc t) < length acc + length t"
proof (induction t arbitrary: acc)
  case (Cons c t)
  show ?case
  proof (cases "c = NL")
    case True
    then show ?thesis using rest_of_subset(2) [of "[]" t] by simp
  next
    case False
    then show ?thesis using Cons.IH [of "acc @ [c]"] Cons.prems by simp
  qed
qed simp

lemma lines_of_append: "lines_of acc (b @ t) = lines_of acc b @ lines_of (rest_of acc b) t"
  by (induction b arbitrary: acc) auto

lemma no_lines: "NL \<notin> set t \<Longrightarrow> lines_of acc t = []" "NL \<notin> set t \<Longrightarrow> rest_of acc t = acc @ t"
  by (induction t arbitrary: acc) auto

lemma first_line: "NL \<in> set t \<Longrightarrow> \<exists>l ls. lines_of acc t = l # ls \<and> length acc < length l"
proof (induction t arbitrary: acc)
  case (Cons c t)
  then show ?case using Cons.IH [of "acc @ [c]"] by (cases "c = NL") auto
qed simp

lemma no_zero_takeWhile: "0 \<notin> set t \<Longrightarrow> takeWhile (\<lambda>c. c \<noteq> 0) t = t"
  by (induction t) auto

lemma strchr_nl_None: "0 \<notin> set t \<Longrightarrow> strchr_nl t = None \<longleftrightarrow> NL \<notin> set t"
  by (auto simp: strchr_nl_def no_zero_takeWhile find_idx_None_iff)

lemma strchr_nl_Some:
  assumes "0 \<notin> set t" "strchr_nl t = Some k"
  shows "t = take k t @ NL # drop (Suc k) t" "NL \<notin> set (take k t)"
proof -
  have tw: "takeWhile (\<lambda>c. c \<noteq> 0) t = t" using assms(1) by (rule no_zero_takeWhile)
  have k: "find_idx (\<lambda>c. c = NL) t = Some k" using assms(2) by (simp add: strchr_nl_def tw)
  have "k < length t" "t ! k = NL" "\<forall>j < k. t ! j \<noteq> NL" using find_idx_SomeD [OF k] by auto
  then show "t = take k t @ NL # drop (Suc k) t" "NL \<notin> set (take k t)"
    by (metis id_take_nth_drop, auto simp: in_set_conv_nth)
qed

definition picked :: "uchar list \<Rightarrow> uchar list list \<Rightarrow> uchar list" where
  "picked pattern ls = concat (filter (\<lambda>l. match pattern (butlast l)) ls)"

lemma grep_lines_eq: "0 \<notin> set t \<Longrightarrow> grep_lines pattern t = (picked pattern (lines_of [] t), rest_of [] t)"
proof (induction "length t" arbitrary: t rule: less_induct)
  case less
  show ?case
  proof (cases "strchr_nl t")
    case None
    then have "NL \<notin> set t" using less.prems strchr_nl_None by blast
    with None show ?thesis by (simp add: grep_lines.simps [of pattern t] no_lines picked_def)
  next
    case (Some k)
    note t = strchr_nl_Some [OF less.prems Some]
    have k: "k < length t" by (rule strchr_nl_bound [OF Some])
    have z: "0 \<notin> set (drop (Suc k) t)" using less.prems by (meson in_set_dropD)
    have ih: "grep_lines pattern (drop (Suc k) t) = (picked pattern (lines_of [] (drop (Suc k) t)), rest_of [] (drop (Suc k) t))"
      by (rule less.hyps) (use k z in simp_all)
    have tk: "take (Suc k) t = take k t @ [NL]" by (subst t(1)) (use k in simp)
    have l: "lines_of [] t = take (Suc k) t # lines_of [] (drop (Suc k) t)" "rest_of [] t = rest_of [] (drop (Suc k) t)"
      using t(2) by (subst t(1), simp add: lines_of_acc tk)+
    show ?thesis using Some ih by (simp add: grep_lines.simps [of pattern t] l picked_def tk)
  qed
qed

lemma grep_loop_done: "NL \<notin> set pend \<Longrightarrow> 0 \<notin> set pend \<Longrightarrow> NL \<notin> set input \<Longrightarrow> 0 \<notin> set input \<Longrightarrow> grep_loop pattern pend ns input = []"
proof (induction ns arbitrary: pend input)
  case (Cons n ns)
  define k where "k = min n (min (1024 - length pend - 1) (length input))"
  have b: "NL \<notin> set (pend @ take k input)" "0 \<notin> set (pend @ take k input)" using Cons.prems by (auto dest: in_set_takeD)
  have "grep_loop pattern [] ns (drop k input) = []" by (rule Cons.IH) (use Cons.prems in \<open>auto dest: in_set_dropD\<close>)
  moreover have "strchr_nl (pend @ take k input) = None" using b strchr_nl_None by blast
  ultimately show ?case unfolding grep_loop.simps(2) Let_def k_def [symmetric]
    using grep_lines_eq [OF b(2), of pattern] no_lines(1) [OF b(1)] by (simp add: picked_def)
qed simp

lemma grep_loop_lines:
  assumes "NL \<notin> set pend" "0 \<notin> set pend" "0 \<notin> set input" "length pend < 1023" "length input \<le> N"
    "\<forall>l \<in> set (lines_of pend input). length l \<le> 1023"
  shows "grep_loop pattern pend (replicate N 1024) input = picked pattern (lines_of pend input)"
  using assms
proof (induction N arbitrary: pend input)
  case 0
  then show ?case by (simp add: picked_def)
next
  case (Suc N)
  define k where "k = min 1024 (min (1024 - length pend - 1) (length input))"
  show ?case
  proof (cases "input = []")
    case True
    then show ?thesis by (simp add: picked_def)
  next
    case False
    define b where "b = pend @ take k input"
    have k: "k \<noteq> 0" "k \<le> length input" using False Suc.prems by (auto simp: k_def)
    have z: "0 \<notin> set b" using Suc.prems by (auto simp: b_def dest: in_set_takeD)
    have lb: "length b \<le> 1023" using Suc.prems k by (auto simp: b_def k_def)
    have all: "lines_of pend input = lines_of [] b @ lines_of (rest_of [] b) (drop k input)"
      using lines_of_append [of "[]" b "drop k input"] lines_of_acc(1) [OF Suc.prems(1), of input] by (simp add: b_def)
    have step: "grep_loop pattern pend (replicate (Suc N) 1024) input
        = picked pattern (lines_of [] b) @ grep_loop pattern (if strchr_nl b = None then [] else rest_of [] b) (replicate N 1024) (drop k input)"
      unfolding replicate_Suc grep_loop.simps(2) Let_def k_def [symmetric] b_def [symmetric] using k(1) grep_lines_eq [OF z, of pattern] by simp
    have zd: "0 \<notin> set (drop k input)" using Suc.prems by (meson in_set_dropD)
    show ?thesis
    proof (cases "NL \<in> set b")
      case True
      then have "strchr_nl b \<noteq> None" using strchr_nl_None [OF z] by simp
      moreover have "grep_loop pattern (rest_of [] b) (replicate N 1024) (drop k input) = picked pattern (lines_of (rest_of [] b) (drop k input))"
      proof (rule Suc.IH)
        show "NL \<notin> set (rest_of [] b)" by (rule rest_of_no_nl) simp
        show "0 \<notin> set (rest_of [] b)" using rest_of_subset(1) [of "[]" b] z by auto
        show "length (rest_of [] b) < 1023" using rest_of_shorter [OF True, of "[]"] lb by simp
        show "length (drop k input) \<le> N" using Suc.prems(5) k(1) by simp
        show "\<forall>l \<in> set (lines_of (rest_of [] b) (drop k input)). length l \<le> 1023" using Suc.prems(6) all by simp
      qed (rule zd)
      ultimately show ?thesis unfolding step all by (auto simp: picked_def)
    next
      case False
      have "NL \<notin> set (drop k input)"
      proof
        assume nl: "NL \<in> set (drop k input)"
        then have "k < length input" by (cases "k < length input") auto
        then have "length b = 1023" using Suc.prems(4) by (auto simp: b_def k_def min_def split: if_splits)
        moreover obtain l ls where "lines_of b (drop k input) = l # ls" "length b < length l" using first_line [OF nl] by blast
        ultimately show False using Suc.prems(6) all no_lines [OF False] by simp
      qed
      then show ?thesis using grep_loop_done [of "[]" "drop k input"] zd no_lines(1) [OF False] strchr_nl_None [OF z] False
        unfolding step all by (simp add: picked_def no_lines)
    qed
  qed
qed

section \<open>Properties\<close>

text \<open>C21: \<^verbatim>\<open>grep\<close>'s backtracking matcher decides membership in the language of the pattern. A text matches exactly when some part of it is a string the
  pattern stands for, where \<^verbatim>\<open>.\<close> is any byte, \<^verbatim>\<open>c*\<close> any number of \<^verbatim>\<open>c\<close>, a leading \<^verbatim>\<open>^\<close> forces the part to begin at the start of
  the text and a final \<^verbatim>\<open>$\<close> to end at its end; and the matcher terminates on every pattern and text.\<close>

theorem match_decides_language:
  "match re text \<longleftrightarrow>
     (let caret = (\<exists>r. re = CARET # r); (is, dollar) = items (if caret then tl re else re) in
      \<exists>u v w. text = u @ v @ w \<and> v \<in> lang is \<and> (caret \<longrightarrow> u = []) \<and> (dollar \<longrightarrow> w = []))"
proof (cases "\<exists>r. re = CARET # r")
  case True
  then obtain r where r: "re = CARET # r" by blast
  obtain ps e where i: "items r = (ps, e)" by (cases "items r")
  show ?thesis unfolding r using i by (simp add: match_def matchhere_splits splits_def)
next
  case False
  obtain ps e where i: "items re = (ps, e)" by (cases "items re")
  have "match re text = match_from re text" using False by (cases re) (auto simp: match_def)
  then show ?thesis using False i by (auto simp: match_from_splits splits_def)
qed

text \<open>The pattern \<^verbatim>\<open>a*b$\<close> on \<^verbatim>\<open>xaab\<close>.\<close>

theorem match_decides_language_witness: "match [97, STAR, 98, DOLLAR] [120, 97, 97, 98]"
proof -
  have i: "items [97, STAR, 98, DOLLAR] = ([Many 97, One 98], True)"
    by (simp add: items.simps [of "[97, STAR, 98, DOLLAR]"] items.simps [of "[98, DOLLAR]"] items.simps [of "[DOLLAR]"])
  have "[97, 97, 98] = [97, 97] @ [98 :: uchar]" by simp
  then have v: "[97, 97, 98] \<in> lang [Many 97, One 98]" unfolding lang.simps by (fastforce simp: atom_def)
  have t: "[120, 97, 97, 98] = [120] @ [97, 97, 98] @ ([] :: uchar list)" by simp
  show ?thesis unfolding match_decides_language Let_def
    using i v by (simp del: lang.simps) (metis t append_Nil2 append_Cons append_Nil)
qed

text \<open>C22: on a file without zero bytes whose lines, with their newline, have at most 1023 bytes, where a read returns as much as there is room for, \<^verbatim>\<open>grep\<close>
  writes exactly the lines that match, in their order.\<close>

theorem grep_prints_matching_lines:
  assumes "0 \<notin> set input" "\<forall>l \<in> set (lines_of [] input). length l \<le> 1023" "length input \<le> N"
  shows "grep pattern (replicate N 1024) input = concat (filter (\<lambda>l. match pattern (butlast l)) (lines_of [] input))"
  unfolding grep_def picked_def [symmetric] by (rule grep_loop_lines) (use assms in simp_all)

theorem grep_prints_matching_lines_witness:
  "grep [CARET, 97] (replicate 6 1024) [97, 98, 10, 98, 97, 10] = [97, 98, 10]"
proof -
  have "grep [CARET, 97] (replicate 6 1024) [97, 98, 10, 98, 97, 10]
      = concat (filter (\<lambda>l. match [CARET, 97] (butlast l)) (lines_of [] [97, 98, 10, 98, 97, 10]))"
    by (rule grep_prints_matching_lines) simp_all
  also have "\<dots> = [97, 98, 10]" by (simp add: match_def matchhere.simps [of "[97]"] matchhere.simps [of "[]"])
  finally show ?thesis .
qed

text \<open>When a read returns a part of a line, as a read from a pipe or the console does, the part is dropped and the rest is taken for a line:
  of the line \<^verbatim>\<open>ab\<close>, read as \<^verbatim>\<open>a\<close> and \<^verbatim>\<open>b\<close>, the pattern \<^verbatim>\<open>^b\<close> makes \<^verbatim>\<open>grep\<close> write \<^verbatim>\<open>b\<close>.\<close>

lemma grep_drops_partial_line: "grep [CARET, 98] [1, 1024] [97, 98, 10] = [98, 10]" "\<not> match [CARET, 98] [97, 98]"
proof -
  have s: "strchr_nl [97] = None" "strchr_nl [98, 10] = Some 1" "strchr_nl [] = None" by (simp_all add: strchr_nl_def)
  show "grep [CARET, 98] [1, 1024] [97, 98, 10] = [98, 10]"
    by (simp add: grep_def s grep_lines.simps match_def matchhere.simps [of "[98]"] matchhere.simps [of "[]"])
  show "\<not> match [CARET, 98] [97, 98]" by (simp add: match_def matchhere.simps [of "[98]"])
qed

end
