(* ===== verification/Fssp.thy ===== *)
theory Fssp
  imports Prelude
begin

text \<open>
  The firing squad program (\<^verbatim>\<open>fssp.c\<close>): the transition table, the barrier built from two kernel mutexes, and the threads of the soldiers and of
  \<^verbatim>\<open>main\<close> as an interleaving step relation, one step for each lock operation and each access to the shared variables. A locked mutex is
  the value \<open>True\<close>; what the kernel's mutexes guarantee is in the theory Mutex. The property shows that the soldiers fire at the
  same round whatever the interleaving, and that the program ends.
\<close>

section \<open>The transition table\<close>

abbreviation (input) BLANK :: int where "BLANK \<equiv> - 1"
abbreviation (input) Q :: int where "Q \<equiv> 0"
abbreviation (input) P :: int where "P \<equiv> 1"
abbreviation (input) R :: int where "R \<equiv> 2"
abbreviation (input) Z :: int where "Z \<equiv> 3"
abbreviation (input) M :: int where "M \<equiv> 4"
abbreviation (input) X :: int where "X \<equiv> 5"
abbreviation (input) FIRE :: int where "FIRE \<equiv> 10"

definition trans_func :: "int list list list" where
  "trans_func =
   [[[Q, P, Q, Q, BLANK, Q], [P, P, BLANK, BLANK, BLANK, P], [Q, BLANK, Q, BLANK, BLANK, BLANK],
     [Q, BLANK, BLANK, Q, BLANK, Q], [BLANK, BLANK, BLANK, BLANK, BLANK, BLANK], [Q, P, Q, Q, BLANK, BLANK]],
    [[Z, Z, R, R, BLANK, BLANK], [Z, BLANK, Z, Z, BLANK, BLANK], [R, Z, Z, BLANK, BLANK, Z],
     [R, Z, BLANK, Z, BLANK, Z], [BLANK, BLANK, BLANK, BLANK, BLANK, BLANK], [Z, BLANK, Z, Z, BLANK, FIRE]],
    [[BLANK, BLANK, R, P, Z, BLANK], [BLANK, BLANK, M, R, M, BLANK], [R, M, BLANK, BLANK, M, BLANK],
     [P, R, BLANK, BLANK, R, BLANK], [Z, M, M, R, M, BLANK], [BLANK, BLANK, BLANK, BLANK, BLANK, BLANK]],
    [[BLANK, BLANK, Q, P, Q, BLANK], [BLANK, Z, BLANK, Z, BLANK, BLANK], [Q, BLANK, Q, Q, BLANK, Q],
     [P, Z, Q, FIRE, Q, FIRE], [Q, BLANK, BLANK, Q, Q, Q], [BLANK, Z, Q, FIRE, Q, BLANK]],
    [[BLANK, BLANK, BLANK, BLANK, BLANK, BLANK], [BLANK, BLANK, BLANK, BLANK, BLANK, BLANK], [BLANK, BLANK, R, Z, BLANK, BLANK],
     [BLANK, BLANK, Z, BLANK, BLANK, BLANK], [BLANK, BLANK, BLANK, BLANK, BLANK, BLANK], [BLANK, BLANK, BLANK, BLANK, BLANK, BLANK]]]"

text \<open>An access outside the table is \<open>None\<close>.\<close>

definition trans :: "int \<Rightarrow> int \<Rightarrow> int \<Rightarrow> int option" where
  "trans c l r = (if 0 \<le> c \<and> c < 5 \<and> 0 \<le> l \<and> l < 6 \<and> 0 \<le> r \<and> r < 6 then Some (trans_func ! nat c ! nat l ! nat r) else None)"

text \<open>What soldier \<open>i\<close> computes from the states of the row.\<close>

definition next_state :: "int list \<Rightarrow> nat \<Rightarrow> int option" where
  "next_state st i = trans (st ! i) (if i = 0 then X else st ! (i - 1)) (if i = length st - 1 then X else st ! (i + 1))"

section \<open>The threads\<close>

text \<open>
  Where a thread is: before its next access to the row (\<open>Idle\<close>), at the start of \<^verbatim>\<open>inc_barrier\<close> (\<open>Ready\<close>), in it with the first mutex locked, with
  the counter incremented, after the first half, with the second mutex locked, with the counter decremented; or after its loop.
\<close>

datatype bpc = Idle | Ready | InPre | Counted | Waiting | InPost | Uncounted | Halted

record squad =
  sts :: "int list"       \<comment> \<open>\<^verbatim>\<open>soldiers[i].state\<close>\<close>
  nxts :: "int list"      \<comment> \<open>each soldier's variable \<^verbatim>\<open>next_state\<close>\<close>
  pre_mx :: bool
  post_mx :: bool
  counter :: nat
  pc :: "nat \<Rightarrow> bpc"
  rnd :: "nat \<Rightarrow> nat"     \<comment> \<open>how many barriers the thread has passed\<close>

text \<open>\<^verbatim>\<open>main\<close> is thread \<open>n\<close>. After the barrier all threads wait at first, a soldier computes in odd rounds and writes in even ones; \<^verbatim>\<open>main\<close> tests the
  general's state in odd rounds.\<close>

inductive squad_step :: "nat \<Rightarrow> squad \<Rightarrow> squad \<Rightarrow> bool" for n where
  begin_run: "i \<le> n \<Longrightarrow> pc s i = Idle \<Longrightarrow> rnd s i = 0 \<or> i = n \<and> even (rnd s i) \<Longrightarrow> squad_step n s (s\<lparr>pc := (pc s)(i := Ready)\<rparr>)"
| compute: "i < n \<Longrightarrow> pc s i = Idle \<Longrightarrow> odd (rnd s i) \<Longrightarrow> sts s ! i \<noteq> FIRE \<Longrightarrow> next_state (sts s) i = Some x
    \<Longrightarrow> squad_step n s (s\<lparr>nxts := (nxts s)[i := x], pc := (pc s)(i := Ready)\<rparr>)"
| update: "i < n \<Longrightarrow> pc s i = Idle \<Longrightarrow> even (rnd s i) \<Longrightarrow> 0 < rnd s i
    \<Longrightarrow> squad_step n s (s\<lparr>sts := (sts s)[i := nxts s ! i], pc := (pc s)(i := Ready)\<rparr>)"
| main_loop: "pc s n = Idle \<Longrightarrow> odd (rnd s n) \<Longrightarrow> sts s ! 0 \<noteq> FIRE \<Longrightarrow> squad_step n s (s\<lparr>pc := (pc s)(n := Ready)\<rparr>)"
| halt: "i \<le> n \<Longrightarrow> pc s i = Idle \<Longrightarrow> odd (rnd s i) \<Longrightarrow> sts s ! (if i = n then 0 else i) = FIRE
    \<Longrightarrow> squad_step n s (s\<lparr>pc := (pc s)(i := Halted)\<rparr>)"
| lock_pre: "i \<le> n \<Longrightarrow> pc s i = Ready \<Longrightarrow> \<not> pre_mx s \<Longrightarrow> squad_step n s (s\<lparr>pre_mx := True, pc := (pc s)(i := InPre)\<rparr>)"
| increment: "i \<le> n \<Longrightarrow> pc s i = InPre \<Longrightarrow> squad_step n s (s\<lparr>counter := counter s + 1, pc := (pc s)(i := Counted)\<rparr>)"
| unlock_pre: "i \<le> n \<Longrightarrow> pc s i = Counted \<Longrightarrow> n + 1 > counter s
    \<Longrightarrow> squad_step n s (s\<lparr>pre_mx := False, pc := (pc s)(i := Waiting)\<rparr>)"
| unlock_post: "i \<le> n \<Longrightarrow> pc s i = Counted \<Longrightarrow> \<not> n + 1 > counter s
    \<Longrightarrow> squad_step n s (s\<lparr>post_mx := False, pc := (pc s)(i := Waiting)\<rparr>)"
| lock_post: "i \<le> n \<Longrightarrow> pc s i = Waiting \<Longrightarrow> \<not> post_mx s \<Longrightarrow> squad_step n s (s\<lparr>post_mx := True, pc := (pc s)(i := InPost)\<rparr>)"
| decrement: "i \<le> n \<Longrightarrow> pc s i = InPost \<Longrightarrow> squad_step n s (s\<lparr>counter := counter s - 1, pc := (pc s)(i := Uncounted)\<rparr>)"
| pass_post: "i \<le> n \<Longrightarrow> pc s i = Uncounted \<Longrightarrow> 0 < counter s
    \<Longrightarrow> squad_step n s (s\<lparr>post_mx := False, pc := (pc s)(i := Idle), rnd := (rnd s)(i := rnd s i + 1)\<rparr>)"
| pass_pre: "i \<le> n \<Longrightarrow> pc s i = Uncounted \<Longrightarrow> counter s = 0
    \<Longrightarrow> squad_step n s (s\<lparr>pre_mx := False, pc := (pc s)(i := Idle), rnd := (rnd s)(i := rnd s i + 1)\<rparr>)"

text \<open>The state \<^verbatim>\<open>main\<close> sets up for a row of \<open>n\<close> soldiers; \<^verbatim>\<open>init_barrier\<close> locks the second mutex.\<close>

definition squad_start :: "nat \<Rightarrow> squad \<Rightarrow> bool" where
  "squad_start n s \<longleftrightarrow> sts s = P # replicate (n - 1) Q \<and> length (nxts s) = n \<and> \<not> pre_mx s \<and> post_mx s \<and> counter s = 0
     \<and> pc s = (\<lambda>i. Idle) \<and> rnd s = (\<lambda>i. 0)"

section \<open>The row in lockstep\<close>

fun row :: "nat \<Rightarrow> nat \<Rightarrow> int list" where
  "row n 0 = P # replicate (n - 1) Q"
| "row n (Suc k) = map (\<lambda>i. case next_state (row n k) i of Some x \<Rightarrow> x | None \<Rightarrow> BLANK) [0..<n]"

text \<open>The table is defined and nobody fires for \<open>k\<close> rounds from the row \<open>c\<close> on, and then everybody does.\<close>

fun fires_after :: "nat \<Rightarrow> int list \<Rightarrow> bool" where
  "fires_after 0 c = (\<forall>x \<in> set c. x = FIRE)"
| "fires_after (Suc k) c = ((\<forall>x \<in> set c. x \<noteq> FIRE) \<and> (\<forall>i \<in> {0..<length c}. next_state c i \<noteq> None)
     \<and> fires_after k (map (\<lambda>i. case next_state c i of Some x \<Rightarrow> x | None \<Rightarrow> BLANK) [0..<length c]))"

definition fire_time :: "nat \<Rightarrow> nat" where
  "fire_time n = [1, 1, 3, 7, 9, 14, 16, 19, 21, 27, 29, 32, 34, 38, 40, 43] ! n"

section \<open>The barrier\<close>

text \<open>The two phases of the \<open>r\<close>-th barrier: while threads arrive, and from the arrival of the last one until all have left.\<close>

definition arriving :: "nat \<Rightarrow> nat \<Rightarrow> squad \<Rightarrow> bool" where
  "arriving n r s \<longleftrightarrow> (\<forall>i \<le> n. rnd s i = r \<and> pc s i \<notin> {InPost, Uncounted}) \<and> post_mx s
     \<and> counter s = card {i. i \<le> n \<and> pc s i \<in> {Counted, Waiting}}
     \<and> (pre_mx s \<longleftrightarrow> (\<exists>i \<le> n. pc s i \<in> {InPre, Counted}))
     \<and> (\<forall>i \<le> n. \<forall>j \<le> n. pc s i \<in> {InPre, Counted} \<and> pc s j \<in> {InPre, Counted} \<longrightarrow> i = j)
     \<and> (\<exists>i \<le> n. pc s i \<noteq> Waiting)"

definition leaving :: "nat \<Rightarrow> nat \<Rightarrow> squad \<Rightarrow> bool" where
  "leaving n r s \<longleftrightarrow> (\<forall>i \<le> n. rnd s i = r \<and> pc s i \<in> {Waiting, InPost, Uncounted} \<or> rnd s i = Suc r \<and> pc s i \<in> {Idle, Ready, Halted})
     \<and> pre_mx s \<and> counter s = card {i. i \<le> n \<and> pc s i \<in> {Waiting, InPost}}
     \<and> (post_mx s \<longleftrightarrow> (\<exists>i \<le> n. pc s i \<in> {InPost, Uncounted}))
     \<and> (\<forall>i \<le> n. \<forall>j \<le> n. pc s i \<in> {InPost, Uncounted} \<and> pc s j \<in> {InPost, Uncounted} \<longrightarrow> i = j)
     \<and> (\<exists>i \<le> n. rnd s i = r)"

lemma card_pc:
  fixes f :: "nat \<Rightarrow> bpc"
  assumes "k \<le> n"
  shows "v \<in> A \<Longrightarrow> f k \<notin> A \<Longrightarrow> card {i. i \<le> n \<and> (f(k := v)) i \<in> A} = Suc (card {i. i \<le> n \<and> f i \<in> A})"
    "v \<notin> A \<Longrightarrow> f k \<in> A \<Longrightarrow> card {i. i \<le> n \<and> f i \<in> A} = Suc (card {i. i \<le> n \<and> (f(k := v)) i \<in> A})"
    "(v \<in> A) = (f k \<in> A) \<Longrightarrow> card {i. i \<le> n \<and> (f(k := v)) i \<in> A} = card {i. i \<le> n \<and> f i \<in> A}"
proof -
  have fin: "finite {i. i \<le> n \<and> g i \<in> A}" for g :: "nat \<Rightarrow> bpc" by (rule finite_subset [of _ "{..n}"]) auto
  show "card {i. i \<le> n \<and> (f(k := v)) i \<in> A} = Suc (card {i. i \<le> n \<and> f i \<in> A})" if "v \<in> A" "f k \<notin> A"
  proof -
    have "{i. i \<le> n \<and> (f(k := v)) i \<in> A} = insert k {i. i \<le> n \<and> f i \<in> A}" using assms that by auto
    then show ?thesis using fin [of f] that by simp
  qed
  show "card {i. i \<le> n \<and> f i \<in> A} = Suc (card {i. i \<le> n \<and> (f(k := v)) i \<in> A})" if "v \<notin> A" "f k \<in> A"
  proof -
    have "{i. i \<le> n \<and> f i \<in> A} = insert k {i. i \<le> n \<and> (f(k := v)) i \<in> A}" using assms that by auto
    then show ?thesis using fin [of "f(k := v)"] that by simp
  qed
  show "card {i. i \<le> n \<and> (f(k := v)) i \<in> A} = card {i. i \<le> n \<and> f i \<in> A}" if "(v \<in> A) = (f k \<in> A)"
  proof -
    have "{i. i \<le> n \<and> (f(k := v)) i \<in> A} = {i. i \<le> n \<and> f i \<in> A}" using that by auto
    then show ?thesis by simp
  qed
qed

text \<open>A change of one thread's position outside the barrier keeps the phase.\<close>

lemma phase_local:
  assumes i: "i \<le> n" "pc s i = Idle" "v \<in> {Ready, Halted}"
    and t: "pc t = (pc s)(i := v)" "rnd t = rnd s" "pre_mx t = pre_mx s" "post_mx t = post_mx s" "counter t = counter s"
  shows "arriving n r s \<Longrightarrow> arriving n r t" "leaving n r s \<Longrightarrow> leaving n r t"
proof -
  have c: "card {j. j \<le> n \<and> pc t j \<in> A} = card {j. j \<le> n \<and> pc s j \<in> A}" if "Idle \<notin> A" "Ready \<notin> A" "Halted \<notin> A" for A
    unfolding t(1) by (rule card_pc(3) [OF i(1)]) (use i that in auto)
  have m: "pc t j \<in> A \<longleftrightarrow> pc s j \<in> A" if "Idle \<notin> A" "Ready \<notin> A" "Halted \<notin> A" for A j
    unfolding t(1) using i that by auto
  have m1: "pc t j \<in> {InPre, Counted} \<longleftrightarrow> pc s j \<in> {InPre, Counted}" "pc t j \<in> {InPost, Uncounted} \<longleftrightarrow> pc s j \<in> {InPost, Uncounted}" for j
    by (rule m; simp)+
  have c1: "card {j. j \<le> n \<and> pc t j \<in> {Counted, Waiting}} = card {j. j \<le> n \<and> pc s j \<in> {Counted, Waiting}}"
    "card {j. j \<le> n \<and> pc t j \<in> {Waiting, InPost}} = card {j. j \<le> n \<and> pc s j \<in> {Waiting, InPost}}"
    by (rule c; simp)+
  show "arriving n r t" if a: "arriving n r s"
    unfolding arriving_def m1 t(2-5) c1
  proof (intro conjI)
    show "\<exists>j \<le> n. pc t j \<noteq> Waiting" using i by (auto simp: t(1))
  qed (use a in \<open>simp_all add: arriving_def\<close>)
  show "leaving n r t" if a: "leaving n r s"
    unfolding leaving_def m1 t(2-5) c1
  proof (intro conjI)
    show "\<forall>j \<le> n. rnd s j = r \<and> pc t j \<in> {Waiting, InPost, Uncounted} \<or> rnd s j = Suc r \<and> pc t j \<in> {Idle, Ready, Halted}"
      using a i by (auto simp: t(1) leaving_def)
  qed (use a in \<open>simp_all add: leaving_def\<close>)
qed

lemma arrivingD:
  assumes "arriving n r s"
  shows "i \<le> n \<Longrightarrow> rnd s i = r" "i \<le> n \<Longrightarrow> pc s i \<noteq> InPost" "i \<le> n \<Longrightarrow> pc s i \<noteq> Uncounted" "post_mx s"
    "counter s = card {i. i \<le> n \<and> pc s i \<in> {Counted, Waiting}}" "pre_mx s \<longleftrightarrow> (\<exists>i \<le> n. pc s i \<in> {InPre, Counted})"
    "i \<le> n \<Longrightarrow> j \<le> n \<Longrightarrow> pc s i \<in> {InPre, Counted} \<Longrightarrow> pc s j \<in> {InPre, Counted} \<Longrightarrow> i = j"
  using assms unfolding arriving_def by blast+

lemma leavingD:
  assumes "leaving n r s"
  shows "i \<le> n \<Longrightarrow> rnd s i = r \<and> pc s i \<in> {Waiting, InPost, Uncounted} \<or> rnd s i = Suc r \<and> pc s i \<in> {Idle, Ready, Halted}"
    "pre_mx s" "counter s = card {i. i \<le> n \<and> pc s i \<in> {Waiting, InPost}}" "post_mx s \<longleftrightarrow> (\<exists>i \<le> n. pc s i \<in> {InPost, Uncounted})"
    "i \<le> n \<Longrightarrow> j \<le> n \<Longrightarrow> pc s i \<in> {InPost, Uncounted} \<Longrightarrow> pc s j \<in> {InPost, Uncounted} \<Longrightarrow> i = j"
  using assms unfolding leaving_def by blast+

text \<open>At most one thread, \<open>i\<close>, has the mutex of the phase.\<close>

lemma arrivingI:
  assumes "\<And>j. j \<le> n \<Longrightarrow> rnd t j = r" "\<And>j. j \<le> n \<Longrightarrow> pc t j \<noteq> InPost \<and> pc t j \<noteq> Uncounted" "post_mx t"
    "counter t = card {i. i \<le> n \<and> pc t i \<in> {Counted, Waiting}}"
    "i \<le> n" "\<And>j. j \<le> n \<Longrightarrow> pc t j \<in> {InPre, Counted} \<longleftrightarrow> pre_mx t \<and> j = i" "k \<le> n" "pc t k \<noteq> Waiting"
  shows "arriving n r t"
  unfolding arriving_def
proof (intro conjI allI impI)
  show "pre_mx t \<longleftrightarrow> (\<exists>i \<le> n. pc t i \<in> {InPre, Counted})" using assms(5,6) by blast
  show "a = b" if "a \<le> n" "b \<le> n" "pc t a \<in> {InPre, Counted} \<and> pc t b \<in> {InPre, Counted}" for a b using assms(6) that by blast
  show "\<exists>i \<le> n. pc t i \<noteq> Waiting" using assms(7,8) by blast
qed (use assms(1-4) in auto)

lemma leavingI:
  assumes "\<And>j. j \<le> n \<Longrightarrow> rnd t j = r \<and> pc t j \<in> {Waiting, InPost, Uncounted} \<or> rnd t j = Suc r \<and> pc t j \<in> {Idle, Ready, Halted}"
    "pre_mx t" "counter t = card {i. i \<le> n \<and> pc t i \<in> {Waiting, InPost}}"
    "i \<le> n" "\<And>j. j \<le> n \<Longrightarrow> pc t j \<in> {InPost, Uncounted} \<longleftrightarrow> post_mx t \<and> j = i" "k \<le> n" "rnd t k = r"
  shows "leaving n r t"
  unfolding leaving_def
proof (intro conjI allI impI)
  show "post_mx t \<longleftrightarrow> (\<exists>i \<le> n. pc t i \<in> {InPost, Uncounted})" using assms(4,5) by blast
  show "a = b" if "a \<le> n" "b \<le> n" "pc t a \<in> {InPost, Uncounted} \<and> pc t b \<in> {InPost, Uncounted}" for a b using assms(5) that by blast
  show "\<exists>i \<le> n. rnd t i = r" using assms(6,7) by blast
qed (use assms(1-3) in auto)

lemma arriving_lock_pre:
  assumes a: "arriving n r s" and i: "i \<le> n" "pc s i = Ready" "\<not> pre_mx s"
  shows "arriving n r (s\<lparr>pre_mx := True, pc := (pc s)(i := InPre)\<rparr>)"
proof (rule arrivingI [where i = i and k = i])
  have none: "pc s j \<notin> {InPre, Counted}" if "j \<le> n" for j using arrivingD(6) [OF a] i that by blast
  show "pc (s\<lparr>pre_mx := True, pc := (pc s)(i := InPre)\<rparr>) j \<in> {InPre, Counted} \<longleftrightarrow> pre_mx (s\<lparr>pre_mx := True, pc := (pc s)(i := InPre)\<rparr>) \<and> j = i"
    if "j \<le> n" for j using none [OF that] by simp
  have "card {j. j \<le> n \<and> ((pc s)(i := InPre)) j \<in> {Counted, Waiting}} = card {j. j \<le> n \<and> pc s j \<in> {Counted, Waiting}}"
    by (rule card_pc(3) [OF i(1)]) (use i in simp)
  then show "counter (s\<lparr>pre_mx := True, pc := (pc s)(i := InPre)\<rparr>)
      = card {j. j \<le> n \<and> pc (s\<lparr>pre_mx := True, pc := (pc s)(i := InPre)\<rparr>) j \<in> {Counted, Waiting}}"
    using arrivingD(5) [OF a] by simp
qed (use arrivingD(1-4) [OF a] i in simp_all)

lemma arriving_increment:
  assumes a: "arriving n r s" and i: "i \<le> n" "pc s i = InPre"
  shows "arriving n r (s\<lparr>counter := counter s + 1, pc := (pc s)(i := Counted)\<rparr>)"
proof (rule arrivingI [where i = i and k = i])
  have u: "pc s j \<notin> {InPre, Counted}" if "j \<le> n" "j \<noteq> i" for j using arrivingD(7) [OF a that(1) i(1)] that(2) i by blast
  have pre: "pre_mx s" using arrivingD(6) [OF a] i by auto
  show "pc (s\<lparr>counter := counter s + 1, pc := (pc s)(i := Counted)\<rparr>) j \<in> {InPre, Counted}
      \<longleftrightarrow> pre_mx (s\<lparr>counter := counter s + 1, pc := (pc s)(i := Counted)\<rparr>) \<and> j = i"
    if "j \<le> n" for j using u [OF that] pre by (cases "j = i") simp_all
  have "card {j. j \<le> n \<and> ((pc s)(i := Counted)) j \<in> {Counted, Waiting}} = Suc (card {j. j \<le> n \<and> pc s j \<in> {Counted, Waiting}})"
    by (rule card_pc(1) [OF i(1)]) (use i in simp_all)
  then show "counter (s\<lparr>counter := counter s + 1, pc := (pc s)(i := Counted)\<rparr>)
      = card {j. j \<le> n \<and> pc (s\<lparr>counter := counter s + 1, pc := (pc s)(i := Counted)\<rparr>) j \<in> {Counted, Waiting}}"
    using arrivingD(5) [OF a] by simp
qed (use arrivingD(1-4) [OF a] i in simp_all)

lemma arriving_unlock_pre:
  assumes a: "arriving n r s" and i: "i \<le> n" "pc s i = Counted" "n + 1 > counter s"
  shows "arriving n r (s\<lparr>pre_mx := False, pc := (pc s)(i := Waiting)\<rparr>)"
proof -
  have u: "pc s j \<notin> {InPre, Counted}" if "j \<le> n" "j \<noteq> i" for j using arrivingD(7) [OF a that(1) i(1)] that(2) i by blast
  have "\<exists>j \<le> n. pc s j \<notin> {Counted, Waiting}"
  proof (rule ccontr)
    assume "\<not> (\<exists>j \<le> n. pc s j \<notin> {Counted, Waiting})"
    then have "{j. j \<le> n \<and> pc s j \<in> {Counted, Waiting}} = {..n}" by auto
    then show False using arrivingD(5) [OF a] i(3) by simp
  qed
  then obtain k where k: "k \<le> n" "pc s k \<notin> {Counted, Waiting}" by blast
  show ?thesis
  proof (rule arrivingI [where i = i and k = k])
    show "pc (s\<lparr>pre_mx := False, pc := (pc s)(i := Waiting)\<rparr>) j \<in> {InPre, Counted}
        \<longleftrightarrow> pre_mx (s\<lparr>pre_mx := False, pc := (pc s)(i := Waiting)\<rparr>) \<and> j = i" if "j \<le> n" for j
      using u [OF that] by (cases "j = i") simp_all
    have "card {j. j \<le> n \<and> ((pc s)(i := Waiting)) j \<in> {Counted, Waiting}} = card {j. j \<le> n \<and> pc s j \<in> {Counted, Waiting}}"
      by (rule card_pc(3) [OF i(1)]) (use i in simp)
    then show "counter (s\<lparr>pre_mx := False, pc := (pc s)(i := Waiting)\<rparr>)
        = card {j. j \<le> n \<and> pc (s\<lparr>pre_mx := False, pc := (pc s)(i := Waiting)\<rparr>) j \<in> {Counted, Waiting}}"
      using arrivingD(5) [OF a] by simp
  qed (use arrivingD(1-4) [OF a] i k in auto)
qed

lemma arriving_unlock_post:
  assumes a: "arriving n r s" and i: "i \<le> n" "pc s i = Counted" "\<not> n + 1 > counter s"
  shows "leaving n r (s\<lparr>post_mx := False, pc := (pc s)(i := Waiting)\<rparr>)"
proof -
  let ?A = "{j. j \<le> n \<and> pc s j \<in> {Counted, Waiting}}"
  have "?A \<subseteq> {..n}" by auto
  moreover have "card {..n} \<le> card ?A" using arrivingD(5) [OF a] i(3) by simp
  ultimately have all: "?A = {..n}" by (meson card_seteq finite_atMost)
  have w: "pc s j = Waiting" if "j \<le> n" "j \<noteq> i" for j
    using arrivingD(7) [OF a that(1) i(1)] that i all by blast
  have w': "pc (s\<lparr>post_mx := False, pc := (pc s)(i := Waiting)\<rparr>) j = Waiting" if "j \<le> n" for j using w that by simp
  show ?thesis
  proof (rule leavingI [where i = i and k = i])
    have "{j. j \<le> n \<and> pc (s\<lparr>post_mx := False, pc := (pc s)(i := Waiting)\<rparr>) j \<in> {Waiting, InPost}} = {..n}" using w by auto
    then show "counter (s\<lparr>post_mx := False, pc := (pc s)(i := Waiting)\<rparr>)
        = card {j. j \<le> n \<and> pc (s\<lparr>post_mx := False, pc := (pc s)(i := Waiting)\<rparr>) j \<in> {Waiting, InPost}}"
      using arrivingD(5) [OF a] all by simp
    show "pc (s\<lparr>post_mx := False, pc := (pc s)(i := Waiting)\<rparr>) j \<in> {InPost, Uncounted}
        \<longleftrightarrow> post_mx (s\<lparr>post_mx := False, pc := (pc s)(i := Waiting)\<rparr>) \<and> j = i" if "j \<le> n" for j
      unfolding w' [OF that] by simp
    show "pre_mx (s\<lparr>post_mx := False, pc := (pc s)(i := Waiting)\<rparr>)" using arrivingD(6) [OF a] i by auto
    show "rnd (s\<lparr>post_mx := False, pc := (pc s)(i := Waiting)\<rparr>) j = r \<and> pc (s\<lparr>post_mx := False, pc := (pc s)(i := Waiting)\<rparr>) j \<in> {Waiting, InPost, Uncounted}
        \<or> rnd (s\<lparr>post_mx := False, pc := (pc s)(i := Waiting)\<rparr>) j = Suc r \<and> pc (s\<lparr>post_mx := False, pc := (pc s)(i := Waiting)\<rparr>) j \<in> {Idle, Ready, Halted}"
      if "j \<le> n" for j unfolding w' [OF that] using arrivingD(1) [OF a that] by simp
  qed (use arrivingD(1) [OF a i(1)] i in simp_all)
qed

lemma leaving_lock_post:
  assumes a: "leaving n r s" and i: "i \<le> n" "pc s i = Waiting" "\<not> post_mx s"
  shows "leaving n r (s\<lparr>post_mx := True, pc := (pc s)(i := InPost)\<rparr>)"
proof -
  define t where "t = s\<lparr>post_mx := True, pc := (pc s)(i := InPost)\<rparr>"
  have t: "pc t = (pc s)(i := InPost)" "rnd t = rnd s" "pre_mx t = pre_mx s" "post_mx t" "counter t = counter s" by (simp_all add: t_def)
  have ri: "rnd s i = r" using leavingD(1) [OF a i(1)] i by auto
  have none: "pc s j \<notin> {InPost, Uncounted}" if "j \<le> n" for j using leavingD(4) [OF a] i that by blast
  have "leaving n r t"
  proof (rule leavingI [where i = i and k = i])
    show "rnd t j = r \<and> pc t j \<in> {Waiting, InPost, Uncounted} \<or> rnd t j = Suc r \<and> pc t j \<in> {Idle, Ready, Halted}" if "j \<le> n" for j
      using leavingD(1) [OF a that] ri by (cases "j = i") (simp_all add: t)
    show "pc t j \<in> {InPost, Uncounted} \<longleftrightarrow> post_mx t \<and> j = i" if "j \<le> n" for j using none [OF that] by (cases "j = i") (simp_all add: t)
    have "card {j. j \<le> n \<and> pc t j \<in> {Waiting, InPost}} = card {j. j \<le> n \<and> pc s j \<in> {Waiting, InPost}}"
      unfolding t by (rule card_pc(3) [OF i(1)]) (use i in simp)
    then show "counter t = card {j. j \<le> n \<and> pc t j \<in> {Waiting, InPost}}" using leavingD(3) [OF a] t by simp
  qed (use leavingD(2) [OF a] i ri t in simp_all)
  then show ?thesis by (simp add: t_def)
qed

lemma leaving_decrement:
  assumes a: "leaving n r s" and i: "i \<le> n" "pc s i = InPost"
  shows "leaving n r (s\<lparr>counter := counter s - 1, pc := (pc s)(i := Uncounted)\<rparr>)"
proof -
  define t where "t = s\<lparr>counter := counter s - 1, pc := (pc s)(i := Uncounted)\<rparr>"
  have t: "pc t = (pc s)(i := Uncounted)" "rnd t = rnd s" "pre_mx t = pre_mx s" "post_mx t = post_mx s" "counter t = counter s - 1" by (simp_all add: t_def)
  have ri: "rnd s i = r" using leavingD(1) [OF a i(1)] i by auto
  have u: "pc s j \<notin> {InPost, Uncounted}" if "j \<le> n" "j \<noteq> i" for j using leavingD(5) [OF a that(1) i(1)] that(2) i by blast
  have po: "post_mx s" using leavingD(4) [OF a] i by auto
  have "leaving n r t"
  proof (rule leavingI [where i = i and k = i])
    show "rnd t j = r \<and> pc t j \<in> {Waiting, InPost, Uncounted} \<or> rnd t j = Suc r \<and> pc t j \<in> {Idle, Ready, Halted}" if "j \<le> n" for j
      using leavingD(1) [OF a that] ri by (cases "j = i") (simp_all add: t)
    show "pc t j \<in> {InPost, Uncounted} \<longleftrightarrow> post_mx t \<and> j = i" if "j \<le> n" for j using u [OF that] po by (cases "j = i") (simp_all add: t)
    have "card {j. j \<le> n \<and> pc s j \<in> {Waiting, InPost}} = Suc (card {j. j \<le> n \<and> pc t j \<in> {Waiting, InPost}})"
      unfolding t by (rule card_pc(2) [OF i(1)]) (use i in simp_all)
    then show "counter t = card {j. j \<le> n \<and> pc t j \<in> {Waiting, InPost}}" using leavingD(3) [OF a] t by simp
  qed (use leavingD(2) [OF a] i ri t in simp_all)
  then show ?thesis by (simp add: t_def)
qed

lemma leaving_pass_post:
  assumes a: "leaving n r s" and i: "i \<le> n" "pc s i = Uncounted" "0 < counter s"
  shows "leaving n r (s\<lparr>post_mx := False, pc := (pc s)(i := Idle), rnd := (rnd s)(i := rnd s i + 1)\<rparr>)"
proof -
  define t where "t = s\<lparr>post_mx := False, pc := (pc s)(i := Idle), rnd := (rnd s)(i := rnd s i + 1)\<rparr>"
  have t: "pc t = (pc s)(i := Idle)" "rnd t = (rnd s)(i := rnd s i + 1)" "pre_mx t = pre_mx s" "\<not> post_mx t" "counter t = counter s" by (simp_all add: t_def)
  have ri: "rnd s i = r" using leavingD(1) [OF a i(1)] i by auto
  have u: "pc s j \<notin> {InPost, Uncounted}" if "j \<le> n" "j \<noteq> i" for j using leavingD(5) [OF a that(1) i(1)] that(2) i by blast
  have "{j. j \<le> n \<and> pc s j \<in> {Waiting, InPost}} \<noteq> {}" using leavingD(3) [OF a] i(3) by (metis card.empty less_irrefl)
  then obtain k where k: "k \<le> n" "pc s k \<in> {Waiting, InPost}" by blast
  have rk: "rnd s k = r" "k \<noteq> i" using leavingD(1) [OF a k(1)] k i by auto
  have "leaving n r t"
  proof (rule leavingI [where i = i and k = k])
    show "rnd t j = r \<and> pc t j \<in> {Waiting, InPost, Uncounted} \<or> rnd t j = Suc r \<and> pc t j \<in> {Idle, Ready, Halted}" if "j \<le> n" for j
      using leavingD(1) [OF a that] ri by (cases "j = i") (simp_all add: t)
    show "pc t j \<in> {InPost, Uncounted} \<longleftrightarrow> post_mx t \<and> j = i" if "j \<le> n" for j using u [OF that] by (cases "j = i") (simp_all add: t)
    have "card {j. j \<le> n \<and> pc t j \<in> {Waiting, InPost}} = card {j. j \<le> n \<and> pc s j \<in> {Waiting, InPost}}"
      unfolding t by (rule card_pc(3) [OF i(1)]) (use i in simp)
    then show "counter t = card {j. j \<le> n \<and> pc t j \<in> {Waiting, InPost}}" using leavingD(3) [OF a] t by simp
  qed (use leavingD(2) [OF a] i k rk t in simp_all)
  then show ?thesis by (simp add: t_def)
qed

lemma leaving_pass_pre:
  assumes a: "leaving n r s" and i: "i \<le> n" "pc s i = Uncounted" "counter s = 0"
  shows "arriving n (Suc r) (s\<lparr>pre_mx := False, pc := (pc s)(i := Idle), rnd := (rnd s)(i := rnd s i + 1)\<rparr>)"
proof -
  define t where "t = s\<lparr>pre_mx := False, pc := (pc s)(i := Idle), rnd := (rnd s)(i := rnd s i + 1)\<rparr>"
  have t: "pc t = (pc s)(i := Idle)" "rnd t = (rnd s)(i := rnd s i + 1)" "\<not> pre_mx t" "post_mx t = post_mx s" "counter t = 0"
    using i by (simp_all add: t_def)
  have ri: "rnd s i = r" using leavingD(1) [OF a i(1)] i by auto
  have fin: "finite {j. j \<le> n \<and> pc s j \<in> {Waiting, InPost}}" by (rule finite_subset [of _ "{..n}"]) auto
  then have none: "{j. j \<le> n \<and> pc s j \<in> {Waiting, InPost}} = {}" using leavingD(3) [OF a] i(3) card_0_eq [OF fin] by simp
  have out: "rnd t j = Suc r \<and> pc t j \<in> {Idle, Ready, Halted}" if "j \<le> n" for j
  proof (cases "j = i")
    case False
    have "pc s j \<notin> {InPost, Uncounted}" using leavingD(5) [OF a that i(1)] False i by blast
    moreover have "pc s j \<noteq> Waiting" using none that by auto
    ultimately show ?thesis using leavingD(1) [OF a that] False by (simp add: t)
  qed (simp add: t ri)
  have "arriving n (Suc r) t"
  proof (rule arrivingI [where i = i and k = i])
    have "{j. j \<le> n \<and> pc t j \<in> {Counted, Waiting}} = {}" using out by fastforce
    then show "counter t = card {j. j \<le> n \<and> pc t j \<in> {Counted, Waiting}}" using t(5) by simp
    show "pc t j \<in> {InPre, Counted} \<longleftrightarrow> pre_mx t \<and> j = i" if "j \<le> n" for j using out [OF that] t(3) by auto
    show "post_mx t" using leavingD(4) [OF a] i t by auto
    show "pc t j \<noteq> InPost \<and> pc t j \<noteq> Uncounted" if "j \<le> n" for j using out [OF that] by auto
  qed (use out i in \<open>auto simp: t\<close>)
  then show ?thesis by (simp add: t_def)
qed

definition phase :: "nat \<Rightarrow> squad \<Rightarrow> bool" where
  "phase n s \<longleftrightarrow> (\<exists>r. arriving n r s \<or> leaving n r s)"

lemma phase_step:
  assumes ph: "phase n s" and st: "squad_step n s t"
  shows "phase n t"
proof -
  obtain r where r: "arriving n r s \<or> leaving n r s" using ph by (auto simp: phase_def)
  have loc: "phase n t" if "i \<le> n" "pc s i = Idle" "v \<in> {Ready, Halted}"
      "pc t = (pc s)(i := v)" "rnd t = rnd s" "pre_mx t = pre_mx s" "post_mx t = post_mx s" "counter t = counter s" for i v
    using phase_local [OF that] r unfolding phase_def by blast
  from st show ?thesis
  proof cases
    case (begin_run i)
    then show ?thesis by (intro loc [of i Ready]) simp_all
  next
    case (compute i x)
    then show ?thesis by (intro loc [of i Ready]) simp_all
  next
    case (update i)
    then show ?thesis by (intro loc [of i Ready]) simp_all
  next
    case main_loop
    then show ?thesis by (intro loc [of n Ready]) simp_all
  next
    case (halt i)
    then show ?thesis by (intro loc [of i Halted]) simp_all
  next
    case (lock_pre i)
    then have "arriving n r s" using r leavingD(2) by blast
    then show ?thesis using arriving_lock_pre lock_pre unfolding phase_def by blast
  next
    case (increment i)
    then have "arriving n r s" using r leavingD(1) [of n r s i] by auto
    then show ?thesis using arriving_increment increment unfolding phase_def by blast
  next
    case (unlock_pre i)
    then have "arriving n r s" using r leavingD(1) [of n r s i] by auto
    then show ?thesis using arriving_unlock_pre unlock_pre unfolding phase_def by blast
  next
    case (unlock_post i)
    then have "arriving n r s" using r leavingD(1) [of n r s i] by auto
    then show ?thesis using arriving_unlock_post unlock_post unfolding phase_def by blast
  next
    case (lock_post i)
    then have "leaving n r s" using r arrivingD(4) by blast
    then show ?thesis using leaving_lock_post lock_post unfolding phase_def by blast
  next
    case (decrement i)
    then have "leaving n r s" using r arrivingD(2) by blast
    then show ?thesis using leaving_decrement decrement unfolding phase_def by blast
  next
    case (pass_post i)
    then have "leaving n r s" using r arrivingD(3) by blast
    then show ?thesis using leaving_pass_post pass_post unfolding phase_def by blast
  next
    case (pass_pre i)
    then have "leaving n r s" using r arrivingD(3) by blast
    then show ?thesis using leaving_pass_pre pass_pre unfolding phase_def by blast
  qed
qed

text \<open>The barrier separates rounds: while a thread is outside it, every other one is in the same round or still on its way out of the barrier
  before it.\<close>

lemma phase_separates:
  assumes "phase n s" "i \<le> n" "pc s i \<in> {Idle, Halted}" "j \<le> n"
  shows "rnd s j = rnd s i \<or> rnd s i = Suc (rnd s j) \<and> pc s j \<in> {Waiting, InPost, Uncounted}"
proof -
  obtain r where "arriving n r s \<or> leaving n r s" using assms(1) by (auto simp: phase_def)
  then show ?thesis
  proof
    assume "arriving n r s"
    then show ?thesis using arrivingD(1) [of n r s] assms by simp
  next
    assume l: "leaving n r s"
    show ?thesis using leavingD(1) [OF l assms(2)] leavingD(1) [OF l assms(4)] assms(3) by auto
  qed
qed

section \<open>The row under the threads\<close>

text \<open>How many new states soldier \<open>i\<close> has written.\<close>

definition written :: "squad \<Rightarrow> nat \<Rightarrow> nat" where
  "written s i = (if even (rnd s i) \<and> pc s i \<noteq> Idle then rnd s i div 2 else (rnd s i - 1) div 2)"

definition row_inv :: "nat \<Rightarrow> nat \<Rightarrow> squad \<Rightarrow> bool" where
  "row_inv n T s \<longleftrightarrow> length (sts s) = n \<and> length (nxts s) = n
     \<and> (\<forall>i \<le> n. rnd s i \<le> 2 * T + 1 \<and> (pc s i \<notin> {Idle, Halted} \<longrightarrow> rnd s i \<le> 2 * T) \<and> (pc s i = Halted \<longrightarrow> rnd s i = 2 * T + 1))
     \<and> (\<forall>i < n. sts s ! i = row n (written s i) ! i)
     \<and> (\<forall>i < n. odd (rnd s i) \<and> pc s i \<notin> {Idle, Halted} \<longrightarrow> nxts s ! i = row n (Suc (rnd s i div 2)) ! i)
     \<and> (\<forall>i < n. even (rnd s i) \<and> 0 < rnd s i \<and> pc s i = Idle \<longrightarrow> nxts s ! i = row n (rnd s i div 2) ! i)"

definition fires_at :: "nat \<Rightarrow> nat \<Rightarrow> bool" where
  "fires_at n T \<longleftrightarrow> row n T = replicate n FIRE \<and> (\<forall>k < T. \<forall>i < n. row n k ! i \<noteq> FIRE \<and> next_state (row n k) i = Some (row n (Suc k) ! i))"

lemma row_length: "0 < n \<Longrightarrow> length (row n k) = n"
  by (cases k) simp_all

lemma fires_after_at:
  assumes "0 < n" "fires_after T (row n k)"
  shows "row n (k + T) = replicate n FIRE \<and> (\<forall>m. k \<le> m \<and> m < k + T \<longrightarrow> (\<forall>i < n. row n m ! i \<noteq> FIRE \<and> next_state (row n m) i = Some (row n (Suc m) ! i)))"
  using assms(2)
proof (induction T arbitrary: k)
  case 0
  then show ?case using row_length [OF assms(1), of k] by (auto intro: nth_equalityI)
next
  case (Suc T)
  have ln: "length (row n k) = n" by (rule row_length [OF assms(1)])
  have "fires_after T (row n (Suc k))" using Suc.prems ln by simp
  from Suc.IH [OF this] have ih: "row n (Suc k + T) = replicate n FIRE"
    "\<forall>m. Suc k \<le> m \<and> m < Suc k + T \<longrightarrow> (\<forall>i < n. row n m ! i \<noteq> FIRE \<and> next_state (row n m) i = Some (row n (Suc m) ! i))" by blast+
  have now: "row n k ! i \<noteq> FIRE \<and> next_state (row n k) i = Some (row n (Suc k) ! i)" if "i < n" for i
  proof -
    have "next_state (row n k) i \<noteq> None" "row n k ! i \<noteq> FIRE" using Suc.prems that ln by auto
    then show ?thesis using that by auto
  qed
  show ?case
  proof (intro conjI allI impI)
    show "row n (k + Suc T) = replicate n FIRE" using ih(1) by simp
    fix m i
    assume m: "k \<le> m \<and> m < k + Suc T" and i: "i < n"
    have "row n m ! i \<noteq> FIRE \<and> next_state (row n m) i = Some (row n (Suc m) ! i)"
    proof (cases "m = k")
      case True
      show ?thesis unfolding True by (rule now [OF i])
    next
      case False
      then have "Suc k \<le> m \<and> m < Suc k + T" using m by simp
      then show ?thesis using ih(2) i by blast
    qed
    then show "row n m ! i \<noteq> FIRE" "next_state (row n m) i = Some (row n (Suc m) ! i)" by blast+
  qed
qed

lemma fires_atD:
  assumes "fires_at n T" "k \<le> T" "i < n"
  shows "row n k ! i = FIRE \<longleftrightarrow> k = T" "k < T \<Longrightarrow> next_state (row n k) i = Some (row n (Suc k) ! i)"
  using assms by (auto simp: fires_at_def le_less)

lemma row_invD:
  assumes "row_inv n T s"
  shows "length (sts s) = n" "length (nxts s) = n" "i \<le> n \<Longrightarrow> rnd s i \<le> 2 * T + 1"
    "i \<le> n \<Longrightarrow> pc s i \<notin> {Idle, Halted} \<Longrightarrow> rnd s i \<le> 2 * T" "i \<le> n \<Longrightarrow> pc s i = Halted \<Longrightarrow> rnd s i = 2 * T + 1"
    "i < n \<Longrightarrow> sts s ! i = row n (written s i) ! i"
    "i < n \<Longrightarrow> odd (rnd s i) \<Longrightarrow> pc s i \<notin> {Idle, Halted} \<Longrightarrow> nxts s ! i = row n (Suc (rnd s i div 2)) ! i"
    "i < n \<Longrightarrow> even (rnd s i) \<Longrightarrow> 0 < rnd s i \<Longrightarrow> pc s i = Idle \<Longrightarrow> nxts s ! i = row n (rnd s i div 2) ! i"
  using assms unfolding row_inv_def by blast+

text \<open>In an odd round the row a thread outside the barrier sees is the row of the lockstep run.\<close>

lemma whole_row:
  assumes "0 < n" "phase n s" "row_inv n T s" "i \<le> n" "pc s i \<in> {Idle, Halted}" "odd (rnd s i)"
  shows "sts s = row n (rnd s i div 2)"
proof (rule nth_equalityI)
  show "length (sts s) = length (row n (rnd s i div 2))" using row_invD(1) [OF assms(3)] row_length [OF assms(1)] by simp
  fix j
  assume "j < length (sts s)"
  then have j: "j < n" using row_invD(1) [OF assms(3)] by simp
  obtain k where k: "rnd s i = 2 * k + 1" using assms(6) oddE by blast
  have "rnd s j = 2 * k + 1 \<or> rnd s j = 2 * k \<and> pc s j \<noteq> Idle" using phase_separates [OF assms(2,4,5), of j] j k by auto
  then have "written s j = k" by (auto simp: written_def)
  then show "sts s ! j = row n (rnd s i div 2) ! j" using row_invD(6) [OF assms(3) j] k by simp
qed

text \<open>A step that changes thread \<open>i\<close> only.\<close>

lemma row_inv_update:
  assumes inv: "row_inv n T s" and i: "i \<le> n"
    and t: "pc t = (pc s)(i := v)" "rnd t = (rnd s)(i := r)" "length (sts t) = n" "length (nxts t) = n"
    and same: "\<And>j. j < n \<Longrightarrow> j \<noteq> i \<Longrightarrow> sts t ! j = sts s ! j \<and> nxts t ! j = nxts s ! j"
    and b: "r \<le> 2 * T + 1" "v \<notin> {Idle, Halted} \<Longrightarrow> r \<le> 2 * T" "v = Halted \<Longrightarrow> r = 2 * T + 1"
    and d: "i < n \<Longrightarrow> sts t ! i = row n (if even r \<and> v \<noteq> Idle then r div 2 else (r - 1) div 2) ! i"
      "i < n \<Longrightarrow> odd r \<Longrightarrow> v \<notin> {Idle, Halted} \<Longrightarrow> nxts t ! i = row n (Suc (r div 2)) ! i"
      "i < n \<Longrightarrow> even r \<Longrightarrow> 0 < r \<Longrightarrow> v = Idle \<Longrightarrow> nxts t ! i = row n (r div 2) ! i"
  shows "row_inv n T t"
  unfolding row_inv_def
proof (intro conjI allI impI)
  show "length (sts t) = n" "length (nxts t) = n" by (rule t)+
  fix j
  have tj: "pc t j = (if j = i then v else pc s j)" "rnd t j = (if j = i then r else rnd s j)" by (simp_all add: t)
  have wj: "written t j = (if j = i then (if even r \<and> v \<noteq> Idle then r div 2 else (r - 1) div 2) else written s j)"
    by (simp add: written_def t)
  show "rnd t j \<le> 2 * T + 1" if "j \<le> n" using row_invD(3) [OF inv that] b tj by simp
  show "rnd t j \<le> 2 * T" if "j \<le> n" "pc t j \<notin> {Idle, Halted}" using row_invD(4) [OF inv that(1)] b(2) that(2) unfolding tj by (cases "j = i") simp_all
  show "rnd t j = 2 * T + 1" if "j \<le> n" "pc t j = Halted" using row_invD(5) [OF inv that(1)] b(3) that(2) unfolding tj by (cases "j = i") simp_all
  show "sts t ! j = row n (written t j) ! j" if "j < n" using row_invD(6) [OF inv that] same [OF that] d(1) that unfolding wj by (cases "j = i") simp_all
  show "nxts t ! j = row n (Suc (rnd t j div 2)) ! j" if "j < n" "odd (rnd t j) \<and> pc t j \<notin> {Idle, Halted}"
    using row_invD(7) [OF inv that(1)] same [OF that(1)] d(2) that unfolding tj by (cases "j = i") simp_all
  show "nxts t ! j = row n (rnd t j div 2) ! j" if "j < n" "even (rnd t j) \<and> 0 < rnd t j \<and> pc t j = Idle"
    using row_invD(8) [OF inv that(1)] same [OF that(1)] d(3) that unfolding tj by (cases "j = i") simp_all
qed

text \<open>Steps that change neither the row nor a computed state.\<close>

lemma row_inv_move:
  assumes inv: "row_inv n T s" and i: "i \<le> n" "pc s i \<notin> {Idle, Halted}" "v \<notin> {Idle, Halted}"
    and t: "pc t = (pc s)(i := v)" "rnd t = rnd s" "sts t = sts s" "nxts t = nxts s"
  shows "row_inv n T t"
proof (rule row_inv_update [OF inv i(1), where v = v and r = "rnd s i"])
  show "i < n \<Longrightarrow> sts t ! i = row n (if even (rnd s i) \<and> v \<noteq> Idle then rnd s i div 2 else (rnd s i - 1) div 2) ! i"
    using row_invD(6) [OF inv, of i] i t by (simp add: written_def)
  show "i < n \<Longrightarrow> odd (rnd s i) \<Longrightarrow> v \<notin> {Idle, Halted} \<Longrightarrow> nxts t ! i = row n (Suc (rnd s i div 2)) ! i"
    using row_invD(7) [OF inv, of i] i t by simp
qed (use row_invD(1-4) [OF inv] i t in auto)

lemma row_inv_pass:
  assumes inv: "row_inv n T s" and i: "i \<le> n" "pc s i = Uncounted"
    and t: "pc t = (pc s)(i := Idle)" "rnd t = (rnd s)(i := rnd s i + 1)" "sts t = sts s" "nxts t = nxts s"
  shows "row_inv n T t"
proof (rule row_inv_update [OF inv i(1), where v = Idle and r = "rnd s i + 1"])
  have b: "rnd s i \<le> 2 * T" using row_invD(4) [OF inv i(1)] i by simp
  then show "rnd s i + 1 \<le> 2 * T + 1" by simp
  show "sts t ! i = row n (if even (rnd s i + 1) \<and> Idle \<noteq> Idle then (rnd s i + 1) div 2 else (rnd s i + 1 - 1) div 2) ! i" if "i < n"
  proof -
    have "written s i = rnd s i div 2" using i by (auto simp: written_def elim: oddE)
    then show ?thesis using row_invD(6) [OF inv that] t by simp
  qed
  show "nxts t ! i = row n ((rnd s i + 1) div 2) ! i" if "i < n" "even (rnd s i + 1)"
  proof -
    have o: "odd (rnd s i)" using that by simp
    then have "(rnd s i + 1) div 2 = Suc (rnd s i div 2)" by (auto elim: oddE)
    then show ?thesis using row_invD(7) [OF inv that(1) o] i t by simp
  qed
qed (use row_invD(1,2) [OF inv] t in simp_all)

lemma row_inv_step:
  assumes n: "0 < n" and f: "fires_at n T" and ph: "phase n s" and inv: "row_inv n T s" and st: "squad_step n s t"
  shows "row_inv n T t"
proof -
  have seen: "sts s = row n (rnd s i div 2)" "rnd s i div 2 \<le> T" if "i \<le> n" "pc s i = Idle" "odd (rnd s i)" for i
    using whole_row [OF n ph inv that(1) _ that(3)] row_invD(3) [OF inv that(1)] that(2) by simp_all
  have not_fired: "rnd s i div 2 < T" if "i \<le> n" "pc s i = Idle" "odd (rnd s i)" "sts s ! j \<noteq> FIRE" "j < n" for i j
    using fires_atD(1) [OF f seen(2) [OF that(1-3)] that(5)] seen [OF that(1-3)] that(4) by auto
  have wi: "written s i = (rnd s i - 1) div 2" if "pc s i = Idle" for i using that by (simp add: written_def)
  have even_bound: "rnd s i \<le> 2 * T" if "i \<le> n" "even (rnd s i)" for i
    using row_invD(3) [OF inv that(1)] that(2) by (cases "rnd s i = 2 * T + 1") auto
  from st show ?thesis
  proof cases
    case (begin_run i)
    then have e: "even (rnd s i)" by auto
    show ?thesis
    proof (rule row_inv_update [OF inv begin_run(2), where v = Ready and r = "rnd s i"])
      show "i < n \<Longrightarrow> sts t ! i = row n (if even (rnd s i) \<and> Ready \<noteq> Idle then rnd s i div 2 else (rnd s i - 1) div 2) ! i"
        using row_invD(6) [OF inv, of i] begin_run wi by auto
    qed (use begin_run e even_bound [OF begin_run(2) e] row_invD(1,2) [OF inv] in auto)
  next
    case (compute i x)
    have i: "i \<le> n" using compute by simp
    note sn = seen [OF i compute(3,4)] and k = not_fired [OF i compute(3,4,5,2)]
    have x: "x = row n (Suc (rnd s i div 2)) ! i" using compute(6) sn fires_atD(2) [OF f sn(2) compute(2) k] by simp
    show ?thesis
    proof (rule row_inv_update [OF inv i, where v = Ready and r = "rnd s i"])
      show "sts t ! i = row n (if even (rnd s i) \<and> Ready \<noteq> Idle then rnd s i div 2 else (rnd s i - 1) div 2) ! i"
        using row_invD(6) [OF inv compute(2)] compute wi by simp
      show "nxts t ! i = row n (Suc (rnd s i div 2)) ! i" using compute x row_invD(2) [OF inv] by simp
      show "rnd s i \<le> 2 * T" using k compute(4) by (auto elim: oddE)
    qed (use compute row_invD(1-3) [OF inv] i in auto)
  next
    case (update i)
    have i: "i \<le> n" using update by simp
    show ?thesis
    proof (rule row_inv_update [OF inv i, where v = Ready and r = "rnd s i"])
      show "sts t ! i = row n (if even (rnd s i) \<and> Ready \<noteq> Idle then rnd s i div 2 else (rnd s i - 1) div 2) ! i"
        using row_invD(8) [OF inv update(2,4,5,3)] update row_invD(1) [OF inv] by simp
    qed (use update row_invD(1-3) [OF inv] even_bound [OF i update(4)] i in auto)
  next
    case main_loop
    note k = not_fired [OF order_refl main_loop(2,3,4) n]
    show ?thesis
    proof (rule row_inv_update [OF inv order_refl, where v = Ready and r = "rnd s n"])
      show "rnd s n \<le> 2 * T" using k main_loop(3) by (auto elim: oddE)
    qed (use main_loop row_invD(1-3) [OF inv] in auto)
  next
    case (halt i)
    let ?j = "if i = n then 0 else i"
    have j: "?j < n" using halt n by auto
    have k: "rnd s i div 2 = T"
      using fires_atD(1) [OF f seen(2) [OF halt(2,3,4)] j] seen(1) [OF halt(2,3,4)] halt(5) by simp
    have r: "rnd s i = 2 * T + 1" using k halt(4) by (auto elim: oddE)
    show ?thesis
    proof (rule row_inv_update [OF inv halt(2), where v = Halted and r = "rnd s i"])
      show "i < n \<Longrightarrow> sts t ! i = row n (if even (rnd s i) \<and> Halted \<noteq> Idle then rnd s i div 2 else (rnd s i - 1) div 2) ! i"
        using row_invD(6) [OF inv, of i] halt wi by simp
    qed (use halt r row_invD(1-3) [OF inv] in auto)
  next
    case (lock_pre i)
    then show ?thesis by (intro row_inv_move [OF inv lock_pre(2), where v = InPre]) simp_all
  next
    case (increment i)
    then show ?thesis by (intro row_inv_move [OF inv increment(2), where v = Counted]) simp_all
  next
    case (unlock_pre i)
    then show ?thesis by (intro row_inv_move [OF inv unlock_pre(2), where v = Waiting]) simp_all
  next
    case (unlock_post i)
    then show ?thesis by (intro row_inv_move [OF inv unlock_post(2), where v = Waiting]) simp_all
  next
    case (lock_post i)
    then show ?thesis by (intro row_inv_move [OF inv lock_post(2), where v = InPost]) simp_all
  next
    case (decrement i)
    then show ?thesis by (intro row_inv_move [OF inv decrement(2), where v = Uncounted]) simp_all
  next
    case (pass_post i)
    then show ?thesis by (intro row_inv_pass [OF inv pass_post(2,3)]) simp_all
  next
    case (pass_pre i)
    then show ?thesis by (intro row_inv_pass [OF inv pass_pre(2,3)]) simp_all
  qed
qed

section \<open>Progress\<close>

lemma start_inv:
  assumes "0 < n" "squad_start n s"
  shows "phase n s" "row_inv n T s"
proof -
  have "arriving n 0 s" using assms(2) by (intro arrivingI [where i = 0 and k = 0]) (auto simp: squad_start_def)
  then show "phase n s" by (auto simp: phase_def)
  show "row_inv n T s" using assms by (auto simp: row_inv_def squad_start_def written_def)
qed

lemma idle_can_step:
  assumes n: "0 < n" and f: "fires_at n T" and ph: "phase n s" and inv: "row_inv n T s" and i: "i \<le> n" "pc s i = Idle"
  shows "\<exists>t. squad_step n s t"
proof (cases "even (rnd s i)")
  case True
  show ?thesis
  proof (cases "rnd s i = 0 \<or> i = n")
    case True
    then show ?thesis using begin_run [OF i] \<open>even (rnd s i)\<close> by blast
  next
    case False
    then show ?thesis using update [of i n s] i \<open>even (rnd s i)\<close> by auto
  qed
next
  case False
  have row: "sts s = row n (rnd s i div 2)" by (rule whole_row [OF n ph inv i(1)]) (use i False in simp_all)
  have k: "rnd s i div 2 \<le> T" using row_invD(3) [OF inv i(1)] by simp
  show ?thesis
  proof (cases "sts s ! (if i = n then 0 else i) = FIRE")
    case True
    then show ?thesis using halt [OF i] False by blast
  next
    case nf: False
    show ?thesis
    proof (cases "i = n")
      case True
      then show ?thesis using main_loop [of s n] i False nf by auto
    next
      case False
      then have il: "i < n" "sts s ! i \<noteq> FIRE" using i nf by auto
      then have "rnd s i div 2 < T" using fires_atD(1) [OF f k il(1)] row k by (simp add: le_less)
      then have "next_state (sts s) i = Some (row n (Suc (rnd s i div 2)) ! i)" using fires_atD(2) [OF f k il(1)] row by simp
      then show ?thesis using compute [of i n s] il i \<open>odd (rnd s i)\<close> by blast
    qed
  qed
qed

lemma not_stuck:
  assumes n: "0 < n" and f: "fires_at n T" and ph: "phase n s" and inv: "row_inv n T s" and stuck: "\<nexists>t. squad_step n s t" and j: "j \<le> n"
  shows "pc s j = Halted"
proof -
  have no: "pc s i \<noteq> Idle" "pc s i \<noteq> InPre" "pc s i \<noteq> Counted" "pc s i \<noteq> InPost" "pc s i \<noteq> Uncounted" if "i \<le> n" for i
  proof -
    show "pc s i \<noteq> Idle" using idle_can_step [OF n f ph inv that] stuck by blast
    show "pc s i \<noteq> InPre" using increment [OF that] stuck by blast
    show "pc s i \<noteq> Counted" using unlock_pre [OF that] unlock_post [OF that] stuck by blast
    show "pc s i \<noteq> InPost" using decrement [OF that] stuck by blast
    show "pc s i \<noteq> Uncounted" using pass_post [OF that] pass_pre [OF that] stuck by (cases "counter s") auto
  qed
  obtain r where "arriving n r s \<or> leaving n r s" using ph by (auto simp: phase_def)
  then show ?thesis
  proof
    assume a: "arriving n r s"
    then have "\<not> pre_mx s" using arrivingD(6) [OF a] no by auto
    then have nr: "pc s i \<noteq> Ready" if "i \<le> n" for i using lock_pre [OF that] stuck by blast
    have two: "pc s i = Waiting \<or> pc s i = Halted" if "i \<le> n" for i using no [OF that] nr [OF that] by (cases "pc s i") auto
    obtain i where i: "i \<le> n" "pc s i \<noteq> Waiting" using a unfolding arriving_def by blast
    then have "rnd s i = 2 * T + 1" using two row_invD(5) [OF inv i(1)] by blast
    then have "rnd s j = 2 * T + 1" using arrivingD(1) [OF a] i j by simp
    then show ?thesis using two [OF j] row_invD(4) [OF inv j] by auto
  next
    assume l: "leaving n r s"
    then have "\<not> post_mx s" using leavingD(4) [OF l] no by auto
    then have nw: "pc s i \<noteq> Waiting" if "i \<le> n" for i using lock_post [OF that] stuck by blast
    obtain i where i: "i \<le> n" "rnd s i = r" using l unfolding leaving_def by blast
    have False using leavingD(1) [OF l i(1)] i no [OF i(1)] nw [OF i(1)] by auto
    then show ?thesis ..
  qed
qed

text \<open>Every step brings one thread forward in its program, so there are not more steps than threads have positions.\<close>

fun pc_index :: "bpc \<Rightarrow> nat" where
  "pc_index Idle = 0" | "pc_index Ready = 1" | "pc_index InPre = 2" | "pc_index Counted = 3" | "pc_index Waiting = 4"
| "pc_index InPost = 5" | "pc_index Uncounted = 6" | "pc_index Halted = 7"

definition progress :: "nat \<Rightarrow> squad \<Rightarrow> nat" where
  "progress n s = (\<Sum>i \<in> {..n}. 8 * rnd s i + pc_index (pc s i))"

lemma progress_step:
  assumes "squad_step n s t"
  shows "progress n s < progress n t"
proof -
  have "\<exists>i \<le> n. 8 * rnd s i + pc_index (pc s i) < 8 * rnd t i + pc_index (pc t i) \<and> (\<forall>j. j \<noteq> i \<longrightarrow> rnd t j = rnd s j \<and> pc t j = pc s j)"
    using assms by cases (auto intro!: exI conjI)
  then obtain i where i: "i \<le> n" "8 * rnd s i + pc_index (pc s i) < 8 * rnd t i + pc_index (pc t i)"
    "\<forall>j. j \<noteq> i \<longrightarrow> rnd t j = rnd s j \<and> pc t j = pc s j" by blast
  show ?thesis unfolding progress_def
  proof (rule sum_strict_mono_ex1)
    show "\<forall>j \<in> {..n}. 8 * rnd s j + pc_index (pc s j) \<le> 8 * rnd t j + pc_index (pc t j)"
    proof
      fix j
      show "8 * rnd s j + pc_index (pc s j) \<le> 8 * rnd t j + pc_index (pc t j)" using i(2,3) by (cases "j = i") auto
    qed
  qed (use i in auto)
qed

lemma progress_bound:
  assumes "row_inv n T s"
  shows "progress n s \<le> (n + 1) * (16 * T + 15)"
proof -
  have "8 * rnd s i + pc_index (pc s i) \<le> 16 * T + 15" if "i \<in> {..n}" for i
    using row_invD(3) [OF assms, of i] that by (cases "pc s i") auto
  then have "progress n s \<le> (\<Sum>i \<in> {..n}. 16 * T + 15)" unfolding progress_def by (rule sum_mono)
  then show ?thesis by simp
qed

lemma run_inv:
  assumes "0 < n" "fires_at n T" "squad_start n s0" "(squad_step n ^^ k) s0 s"
  shows "phase n s \<and> row_inv n T s \<and> k \<le> progress n s"
  using assms(4)
proof (induction k arbitrary: s)
  case 0
  then show ?case using start_inv [OF assms(1,3)] by simp
next
  case (Suc k)
  then obtain u where u: "(squad_step n ^^ k) s0 u" "squad_step n u s" by auto
  then show ?case using Suc.IH [OF u(1)] phase_step [OF _ u(2)] row_inv_step [OF assms(1,2) _ _ u(2)] progress_step [OF u(2)] by force
qed

section \<open>Properties\<close>

lemma fires: "\<forall>n \<in> set [1..<16]. fires_after (fire_time n) (row n 0)"
  by code_simp

lemma fires_at_time:
  assumes "1 \<le> n" "n \<le> 15"
  shows "fires_at n (fire_time n)"
proof -
  have "fires_after (fire_time n) (row n 0)" using fires assms by auto
  from fires_after_at [OF _ this] assms(1) show ?thesis by (auto simp: fires_at_def)
qed

text \<open>C12: a row of one to fifteen soldiers fires simultaneously, whatever the interleaving of the threads. Every execution ends: the number of steps is bounded, and
  an execution cannot stop before all threads have left their loops. When a thread has left its loop every soldier has fired, and no soldier fires before
  every thread has arrived at the same barrier, the number of which depends on the length of the row only.\<close>

theorem fssp_fires_simultaneously:
  assumes n: "1 \<le> n" "n \<le> 15" and run: "squad_start n s0" "(squad_step n ^^ k) s0 s"
  shows "k \<le> (n + 1) * (16 * fire_time n + 15)
     \<and> ((\<nexists>t. squad_step n s t) \<longrightarrow> (\<forall>i \<le> n. pc s i = Halted))
     \<and> (\<forall>i \<le> n. pc s i = Halted \<longrightarrow> sts s = replicate n FIRE)
     \<and> (\<forall>i < n. sts s ! i = FIRE \<longrightarrow> (\<forall>j \<le> n. 2 * fire_time n \<le> rnd s j
          \<or> 2 * fire_time n = rnd s j + 1 \<and> pc s j \<in> {Waiting, InPost, Uncounted}))"
proof (intro conjI allI impI)
  have p: "0 < n" and f: "fires_at n (fire_time n)" using n fires_at_time by auto
  note inv = run_inv [OF p f run]
  then have ph: "phase n s" and ri: "row_inv n (fire_time n) s" and k: "k \<le> progress n s" by blast+
  show "k \<le> (n + 1) * (16 * fire_time n + 15)" using k progress_bound [OF ri] by simp
  show "pc s i = Halted" if "\<nexists>t. squad_step n s t" "i \<le> n" for i by (rule not_stuck [OF p f ph ri that])
  show "sts s = replicate n FIRE" if "i \<le> n" "pc s i = Halted" for i
    using whole_row [OF p ph ri that(1)] row_invD(5) [OF ri that] that(2) f by (simp add: fires_at_def)
  show "2 * fire_time n \<le> rnd s j \<or> 2 * fire_time n = rnd s j + 1 \<and> pc s j \<in> {Waiting, InPost, Uncounted}" if i: "i < n" "sts s ! i = FIRE" and j: "j \<le> n" for i j
  proof -
    have bi: "rnd s i \<le> 2 * fire_time n + 1" using row_invD(3) [OF ri, of i] i by simp
    have w: "written s i \<le> fire_time n" using bi by (auto simp: written_def)
    have "row n (written s i) ! i = FIRE" using row_invD(6) [OF ri i(1)] i(2) by simp
    then have eq: "written s i = fire_time n" using fires_atD(1) [OF f w i(1)] by simp
    obtain r where "arriving n r s \<or> leaving n r s" using ph by (auto simp: phase_def)
    then show ?thesis
    proof
      assume a: "arriving n r s"
      then show ?thesis using arrivingD(1) [OF a] i j eq by (auto simp: written_def split: if_splits)
    next
      assume l: "leaving n r s"
      have "2 * fire_time n \<le> Suc r" using leavingD(1) [OF l, of i] i eq by (auto simp: written_def split: if_splits)
      then show ?thesis using leavingD(1) [OF l j] by auto
    qed
  qed
qed

text \<open>A row of one soldier: from the start on, the soldier's first step is to go to the barrier.\<close>

definition one_soldier :: squad where
  "one_soldier = \<lparr>sts = [P], nxts = [Q], pre_mx = False, post_mx = True, counter = 0, pc = (\<lambda>i. Idle), rnd = (\<lambda>i. 0)\<rparr>"

theorem fssp_fires_simultaneously_witness:
  "squad_start 1 one_soldier \<and> (squad_step 1 ^^ 1) one_soldier (one_soldier\<lparr>pc := (\<lambda>i. Idle)(0 := Ready)\<rparr>)
     \<and> (\<exists>t. squad_step 1 (one_soldier\<lparr>pc := (\<lambda>i. Idle)(0 := Ready)\<rparr>) t)"
proof -
  let ?t = "one_soldier\<lparr>pc := (\<lambda>i. Idle)(0 := Ready)\<rparr>"
  have st: "squad_start 1 one_soldier" by (simp add: squad_start_def one_soldier_def)
  have "squad_step 1 one_soldier (one_soldier\<lparr>pc := (pc one_soldier)(0 := Ready)\<rparr>)" by (rule begin_run) (simp_all add: one_soldier_def)
  then have "squad_step 1 one_soldier ?t" by (simp add: one_soldier_def)
  then have run: "(squad_step 1 ^^ 1) one_soldier ?t" by (simp only: relpowp_1)
  have "pc ?t 1 \<noteq> Halted" by simp
  then have "\<exists>t. squad_step 1 ?t t" using fssp_fires_simultaneously [OF _ _ st run] by auto
  with st run show ?thesis by blast
qed

end
