(* ===== verification/Sh.thy ===== *)
theory Sh
  imports Prelude
begin

text \<open>
  The shell (\<^verbatim>\<open>sh.c\<close>): its tokenizer and recursive-descent parser over the command line, the termination of the words with
  zero bytes. A pointer into the line is its index; the line is
  the list of its bytes before the terminating zero. The parser's functions take fuel, and one property is that they never use it up.
\<close>

section \<open>Commands\<close>

text \<open>A word is the pair of its first index and the index after its last byte, as in \<^verbatim>\<open>argv\<close> and \<^verbatim>\<open>eargv\<close>.\<close>

datatype cmd =
    EXEC "(nat \<times> nat) list"
  | REDIR cmd nat nat int int    \<comment> \<open>\<^verbatim>\<open>cmd, file, efile, mode, fd\<close>\<close>
  | PIPE cmd cmd
  | LIST cmd cmd
  | BACK cmd

abbreviation (input) MAXARGS :: nat where "MAXARGS \<equiv> 10"
abbreviation (input) O_RDONLY :: int where "O_RDONLY \<equiv> 0"
abbreviation (input) O_WRONLY :: int where "O_WRONLY \<equiv> 1"
abbreviation (input) O_CREATE :: int where "O_CREATE \<equiv> 0x200"

text \<open>The shell's \<^verbatim>\<open>panic\<close>, and running out of fuel.\<close>

datatype sherr = ShPanic string | NoFuel

section \<open>Tokens\<close>

definition whitespace :: "uchar list" where
  "whitespace = [32, 9, 13, 10, 11]"

definition symbols :: "uchar list" where
  "symbols = [60, 124, 62, 38, 59, 40, 41]"

definition at :: "uchar list \<Rightarrow> nat \<Rightarrow> uchar" where
  "at buf p = (if p < length buf then buf ! p else 0)"

definition skip_ws :: "uchar list \<Rightarrow> nat \<Rightarrow> nat" where
  "skip_ws buf p = p + length (takeWhile (\<lambda>c. c \<in> set whitespace) (drop p buf))"

definition word_end :: "uchar list \<Rightarrow> nat \<Rightarrow> nat" where
  "word_end buf p = p + length (takeWhile (\<lambda>c. c \<notin> set whitespace \<and> c \<notin> set symbols) (drop p buf))"

text \<open>\<^verbatim>\<open>gettoken\<close>: the token's kind, its first index, the index after it, and where to go on.\<close>

definition gettoken :: "uchar list \<Rightarrow> nat \<Rightarrow> uchar \<times> nat \<times> nat \<times> nat" where
  "gettoken buf p =
     (let q = skip_ws buf p; c = at buf q;
          (ret, e) = (if c = 0 then (c, q)
            else if c = 62 then (if at buf (q + 1) = 62 then (43, q + 2) else (c, q + 1))
            else if c \<in> {124, 40, 41, 59, 38, 60} then (c, q + 1)
            else (97, word_end buf q)) in
      (ret, q, e, skip_ws buf e))"

definition peek :: "uchar list \<Rightarrow> nat \<Rightarrow> uchar list \<Rightarrow> bool \<times> nat" where
  "peek buf p toks = (let q = skip_ws buf p in (at buf q \<noteq> 0 \<and> at buf q \<in> set toks, q))"

section \<open>The parser\<close>

text \<open>
  \<^verbatim>\<open>parseexec\<close> changes the arguments of the command at the bottom of the chain of redirections it returns: here the arguments and the
  redirections are collected and put together at the end (\<open>wrap\<close>), the first redirection innermost.
\<close>

type_synonym redir = "nat \<times> nat \<times> int \<times> int"

definition redir_of :: "uchar \<Rightarrow> nat \<Rightarrow> nat \<Rightarrow> redir" where
  "redir_of tok q e = (if tok = 60 then (q, e, O_RDONLY, 0) else (q, e, O_WRONLY + O_CREATE, 1))"

definition wrap :: "cmd \<Rightarrow> redir list \<Rightarrow> cmd" where
  "wrap c rs = foldl (\<lambda>c (q, e, mode, fd). REDIR c q e mode fd) c rs"

fun parseredirs :: "nat \<Rightarrow> uchar list \<Rightarrow> nat \<Rightarrow> redir list \<Rightarrow> sherr + (redir list \<times> nat)" where
  "parseredirs 0 buf p rs = Inl NoFuel"
| "parseredirs (Suc n) buf p rs =
     (let (b, p1) = peek buf p [60, 62] in
      if \<not> b then Inr (rs, p1)
      else let (tok, _, _, p2) = gettoken buf p1; (w, q, e, p3) = gettoken buf p2 in
        if w \<noteq> 97 then Inl (ShPanic ''missing file for redirection'')
        else parseredirs n buf p3 (rs @ [redir_of tok q e]))"

text \<open>The loop over the arguments of \<^verbatim>\<open>parseexec\<close>.\<close>

fun parseargs :: "nat \<Rightarrow> uchar list \<Rightarrow> nat \<Rightarrow> (nat \<times> nat) list \<Rightarrow> redir list \<Rightarrow> sherr + (cmd \<times> nat)" where
  "parseargs 0 buf p args rs = Inl NoFuel"
| "parseargs (Suc n) buf p args rs =
     (let (b, p1) = peek buf p [124, 41, 38, 59] in
      if b then Inr (wrap (EXEC args) rs, p1)
      else let (tok, q, e, p2) = gettoken buf p1 in
        if tok = 0 then Inr (wrap (EXEC args) rs, p2)
        else if tok \<noteq> 97 then Inl (ShPanic ''syntax'')
        else if MAXARGS \<le> length args + 1 then Inl (ShPanic ''too many args'')
        else (case parseredirs n buf p2 rs of Inl x \<Rightarrow> Inl x
          | Inr (rs', p3) \<Rightarrow> parseargs n buf p3 (args @ [(q, e)]) rs'))"

text \<open>The loop over \<^verbatim>\<open>&\<close> of \<^verbatim>\<open>parseline\<close>.\<close>

fun parseamps :: "nat \<Rightarrow> uchar list \<Rightarrow> nat \<Rightarrow> cmd \<Rightarrow> sherr + (cmd \<times> nat)" where
  "parseamps 0 buf p c = Inl NoFuel"
| "parseamps (Suc n) buf p c =
     (let (b, p1) = peek buf p [38] in
      if b then let (_, _, _, p2) = gettoken buf p1 in parseamps n buf p2 (BACK c) else Inr (c, p1))"

fun parseline :: "nat \<Rightarrow> uchar list \<Rightarrow> nat \<Rightarrow> sherr + (cmd \<times> nat)"
  and parsepipe :: "nat \<Rightarrow> uchar list \<Rightarrow> nat \<Rightarrow> sherr + (cmd \<times> nat)"
  and parseexec :: "nat \<Rightarrow> uchar list \<Rightarrow> nat \<Rightarrow> sherr + (cmd \<times> nat)"
  and parseblock :: "nat \<Rightarrow> uchar list \<Rightarrow> nat \<Rightarrow> sherr + (cmd \<times> nat)" where
  "parseline 0 buf p = Inl NoFuel"
| "parseline (Suc n) buf p =
     (case parsepipe n buf p of Inl x \<Rightarrow> Inl x | Inr (c, p1) \<Rightarrow>
      (case parseamps n buf p1 c of Inl x \<Rightarrow> Inl x | Inr (c1, p2) \<Rightarrow>
       let (b, p3) = peek buf p2 [59] in
       if b then let (_, _, _, p4) = gettoken buf p3 in
         (case parseline n buf p4 of Inl x \<Rightarrow> Inl x | Inr (r, p5) \<Rightarrow> Inr (LIST c1 r, p5))
       else Inr (c1, p3)))"
| "parsepipe 0 buf p = Inl NoFuel"
| "parsepipe (Suc n) buf p =
     (case parseexec n buf p of Inl x \<Rightarrow> Inl x | Inr (c, p1) \<Rightarrow>
      let (b, p2) = peek buf p1 [124] in
      if b then let (_, _, _, p3) = gettoken buf p2 in
        (case parsepipe n buf p3 of Inl x \<Rightarrow> Inl x | Inr (r, p4) \<Rightarrow> Inr (PIPE c r, p4))
      else Inr (c, p2))"
| "parseexec 0 buf p = Inl NoFuel"
| "parseexec (Suc n) buf p =
     (let (b, p1) = peek buf p [40] in
      if b then parseblock n buf p1
      else (case parseredirs n buf p1 [] of Inl x \<Rightarrow> Inl x | Inr (rs, p2) \<Rightarrow> parseargs n buf p2 [] rs))"
| "parseblock 0 buf p = Inl NoFuel"
| "parseblock (Suc n) buf p =
     (let (b, p1) = peek buf p [40] in
      if \<not> b then Inl (ShPanic ''parseblock'')
      else let (_, _, _, p2) = gettoken buf p1 in
        (case parseline n buf p2 of Inl x \<Rightarrow> Inl x | Inr (c, p3) \<Rightarrow>
         let (b2, p4) = peek buf p3 [41] in
         if \<not> b2 then Inl (ShPanic ''syntax - missing )'')
         else let (_, _, _, p5) = gettoken buf p4 in
           (case parseredirs n buf p5 [] of Inl x \<Rightarrow> Inl x | Inr (rs, p6) \<Rightarrow> Inr (wrap c rs, p6))))"

section \<open>Terminating the words\<close>

fun nulterminate :: "cmd \<Rightarrow> uchar list \<Rightarrow> uchar list" where
  "nulterminate (EXEC args) buf = foldl (\<lambda>b (q, e). b[e := 0]) buf args"
| "nulterminate (REDIR c q e mode fd) buf = (nulterminate c buf)[e := 0]"
| "nulterminate (PIPE l r) buf = nulterminate r (nulterminate l buf)"
| "nulterminate (LIST l r) buf = nulterminate r (nulterminate l buf)"
| "nulterminate (BACK c) buf = nulterminate c buf"

text \<open>\<^verbatim>\<open>parsecmd\<close>: the command and the buffer after the words are terminated; the buffer ends with the zero byte that ends the line. Enough fuel is proved below.\<close>

definition parsecmd :: "uchar list \<Rightarrow> sherr + (cmd \<times> uchar list)" where
  "parsecmd buf =
     (case parseline (4 * length buf + 8) buf 0 of Inl x \<Rightarrow> Inl x | Inr (c, p) \<Rightarrow>
      let (_, p1) = peek buf p [] in
      if p1 \<noteq> length buf then Inl (ShPanic ''syntax'')
      else Inr (c, nulterminate c (buf @ [0])))"

section \<open>Lemmas on tokens\<close>

lemma skip_ws_bounds: "p \<le> skip_ws buf p" "p \<le> length buf \<Longrightarrow> skip_ws buf p \<le> length buf"
  using length_takeWhile_le [of "\<lambda>c. c \<in> set whitespace" "drop p buf"] by (auto simp: skip_ws_def)

lemma word_end_bounds: "p \<le> word_end buf p" "p \<le> length buf \<Longrightarrow> word_end buf p \<le> length buf"
  using length_takeWhile_le [of "\<lambda>c. c \<notin> set whitespace \<and> c \<notin> set symbols" "drop p buf"] by (auto simp: word_end_def)

lemma skip_ws_stops: "skip_ws buf p < length buf \<Longrightarrow> at buf (skip_ws buf p) \<notin> set whitespace"
proof -
  assume a: "skip_ws buf p < length buf"
  then have "length (takeWhile (\<lambda>c. c \<in> set whitespace) (drop p buf)) < length (drop p buf)" by (simp add: skip_ws_def)
  from nth_length_takeWhile [OF this] a show ?thesis by (simp add: skip_ws_def at_def nth_drop)
qed

text \<open>A position that is not inside a word: the byte before it or the byte at it, where there are such, is blank or a symbol.\<close>

definition delimiter :: "uchar \<Rightarrow> bool" where
  "delimiter c \<longleftrightarrow> c \<in> set whitespace \<or> c \<in> set symbols"

definition edge :: "uchar list \<Rightarrow> nat \<Rightarrow> bool" where
  "edge buf p \<longleftrightarrow> (0 < p \<and> p < length buf \<longrightarrow> delimiter (buf ! (p - 1)) \<or> delimiter (buf ! p))"

lemma skip_ws_before:
  assumes "p < skip_ws buf p"
  shows "delimiter (buf ! (skip_ws buf p - 1))"
proof -
  let ?P = "\<lambda>c. c \<in> set whitespace" and ?n = "length (takeWhile (\<lambda>c. c \<in> set whitespace) (drop p buf))"
  have n: "0 < ?n" using assms by (simp add: skip_ws_def)
  then have "takeWhile ?P (drop p buf) ! (?n - 1) \<in> set (takeWhile ?P (drop p buf))" by simp
  then have "?P (takeWhile ?P (drop p buf) ! (?n - 1))" by (rule set_takeWhileD [THEN conjunct2])
  moreover have "takeWhile ?P (drop p buf) ! (?n - 1) = drop p buf ! (?n - 1)" using n by (intro takeWhile_nth) simp
  moreover have "drop p buf ! (?n - 1) = buf ! (p + (?n - 1))"
  proof (rule nth_drop)
    show "p \<le> length buf" using n by (cases "p \<le> length buf") simp_all
  qed
  moreover have "skip_ws buf p - 1 = p + (?n - 1)" unfolding skip_ws_def using n by linarith
  ultimately show ?thesis by (simp add: delimiter_def)
qed

lemma skip_ws_edge: "edge buf p \<Longrightarrow> edge buf (skip_ws buf p)"
  using skip_ws_before [of p buf] skip_ws_bounds(1) [of p buf] by (cases "p < skip_ws buf p") (auto simp: edge_def)

text \<open>A word: a maximal run of bytes that are neither blank nor symbols. It ends before a blank, a symbol or the end of the
  line, and starts after a blank or a symbol or at the start of the line.\<close>

definition word_ok :: "uchar list \<Rightarrow> nat \<times> nat \<Rightarrow> bool" where
  "word_ok buf w \<longleftrightarrow> (case w of (q, e) \<Rightarrow> q < e \<and> e \<le> length buf \<and> (\<forall>i. q \<le> i \<and> i < e \<longrightarrow> buf ! i \<notin> set whitespace \<and> buf ! i \<notin> set symbols)
     \<and> (e < length buf \<longrightarrow> buf ! e \<in> set whitespace \<or> buf ! e \<in> set symbols)
     \<and> (0 < q \<longrightarrow> buf ! (q - 1) \<in> set whitespace \<or> buf ! (q - 1) \<in> set symbols))"

lemma word_end_ok:
  assumes "q < length buf" "buf ! q \<notin> set whitespace" "buf ! q \<notin> set symbols"
  shows "q < word_end buf q" "edge buf (word_end buf q)" "edge buf q \<Longrightarrow> word_ok buf (q, word_end buf q)"
proof -
  let ?P = "\<lambda>c. c \<notin> set whitespace \<and> c \<notin> set symbols"
  let ?n = "length (takeWhile ?P (drop q buf))"
  have pos: "0 < ?n" using assms by (simp add: Cons_nth_drop_Suc [symmetric])
  have le: "?n \<le> length buf - q" using length_takeWhile_le [of ?P "drop q buf"] by simp
  have inside: "?P (buf ! i)" if "q \<le> i" "i < q + ?n" for i
  proof -
    have "takeWhile ?P (drop q buf) ! (i - q) \<in> set (takeWhile ?P (drop q buf))" using that by simp
    then have "?P (takeWhile ?P (drop q buf) ! (i - q))" by (rule set_takeWhileD [THEN conjunct2])
    moreover have "takeWhile ?P (drop q buf) ! (i - q) = buf ! i" using that assms(1) by (simp add: takeWhile_nth)
    ultimately show ?thesis by simp
  qed
  have after: "\<not> ?P (buf ! (q + ?n))" if "q + ?n < length buf"
    using nth_length_takeWhile [of ?P "drop q buf"] that assms(1) by (simp add: nth_drop)
  show "q < word_end buf q" "edge buf (word_end buf q)" using pos after by (auto simp: word_end_def edge_def delimiter_def)
  assume "edge buf q"
  then have "0 < q \<longrightarrow> buf ! (q - 1) \<in> set whitespace \<or> buf ! (q - 1) \<in> set symbols"
    using assms by (auto simp: edge_def delimiter_def)
  then show "word_ok buf (q, word_end buf q)" unfolding word_ok_def word_end_def using pos le inside after assms(1) by auto
qed

lemma at_zero: "0 \<notin> set buf \<Longrightarrow> at buf p = 0 \<longleftrightarrow> length buf \<le> p"
  by (auto simp: at_def dest: nth_mem)

lemma gettoken_bounds:
  assumes z: "0 \<notin> set buf" and p: "p \<le> length buf" and g: "gettoken buf p = (tok, q, e, p')"
  shows "p \<le> q" "q \<le> e" "e \<le> p'" "p' \<le> length buf" "tok \<noteq> 0 \<Longrightarrow> q < e" "tok = 97 \<Longrightarrow> edge buf p \<Longrightarrow> word_ok buf (q, e)"
    "tok = 0 \<longleftrightarrow> q = length buf" "edge buf p'"
proof -
  let ?q = "skip_ws buf p"
  have q: "q = ?q" "p \<le> ?q" "?q \<le> length buf" and p': "p' = skip_ws buf e"
    using g skip_ws_bounds [of p buf] p by (auto simp: gettoken_def Let_def split: if_splits)
  have c0: "at buf ?q = 0 \<longleftrightarrow> ?q = length buf" using at_zero [OF z, of ?q] q(3) by auto
  consider (zero) "at buf ?q = 0" | (gg) "at buf ?q = 62" "at buf (?q + 1) = 62" | (gt) "at buf ?q = 62" "at buf (?q + 1) \<noteq> 62"
    | (sym) "at buf ?q \<in> {124, 40, 41, 59, 38, 60}" | (word) "at buf ?q \<noteq> 0" "at buf ?q \<noteq> 62" "at buf ?q \<notin> {124, 40, 41, 59, 38, 60}" by blast
  then have "q \<le> e \<and> e \<le> length buf \<and> (tok \<noteq> 0 \<longrightarrow> q < e) \<and> (tok = 97 \<longrightarrow> edge buf p \<longrightarrow> word_ok buf (q, e)) \<and> (tok = 0 \<longleftrightarrow> q = length buf)
      \<and> edge buf e"
  proof cases
    case zero
    then show ?thesis using g q c0 by (simp add: gettoken_def Let_def edge_def)
  next
    case gg
    then have "?q < length buf" "?q + 1 < length buf" using at_zero [OF z, of ?q] at_zero [OF z, of "?q + 1"] by auto
    then show ?thesis using g gg q by (auto simp: gettoken_def Let_def edge_def delimiter_def at_def symbols_def)
  next
    case gt
    then have "?q < length buf" using at_zero [OF z, of ?q] by auto
    then show ?thesis using g gt q by (auto simp: gettoken_def Let_def edge_def delimiter_def at_def symbols_def)
  next
    case sym
    then have lt: "?q < length buf" using at_zero [OF z, of ?q] by auto
    then have "delimiter (buf ! ?q)" using sym by (auto simp: at_def delimiter_def symbols_def)
    then have "edge buf (?q + 1)" by (simp add: edge_def)
    then show ?thesis using g sym q lt by (auto simp: gettoken_def Let_def)
  next
    case word
    have lt: "?q < length buf" using at_zero [OF z, of ?q] word by auto
    have a: "buf ! ?q \<notin> set whitespace" using skip_ws_stops [OF lt] lt by (simp add: at_def)
    have b: "buf ! ?q \<notin> set symbols" using word lt by (simp add: at_def symbols_def)
    have "tok = 97" "e = word_end buf ?q" using g word by (auto simp: gettoken_def Let_def)
    then show ?thesis using word_end_ok [OF lt a b] word_end_bounds(2) [of ?q buf] skip_ws_edge [of buf p] q lt by auto
  qed
  then show "p \<le> q" "q \<le> e" "e \<le> p'" "p' \<le> length buf" "tok \<noteq> 0 \<Longrightarrow> q < e" "tok = 97 \<Longrightarrow> edge buf p \<Longrightarrow> word_ok buf (q, e)"
    "tok = 0 \<longleftrightarrow> q = length buf" "edge buf p'"
    using q p' skip_ws_bounds [of e buf] skip_ws_edge [of buf e] by auto
qed

lemma peek_bounds:
  assumes z: "0 \<notin> set buf" and p: "p \<le> length buf" and g: "peek buf p toks = (b, p')"
  shows "p \<le> p'" "p' \<le> length buf" "b \<Longrightarrow> p' < length buf \<and> skip_ws buf p' = p'" "edge buf p \<Longrightarrow> edge buf p'"
proof -
  have p': "p' = skip_ws buf p" using g by (simp add: peek_def Let_def)
  show "p \<le> p'" "p' \<le> length buf" "edge buf p \<Longrightarrow> edge buf p'"
    using skip_ws_bounds [of p buf] skip_ws_edge [of buf p] p p' by auto
  assume b
  then have lt: "p' < length buf" using g at_zero [OF z, of p'] p' by (simp add: peek_def Let_def)
  then have "buf ! p' \<notin> set whitespace" using skip_ws_stops [of buf p] p' by (simp add: at_def)
  then show "p' < length buf \<and> skip_ws buf p' = p'" using lt by (simp add: skip_ws_def Cons_nth_drop_Suc [symmetric])
qed

text \<open>The token after a successful \<^verbatim>\<open>peek\<close> is not empty.\<close>

lemma token_after_peek:
  assumes "0 \<notin> set buf" "p \<le> length buf" "peek buf p toks = (True, p1)" "gettoken buf p1 = (tok, q, e, p2)"
  shows "p < p2" "p2 \<le> length buf" "edge buf p2"
proof -
  note b = peek_bounds [OF assms(1-3)]
  have p1: "p1 \<le> length buf" using b by simp
  note g = gettoken_bounds [OF assms(1) p1 assms(4)]
  have "q = p1" using assms(4) b(3) by (auto simp: gettoken_def Let_def split: if_splits)
  then have "tok \<noteq> 0" using g(7) b(3) by auto
  then show "p < p2" "p2 \<le> length buf" "edge buf p2" using g b(1) by auto
qed

section \<open>The parser uses its fuel sparingly and finds words\<close>

fun words :: "cmd \<Rightarrow> (nat \<times> nat) list" where
  "words (EXEC args) = args"
| "words (REDIR c q e mode fd) = (q, e) # words c"
| "words (PIPE l r) = words l @ words r"
| "words (LIST l r) = words l @ words r"
| "words (BACK c) = words c"

fun few_args :: "cmd \<Rightarrow> bool" where
  "few_args (EXEC args) = (length args < MAXARGS)"
| "few_args (REDIR c q e mode fd) = few_args c"
| "few_args (PIPE l r) = (few_args l \<and> few_args r)"
| "few_args (LIST l r) = (few_args l \<and> few_args r)"
| "few_args (BACK c) = few_args c"

text \<open>Redirections are of the standard input or the standard output.\<close>

fun std_redirs :: "cmd \<Rightarrow> bool" where
  "std_redirs (EXEC args) = True"
| "std_redirs (REDIR c q e mode fd) = ((fd = 0 \<or> fd = 1) \<and> std_redirs c)"
| "std_redirs (PIPE l r) = (std_redirs l \<and> std_redirs r)"
| "std_redirs (LIST l r) = (std_redirs l \<and> std_redirs r)"
| "std_redirs (BACK c) = std_redirs c"

definition cmd_ok :: "uchar list \<Rightarrow> cmd \<Rightarrow> bool" where
  "cmd_ok buf c \<longleftrightarrow> few_args c \<and> std_redirs c \<and> (\<forall>w \<in> set (words c). word_ok buf w)"

definition redirs_ok :: "uchar list \<Rightarrow> redir list \<Rightarrow> bool" where
  "redirs_ok buf rs \<longleftrightarrow> (\<forall>(q, e, mode, fd) \<in> set rs. word_ok buf (q, e) \<and> (fd = 0 \<or> fd = 1))"

lemma cmd_ok_simps [simp]:
  "cmd_ok buf (EXEC args) \<longleftrightarrow> length args < MAXARGS \<and> (\<forall>w \<in> set args. word_ok buf w)"
  "cmd_ok buf (REDIR c q e mode fd) \<longleftrightarrow> word_ok buf (q, e) \<and> (fd = 0 \<or> fd = 1) \<and> cmd_ok buf c"
  "cmd_ok buf (PIPE l r) \<longleftrightarrow> cmd_ok buf l \<and> cmd_ok buf r"
  "cmd_ok buf (LIST l r) \<longleftrightarrow> cmd_ok buf l \<and> cmd_ok buf r"
  "cmd_ok buf (BACK c) \<longleftrightarrow> cmd_ok buf c"
  by (auto simp: cmd_ok_def)

lemma wrap_ok: "cmd_ok buf c \<Longrightarrow> redirs_ok buf rs \<Longrightarrow> cmd_ok buf (wrap c rs)"
  unfolding wrap_def by (induction rs arbitrary: c) (auto simp: redirs_ok_def)

text \<open>A result is good: not out of fuel, and a success advances within the line, to a position outside the words, and satisfies \<open>Q\<close>.\<close>

definition good :: "uchar list \<Rightarrow> nat \<Rightarrow> ('a \<Rightarrow> bool) \<Rightarrow> sherr + 'a \<times> nat \<Rightarrow> bool" where
  "good buf p Q r \<longleftrightarrow> (case r of Inl x \<Rightarrow> x \<noteq> NoFuel | Inr (a, p') \<Rightarrow> p \<le> p' \<and> p' \<le> length buf \<and> edge buf p' \<and> Q a)"

lemma good_simps [simp]: "good buf p Q (Inl x) \<longleftrightarrow> x \<noteq> NoFuel" "good buf p Q (Inr (a, p')) \<longleftrightarrow> p \<le> p' \<and> p' \<le> length buf \<and> edge buf p' \<and> Q a"
  by (simp_all add: good_def)

lemma good_mono: "good buf p1 Q r \<Longrightarrow> p \<le> p1 \<Longrightarrow> good buf p Q r"
  by (auto simp: good_def split: sum.splits)

lemma good_case:
  assumes "good buf p Q r" "\<And>a p'. r = Inr (a, p') \<Longrightarrow> p \<le> p' \<Longrightarrow> p' \<le> length buf \<Longrightarrow> edge buf p' \<Longrightarrow> Q a \<Longrightarrow> good buf p S (f a p')"
  shows "good buf p S (case r of Inl x \<Rightarrow> Inl x | Inr (a, p') \<Rightarrow> f a p')"
  using assms by (cases r) (auto simp: good_def)

lemma parseredirs_good:
  assumes z: "0 \<notin> set buf"
  shows "p \<le> length buf \<Longrightarrow> length buf - p < n \<Longrightarrow> redirs_ok buf rs \<Longrightarrow> edge buf p
    \<Longrightarrow> good buf p (redirs_ok buf) (parseredirs n buf p rs)"
proof (induction n arbitrary: p rs)
  case (Suc n)
  obtain b p1 where pk: "peek buf p [60, 62] = (b, p1)" by force
  note pb = peek_bounds [OF z Suc.prems(1) pk]
  obtain tok q0 e0 p2 where t1: "gettoken buf p1 = (tok, q0, e0, p2)" by (metis prod_cases4)
  obtain w q e p3 where t2: "gettoken buf p2 = (w, q, e, p3)" by (metis prod_cases4)
  show ?case
  proof (cases b)
    case False
    then show ?thesis using pk pb Suc.prems(3,4) by simp
  next
    case True
    note a = token_after_peek [OF z Suc.prems(1) pk [unfolded True [THEN eqTrueI]] t1]
    have p2: "p2 \<le> length buf" by (rule a(2))
    note g = gettoken_bounds [OF z p2 t2]
    show ?thesis
    proof (cases "w = 97")
      case False
      then show ?thesis using pk True t1 t2 by simp
    next
      case w: True
      have "redirs_ok buf (rs @ [redir_of tok q e])" using Suc.prems(3) g(6) [OF w a(3)] by (auto simp: redirs_ok_def redir_of_def)
      then have "good buf p3 (redirs_ok buf) (parseredirs n buf p3 (rs @ [redir_of tok q e]))"
        using Suc.IH [of p3] g a Suc.prems(2) by simp
      then have "good buf p (redirs_ok buf) (parseredirs n buf p3 (rs @ [redir_of tok q e]))" by (rule good_mono) (use g a in simp)
      then show ?thesis using pk True t1 t2 w by simp
    qed
  qed
qed simp

lemma parseargs_good:
  assumes z: "0 \<notin> set buf"
  shows "p \<le> length buf \<Longrightarrow> length buf - p < n \<Longrightarrow> redirs_ok buf rs \<Longrightarrow> length args < MAXARGS \<Longrightarrow> \<forall>w \<in> set args. word_ok buf w
    \<Longrightarrow> edge buf p \<Longrightarrow> good buf p (cmd_ok buf) (parseargs n buf p args rs)"
proof (induction n arbitrary: p args rs)
  case (Suc n)
  obtain b p1 where pk: "peek buf p [124, 41, 38, 59] = (b, p1)" by force
  note pb = peek_bounds [OF z Suc.prems(1) pk]
  obtain tok q e p2 where t: "gettoken buf p1 = (tok, q, e, p2)" by (metis prod_cases4)
  note g = gettoken_bounds [OF z pb(2) t]
  have fin: "cmd_ok buf (wrap (EXEC args) rs)" using wrap_ok [of buf "EXEC args" rs] Suc.prems by simp
  consider (stop) b | (zero) "\<not> b" "tok = 0" | (bad) "\<not> b" "tok \<noteq> 0" "tok \<noteq> 97 \<or> 10 \<le> length args + 1"
    | (go) "\<not> b" "tok = 97" "length args + 1 < 10" by force
  then show ?case
  proof cases
    case stop
    then show ?thesis using pk pb fin Suc.prems(6) by simp
  next
    case zero
    then show ?thesis using pk pb t g fin by simp
  next
    case bad
    then show ?thesis using pk t by auto
  next
    case go
    have adv: "p < p2" using g(1,2,3,5) go pb by simp
    have "good buf p (cmd_ok buf) (case parseredirs n buf p2 rs of Inl x \<Rightarrow> Inl x | Inr (rs', p3) \<Rightarrow> parseargs n buf p3 (args @ [(q, e)]) rs')"
    proof (rule good_case)
      show "good buf p (redirs_ok buf) (parseredirs n buf p2 rs)"
        by (rule good_mono [OF parseredirs_good [OF z g(4)]]) (use adv g(4,8) Suc.prems in simp_all)
      fix rs' p3
      assume r: "parseredirs n buf p2 rs = Inr (rs', p3)" "p3 \<le> length buf" "edge buf p3" "redirs_ok buf rs'"
      have "p2 \<le> p3" using parseredirs_good [OF z g(4), of n rs] r adv g(4,8) Suc.prems by simp
      then have "good buf p3 (cmd_ok buf) (parseargs n buf p3 (args @ [(q, e)]) rs')"
        using Suc.IH [of p3 rs' "args @ [(q, e)]"] r go g(6) [OF go(2) pb(4) [OF Suc.prems(6)]] adv g(4) Suc.prems by simp
      then show "good buf p (cmd_ok buf) (parseargs n buf p3 (args @ [(q, e)]) rs')" by (rule good_mono) (use \<open>p2 \<le> p3\<close> adv in simp)
    qed
    then show ?thesis using pk t go by simp
  qed
qed simp

lemma parseamps_good:
  assumes z: "0 \<notin> set buf"
  shows "p \<le> length buf \<Longrightarrow> length buf - p < n \<Longrightarrow> cmd_ok buf c \<Longrightarrow> edge buf p
    \<Longrightarrow> good buf p (cmd_ok buf) (parseamps n buf p c)"
proof (induction n arbitrary: p c)
  case (Suc n)
  obtain b p1 where pk: "peek buf p [38] = (b, p1)" by force
  note pb = peek_bounds [OF z Suc.prems(1) pk]
  obtain tok q e p2 where t: "gettoken buf p1 = (tok, q, e, p2)" by (metis prod_cases4)
  show ?case
  proof (cases b)
    case False
    then show ?thesis using pk pb Suc.prems by simp
  next
    case True
    note a = token_after_peek [OF z Suc.prems(1) pk [unfolded True [THEN eqTrueI]] t]
    have "good buf p2 (cmd_ok buf) (parseamps n buf p2 (BACK c))" using Suc.IH [of p2 "BACK c"] a Suc.prems by simp
    then have "good buf p (cmd_ok buf) (parseamps n buf p2 (BACK c))" by (rule good_mono) (use a in simp)
    then show ?thesis using pk True t by simp
  qed
qed simp

text \<open>One step of each of the four functions, from good results of the calls it makes.\<close>

lemma parseline_step:
  assumes z: "0 \<notin> set buf" and f: "length buf - p < n"
    and IH: "good buf p (cmd_ok buf) (parsepipe n buf p)"
      "\<And>p4. p < p4 \<Longrightarrow> p4 \<le> length buf \<Longrightarrow> edge buf p4 \<Longrightarrow> good buf p4 (cmd_ok buf) (parseline n buf p4)"
  shows "good buf p (cmd_ok buf) (parseline (Suc n) buf p)"
proof -
  from IH(1) show ?thesis unfolding parseline.simps
  proof (rule good_case)
    fix c p1
    assume p1: "p \<le> p1" "p1 \<le> length buf" "edge buf p1" and c: "cmd_ok buf c"
    have "good buf p1 (cmd_ok buf) (parseamps n buf p1 c)" by (rule parseamps_good [OF z p1(2) _ c p1(3)]) (use f p1 in simp)
    then have "good buf p (cmd_ok buf) (parseamps n buf p1 c)" by (rule good_mono) (rule p1(1))
    then show "good buf p (cmd_ok buf) (case parseamps n buf p1 c of Inl x \<Rightarrow> Inl x | Inr (c1, p2) \<Rightarrow>
       let (b, p3) = peek buf p2 [59] in if b then let (_, _, _, p4) = gettoken buf p3 in
         (case parseline n buf p4 of Inl x \<Rightarrow> Inl x | Inr (r, p5) \<Rightarrow> Inr (LIST c1 r, p5)) else Inr (c1, p3))"
    proof (rule good_case)
      fix c1 p2
      assume p2: "p \<le> p2" "p2 \<le> length buf" "edge buf p2" and c1: "cmd_ok buf c1"
      obtain b p3 where pk: "peek buf p2 [59] = (b, p3)" by force
      note pb = peek_bounds [OF z p2(2) pk]
      obtain tok q e p4 where t: "gettoken buf p3 = (tok, q, e, p4)" by (metis prod_cases4)
      show "good buf p (cmd_ok buf) (let (b, p3) = peek buf p2 [59] in if b then let (_, _, _, p4) = gettoken buf p3 in
         (case parseline n buf p4 of Inl x \<Rightarrow> Inl x | Inr (r, p5) \<Rightarrow> Inr (LIST c1 r, p5)) else Inr (c1, p3))"
      proof (cases b)
        case False
        then show ?thesis using pk pb p2 c1 by simp
      next
        case True
        note a = token_after_peek [OF z p2(2) pk [unfolded True [THEN eqTrueI]] t]
        have "good buf p4 (cmd_ok buf) (parseline n buf p4)" using IH(2) [of p4] a p2 by simp
        then have "good buf p (cmd_ok buf) (parseline n buf p4)" by (rule good_mono) (use a p2 in simp)
        then have "good buf p (cmd_ok buf) (case parseline n buf p4 of Inl x \<Rightarrow> Inl x | Inr (r, p5) \<Rightarrow> Inr (LIST c1 r, p5))"
          by (rule good_case) (use c1 in simp)
        then show ?thesis using pk True t by simp
      qed
    qed
  qed
qed

lemma parsepipe_step:
  assumes z: "0 \<notin> set buf"
    and IH: "good buf p (cmd_ok buf) (parseexec n buf p)"
      "\<And>p3. p < p3 \<Longrightarrow> p3 \<le> length buf \<Longrightarrow> edge buf p3 \<Longrightarrow> good buf p3 (cmd_ok buf) (parsepipe n buf p3)"
  shows "good buf p (cmd_ok buf) (parsepipe (Suc n) buf p)"
proof -
  from IH(1) show ?thesis unfolding parsepipe.simps
  proof (rule good_case)
    fix c p1
    assume p1: "p \<le> p1" "p1 \<le> length buf" "edge buf p1" and c: "cmd_ok buf c"
    obtain b p2 where pk: "peek buf p1 [124] = (b, p2)" by force
    note pb = peek_bounds [OF z p1(2) pk]
    obtain tok q e p3 where t: "gettoken buf p2 = (tok, q, e, p3)" by (metis prod_cases4)
    show "good buf p (cmd_ok buf) (let (b, p2) = peek buf p1 [124] in if b then let (_, _, _, p3) = gettoken buf p2 in
        (case parsepipe n buf p3 of Inl x \<Rightarrow> Inl x | Inr (r, p4) \<Rightarrow> Inr (PIPE c r, p4)) else Inr (c, p2))"
    proof (cases b)
      case False
      then show ?thesis using pk pb p1 c by simp
    next
      case True
      note a = token_after_peek [OF z p1(2) pk [unfolded True [THEN eqTrueI]] t]
      have "good buf p3 (cmd_ok buf) (parsepipe n buf p3)" using IH(2) [of p3] a p1 by simp
      then have "good buf p (cmd_ok buf) (parsepipe n buf p3)" by (rule good_mono) (use a p1 in simp)
      then have "good buf p (cmd_ok buf) (case parsepipe n buf p3 of Inl x \<Rightarrow> Inl x | Inr (r, p4) \<Rightarrow> Inr (PIPE c r, p4))"
        by (rule good_case) (use c in simp)
      then show ?thesis using pk True t by simp
    qed
  qed
qed

lemma parseexec_step:
  assumes z: "0 \<notin> set buf" and p: "p \<le> length buf" "edge buf p" and f: "length buf - p < n"
    and IH: "\<And>p1. p \<le> p1 \<Longrightarrow> p1 < length buf \<Longrightarrow> edge buf p1 \<Longrightarrow> good buf p1 (cmd_ok buf) (parseblock n buf p1)"
  shows "good buf p (cmd_ok buf) (parseexec (Suc n) buf p)"
proof -
  obtain b p1 where pk: "peek buf p [40] = (b, p1)" by force
  note pb = peek_bounds [OF z p(1) pk]
  show ?thesis
  proof (cases b)
    case True
    have "good buf p1 (cmd_ok buf) (parseblock n buf p1)" using IH [of p1] pb p True by simp
    then have "good buf p (cmd_ok buf) (parseblock n buf p1)" by (rule good_mono) (rule pb(1))
    then show ?thesis using pk True by simp
  next
    case False
    have "good buf p1 (redirs_ok buf) (parseredirs n buf p1 [])" by (rule parseredirs_good [OF z pb(2)]) (use f pb p in \<open>simp_all add: redirs_ok_def\<close>)
    then have "good buf p (redirs_ok buf) (parseredirs n buf p1 [])" by (rule good_mono) (rule pb(1))
    then have "good buf p (cmd_ok buf) (case parseredirs n buf p1 [] of Inl x \<Rightarrow> Inl x | Inr (rs, p2) \<Rightarrow> parseargs n buf p2 [] rs)"
    proof (rule good_case)
      fix rs p2
      assume p2: "p \<le> p2" "p2 \<le> length buf" "edge buf p2" "redirs_ok buf rs"
      have "good buf p2 (cmd_ok buf) (parseargs n buf p2 [] rs)" by (rule parseargs_good [OF z p2(2) _ p2(4)]) (use f p2 in simp_all)
      then show "good buf p (cmd_ok buf) (parseargs n buf p2 [] rs)" by (rule good_mono) (rule p2(1))
    qed
    then show ?thesis using pk False by simp
  qed
qed

lemma parseblock_step:
  assumes z: "0 \<notin> set buf" and p: "p < length buf" and f: "length buf - p < Suc n"
    and IH: "\<And>p2. p < p2 \<Longrightarrow> p2 \<le> length buf \<Longrightarrow> edge buf p2 \<Longrightarrow> good buf p2 (cmd_ok buf) (parseline n buf p2)"
  shows "good buf p (cmd_ok buf) (parseblock (Suc n) buf p)"
proof -
  have pl: "p \<le> length buf" using p by simp
  obtain b p1 where pk: "peek buf p [40] = (b, p1)" by force
  note pb = peek_bounds [OF z pl pk]
  obtain tok q e p2 where t: "gettoken buf p1 = (tok, q, e, p2)" by (metis prod_cases4)
  show ?thesis
  proof (cases b)
    case False
    then show ?thesis using pk by simp
  next
    case True
    note a = token_after_peek [OF z pl pk [unfolded True [THEN eqTrueI]] t]
    have "good buf p2 (cmd_ok buf) (parseline n buf p2)" using IH [of p2] a by simp
    then have "good buf p (cmd_ok buf) (parseline n buf p2)" by (rule good_mono) (use a in simp)
    then have "good buf p (cmd_ok buf) (case parseline n buf p2 of Inl x \<Rightarrow> Inl x | Inr (c, p3) \<Rightarrow>
       let (b2, p4) = peek buf p3 [41] in if \<not> b2 then Inl (ShPanic ''syntax - missing )'')
       else let (_, _, _, p5) = gettoken buf p4 in
         (case parseredirs n buf p5 [] of Inl x \<Rightarrow> Inl x | Inr (rs, p6) \<Rightarrow> Inr (wrap c rs, p6)))"
    proof (rule good_case)
      fix c p3
      assume p3: "p \<le> p3" "p3 \<le> length buf" "edge buf p3" and c: "cmd_ok buf c"
      obtain b2 p4 where pk2: "peek buf p3 [41] = (b2, p4)" by force
      obtain tok2 q2 e2 p5 where t2: "gettoken buf p4 = (tok2, q2, e2, p5)" by (metis prod_cases4)
      show "good buf p (cmd_ok buf) (let (b2, p4) = peek buf p3 [41] in if \<not> b2 then Inl (ShPanic ''syntax - missing )'')
         else let (_, _, _, p5) = gettoken buf p4 in
           (case parseredirs n buf p5 [] of Inl x \<Rightarrow> Inl x | Inr (rs, p6) \<Rightarrow> Inr (wrap c rs, p6)))"
      proof (cases b2)
        case False
        then show ?thesis using pk2 by simp
      next
        case b2: True
        note a2 = token_after_peek [OF z p3(2) pk2 [unfolded b2 [THEN eqTrueI]] t2]
        have "good buf p5 (redirs_ok buf) (parseredirs n buf p5 [])"
          by (rule parseredirs_good [OF z a2(2)]) (use f a2 p3 in \<open>simp_all add: redirs_ok_def\<close>)
        then have "good buf p (redirs_ok buf) (parseredirs n buf p5 [])" by (rule good_mono) (use a2 p3 in simp)
        then have "good buf p (cmd_ok buf) (case parseredirs n buf p5 [] of Inl x \<Rightarrow> Inl x | Inr (rs, p6) \<Rightarrow> Inr (wrap c rs, p6))"
          by (rule good_case) (use wrap_ok [OF c] in simp)
        then show ?thesis using pk2 b2 t2 by simp
      qed
    qed
    then show ?thesis using pk True t by simp
  qed
qed

text \<open>Fuel for a position with \<open>r\<close> bytes after it: four calls lead from a line to a line inside parentheses.\<close>

lemma parse_good:
  assumes z: "0 \<notin> set buf"
  shows "p \<le> length buf \<Longrightarrow> 4 * (length buf - p) + 3 < n \<Longrightarrow> edge buf p \<Longrightarrow> good buf p (cmd_ok buf) (parseline n buf p)"
    "p \<le> length buf \<Longrightarrow> 4 * (length buf - p) + 2 < n \<Longrightarrow> edge buf p \<Longrightarrow> good buf p (cmd_ok buf) (parsepipe n buf p)"
    "p \<le> length buf \<Longrightarrow> 4 * (length buf - p) + 1 < n \<Longrightarrow> edge buf p \<Longrightarrow> good buf p (cmd_ok buf) (parseexec n buf p)"
    "p < length buf \<Longrightarrow> 4 * (length buf - p) < n \<Longrightarrow> edge buf p \<Longrightarrow> good buf p (cmd_ok buf) (parseblock n buf p)"
proof (induction n arbitrary: p and p and p and p)
  case (Suc n)
  {
    case 1
    then show ?case by (intro parseline_step [OF z] Suc) simp_all
  next
    case 2
    then show ?case by (intro parsepipe_step [OF z] Suc) simp_all
  next
    case 3
    then show ?case by (intro parseexec_step [OF z] Suc) simp_all
  next
    case 4
    then show ?case by (intro parseblock_step [OF z] Suc) simp_all
  }
qed simp_all

section \<open>The words after termination\<close>

text \<open>The C string that starts at an index of a buffer.\<close>

definition cstr_at :: "uchar list \<Rightarrow> nat \<Rightarrow> uchar list" where
  "cstr_at b q = takeWhile (\<lambda>c. c \<noteq> 0) (drop q b)"

lemma foldl_zero_length: "length (foldl (\<lambda>b (q, e). b[e := (0 :: uchar)]) b ws) = length b"
  by (induction ws arbitrary: b) (auto split: prod.splits)

lemma foldl_zero_nth:
  "i < length b \<Longrightarrow> foldl (\<lambda>b (q, e). b[e := (0 :: uchar)]) b ws ! i = (if i \<in> snd ` set ws then 0 else b ! i)"
proof (induction ws arbitrary: b)
  case (Cons w ws)
  obtain q e where w: "w = (q, e)" by force
  show ?case unfolding w using Cons.IH [of "b[e := 0]"] Cons.prems by (cases "i = e") auto
qed simp

lemma nulterminate_length [simp]: "length (nulterminate c b) = length b"
  by (induction c arbitrary: b) (auto simp: foldl_zero_length)

lemma nulterminate_nth:
  "i < length b \<Longrightarrow> nulterminate c b ! i = (if i \<in> snd ` set (words c) then 0 else b ! i)"
proof (induction c arbitrary: b)
  case (REDIR c q e mode fd)
  show ?case using REDIR.IH [OF REDIR.prems] REDIR.prems by (cases "i = e") auto
qed (auto simp: foldl_zero_nth)

text \<open>No word ends inside another: the byte after a word is blank, a symbol or the end of the line.\<close>

lemma word_end_outside:
  assumes "word_ok buf (q, e)" "word_ok buf w" "q \<le> i" "i < e"
  shows "snd w \<noteq> i"
  using assms by (auto simp: word_ok_def split: prod.splits)

lemma cstr_at_word:
  assumes z: "0 \<notin> set buf" and c: "\<forall>w \<in> set (words c). word_ok buf w" and w: "(q, e) \<in> set (words c)"
  shows "cstr_at (nulterminate c (buf @ [0])) q = take (e - q) (drop q buf)"
proof -
  let ?b = "nulterminate c (buf @ [0])"
  have ok: "word_ok buf (q, e)" using c w by blast
  have len: "q < e" "e \<le> length buf" using ok by (simp_all add: word_ok_def)
  have inside: "?b ! i = buf ! i" if "q \<le> i" "i < e" for i
  proof -
    have "i \<notin> snd ` set (words c)" using word_end_outside [OF ok] c that by blast
    then show ?thesis using that len by (simp add: nulterminate_nth nth_append)
  qed
  have "e \<in> snd ` set (words c)" using w by force
  then have stop: "?b ! e = 0" using len by (simp add: nulterminate_nth)
  have seg: "take (e - q) (drop q ?b) = take (e - q) (drop q buf)"
    by (rule nth_equalityI) (use len inside in \<open>simp_all add: nulterminate_nth\<close>)
  have "drop q ?b = take (e - q) (drop q buf) @ 0 # drop (Suc e) ?b"
  proof -
    have "drop q ?b = take (e - q) (drop q ?b) @ drop (e - q) (drop q ?b)" by (rule append_take_drop_id [symmetric])
    also have "drop (e - q) (drop q ?b) = 0 # drop (Suc e) ?b" using len stop Cons_nth_drop_Suc [of e ?b] by simp
    finally show ?thesis unfolding seg .
  qed
  moreover have "\<forall>x \<in> set (take (e - q) (drop q buf)). x \<noteq> 0" using z by (metis in_set_dropD in_set_takeD)
  ultimately show ?thesis by (simp add: cstr_at_def takeWhile_append2)
qed

lemma parsecmd_good:
  assumes "0 \<notin> set buf"
  shows "case parsecmd buf of Inl x \<Rightarrow> x \<noteq> NoFuel | Inr (c, b) \<Rightarrow> cmd_ok buf c \<and> b = nulterminate c (buf @ [0])"
proof -
  have "good buf 0 (cmd_ok buf) (parseline (4 * length buf + 8) buf 0)" by (rule parse_good(1) [OF assms]) (simp_all add: edge_def)
  then show ?thesis unfolding parsecmd_def by (auto simp: good_def Let_def split: sum.splits prod.splits)
qed

text \<open>C14: parsing a command line (without zero bytes) always comes to an end, with a command or with one of the shell's own error messages,
  and never for want of fuel. In a parsed command no argument list overflows its array (with room for the zero that ends it), and every
  argument and file name is a maximal run of bytes that are neither blank nor symbols and is,
  in the buffer with the zeros written, exactly the C string that starts there: ending one word does not damage another.
\<close>

theorem parsecmd_words:
  assumes "0 \<notin> set buf"
  shows "case parsecmd buf of Inl x \<Rightarrow> x \<noteq> NoFuel
    | Inr (c, b) \<Rightarrow> few_args c \<and> (\<forall>(q, e) \<in> set (words c). word_ok buf (q, e) \<and> cstr_at b q = take (e - q) (drop q buf))"
  using parsecmd_good [OF assms] by (auto simp: cmd_ok_def cstr_at_word [OF assms] split: sum.splits prod.splits)

text \<open>The line \<^verbatim>\<open>ls >f;a\<close>.\<close>

theorem parsecmd_words_witness:
  "parsecmd [108, 115, 32, 62, 102, 59, 97] = Inr (LIST (REDIR (EXEC [(0, 2)]) 4 5 0x201 1) (EXEC [(6, 7)]), [108, 115, 0, 62, 102, 0, 97, 0])
   \<and> cstr_at [108, 115, 0, 62, 102, 0, 97, 0] 4 = [102]"
proof -
  have p: "parsecmd [108, 115, 32, 62, 102, 59, 97] = Inr (LIST (REDIR (EXEC [(0, 2)]) 4 5 0x201 1) (EXEC [(6, 7)]), [108, 115, 0, 62, 102, 0, 97, 0])"
    by code_simp
  have "0 \<notin> set [108, 115, 32, 62, 102, 59, 97 :: uchar]" by simp
  from parsecmd_words [OF this] p show ?thesis by simp
qed

end
