(* ===== verification/Runcmd.thy ===== *)
theory Runcmd
  imports Sh
begin

text \<open>
  What the shell does with a parsed command (\<^verbatim>\<open>runcmd\<close>, \<^verbatim>\<open>main\<close> of \<^verbatim>\<open>sh.c\<close>): the processes it
  forks and the descriptors each of them has when it executes a program. A process is the list of its calls; a forked child is the list inside
  \<open>Spawn\<close>. Whether a call to the kernel succeeds is a parameter; descriptors are handed out as \<^verbatim>\<open>fdalloc\<close> does, lowest first.
\<close>

section \<open>Descriptors\<close>

text \<open>What a descriptor refers to; a pipe is named by the position in the command of the node that made it.\<close>

datatype obj = Old nat | Opened "uchar list" int | PipeRd "nat list" | PipeWr "nat list"

type_synonym fdt = "obj option list"

record syscalls =
  open_ok :: "uchar list \<Rightarrow> int \<Rightarrow> bool"
  exec_ok :: "uchar list list \<Rightarrow> bool"
  fork_ok :: "nat list \<Rightarrow> bool"
  pipe_ok :: "nat list \<Rightarrow> bool"

text \<open>The lowest free descriptor is made to refer to \<open>x\<close>.\<close>

definition fd_install :: "obj \<Rightarrow> fdt \<Rightarrow> (nat \<times> fdt) option" where
  "fd_install x t = map_option (\<lambda>i. (i, t[i := Some x])) (find_idx (\<lambda>e. e = None) t)"

definition fd_close :: "nat \<Rightarrow> fdt \<Rightarrow> fdt" where
  "fd_close i t = t[i := None]"

text \<open>\<^verbatim>\<open>dup\<close>, whose result the shell ignores.\<close>

definition fd_dup :: "nat \<Rightarrow> fdt \<Rightarrow> fdt" where
  "fd_dup i t = (if i < length t then (case t ! i of None \<Rightarrow> t
     | Some x \<Rightarrow> (case fd_install x t of None \<Rightarrow> t | Some (_, t') \<Rightarrow> t')) else t)"

section \<open>Running a command\<close>

datatype act =
    Exec "uchar list list" fdt
  | Complain string "uchar list"
  | Spawn "act list"
  | Wait fdt
  | Exit

definition sh_panic :: "string \<Rightarrow> act list" where
  "sh_panic m = [Complain m [], Exit]"

fun runcmd :: "syscalls \<Rightarrow> uchar list \<Rightarrow> nat list \<Rightarrow> cmd \<Rightarrow> fdt \<Rightarrow> act list" where
  "runcmd K buf path (EXEC args) t =
     (if args = [] then [Exit]
      else let argv = map (\<lambda>(q, e). cstr_at buf q) args in
        if exec_ok K argv then [Exec argv t] else [Complain ''exec %s failed'' (hd argv), Exit])"
| "runcmd K buf path (REDIR c q e mode fd) t =
     (let t1 = fd_close (nat fd) t; name = cstr_at buf q in
      case (if open_ok K name mode then fd_install (Opened name mode) t1 else None) of
        None \<Rightarrow> [Complain ''open %s failed'' name, Exit]
      | Some (_, t2) \<Rightarrow> runcmd K buf path c t2)"
| "runcmd K buf path (LIST l r) t =
     (if \<not> fork_ok K (path @ [0]) then sh_panic ''fork''
      else Spawn (runcmd K buf (path @ [0]) l t) # Wait t # runcmd K buf (path @ [1]) r t)"
| "runcmd K buf path (PIPE l r) t =
     (case (if pipe_ok K path then fd_install (PipeRd path) t else None) of
        None \<Rightarrow> sh_panic ''pipe''
      | Some (p0, t0) \<Rightarrow>
        (case fd_install (PipeWr path) t0 of
           None \<Rightarrow> sh_panic ''pipe''
         | Some (p1, t1) \<Rightarrow>
           if \<not> fork_ok K (path @ [0]) then sh_panic ''fork''
           else Spawn (runcmd K buf (path @ [0]) l (fd_close p1 (fd_close p0 (fd_dup p1 (fd_close 1 t1)))))
             # (if \<not> fork_ok K (path @ [1]) then sh_panic ''fork''
                else let t2 = fd_close p1 (fd_close p0 t1) in
                  [Spawn (runcmd K buf (path @ [1]) r (fd_close p1 (fd_close p0 (fd_dup p0 (fd_close 0 t1))))),
                   Wait t2, Wait t2, Exit])))"
| "runcmd K buf path (BACK c) t =
     (if \<not> fork_ok K (path @ [0]) then sh_panic ''fork''
      else [Spawn (runcmd K buf (path @ [0]) c t), Exit])"

text \<open>The programs executed by a process and its descendants, and the tables with which they wait for a child.\<close>

fun execs :: "act \<Rightarrow> (uchar list list \<times> fdt) list" where
  "execs (Exec argv t) = [(argv, t)]"
| "execs (Spawn as) = concat (map execs as)"
| "execs _ = []"

fun waits :: "act \<Rightarrow> fdt list" where
  "waits (Wait t) = [t]"
| "waits (Spawn as) = concat (map waits as)"
| "waits _ = []"

section \<open>What a command is to start\<close>

text \<open>A table with the three standard descriptors and no other.\<close>

definition std :: "obj \<Rightarrow> obj \<Rightarrow> obj \<Rightarrow> fdt" where
  "std i out err = [Some i, Some out, Some err] @ replicate 13 None"

text \<open>The programs of a command with standard input \<open>i\<close> and standard output \<open>out\<close>, with what each of them reads and writes.\<close>

fun started :: "syscalls \<Rightarrow> uchar list \<Rightarrow> nat list \<Rightarrow> cmd \<Rightarrow> obj \<Rightarrow> obj \<Rightarrow> (uchar list list \<times> obj \<times> obj) list" where
  "started K buf path (EXEC args) i out =
     (let argv = map (\<lambda>(q, e). cstr_at buf q) args in if args \<noteq> [] \<and> exec_ok K argv then [(argv, i, out)] else [])"
| "started K buf path (REDIR c q e mode fd) i out =
     (let name = cstr_at buf q in
      if \<not> open_ok K name mode then []
      else if fd = 0 then started K buf path c (Opened name mode) out else started K buf path c i (Opened name mode))"
| "started K buf path (LIST l r) i out =
     (if fork_ok K (path @ [0]) then started K buf (path @ [0]) l i out @ started K buf (path @ [1]) r i out else [])"
| "started K buf path (PIPE l r) i out =
     (if pipe_ok K path \<and> fork_ok K (path @ [0])
      then started K buf (path @ [0]) l i (PipeWr path)
        @ (if fork_ok K (path @ [1]) then started K buf (path @ [1]) r (PipeRd path) out else [])
      else [])"
| "started K buf path (BACK c) i out = (if fork_ok K (path @ [0]) then started K buf (path @ [0]) c i out else [])"

lemma std_steps:
  "fd_install x (fd_close 0 (std i out err)) = Some (0, std x out err)"
  "fd_install x (fd_close (Suc 0) (std i out err)) = Some (1, std i x err)"
  "fd_install x (std i out err) = Some (3, (std i out err)[3 := Some x])"
  "fd_install y ((std i out err)[3 := Some x]) = Some (4, (std i out err)[3 := Some x, 4 := Some y])"
  "fd_close 4 (fd_close 3 ((std i out err)[3 := Some x, 4 := Some y])) = std i out err"
  "fd_close 4 (fd_close 3 (fd_dup 4 (fd_close (Suc 0) ((std i out err)[3 := Some x, 4 := Some y])))) = std i y err"
  "fd_close 4 (fd_close 3 (fd_dup 3 (fd_close 0 ((std i out err)[3 := Some x, 4 := Some y])))) = std x out err"
  by (simp_all add: fd_install_def fd_close_def fd_dup_def std_def numeral_eq_Suc)

lemma runcmd_execs:
  "std_redirs c \<Longrightarrow> concat (map execs (runcmd K buf path c (std i out err)))
     = map (\<lambda>(argv, x, y). (argv, std x y err)) (started K buf path c i out)"
  by (induction c arbitrary: path i out) (auto simp: std_steps sh_panic_def Let_def)

definition std_table :: "obj \<Rightarrow> fdt \<Rightarrow> bool" where
  "std_table err t \<longleftrightarrow> t = std (the (t ! 0)) (the (t ! 1)) err"

lemma std_table_std [simp]: "std_table err (std i out err)"
  by (simp add: std_table_def std_def)

lemma runcmd_waits: "std_redirs c \<Longrightarrow> list_all (std_table err) (concat (map waits (runcmd K buf path c (std i out err))))"
  by (induction c arbitrary: path i out) (auto simp: std_steps sh_panic_def Let_def list_all_append)

text \<open>C15: the programs that a parsed command line starts are those of the command, each reading from and writing to what the pipes and
  redirections of the line say, and each with exactly the three standard descriptors open: no process keeps an end of a pipe it does not use,
  so the reader of a pipe sees its end. The processes of the shell that wait for others have no other descriptor open either.
\<close>

theorem runcmd_wires_descriptors:
  assumes "0 \<notin> set buf" "parsecmd buf = Inr (c, b)"
  shows "concat (map execs (runcmd K b path c (std i out err)))
      = map (\<lambda>(argv, x, y). (argv, std x y err)) (started K b path c i out)
    \<and> list_all (std_table err) (concat (map waits (runcmd K b path c (std i out err))))"
proof -
  have "std_redirs c" using parsecmd_good [OF assms(1)] assms(2) by (simp add: cmd_ok_def)
  then show ?thesis using runcmd_execs runcmd_waits by simp
qed

text \<open>The line \<^verbatim>\<open>a|b>f\<close> when every call succeeds.\<close>

theorem runcmd_wires_descriptors_witness:
  "\<exists>c b. parsecmd [97, 124, 98, 62, 102] = Inr (c, b)
    \<and> concat (map execs (runcmd \<lparr>open_ok = \<lambda>_ _. True, exec_ok = \<lambda>_. True, fork_ok = \<lambda>_. True, pipe_ok = \<lambda>_. True\<rparr> b [] c (std (Old 0) (Old 1) (Old 2))))
      = [([[97]], std (Old 0) (PipeWr []) (Old 2)), ([[98]], std (PipeRd []) (Opened [102] 0x201) (Old 2))]"
proof -
  let ?K = "\<lparr>open_ok = \<lambda>_ _. True, exec_ok = \<lambda>_. True, fork_ok = \<lambda>_. True, pipe_ok = \<lambda>_. True\<rparr>"
  let ?c = "PIPE (EXEC [(0, 1)]) (REDIR (EXEC [(2, 3)]) 4 5 0x201 1)" and ?b = "[97, 0, 98, 0, 102, 0] :: uchar list"
  have p: "parsecmd [97, 124, 98, 62, 102] = Inr (?c, ?b)" by code_simp
  have "0 \<notin> set [97, 124, 98, 62, 102 :: uchar]" by simp
  note r = runcmd_wires_descriptors [OF this p, of ?K "[]" "Old 0" "Old 1" "Old 2"]
  have "started ?K ?b [] ?c (Old 0) (Old 1) = [([[97]], Old 0, PipeWr []), ([[98]], PipeRd [], Opened [102] 0x201)]"
    by (simp add: cstr_at_def)
  then show ?thesis using r p by simp
qed

section \<open>The shell's loop\<close>

text \<open>The loop of \<^verbatim>\<open>main\<close> that opens the console until descriptor 3 is reached.\<close>

fun open_console :: "nat \<Rightarrow> syscalls \<Rightarrow> fdt \<Rightarrow> fdt" where
  "open_console 0 K t = t"
| "open_console (Suc n) K t =
     (case (if open_ok K [99, 111, 110, 115, 111, 108, 101] 2 then fd_install (Opened [99, 111, 110, 115, 111, 108, 101] 2) t else None) of
        None \<Rightarrow> t
      | Some (fd, t') \<Rightarrow> if 3 \<le> fd then fd_close fd t' else open_console n K t')"

text \<open>
  The command loop over the lines \<^verbatim>\<open>getcmd\<close> reads, up to the end of the input; \<open>chdir_ok\<close> says which changes of directory succeed.
  The \<open>n\<close>-th line is run at the position \<open>[n]\<close>.
\<close>

datatype shact = Chdir "uchar list" | Act act

fun sh_main :: "syscalls \<Rightarrow> (uchar list \<Rightarrow> bool) \<Rightarrow> nat \<Rightarrow> uchar list list \<Rightarrow> fdt \<Rightarrow> shact list" where
  "sh_main K chdir_ok n [] t = [Act Exit]"
| "sh_main K chdir_ok n (buf # lines) t =
     (if buf = [] then [Act Exit]
      else if take 3 buf = [99, 100, 32]
      then let name = drop 3 (butlast buf) in
        Chdir name # (if chdir_ok name then [] else [Act (Complain ''cannot cd %s'' name)]) @ sh_main K chdir_ok (n + 1) lines t
      else if \<not> fork_ok K [n] then map Act (sh_panic ''fork'')
      else Act (Spawn (case parsecmd buf of Inl (ShPanic m) \<Rightarrow> sh_panic m | Inl NoFuel \<Rightarrow> [] | Inr (c, b) \<Rightarrow> runcmd K b [n] c t))
        # Act (Wait t) # sh_main K chdir_ok (n + 1) lines t)"

text \<open>Whatever is open at the start, four rounds leave the descriptors 0 to 2 open, and no new one above them.\<close>

lemma fd_install_lowest:
  assumes "fd_install x t = Some (fd, t')"
  shows "fd < length t" "t ! fd = None" "t' = t[fd := Some x]" "\<And>j. j < fd \<Longrightarrow> t ! j \<noteq> None"
proof -
  obtain i where i: "find_idx (\<lambda>e. e = None) t = Some i" "fd = i" "t' = t[i := Some x]" using assms by (auto simp: fd_install_def)
  note f = find_idx_SomeD [OF i(1)]
  show "fd < length t" "t ! fd = None" "t' = t[fd := Some x]" using f i by auto
  show "t ! j \<noteq> None" if "j < fd" for j using f i that by auto
qed

lemma open_console_std:
  assumes "open_ok K [99, 111, 110, 115, 111, 108, 101] 2" "length t = 16"
  shows "\<exists>j \<ge> 3. j < 16 \<and> t ! j = None \<Longrightarrow> card {j. j < 3 \<and> t ! j = None} < n
    \<Longrightarrow> (\<forall>j < 3. open_console n K t ! j \<noteq> None) \<and> (\<forall>j. 3 \<le> j \<longrightarrow> open_console n K t ! j = t ! j)"
  using assms(2)
proof (induction n arbitrary: t)
  case (Suc n)
  obtain j where j: "3 \<le> j" "j < 16" "t ! j = None" using Suc.prems(1) by blast
  have "None \<in> set t" using j Suc.prems(3) nth_mem [of j t] by simp
  then obtain fd t' where i: "fd_install (Opened [99, 111, 110, 115, 111, 108, 101] 2) t = Some (fd, t')"
    by (cases "find_idx (\<lambda>e. e = None) t") (auto simp: fd_install_def find_idx_None_iff)
  note low = fd_install_lowest [OF i]
  show ?case
  proof (cases "3 \<le> fd")
    case True
    have "t[fd := None] = t" using low by (metis list_update_id)
    then show ?thesis using True i low assms(1) by (auto simp: fd_close_def)
  next
    case False
    have "{j. j < 3 \<and> t' ! j = None} = {j. j < 3 \<and> t ! j = None} - {fd}" using low by (auto simp: nth_list_update)
    moreover have "fd \<in> {j. j < 3 \<and> t ! j = None}" using low(2) False by simp
    ultimately have "{j. j < 3 \<and> t' ! j = None} \<subset> {j. j < 3 \<and> t ! j = None}" by blast
    then have "card {j. j < 3 \<and> t' ! j = None} < card {j. j < 3 \<and> t ! j = None}" by (rule psubset_card_mono [rotated]) simp
    then have "card {j. j < 3 \<and> t' ! j = None} < n" using Suc.prems(2) by simp
    moreover have "\<exists>j \<ge> 3. j < 16 \<and> t' ! j = None" using j False low(3) by (intro exI [of _ j]) auto
    ultimately have "(\<forall>j < 3. open_console n K t' ! j \<noteq> None) \<and> (\<forall>j. 3 \<le> j \<longrightarrow> open_console n K t' ! j = t' ! j)"
      using Suc.IH [of t'] low(3) Suc.prems(3) by simp
    then show ?thesis using i False low(3) assms(1) by auto
  qed
qed simp

end
