(* ===== verification/Spec2Isabelle.thy ===== *)
theory Spec2Isabelle
  imports Recovery Path Inode Cow Kthread Mutex Sysfile Exec Kbd Umalloc Grep Fssp Runcmd
begin

text \<open>
  The kernel under \<^verbatim>\<open>src/\<close> is a teaching kernel derived from xv6 for 32-bit x86, extended with kernel threads
  (\<^verbatim>\<open>kthread.c\<close>), kernel mutexes (\<^verbatim>\<open>mutex.c\<close>) and copy-on-write fork (the \<^verbatim>\<open>cow_\<close> routines of \<^verbatim>\<open>vm.c\<close> and
  \<^verbatim>\<open>proc.c\<close>), together with its user programs. This development models its components as executable functions on an explicit state
  and proves what makes them correct, and, in a few places, that the code does not do what it means to.

  How the parts interact. A user program enters the kernel with a system call; the arguments are read from its stack (\<^verbatim>\<open>syscall.c\<close>) and the
  call works on files (\<^verbatim>\<open>sysfile.c\<close>, \<^verbatim>\<open>file.c\<close>, \<^verbatim>\<open>pipe.c\<close>), on the file system (\<^verbatim>\<open>fs.c\<close>, over the log \<^verbatim>\<open>log.c\<close>,
  over the buffer cache \<^verbatim>\<open>bio.c\<close>, over the disk \<^verbatim>\<open>memide.c\<close>), on processes and threads (\<^verbatim>\<open>proc.c\<close>, \<^verbatim>\<open>kthread.c\<close>,
  \<^verbatim>\<open>mutex.c\<close>, \<^verbatim>\<open>exec.c\<close>) and on memory (\<^verbatim>\<open>vm.c\<close> over \<^verbatim>\<open>kalloc.c\<close>). All of them use spinlocks (\<^verbatim>\<open>spinlock.c\<close>).
  The console (\<^verbatim>\<open>console.c\<close>) is a device file fed by the keyboard (\<^verbatim>\<open>kbd.c\<close>) and the serial port (\<^verbatim>\<open>uart.c\<close>).

  State and effects. The kernel state is one record, extended from theory to theory: \<open>kbase\<close> (the spinlocks the executing CPU holds), \<open>kmem\<close> (memory as
  a function from 32-bit addresses to bytes, the free list), \<open>vm\<close> (page reference counters, control registers, descriptor tables), \<open>ptable\<close> (the
  process table with its threads), \<open>mxtab\<close> (mutexes), \<open>bcache\<close> (buffers and disk), \<open>logst\<close>, \<open>fsst\<close> (in-memory inodes), \<open>pipest\<close>, \<open>filest\<close> (open
  files), \<open>consst\<close> (console) and \<open>devst\<close> (devices). A routine of the kernel is a function from the state to an outcome (theory \<open>Prelude\<close>): it returns,
  it puts the thread to sleep on a channel, it panics, or it leaves the objects C gives it. Sleeping ends a routine of the model; what the code does after the
  sleep is a definition of its own, with the suffix \<open>resume\<close>, for the routine that sleeps. Unsigned values are words of their width. Values of
  type \<^verbatim>\<open>int\<close> are integers: the counters that only grow, from which process, thread and mutex ids are taken, wrap around (\<open>inc32\<close>), and the others count
  entries of tables of fixed size. Page tables and free list live in the bytes of memory, and a pointer into a static table is an index.

  The theories, in the order of their dependency:
\<^item> \<open>Prelude\<close>: machine types, outcomes and their combinators, the frame predicate, generic lemmas. \<open>Params\<close>: constants and macros of \<^verbatim>\<open>param.h\<close>,
    \<^verbatim>\<open>memlayout.h\<close>, \<^verbatim>\<open>mmu.h\<close>. \<open>Memory\<close>: bytes and words, \<^verbatim>\<open>string.c\<close>.
\<^item> \<open>Spinlock\<close> (\<^verbatim>\<open>spinlock.c\<close>): all CPUs interleaved at the level of the atomic exchange, as an inductive step relation, with mutual exclusion; and
    the view of one CPU that the other theories use, with the refinement between the two.
\<^item> \<open>Kalloc\<close> (\<^verbatim>\<open>kalloc.c\<close>): the allocator refines a stack of pages; the interface \<open>page_allocator\<close> is interpreted on it. \<open>Vm\<close>, \<open>Paging\<close>,
    \<open>Refcount\<close>, \<open>Cow\<close> (\<^verbatim>\<open>vm.c\<close>): page tables and what each routine maps, the kernel mappings, reference counts, sharing and the private copy.
\<^item> \<open>Proc\<close>, \<open>Kthread\<close>, \<open>Mutex\<close>, \<open>Process\<close> (\<^verbatim>\<open>proc.c\<close>, \<^verbatim>\<open>kthread.c\<close>, \<^verbatim>\<open>mutex.c\<close>): allocation, scheduling, sleep and wakeup, threads, mutual
    exclusion and hand-over of mutexes, the life of a process.
\<^item> \<open>Bio\<close>, \<open>Cache\<close> (\<^verbatim>\<open>bio.c\<close>, \<^verbatim>\<open>memide.c\<close>): the buffer cache refines a map from block numbers to blocks, stated as the interface
    \<open>block_cache\<close> that \<open>Log\<close> and \<open>Recovery\<close> (\<^verbatim>\<open>log.c\<close>) rely on: committing, and recovery from a crash at any disk write.
\<^item> \<open>Fs\<close>, \<open>Path\<close>, \<open>Inode\<close> (\<^verbatim>\<open>fs.c\<close>): all operations of the file system; path elements, layouts on disk, reference counts of the inode cache.
\<^item> \<open>Pipe\<close> (\<^verbatim>\<open>pipe.c\<close>) as a queue of bytes, under every interleaving of calls, sleeps and resumptions; \<open>File\<close> (\<^verbatim>\<open>file.c\<close>); \<open>Args\<close> (\<^verbatim>\<open>syscall.c\<close>): arguments read through the page tables of the
    process; \<open>Sysfile\<close> (\<^verbatim>\<open>sysfile.c\<close>); \<open>Exec\<close> (\<^verbatim>\<open>exec.c\<close>): loading and the stack a program starts with.
\<^item> \<open>Digits\<close>, \<open>Console\<close>, \<open>Lines\<close> (\<^verbatim>\<open>console.c\<close>, and \<^verbatim>\<open>procdump\<close> of \<^verbatim>\<open>proc.c\<close>): output, and the ring buffer as finished input and a line
    being edited. \<open>Devices\<close> (\<^verbatim>\<open>picirq.c\<close>, \<^verbatim>\<open>ioapic.c\<close>, \<^verbatim>\<open>lapic.c\<close>, \<^verbatim>\<open>timer.c\<close>, \<^verbatim>\<open>uart.c\<close>). \<open>Kbd\<close> (\<^verbatim>\<open>kbd.c\<close>): from key strokes
    to the line a program reads.
\<^item> \<open>Umalloc\<close> (\<^verbatim>\<open>umalloc.c\<close>): the blocks of \<^verbatim>\<open>malloc\<close> never overlap; it relies on the interface \<open>break_provider\<close>, interpreted on the effect of
    \<^verbatim>\<open>sbrk\<close>. \<open>Grep\<close> (\<^verbatim>\<open>grep.c\<close>): the matcher decides the language of a pattern. \<open>Sh\<close>, \<open>Runcmd\<close> (\<^verbatim>\<open>sh.c\<close>): the parser, and which
    program runs with which descriptors. \<open>Fssp\<close> (\<^verbatim>\<open>fssp.c\<close>): the soldiers fire together under every interleaving of their barriers.

  What the lemmas show. Each component has a well-formedness or abstraction predicate, a lemma per operation for what it does to it, and properties on top, marked
  with an identifier C1, C2 and so on in the theory they belong to. Properties with hypotheses are followed by a witness at a concrete state. Lemmas on the error
  branches record where the code fails: reference counts ignored by \<^verbatim>\<open>deallocuvm\<close>, the slot \<^verbatim>\<open>allocproc\<close> loses, the waiter a deallocated mutex strands,
  the reservation of the log that is one block short, and the wait of \<^verbatim>\<open>exec\<close> that never ends.

  Bounds. Loops whose number of turns is not the length of a list run with a bound given with the definition: the number of pages of a range plus two, the number of
  bytes of a transfer or of a path plus one, the number of buffers plus one. Each is more than the C loop can use. The two loops of \<^verbatim>\<open>umalloc.c\<close>, which follow
  pointers, have no bound: not returning is the value \<open>None\<close>, and the property is that they return. Recursion of the shell parser and of the regular
  expressions is on the rest of the input.

  Not modelled. The dispatch of traps and system calls (\<^verbatim>\<open>trap.c\<close>, the table of \<^verbatim>\<open>syscall.c\<close>, the wrappers of \<^verbatim>\<open>sysproc.c\<close> and
  \<^verbatim>\<open>systhread.c\<close>), whose targets are modelled; the interrupt-driven disk driver \<^verbatim>\<open>ide.c\<close> (the file system runs over \<^verbatim>\<open>memide.c\<close>, which has the same
  interface); the search for multiprocessor tables (\<^verbatim>\<open>mp.c\<close>), start-up (\<^verbatim>\<open>main.c\<close>, \<^verbatim>\<open>bootmain.c\<close>) and all assembly, which switch modes and set up devices; the host
  program \<^verbatim>\<open>mkfs.c\<close>; the test programs; utilities that are a few lines around one system call. The continuation of a whole system call after a sleep inside it is not
  composed: the resumed routine is modelled, its callers are not. Memory is sequentially consistent, and routines that run under a lock are atomic with respect to other
  users of that lock, which is what \<open>Spinlock\<close> justifies. Device registers return arguments of the model, and waiting for a device has no effect. Sources that the
  build generates (vectors, the file-system image, linker symbols) are parameters.
\<close>

end
